(* ===== verification/Prelude.thy ===== *)
theory Prelude
  imports Main "HOL-Library.Word" "HOL-Library.Monad_Syntax"
begin

unbundle bit_operations_syntax

text \<open>
  Shared vocabulary of the development: the widths of the C integer types, the reading of
  C text buffers and memory accesses, and the generic lemmas the components share.

  A C text buffer is a \<open>char list\<close> (a \<open>char\<close> of HOL is a byte), its string is the part before
  the first NUL. A memory access that the C standard leaves undefined (an index outside the
  object) is the value \<open>None\<close>; a function that returns \<open>Some\<close> on every input of its invariant
  is therefore proved free of such accesses. The collection \<open>mem_simps\<close> holds the facts about
  the accesses, \<open>word_nat\<close> the facts that move a bounded machine word to \<open>nat\<close>.
\<close>

named_theorems mem_simps
named_theorems word_nat

type_synonym u8 = "8 word"
type_synonym u16 = "16 word"
type_synonym u32 = "32 word"
type_synonym buf = "char list"

abbreviation NUL :: char where "NUL \<equiv> CHR 0x00"

section \<open>Memory accesses\<close>

definition rd :: "'a list \<Rightarrow> nat \<Rightarrow> 'a option" where
  "rd xs i = (if i < length xs then Some (xs ! i) else None)"

definition wr :: "'a list \<Rightarrow> nat \<Rightarrow> 'a \<Rightarrow> 'a list option" where
  "wr xs i v = (if i < length xs then Some (xs[i := v]) else None)"

text \<open>\<open>memcpy (dst + off, src, length src)\<close>, with \<open>src\<close> the bytes already read.\<close>

definition blit :: "'a list \<Rightarrow> nat \<Rightarrow> 'a list \<Rightarrow> 'a list option" where
  "blit dst off src =
     (if off + length src \<le> length dst
      then Some (take off dst @ src @ drop (off + length src) dst) else None)"

definition cstr :: "buf \<Rightarrow> string" where
  "cstr b = takeWhile (\<lambda>c. c \<noteq> NUL) b"

text \<open>\<open>strlen\<close>: \<open>None\<close> when the object holds no terminator (the scan runs past its end).\<close>

definition c_strlen :: "buf \<Rightarrow> nat option" where
  "c_strlen b = (if NUL \<in> set b then Some (length (cstr b)) else None)"

lemma rd_Some [mem_simps]: "i < length xs \<Longrightarrow> rd xs i = Some (xs ! i)"
  by (simp add: rd_def)

lemma rd_eq_Some_iff: "rd xs i = Some v \<longleftrightarrow> i < length xs \<and> xs ! i = v"
  by (auto simp: rd_def)

lemma rd_eq_None_iff: "rd xs i = None \<longleftrightarrow> length xs \<le> i"
  by (auto simp: rd_def)

lemma wr_Some [mem_simps]: "i < length xs \<Longrightarrow> wr xs i v = Some (xs[i := v])"
  by (simp add: wr_def)

lemma wr_eq_Some_iff: "wr xs i v = Some ys \<longleftrightarrow> i < length xs \<and> ys = xs[i := v]"
  by (auto simp: wr_def)

lemma blit_Some [mem_simps]:
  "off + length src \<le> length dst \<Longrightarrow>
   blit dst off src = Some (take off dst @ src @ drop (off + length src) dst)"
  by (simp add: blit_def)

lemma blit_length: "blit dst off src = Some d \<Longrightarrow> length d = length dst"
  by (auto simp: blit_def split: if_splits)

section \<open>C strings\<close>

lemma blit_upd_Cons: "k < length b \<Longrightarrow> blit (b[k := c]) (Suc k) xs = blit b k (c # xs)"
  by (simp add: blit_def take_Suc_conv_app_nth)

lemma blit_Nil [simp]: "k \<le> length b \<Longrightarrow> blit b k [] = Some b"
  by (simp add: blit_def)

lemma upd_after:
  "length xs < length b \<Longrightarrow> (xs @ drop (length xs) b)[length xs := c] = xs @ c # drop (Suc (length xs)) b"
  by (simp add: list_update_append Cons_nth_drop_Suc [symmetric])

lemma blit_ok: "off + length src \<le> length dst \<Longrightarrow> \<exists>d. blit dst off src = Some d \<and> length d = length dst"
  by (auto simp: blit_def)

lemma blit_append: "blit b k (xs @ ys) = Option.bind (blit b k xs) (\<lambda>b. blit b (k + length xs) ys)"
  by (auto simp: blit_def ac_simps)

lemma cstr_length_le: "length (cstr b) \<le> length b"
  by (simp add: cstr_def length_takeWhile_le)

lemma NUL_notin_cstr [simp]: "NUL \<notin> set (cstr b)"
  by (auto simp: cstr_def dest: set_takeWhileD)

lemma cstr_append_NUL [simp]: "NUL \<notin> set s \<Longrightarrow> cstr (s @ NUL # r) = s"
  by (simp add: cstr_def) (subst takeWhile_append2, auto)

lemma cstr_Cons_NUL [simp]: "cstr (NUL # r) = []"
  by (simp add: cstr_def)

lemma cstr_id: "NUL \<notin> set s \<Longrightarrow> cstr s = s"
  by (auto simp: cstr_def takeWhile_eq_all_conv)

lemma c_strlen_append_NUL [simp]: "NUL \<notin> set s \<Longrightarrow> c_strlen (s @ NUL # r) = Some (length s)"
  by (simp add: c_strlen_def)

lemma cstr_split:
  assumes "NUL \<in> set b"
  shows "\<exists>r. b = cstr b @ NUL # r"
proof -
  from assms obtain y ys where "dropWhile (\<lambda>c. c \<noteq> NUL) b = y # ys"
    by (cases "dropWhile (\<lambda>c. c \<noteq> NUL) b") (auto simp: dropWhile_eq_Nil_conv)
  moreover from this have "y = NUL"
    using hd_dropWhile [of "\<lambda>c. c \<noteq> NUL" b] by fastforce
  ultimately show ?thesis
    unfolding cstr_def using takeWhile_dropWhile_id [of "\<lambda>c. c \<noteq> NUL" b] by metis
qed

lemma cstr_splitE:
  assumes "NUL \<in> set b"
  obtains r where "b = cstr b @ NUL # r"
  using cstr_split [OF assms] by blast

lemma nth_length_cstr:
  assumes "NUL \<in> set b"
  shows "b ! length (cstr b) = NUL"
proof -
  obtain r where r: "b = cstr b @ NUL # r" by (rule cstr_splitE [OF assms])
  have "(cstr b @ NUL # r) ! length (cstr b) = NUL" by simp
  with r show ?thesis by simp
qed

lemma cstr_length_less:
  assumes "NUL \<in> set b"
  shows "length (cstr b) < length b"
proof -
  obtain r where r: "b = cstr b @ NUL # r" by (rule cstr_splitE [OF assms])
  have "length (cstr b) < length (cstr b @ NUL # r)" by simp
  with r show ?thesis by simp
qed

lemma cstr_take_upd:
  assumes "n < length b" "NUL \<notin> set (take n b)"
  shows "cstr (b[n := NUL]) = take n b"
proof -
  have "b[n := NUL] = take n b @ NUL # drop (Suc n) b"
    using assms(1) by (simp add: upd_conv_take_nth_drop)
  with assms(2) show ?thesis by simp
qed

section \<open>Remainders\<close>

text \<open>A prefix of the right length is a \<open>take\<close>.\<close>

lemma prefix_is_take: "xs @ ys = zs \<Longrightarrow> length xs = min n (length zs) \<Longrightarrow> xs = take n zs"
  by (metis append_eq_conv_conj min_def nat_le_linear take_all)

lemma mod_add_inj_aux:
  fixes k n M r :: nat
  assumes "k \<le> n" "n < M" "(r + k) mod M = (r + n) mod M"
  shows "k = n"
proof -
  have "M dvd (r + n) - (r + k)"
    using assms mod_eq_dvd_iff_nat [of "r + k" "r + n" M] by simp
  then have "M dvd n - k" by simp
  with assms(1,2) show ?thesis using nat_dvd_not_less [of "n - k" M] by (cases "n - k = 0") auto
qed

lemma mod_add_inj:
  "k < M \<Longrightarrow> n < M \<Longrightarrow> (r + k) mod M = (r + n) mod M \<longleftrightarrow> k = n" for k n M r :: nat
  using mod_add_inj_aux [of k n M r] mod_add_inj_aux [of n k M r] by (cases "k \<le> n") auto

lemma mod_sub_back:
  fixes r n M :: nat
  assumes "r < M" "n < M"
  shows "((r + n) mod M + M - r) mod M = n"
proof (cases "r + n < M")
  case False
  with assms have "(r + n) mod M = r + n - M" by (simp add: mod_if)
  with False assms show ?thesis by simp
qed (use assms in simp)

lemma mod_add_back:
  fixes r w M :: nat
  assumes "w < M" "r < M"
  shows "(r + (w + M - r) mod M) mod M = w"
  using assms by (simp add: mod_add_right_eq)

section \<open>Machine words\<close>

text \<open>Masking with \<open>2 ^ n - 1\<close> is the remainder modulo \<open>2 ^ n\<close>.\<close>

lemma unat_and_mask: "unat (w AND mask n) = unat w mod 2 ^ n" for w :: "'a::len word"
  by (simp add: unsigned_take_bit_eq flip: take_bit_eq_mask take_bit_eq_mod)

lemma unat_Suc_less [word_nat]:
  fixes a b :: "'a::len word"
  assumes "unat a < unat b"
  shows "unat (a + 1) = Suc (unat a)"
proof -
  have "unat b < 2 ^ LENGTH('a)" by (rule unsigned_less)
  with assms have "Suc (unat a) < 2 ^ LENGTH('a)" by linarith
  then show ?thesis by (simp add: unat_word_ariths)
qed

lemma unat_Suc_max: "a \<noteq> - 1 \<Longrightarrow> unat (a + 1) = Suc (unat a)" for a :: "'a::len word"
proof (rule unat_Suc_less [of a "- 1"])
  assume "a \<noteq> - 1"
  then have "a < - 1" by (simp add: word_order.not_eq_extremum)
  then show "unat a < unat (- 1 :: 'a word)" by (simp add: word_less_nat_alt)
qed

lemma word_less_from_unat: "unat a < unat b \<Longrightarrow> a < b" for a b :: "'a::len word"
  by (simp add: word_less_nat_alt)

end
