(* ===== verification/Fifo.thy ===== *)
theory Fifo
  imports Prelude
begin

text \<open>
  The contract of a receive queue that an interrupt handler fills from the UART and a task
  reads: \<open>fill\<close> moves bytes from the front of the hardware FIFO, \<open>fetch\<close> hands bytes out. The
  command line (theory \<open>CliRx\<close>) and the cloud UART (theory \<open>UartData\<close>) provide it. The client
  lemmas say what any schedule of arrivals, interrupts and reads does to the byte stream.
\<close>

datatype 'b fifo_op = Arrive "'b list" | Isr | Fetch nat

text \<open>A run keeps the queue, the bytes still in the hardware FIFO and the bytes read so far.\<close>

fun fifo_run ::
  "('b list \<Rightarrow> 'q \<Rightarrow> 'q \<times> 'b list) \<Rightarrow> (nat \<Rightarrow> 'q \<Rightarrow> 'b list \<times> 'q) \<Rightarrow>
   'b fifo_op list \<Rightarrow> 'q \<times> 'b list \<times> 'b list \<Rightarrow> 'q \<times> 'b list \<times> 'b list" where
  "fifo_run fill fetch [] s = s"
| "fifo_run fill fetch (Arrive xs # ops) (q, hw, got) = fifo_run fill fetch ops (q, hw @ xs, got)"
| "fifo_run fill fetch (Isr # ops) (q, hw, got) =
     (case fill hw q of (q', hw') \<Rightarrow> fifo_run fill fetch ops (q', hw', got))"
| "fifo_run fill fetch (Fetch n # ops) (q, hw, got) =
     (case fetch n q of (ys, q') \<Rightarrow> fifo_run fill fetch ops (q', hw, got @ ys))"

fun arrivals :: "'b fifo_op list \<Rightarrow> 'b list" where
  "arrivals [] = []"
| "arrivals (Arrive xs # ops) = xs @ arrivals ops"
| "arrivals (_ # ops) = arrivals ops"

lemma fifo_run_append:
  "fifo_run fill fetch (ops @ ops') s = fifo_run fill fetch ops' (fifo_run fill fetch ops s)"
  by (induction fill fetch ops s rule: fifo_run.induct) (auto split: prod.splits)

locale byte_fifo =
  fixes content :: "'q \<Rightarrow> 'b list"
    and invar :: "'q \<Rightarrow> bool"
    and fill :: "'b list \<Rightarrow> 'q \<Rightarrow> 'q \<times> 'b list"
    and fetch :: "nat \<Rightarrow> 'q \<Rightarrow> 'b list \<times> 'q"
  assumes fill_invar: "invar q \<Longrightarrow> fill xs q = (q', rest) \<Longrightarrow> invar q'"
    and fill_stream: "invar q \<Longrightarrow> fill xs q = (q', rest) \<Longrightarrow> content q' @ rest = content q @ xs"
    and fetch_invar: "invar q \<Longrightarrow> fetch n q = (ys, q') \<Longrightarrow> invar q'"
    and fetch_stream: "invar q \<Longrightarrow> fetch n q = (ys, q') \<Longrightarrow> ys @ content q' = content q"
    and fetch_length: "invar q \<Longrightarrow> fetch n q = (ys, q') \<Longrightarrow> length ys = min n (length (content q))"
begin

text \<open>No schedule loses, duplicates or reorders a byte.\<close>

lemma run_stream:
  "invar q \<Longrightarrow> fifo_run fill fetch ops (q, hw, got) = (q', hw', got') \<Longrightarrow>
   invar q' \<and> got' @ content q' @ hw' = got @ content q @ hw @ arrivals ops"
proof (induction ops arbitrary: q hw got)
  case Nil
  then show ?case by simp
next
  case (Cons x ops)
  show ?case
  proof (cases x)
    case (Arrive xs)
    with Cons.prems Cons.IH [of q "hw @ xs" got] show ?thesis by simp
  next
    case Isr
    obtain q1 hw1 where f: "fill hw q = (q1, hw1)" by fastforce
    have s: "content q1 @ hw1 = content q @ hw" by (rule fill_stream [OF Cons.prems(1) f])
    have "invar q1" by (rule fill_invar [OF Cons.prems(1) f])
    from Cons.IH [OF this, of hw1 got] Cons.prems(2) Isr f
    have "invar q' \<and> got' @ content q' @ hw' = got @ (content q1 @ hw1) @ arrivals ops" by simp
    with s Isr show ?thesis by simp
  next
    case (Fetch n)
    obtain ys q1 where f: "fetch n q = (ys, q1)" by fastforce
    have s: "ys @ content q1 = content q" by (rule fetch_stream [OF Cons.prems(1) f])
    have "invar q1" by (rule fetch_invar [OF Cons.prems(1) f])
    from Cons.IH [OF this, of hw "got @ ys"] Cons.prems(2) Fetch f
    have "invar q' \<and> got' @ content q' @ hw' = got @ (ys @ content q1) @ hw @ arrivals ops" by simp
    with s Fetch show ?thesis by simp
  qed
qed

end

text \<open>
  A queue of capacity \<open>cap\<close> whose interrupt handler takes every byte that fits. Only such a
  queue guarantees that a reader who keeps reading receives everything that arrived.
\<close>

locale bounded_fifo = byte_fifo +
  fixes cap :: nat
  assumes cap_pos: "0 < cap"
    and content_le: "invar q \<Longrightarrow> length (content q) \<le> cap"
    and fill_length: "invar q \<Longrightarrow> fill xs q = (q', rest) \<Longrightarrow>
      length (content q') = min cap (length (content q) + length xs)"
begin

lemma fill_rest_length:
  assumes "invar q" "fill xs q = (q', rest)"
  shows "length rest = length (content q) + length xs - cap"
proof -
  from fill_stream [OF assms] have "length (content q') + length rest = length (content q) + length xs"
    by (metis length_append)
  with fill_length [OF assms] show ?thesis by (simp add: min_def split: if_splits)
qed

lemma fill_takes:
  assumes "invar q" "fill xs q = (q', rest)"
  shows "content q' = take cap (content q @ xs)"
proof -
  have "length (content q') = min cap (length (content q @ xs))" using fill_length [OF assms] by simp
  then show ?thesis using fill_stream [OF assms] by (intro prefix_is_take) auto
qed

text \<open>One interrupt followed by a full read removes at least \<open>cap\<close> bytes of the backlog.\<close>

lemma isr_fetch_progress:
  assumes "invar q" "content q = []"
    and run: "fifo_run fill fetch [Isr, Fetch cap] (q, hw, got) = (q', hw', got')"
  shows "invar q' \<and> content q' = [] \<and> got' = got @ take cap hw \<and> hw' = drop cap hw"
proof -
  obtain q1 hw1 where f: "fill hw q = (q1, hw1)" by fastforce
  obtain ys q2 where g: "fetch cap q1 = (ys, q2)" by fastforce
  from run f g have eqs: "q' = q2" "hw' = hw1" "got' = got @ ys" by auto
  have i1: "invar q1" by (rule fill_invar [OF assms(1) f])
  have l1: "length (content q1) \<le> cap" by (rule content_le [OF i1])
  have ly: "length ys = length (content q1)" using fetch_length [OF i1 g] l1 by simp
  have s2: "ys @ content q2 = content q1" by (rule fetch_stream [OF i1 g])
  with ly have c2: "content q2 = []" by (metis append_Nil2 append_eq_append_conv)
  have "ys @ hw1 = hw" using fill_stream [OF assms(1) f] s2 c2 assms(2) by simp
  moreover have "length ys = min cap (length hw)"
    using ly fill_length [OF assms(1) f] assms(2) by simp
  ultimately have "ys = take (min cap (length hw)) hw" "hw1 = drop (min cap (length hw)) hw"
    by (metis append_eq_conv_conj)+
  then have "ys = take cap hw" "hw1 = drop cap hw" by (auto simp: min_def)
  with eqs c2 fetch_invar [OF i1 g] show ?thesis by simp
qed

lemma drain_all:
  "invar q \<Longrightarrow> content q = [] \<Longrightarrow> length hw \<le> k * cap \<Longrightarrow>
   fifo_run fill fetch (concat (replicate k [Isr, Fetch cap])) (q, hw, got) = (q', hw', got') \<Longrightarrow>
   got' = got @ hw \<and> hw' = [] \<and> content q' = []"
proof (induction k arbitrary: q hw got)
  case 0
  then show ?case by simp
next
  case (Suc k)
  obtain q1 hw1 got1 where r: "fifo_run fill fetch [Isr, Fetch cap] (q, hw, got) = (q1, hw1, got1)"
    by (metis prod_cases3)
  note p = isr_fetch_progress [OF Suc.prems(1,2) r]
  have run2: "fifo_run fill fetch (concat (replicate k [Isr, Fetch cap])) (q1, hw1, got1) = (q', hw', got')"
    using Suc.prems(4) fifo_run_append [of fill fetch "[Isr, Fetch cap]"] r
    by (metis concat.simps(2) replicate_Suc)
  have "length hw1 \<le> k * cap" using p Suc.prems(3) by auto
  from Suc.IH [OF _ _ this run2] p have "got' = got1 @ hw1 \<and> hw' = [] \<and> content q' = []" by blast
  with p show ?case by simp
qed

end

end
