(* ===== verification/CliRx.thy ===== *)
theory CliRx
  imports Fifo
begin

text \<open>
  The receive path of the serial command line,
  \<open>projects/mac_atcmd/src/cli/cli.c\<close>: the ring buffer \<open>g_uart_rx_ringbuf\<close>, the interrupt
  handler \<open>uart_rx_isr\<close> and the reader \<open>uart_read\<close>. The hardware FIFO behind
  \<open>hal_uart_get_line_status\<close> and \<open>hal_uart_direct_read_byte\<close> is the list of bytes waiting in it.
  The two indices are virtual: they count modulo twice the size, so that a full ring differs
  from an empty one.
\<close>

definition RINGBUF_SIZE :: u32 where "RINGBUF_SIZE = 2048"
definition RINGBUF_IDX_WRAP :: u32 where "RINGBUF_IDX_WRAP = RINGBUF_SIZE - 1"
definition RINGBUF_VIDX_WRAP :: u32 where "RINGBUF_VIDX_WRAP = RINGBUF_SIZE * 2 - 1"

record ringbuf =
  vidx_w :: u32
  vidx_r :: u32
  rdata :: buf

text \<open>What the handler prints, and the state the handler and the reader share.\<close>

datatype rx_msg = RxError | QueueFull

record cli_rx =
  ring :: ringbuf
  rx_isr_on :: bool
  rx_evt :: bool
  rx_log :: "rx_msg list"

text \<open>
  The loop of \<open>uart_rx_isr\<close>: while the line status reports data, store the next byte, or stop
  and unregister the handler when the ring is full. The result is the ring's data, the write
  index, the bytes left in the hardware, the messages and whether the handler stays registered.
\<close>

fun isr_drain ::
  "u32 \<Rightarrow> buf \<Rightarrow> u32 \<Rightarrow> rx_msg list \<Rightarrow> bool \<Rightarrow> char list \<Rightarrow>
   buf \<times> u32 \<times> rx_msg list \<times> bool \<times> char list" where
  "isr_drain full d vw lg on [] = (d, vw, lg, on, [])"
| "isr_drain full d vw lg on (c # hw) =
     (if vw \<noteq> full
      then let d' = d[unat (vw AND RINGBUF_IDX_WRAP) := c];
               lg' = (if c = NUL then lg @ [RxError] else lg)
           in isr_drain full d' ((vw + 1) AND RINGBUF_VIDX_WRAP) lg' on hw
      else (d, vw, lg @ [QueueFull], False, c # hw))"

definition uart_rx_isr :: "char list \<Rightarrow> cli_rx \<Rightarrow> cli_rx \<times> char list" where
  "uart_rx_isr hw s =
     (let r = ring s;
          full = (vidx_r r + RINGBUF_SIZE) AND RINGBUF_VIDX_WRAP;
          (d, vw, lg, on, hw') = isr_drain full (rdata r) (vidx_w r) (rx_log s) (rx_isr_on s) hw
      in (s\<lparr>ring := r\<lparr>rdata := d, vidx_w := vw\<rparr>, rx_isr_on := on, rx_evt := True,
            rx_log := lg\<rparr>, hw'))"

lemma unat_diff_step: "cnt \<noteq> n \<Longrightarrow> unat (n - (cnt + 1)) < unat (n - cnt)" for n cnt :: "'a::len word"
proof -
  assume "cnt \<noteq> n"
  then have "n - cnt \<noteq> 0" by simp
  then have "unat (n - cnt - 1) < unat (n - cnt)"
    by (metis One_nat_def diff_less unat_gt_0 unat_minus_one zero_less_one)
  then show ?thesis by (simp add: diff_diff_add)
qed

text \<open>
  The loop of \<open>uart_read\<close>. \<open>dst\<close> is \<open>None\<close> for a null pointer, which skips the copy; a store
  outside the caller's buffer makes the whole call \<open>None\<close>.
\<close>

function read_loop ::
  "u32 \<Rightarrow> buf \<Rightarrow> u32 \<Rightarrow> u32 \<Rightarrow> u32 \<Rightarrow> buf option \<Rightarrow> (u32 \<times> u32 \<times> buf option) option" where
  "read_loop n d vre vr cnt dst =
     (if vr \<noteq> vre \<and> cnt \<noteq> n
      then do {
        dst' \<leftarrow> (case dst of None \<Rightarrow> Some None
                 | Some b \<Rightarrow> map_option Some (wr b (unat cnt) (d ! unat (vr AND RINGBUF_IDX_WRAP))));
        read_loop n d vre ((vr + 1) AND RINGBUF_VIDX_WRAP) (cnt + 1) dst' }
      else Some (vr, cnt, dst))"
  by pat_completeness auto

termination
  by (relation "measure (\<lambda>(n, d, empty, vr, cnt, dst). unat (n - cnt))")
    (auto simp: unat_diff_step)

definition uart_read :: "u32 \<Rightarrow> buf option \<Rightarrow> cli_rx \<Rightarrow> (u32 \<times> buf option \<times> cli_rx) option" where
  "uart_read char_2read dst s =
     do {
       let r = ring s;
       (vr, cnt, dst') \<leftarrow> read_loop char_2read (rdata r) (vidx_w r) (vidx_r r) 0 dst;
       Some (cnt, dst', s\<lparr>ring := r\<lparr>vidx_r := vr\<rparr>, rx_isr_on := True\<rparr>)
     }"

declare read_loop.simps [simp del]

section \<open>The queue the ring stands for\<close>

text \<open>
  With read index \<open>r\<close> and \<open>n\<close> bytes waiting, the ring holds \<open>d ! (r mod 2048)\<close> and its
  successors. \<open>ring_ok\<close> is the invariant of the two indices.
\<close>

definition ring_seq :: "buf \<Rightarrow> nat \<Rightarrow> nat \<Rightarrow> char list" where
  "ring_seq d r n = map (\<lambda>k. d ! ((r + k) mod 2048)) [0..<n]"

definition ring_count :: "ringbuf \<Rightarrow> nat" where
  "ring_count r = (unat (vidx_w r) + 4096 - unat (vidx_r r)) mod 4096"

definition ring_content :: "ringbuf \<Rightarrow> char list" where
  "ring_content r = ring_seq (rdata r) (unat (vidx_r r)) (ring_count r)"

definition ring_ok :: "ringbuf \<Rightarrow> bool" where
  "ring_ok r \<longleftrightarrow> length (rdata r) = 2048 \<and> unat (vidx_w r) < 4096 \<and> unat (vidx_r r) < 4096
     \<and> ring_count r \<le> 2048"

lemma length_ring_seq [simp]: "length (ring_seq d r n) = n"
  by (simp add: ring_seq_def)

lemma ring_seq_0 [simp]: "ring_seq d r 0 = []"
  by (simp add: ring_seq_def)

lemma ring_seq_Suc: "ring_seq d r (Suc n) = d ! (r mod 2048) # ring_seq d (Suc r) n"
  by (simp add: ring_seq_def map_upt_Suc del: upt_Suc)

lemma ring_seq_mod: "ring_seq d (r mod 4096) n = ring_seq d r n"
proof -
  have "(r mod 4096 + k) mod 2048 = (r + k) mod 2048" for k
    by (metis dvd_triv_right mod_add_left_eq mod_mod_cancel mult_2 numeral_Bit0 numeral_times_numeral)
  then show ?thesis by (simp add: ring_seq_def)
qed

lemma ring_seq_store:
  assumes "n < 2048" "length d = 2048"
  shows "ring_seq (d[(r + n) mod 2048 := c]) r (Suc n) = ring_seq d r n @ [c]"
proof -
  have "(r + k) mod 2048 \<noteq> (r + n) mod 2048" if "k < n" for k
    using that assms(1) by (simp add: mod_add_inj)
  then have "d[(r + n) mod 2048 := c] ! ((r + k) mod 2048) = d ! ((r + k) mod 2048)" if "k < n" for k
    using that by (metis nth_list_update_neq)
  then show ?thesis using assms(2) by (simp add: ring_seq_def)
qed

lemma vidx_wrap_unat: "unat (w AND RINGBUF_VIDX_WRAP) = unat w mod 4096" for w :: u32
proof -
  have "RINGBUF_VIDX_WRAP = mask 12"
    by (simp add: RINGBUF_VIDX_WRAP_def RINGBUF_SIZE_def mask_eq_exp_minus_1)
  then show ?thesis using unat_and_mask [of w 12] by simp
qed

lemma idx_wrap_unat: "unat (w AND RINGBUF_IDX_WRAP) = unat w mod 2048" for w :: u32
proof -
  have "RINGBUF_IDX_WRAP = mask 11"
    by (simp add: RINGBUF_IDX_WRAP_def RINGBUF_SIZE_def mask_eq_exp_minus_1)
  then show ?thesis using unat_and_mask [of w 11] by simp
qed

text \<open>Every index the code computes lies inside the 2048 bytes of the ring.\<close>

lemma idx_in_range: "unat (w AND RINGBUF_IDX_WRAP) < 2048" for w :: u32
  by (simp add: idx_wrap_unat)

lemma vidx_add_unat:
  assumes "unat w < 4096" "unat k \<le> 4096"
  shows "unat ((w + k) AND RINGBUF_VIDX_WRAP) = (unat w + unat k) mod 4096"
  using assms by (simp add: vidx_wrap_unat unat_word_ariths)

lemma vidx_next_unat:
  "unat w < 4096 \<Longrightarrow> unat ((w + 1) AND RINGBUF_VIDX_WRAP) = Suc (unat w) mod 4096"
  using vidx_add_unat [of w 1] by simp

text \<open>The loop of the handler, on the queue the ring stands for.\<close>

lemma isr_drain_step:
  assumes "unat vw = (unat vr + n) mod 4096" "n \<le> 2048" "unat vr < 4096"
  shows "vw = (vr + RINGBUF_SIZE) AND RINGBUF_VIDX_WRAP \<longleftrightarrow> n = 2048"
    and "unat (vw AND RINGBUF_IDX_WRAP) = (unat vr + n) mod 2048"
    and "unat ((vw + 1) AND RINGBUF_VIDX_WRAP) = (unat vr + Suc n) mod 4096"
proof -
  have full: "unat ((vr + RINGBUF_SIZE) AND RINGBUF_VIDX_WRAP) = (unat vr + 2048) mod 4096"
    using vidx_add_unat [of vr RINGBUF_SIZE] assms(3) by (simp add: RINGBUF_SIZE_def)
  have "(unat vr + n) mod 4096 = (unat vr + 2048) mod 4096 \<longleftrightarrow> n = 2048"
    using assms(2) mod_add_inj [of n 4096 2048 "unat vr"] by simp
  then show "vw = (vr + RINGBUF_SIZE) AND RINGBUF_VIDX_WRAP \<longleftrightarrow> n = 2048"
    using full assms(1) by (metis unsigned_word_eqI)
  show "unat (vw AND RINGBUF_IDX_WRAP) = (unat vr + n) mod 2048"
    unfolding idx_wrap_unat assms(1) by (rule mod_mod_cancel) simp
  have "unat vw < 4096" using assms(1) by simp
  then have "unat ((vw + 1) AND RINGBUF_VIDX_WRAP) = Suc (unat vw) mod 4096" by (rule vidx_next_unat)
  also have "\<dots> = (unat vr + Suc n) mod 4096" unfolding assms(1) by (simp add: mod_Suc_eq)
  finally show "unat ((vw + 1) AND RINGBUF_VIDX_WRAP) = (unat vr + Suc n) mod 4096" .
qed

lemma isr_drain_spec:
  assumes "unat vw = (unat vr + n) mod 4096" "n \<le> 2048" "unat vr < 4096" "length d = 2048"
    and "isr_drain ((vr + RINGBUF_SIZE) AND RINGBUF_VIDX_WRAP) d vw lg on hw = (d', vw', lg', on', hw')"
  shows "length d' = 2048 \<and> unat vw' = (unat vr + min 2048 (n + length hw)) mod 4096 \<and>
    ring_seq d' (unat vr) (min 2048 (n + length hw)) @ hw' = ring_seq d (unat vr) n @ hw \<and>
    on' = (on \<and> hw' = []) \<and> (QueueFull \<in> set lg' \<longleftrightarrow> QueueFull \<in> set lg \<or> hw' \<noteq> [])"
  using assms
proof (induction hw arbitrary: d vw lg n)
  case Nil
  then show ?case by (auto simp: min_def)
next
  case (Cons c hw)
  note st = isr_drain_step [OF Cons.prems(1-3)]
  show ?case
  proof (cases "n = 2048")
    case True
    with Cons.prems st(1) show ?thesis by auto
  next
    case False
    let ?d = "d[unat (vw AND RINGBUF_IDX_WRAP) := c]"
    let ?lg = "if c = NUL then lg @ [RxError] else lg"
    have r: "isr_drain ((vr + RINGBUF_SIZE) AND RINGBUF_VIDX_WRAP) ?d
        ((vw + 1) AND RINGBUF_VIDX_WRAP) ?lg on hw = (d', vw', lg', on', hw')"
      using Cons.prems(5) st(1) False by (simp add: Let_def)
    have s: "ring_seq ?d (unat vr) (Suc n) = ring_seq d (unat vr) n @ [c]"
      unfolding st(2) using Cons.prems(2,4) False by (intro ring_seq_store) auto
    have "Suc n \<le> 2048" "length ?d = 2048" using Cons.prems(2,4) False by auto
    from Cons.IH [OF st(3) this(1) Cons.prems(3) this(2) r] s show ?thesis by auto
  qed
qed

lemma ring_count_eq:
  assumes "unat (vidx_w r) = (unat (vidx_r r) + n) mod 4096" "n \<le> 2048" "unat (vidx_r r) < 4096"
  shows "ring_count r = n"
  unfolding ring_count_def assms(1) using assms(2,3) by (intro mod_sub_back) auto

lemma ring_count_add:
  assumes "ring_ok r"
  shows "unat (vidx_w r) = (unat (vidx_r r) + ring_count r) mod 4096"
  using assms unfolding ring_ok_def ring_count_def by (intro mod_add_back [symmetric]) auto

lemma uart_rx_isr_spec:
  assumes ok: "ring_ok (ring s)" and isr: "uart_rx_isr hw s = (s', hw')"
  shows "ring_ok (ring s')"
    and "ring_content (ring s') @ hw' = ring_content (ring s) @ hw"
    and "ring_count (ring s') = min 2048 (ring_count (ring s) + length hw)"
    and "rx_evt s'"
    and "rx_isr_on s' \<longleftrightarrow> rx_isr_on s \<and> hw' = []"
    and "QueueFull \<in> set (rx_log s') \<longleftrightarrow> QueueFull \<in> set (rx_log s) \<or> hw' \<noteq> []"
proof -
  let ?r = "ring s"
  obtain d vw lg on where dr: "isr_drain ((vidx_r ?r + RINGBUF_SIZE) AND RINGBUF_VIDX_WRAP)
      (rdata ?r) (vidx_w ?r) (rx_log s) (rx_isr_on s) hw = (d, vw, lg, on, hw')"
    and s': "s' = s\<lparr>ring := ?r\<lparr>rdata := d, vidx_w := vw\<rparr>, rx_isr_on := on, rx_evt := True, rx_log := lg\<rparr>"
    using isr by (auto simp: uart_rx_isr_def Let_def split: prod.splits)
  let ?m = "min 2048 (ring_count ?r + length hw)"
  from isr_drain_spec [OF ring_count_add [OF ok] _ _ _ dr] ok
  have p: "length d = 2048" "unat vw = (unat (vidx_r ?r) + ?m) mod 4096"
    "ring_seq d (unat (vidx_r ?r)) ?m @ hw' = ring_seq (rdata ?r) (unat (vidx_r ?r)) (ring_count ?r) @ hw"
    "on = (rx_isr_on s \<and> hw' = [])" "QueueFull \<in> set lg \<longleftrightarrow> QueueFull \<in> set (rx_log s) \<or> hw' \<noteq> []"
    by (auto simp: ring_ok_def)
  have m: "ring_count (ring s') = ?m"
    by (rule ring_count_eq) (use p(2) ok s' in \<open>auto simp: ring_ok_def\<close>)
  show "ring_count (ring s') = ?m" by (rule m)
  show "ring_ok (ring s')" using ok p(1,2) m s' by (simp add: ring_ok_def)
  show "ring_content (ring s') @ hw' = ring_content ?r @ hw"
    using p(3) m s' by (simp add: ring_content_def)
  show "rx_evt s'" "rx_isr_on s' \<longleftrightarrow> rx_isr_on s \<and> hw' = []"
    "QueueFull \<in> set (rx_log s') \<longleftrightarrow> QueueFull \<in> set (rx_log s) \<or> hw' \<noteq> []"
    using p(4,5) s' by auto
qed

text \<open>The loop of the reader, with a buffer that can hold the bytes asked for.\<close>

lemma ring_seq_split: "k \<le> m \<Longrightarrow> ring_seq d r m = ring_seq d r k @ ring_seq d (r + k) (m - k)"
proof (induction k arbitrary: r m)
  case (Suc k)
  from Suc.prems obtain m' where "m = Suc m'" "k \<le> m'" by (cases m) auto
  with Suc.IH [of m' "Suc r"] show ?case by (simp add: ring_seq_Suc)
qed simp

lemma read_loop_spec:
  assumes "unat vre = (unat vr + m) mod 4096" "m \<le> 2048" "unat vr < 4096"
    and "unat cnt \<le> unat n" "unat n \<le> length b"
  shows "\<exists>vr' cnt'. read_loop n d vre vr cnt (Some b) =
      Some (vr', cnt', Some (take (unat cnt) b @ ring_seq d (unat vr) (min m (unat n - unat cnt))
        @ drop (unat cnt + min m (unat n - unat cnt)) b)) \<and>
    unat vr' = (unat vr + min m (unat n - unat cnt)) mod 4096 \<and>
    unat cnt' = unat cnt + min m (unat n - unat cnt)"
  using assms
proof (induction m arbitrary: vr cnt b)
  case 0
  then have "vre = vr" by (simp add: unsigned_word_eqI)
  with 0 show ?case by (simp add: read_loop.simps)
next
  case (Suc m)
  have ne: "vr \<noteq> vre"
    using mod_add_inj [of 0 4096 "Suc m" "unat vr"] Suc.prems(1,2,3) by auto
  show ?case
  proof (cases "cnt = n")
    case True
    then show ?thesis using Suc.prems by (simp add: read_loop.simps)
  next
    case False
    then have lt: "unat cnt < unat n"
      using Suc.prems(4) by (metis le_neq_implies_less unsigned_word_eqI)
    let ?v = "(vr + 1) AND RINGBUF_VIDX_WRAP" and ?x = "d ! (unat vr mod 2048)"
    have v: "unat ?v = Suc (unat vr) mod 4096" using Suc.prems(3) by (rule vidx_next_unat)
    have c: "unat (cnt + 1) = Suc (unat cnt)"
      using lt by (rule unat_Suc_less)
    have e: "unat vre = (unat ?v + m) mod 4096"
      unfolding v Suc.prems(1) by (simp add: mod_add_left_eq)
    have "unat cnt < length b" using lt Suc.prems(5) by simp
    then have w: "wr b (unat cnt) ?x = Some (b[unat cnt := ?x])" by (rule wr_Some)
    from Suc.IH [OF e _ _ _, of "cnt + 1" "b[unat cnt := ?x]"] lt Suc.prems c v
    obtain vr' cnt' where r: "read_loop n d vre ?v (cnt + 1) (Some (b[unat cnt := ?x])) =
        Some (vr', cnt', Some (take (Suc (unat cnt)) (b[unat cnt := ?x]) @
          ring_seq d (unat ?v) (min m (unat n - Suc (unat cnt)))
          @ drop (Suc (unat cnt) + min m (unat n - Suc (unat cnt))) (b[unat cnt := ?x])))"
      "unat vr' = (unat ?v + min m (unat n - Suc (unat cnt))) mod 4096"
      "unat cnt' = Suc (unat cnt) + min m (unat n - Suc (unat cnt))" by auto
    have k: "min (Suc m) (unat n - unat cnt) = Suc (min m (unat n - Suc (unat cnt)))"
      using lt by simp
    have s: "ring_seq d (unat ?v) j = ring_seq d (Suc (unat vr)) j" for j
      unfolding v by (rule ring_seq_mod)
    have t: "take (Suc (unat cnt)) (b[unat cnt := ?x]) = take (unat cnt) b @ [?x]"
      using \<open>unat cnt < length b\<close> by (simp add: take_Suc_conv_app_nth)
    have "read_loop n d vre vr cnt (Some b) = read_loop n d vre ?v (cnt + 1) (Some (b[unat cnt := ?x]))"
      using ne False w by (simp add: read_loop.simps [of n d vre vr] idx_wrap_unat)
    with r k s t v show ?thesis
      by (auto simp: ring_seq_Suc mod_add_left_eq)
  qed
qed

lemma uart_read_spec:
  assumes ok: "ring_ok (ring s)" and "unat n \<le> length b"
  shows "\<exists>cnt b' s'. uart_read n (Some b) s = Some (cnt, Some b', s') \<and> ring_ok (ring s') \<and>
    unat cnt = min (ring_count (ring s)) (unat n) \<and> length b' = length b \<and>
    take (unat cnt) b' @ ring_content (ring s') = ring_content (ring s) \<and>
    drop (unat cnt) b' = drop (unat cnt) b \<and> rx_isr_on s' \<and> rx_evt s' = rx_evt s"
proof -
  let ?r = "ring s" and ?k = "min (ring_count (ring s)) (unat n)"
  have w: "unat (vidx_w ?r) = (unat (vidx_r ?r) + ring_count ?r) mod 4096" by (rule ring_count_add [OF ok])
  from read_loop_spec [OF w, where cnt = 0 and n = n and b = b and d = "rdata ?r"] ok assms(2)
  obtain vr cnt where l: "read_loop n (rdata ?r) (vidx_w ?r) (vidx_r ?r) 0 (Some b) =
      Some (vr, cnt, Some (ring_seq (rdata ?r) (unat (vidx_r ?r)) ?k @ drop ?k b))"
    and v: "unat vr = (unat (vidx_r ?r) + ?k) mod 4096" and c: "unat cnt = ?k"
    by (auto simp: ring_ok_def)
  let ?s = "s\<lparr>ring := ?r\<lparr>vidx_r := vr\<rparr>, rx_isr_on := True\<rparr>"
  have u: "uart_read n (Some b) s = Some (cnt, Some (ring_seq (rdata ?r) (unat (vidx_r ?r)) ?k @ drop ?k b), ?s)"
    by (simp add: uart_read_def l Let_def)
  have cnt': "ring_count (ring ?s) = ring_count ?r - ?k"
  proof (rule ring_count_eq)
    show "unat (vidx_w (ring ?s)) = (unat (vidx_r (ring ?s)) + (ring_count ?r - ?k)) mod 4096"
    proof -
      have "(unat vr + (ring_count ?r - ?k)) mod 4096 = (unat (vidx_r ?r) + ?k + (ring_count ?r - ?k)) mod 4096"
        unfolding v by (rule mod_add_left_eq)
      then show ?thesis by (simp add: w)
    qed
  qed (use ok v in \<open>auto simp: ring_ok_def\<close>)
  have content: "ring_seq (rdata ?r) (unat (vidx_r ?r)) ?k @ ring_content (ring ?s) = ring_content ?r"
    unfolding ring_content_def cnt' using ring_seq_split [of ?k "ring_count ?r"]
    by (simp add: v ring_seq_mod)
  have "ring_count ?r \<le> 2048" using ok by (simp add: ring_ok_def)
  with cnt' have "ring_count (ring ?s) \<le> 2048" by linarith
  with ok v have "ring_ok (ring ?s)" by (simp add: ring_ok_def)
  with u c content assms(2) show ?thesis by (auto simp: min_def)
qed

section \<open>The ring as a bounded queue\<close>

text \<open>
  A client of \<open>uart_read\<close> passes a buffer of the size it asks for. \<open>rx_fetch\<close> is that call, with
  the bytes it received as its result; a request above the ring's size reads what is there.
\<close>

definition rx_fetch :: "nat \<Rightarrow> cli_rx \<Rightarrow> char list \<times> cli_rx" where
  "rx_fetch n s =
     (let k = min n 2048
      in case uart_read (word_of_nat k) (Some (replicate k NUL)) s of
           Some (cnt, Some b, s') \<Rightarrow> (take (unat cnt) b, s')
         | _ \<Rightarrow> ([], s))"

lemma rx_fetch_spec:
  assumes "ring_ok (ring s)" "rx_fetch n s = (ys, s')"
  shows "ring_ok (ring s') \<and> ys @ ring_content (ring s') = ring_content (ring s) \<and>
    length ys = min n (length (ring_content (ring s)))"
proof -
  let ?k = "min n 2048"
  have k: "unat (word_of_nat ?k :: u32) = ?k" by (simp add: unat_of_nat)
  from uart_read_spec [OF assms(1), of "word_of_nat ?k" "replicate ?k NUL"]
  obtain cnt b t where r: "uart_read (word_of_nat ?k) (Some (replicate ?k NUL)) s = Some (cnt, Some b, t)"
    and p: "ring_ok (ring t)" "unat cnt = min (ring_count (ring s)) ?k" "length b = ?k"
      "take (unat cnt) b @ ring_content (ring t) = ring_content (ring s)"
    unfolding k by auto
  have "ring_count (ring s) \<le> 2048" using assms(1) by (simp add: ring_ok_def)
  with r p assms(2) show ?thesis by (auto simp: rx_fetch_def Let_def ring_content_def)
qed

interpretation clirx: bounded_fifo
  "\<lambda>s. ring_content (ring s)" "\<lambda>s. ring_ok (ring s)" uart_rx_isr rx_fetch 2048
proof unfold_locales
  show "length (ring_content (ring q)) \<le> 2048" if "ring_ok (ring q)" for q :: "cli_rx"
    using that by (simp add: ring_content_def ring_ok_def)
  show "length (ring_content (ring q')) = min 2048 (length (ring_content (ring q)) + length xs)"
    if "ring_ok (ring q)" "uart_rx_isr xs q = (q', rest)" for q xs q' rest
    using uart_rx_isr_spec(3) [OF that] by (simp add: ring_content_def)
  show "ring_ok (ring q')" if "ring_ok (ring q)" "uart_rx_isr xs q = (q', rest)" for q xs q' rest
    by (rule uart_rx_isr_spec(1) [OF that])
  show "ring_content (ring q') @ rest = ring_content (ring q) @ xs"
    if "ring_ok (ring q)" "uart_rx_isr xs q = (q', rest)" for q xs q' rest
    by (rule uart_rx_isr_spec(2) [OF that])
  show "ring_ok (ring q')" if "ring_ok (ring q)" "rx_fetch n q = (ys, q')" for q n ys q'
    using rx_fetch_spec [OF that] by blast
  show "ys @ ring_content (ring q') = ring_content (ring q)"
    if "ring_ok (ring q)" "rx_fetch n q = (ys, q')" for q n ys q'
    using rx_fetch_spec [OF that] by blast
  show "length ys = min n (length (ring_content (ring q)))"
    if "ring_ok (ring q)" "rx_fetch n q = (ys, q')" for q n ys q'
    using rx_fetch_spec [OF that] by blast
qed simp

text \<open>The state at start-up, from the initialiser of \<open>g_uart_rx_ringbuf\<close>; no handler is registered.\<close>

definition cli_rx_init :: cli_rx where
  "cli_rx_init = \<lparr>ring = \<lparr>vidx_w = 0, vidx_r = 0, rdata = replicate 2048 NUL\<rparr>,
     rx_isr_on = False, rx_evt = False, rx_log = []\<rparr>"

lemma cli_rx_init_ok: "ring_ok (ring cli_rx_init)"
  by (simp add: cli_rx_init_def ring_ok_def ring_count_def)

lemma cli_rx_init_content [simp]: "ring_content (ring cli_rx_init) = []"
  by (simp add: cli_rx_init_def ring_content_def ring_count_def)

section \<open>Properties\<close>

text \<open>
  C16: Whatever the order of line traffic, receive interrupts and reads of any size, no byte of the
  console is lost, duplicated or reordered: the bytes read so far, those in the ring and those the
  handler left in the UART are together the bytes that arrived, and the ring stays well-formed.
\<close>

theorem cli_rx_stream:
  "case fifo_run uart_rx_isr rx_fetch ops (cli_rx_init, [], []) of (s, hw, got) \<Rightarrow>
     ring_ok (ring s) \<and> got @ ring_content (ring s) @ hw = arrivals ops"
proof -
  obtain s hw got where r: "fifo_run uart_rx_isr rx_fetch ops (cli_rx_init, [], []) = (s, hw, got)"
    by (metis prod_cases3)
  from clirx.run_stream [OF cli_rx_init_ok r] r show ?thesis by simp
qed

text \<open>
  Reception makes progress: a backlog of any length that waits in the UART is delivered in full
  and in order by as many rounds of one interrupt and one read as it takes at 2048 bytes each.
\<close>

lemma cli_rx_drains:
  assumes "length hw \<le> k * 2048"
  shows "\<exists>s. fifo_run uart_rx_isr rx_fetch (concat (replicate k [Isr, Fetch 2048]))
      (cli_rx_init, hw, []) = (s, [], hw) \<and> ring_content (ring s) = []"
proof -
  obtain s hw' got where r: "fifo_run uart_rx_isr rx_fetch (concat (replicate k [Isr, Fetch 2048]))
      (cli_rx_init, hw, []) = (s, hw', got)" by (metis prod_cases3)
  from clirx.drain_all [OF cli_rx_init_ok _ assms r] r show ?thesis by simp
qed

lemma cli_rx_drains_witness:
  "\<exists>s. fifo_run uart_rx_isr rx_fetch (concat (replicate 2 [Isr, Fetch 2048]))
      (cli_rx_init, replicate 3000 (CHR ''a''), []) = (s, [], replicate 3000 (CHR ''a'')) \<and>
    ring_content (ring s) = []"
  by (rule cli_rx_drains) simp

text \<open>
  Flow control: when the ring fills up the handler reports \<open>QUEUE FULL\<close> and unregisters itself
  exactly when bytes are left behind, and the next \<open>uart_read\<close> returns the oldest bytes in order,
  leaves the rest of the caller's buffer alone and registers the handler again.
\<close>

lemma cli_rx_flow_control:
  assumes "ring_ok (ring s)" "rx_isr_on s" "QueueFull \<notin> set (rx_log s)" "uart_rx_isr hw s = (s1, hw')"
    and "unat n \<le> length b"
  shows "(rx_isr_on s1 \<longleftrightarrow> length (ring_content (ring s)) + length hw \<le> 2048) \<and>
    (QueueFull \<in> set (rx_log s1) \<longleftrightarrow> \<not> rx_isr_on s1) \<and>
    (\<exists>cnt b' s2. uart_read n (Some b) s1 = Some (cnt, Some b', s2) \<and> rx_isr_on s2 \<and>
       take (unat cnt) b' = take (unat n) (take 2048 (ring_content (ring s) @ hw)) \<and>
       drop (unat cnt) b' = drop (unat cnt) b)"
proof -
  note i = uart_rx_isr_spec [OF assms(1,4)]
  have q: "length (ring_content (ring s1)) = min 2048 (length (ring_content (ring s)) + length hw)"
    using i(3) by (simp add: ring_content_def)
  have c: "ring_content (ring s1) = take 2048 (ring_content (ring s) @ hw)"
    by (rule clirx.fill_takes [OF assms(1,4)])
  from uart_read_spec [OF i(1) assms(5)] obtain cnt b' s2 where u:
    "uart_read n (Some b) s1 = Some (cnt, Some b', s2)" "rx_isr_on s2"
    "unat cnt = min (ring_count (ring s1)) (unat n)" "length b' = length b"
    "take (unat cnt) b' @ ring_content (ring s2) = ring_content (ring s1)"
    "drop (unat cnt) b' = drop (unat cnt) b" by blast
  have "take (unat cnt) b' = take (unat n) (ring_content (ring s1))"
    by (rule prefix_is_take [OF u(5)]) (use u(3,4) assms(5) in \<open>simp add: ring_content_def min_def\<close>)
  with u c have 1: "\<exists>cnt b' s2. uart_read n (Some b) s1 = Some (cnt, Some b', s2) \<and> rx_isr_on s2 \<and>
       take (unat cnt) b' = take (unat n) (take 2048 (ring_content (ring s) @ hw)) \<and>
       drop (unat cnt) b' = drop (unat cnt) b" by auto
  have "length (ring_content (ring s1)) + length hw' = length (ring_content (ring s)) + length hw"
    using i(2) by (metis length_append)
  then have "hw' = [] \<longleftrightarrow> length (ring_content (ring s)) + length hw \<le> 2048"
    unfolding q by (cases hw') (auto simp: min_def split: if_splits)
  with 1 i(5,6) assms(2,3) show ?thesis by blast
qed

lemma cli_rx_flow_control_witness:
  "\<exists>s1 hw'. uart_rx_isr (replicate 2049 (CHR ''a'')) (cli_rx_init\<lparr>rx_isr_on := True\<rparr>) = (s1, hw') \<and>
     \<not> rx_isr_on s1 \<and> QueueFull \<in> set (rx_log s1)"
proof -
  obtain s1 hw' where r: "uart_rx_isr (replicate 2049 (CHR ''a'')) (cli_rx_init\<lparr>rx_isr_on := True\<rparr>) = (s1, hw')"
    by fastforce
  have "ring_ok (ring (cli_rx_init\<lparr>rx_isr_on := True\<rparr>))" "rx_isr_on (cli_rx_init\<lparr>rx_isr_on := True\<rparr>)"
    "QueueFull \<notin> set (rx_log (cli_rx_init\<lparr>rx_isr_on := True\<rparr>))"
    using cli_rx_init_ok by (simp_all add: cli_rx_init_def)
  from cli_rx_flow_control [OF this r, of 0 "[]"] r show ?thesis
    by (auto simp: ring_content_def ring_count_def cli_rx_init_def)
qed

end
