(* ===== verification/AtCmd.thy ===== *)
theory AtCmd
  imports Prelude
begin

text \<open>
  The AT command interpreter, \<open>projects/mac_atcmd/src/cli/atcmd.c\<close>: the command table
  \<open>atcmdicomm_info_tbl\<close>, the argument splitter \<open>parseBuff2Param\<close> and the dispatcher
  \<open>At_Parser\<close>, for the configuration without \<open>WAC_EN\<close> (the second table is not compiled). The
  handlers are a parameter: a function from the command name, the argument strings and a world
  state to the return code and the new world. \<open>argv\<close> holds offsets into the text, as the code's
  pointers do. The 32 bytes of the local array \<open>cmd\<close> start with an arbitrary content, a
  parameter too, since the code does not initialise it.
\<close>

definition MAX_CMD_LEN :: nat where "MAX_CMD_LEN = 32"
definition MAX_ARGUMENT :: nat where "MAX_ARGUMENT = 24"

definition ERROR_UNKNOWN_COMMAND :: int where "ERROR_UNKNOWN_COMMAND = -3"
definition ERROR_INVALID_PARAMETER :: int where "ERROR_INVALID_PARAMETER = -1"
definition ERROR_SUCCESS :: int where "ERROR_SUCCESS = 0"

section \<open>Splitting the arguments\<close>

text \<open>The inner \<open>for\<close>: advance \<open>i\<close> to the next comma before \<open>n\<close> and overwrite it.\<close>

function scan_delim :: "buf \<Rightarrow> nat \<Rightarrow> nat \<Rightarrow> (nat \<times> buf) option" where
  "scan_delim b n i =
     (if i < n
      then do {
        c \<leftarrow> rd b i;
        if c = CHR '','' then map_option (Pair i) (wr b i NUL) else scan_delim b n (Suc i) }
      else Some (i, b))"
  by pat_completeness auto
termination by (relation "measure (\<lambda>(b, n, i). n - i)") auto

text \<open>The outer \<open>while\<close>; the store of \<open>argv[argc]\<close> needs a free entry of the array.\<close>

function parse_loop :: "buf \<Rightarrow> nat \<Rightarrow> nat \<Rightarrow> nat \<Rightarrow> nat list \<Rightarrow> (buf \<times> nat list) option" where
  "parse_loop b n maxargu i argv =
     (if length argv < maxargu
      then do {
        (i, b) \<leftarrow> scan_delim b n i;
        if i = n then Some (b, argv)
        else do {
          c \<leftarrow> rd b (i + 1);
          if c \<noteq> NUL
          then if length argv < MAX_ARGUMENT
               then parse_loop b n maxargu i (argv @ [i + 1]) else None
          else Some (b, argv) } }
      else Some (b, argv))"
  by pat_completeness auto
termination by (relation "measure (\<lambda>(b, n, m, i, argv). m - length argv)") auto

definition parseBuff2Param :: "buf \<Rightarrow> nat \<Rightarrow> (int \<times> buf \<times> nat list) option" where
  "parseBuff2Param bufCmd maxargu =
     do {
       buflen \<leftarrow> c_strlen bufCmd;
       if buflen = 0 then Some (ERROR_INVALID_PARAMETER, bufCmd, [])
       else do {
         (b, argv) \<leftarrow> parse_loop bufCmd buflen (if maxargu = 0 then MAX_ARGUMENT else maxargu) 0 [0];
         Some (0, b, argv) } }"

declare scan_delim.simps [simp del] parse_loop.simps [simp del]

text \<open>
  What the splitter is for: at most \<open>m\<close> comma-separated pieces, the last one keeping its commas;
  an empty piece at the very end is dropped.
\<close>

fun at_split :: "nat \<Rightarrow> string \<Rightarrow> string list" where
  "at_split 0 s = [s]"
| "at_split (Suc 0) s = [s]"
| "at_split (Suc (Suc m)) s =
     (case dropWhile (\<lambda>c. c \<noteq> CHR '','') s of
        [] \<Rightarrow> [s]
      | _ # r \<Rightarrow> takeWhile (\<lambda>c. c \<noteq> CHR '','') s # (if r = [] then [] else at_split (Suc m) r))"

definition args_of :: "buf \<Rightarrow> nat list \<Rightarrow> string list" where
  "args_of b argv = map (\<lambda>p. cstr (drop p b)) argv"

lemma scan_delim_none:
  "i \<le> n \<Longrightarrow> n \<le> length b \<Longrightarrow> (\<forall>j. i \<le> j \<longrightarrow> j < n \<longrightarrow> b ! j \<noteq> CHR '','') \<Longrightarrow> scan_delim b n i = Some (n, b)"
proof (induction b n i rule: scan_delim.induct)
  case (1 b n i)
  show ?case
  proof (cases "i < n")
    case True
    with 1 show ?thesis by (auto simp: scan_delim.simps [of b n i] mem_simps)
  qed (use 1 in \<open>simp add: scan_delim.simps\<close>)
qed

lemma scan_delim_some:
  "i + k < n \<Longrightarrow> n \<le> length b \<Longrightarrow> b ! (i + k) = CHR '','' \<Longrightarrow> (\<forall>j<k. b ! (i + j) \<noteq> CHR '','') \<Longrightarrow>
   scan_delim b n i = Some (i + k, b[i + k := NUL])"
proof (induction k arbitrary: i)
  case 0
  then show ?case by (simp add: scan_delim.simps mem_simps)
next
  case (Suc k)
  have "b ! i \<noteq> CHR '',''" using Suc.prems(4) by (metis add.right_neutral zero_less_Suc)
  moreover have "scan_delim b n (Suc i) = Some (Suc i + k, b[Suc i + k := NUL])"
    using Suc.prems by (intro Suc.IH) auto
  ultimately show ?case using Suc.prems(1,2) by (simp add: scan_delim.simps [of b n i] mem_simps)
qed

lemma scan_delim_skip:
  "b ! i \<noteq> CHR '','' \<Longrightarrow> i < n \<Longrightarrow> n \<le> length b \<Longrightarrow> scan_delim b n i = scan_delim b n (Suc i)"
  by (simp add: scan_delim.simps [of b n i] mem_simps)

lemma nth_of_drop: "drop p b = s @ t \<Longrightarrow> j < length s \<Longrightarrow> b ! (p + j) = s ! j"
  by (metis add_diff_cancel_left' length_append length_drop nth_append nth_drop
      less_imp_le_nat trans_less_add1 zero_less_diff linorder_not_le drop_all Nil_is_append_conv length_0_conv less_nat_zero_code)

lemma at_split_none: "CHR '','' \<notin> set s \<Longrightarrow> at_split (Suc (Suc m)) s = [s]"
proof -
  assume "CHR '','' \<notin> set s"
  then have "dropWhile (\<lambda>c. c \<noteq> CHR '','') s = []" by (induction s) auto
  then show "at_split (Suc (Suc m)) s = [s]" by (simp only: at_split.simps list.case)
qed

lemma at_split_comma:
  assumes "CHR '','' \<notin> set u"
  shows "at_split (Suc (Suc m)) (u @ CHR '','' # v) = u # (if v = [] then [] else at_split (Suc m) v)"
proof -
  have "dropWhile (\<lambda>c. c \<noteq> CHR '','') (u @ CHR '','' # v) = CHR '','' # v"
    "takeWhile (\<lambda>c. c \<noteq> CHR '','') (u @ CHR '','' # v) = u"
    using assms by (induction u) auto
  then show ?thesis by simp
qed

text \<open>A piece without a comma, and the first comma of a text.\<close>

lemma scan_no_comma:
  assumes "drop p b = s @ NUL # r" "CHR '','' \<notin> set s"
  shows "scan_delim b (p + length s) p = Some (p + length s, b)"
proof (rule scan_delim_none)
  show "p + length s \<le> length b" using arg_cong [OF assms(1), of length] by simp
  have "b ! (p + k) \<noteq> CHR '',''" if "k < length s" for k
    using nth_of_drop [OF assms(1) that] assms(2) that by (metis nth_mem)
  then show "\<forall>j. p \<le> j \<longrightarrow> j < p + length s \<longrightarrow> b ! j \<noteq> CHR '',''"
    by (metis le_Suc_ex nat_add_left_cancel_less)
qed simp

lemma scan_comma:
  assumes "drop p b = (u @ CHR '','' # v) @ NUL # r" "CHR '','' \<notin> set u" "n = p + length (u @ CHR '','' # v)"
    and q: "q = p + length u" and b': "b' = b[q := NUL]"
  shows "scan_delim b n p = Some (q, b')" "drop p b' = u @ NUL # v @ NUL # r" "drop (Suc q) b' = v @ NUL # r"
    "rd b' (Suc q) = Some (hd (v @ [NUL]))" "scan_delim b' n q = scan_delim b' n (Suc q)" "take p b' = take p b"
proof -
  have len: "n < length b" using arg_cong [OF assms(1), of length] assms(3) by simp
  show "scan_delim b n p = Some (q, b')" unfolding q b'
  proof (rule scan_delim_some)
    show "b ! (p + length u) = CHR '',''" using nth_of_drop [OF assms(1)] by simp
    show "\<forall>j<length u. b ! (p + j) \<noteq> CHR '',''"
      using nth_of_drop [OF assms(1)] assms(2) by (auto simp: nth_append) (metis nth_mem)
  qed (use assms(3) len in auto)
  show dp: "drop p b' = u @ NUL # v @ NUL # r"
    using assms(1) len assms(3) by (simp add: q b' drop_update_swap list_update_append)
  have "drop (Suc q) b' = drop (Suc (length u)) (drop p b')" by (simp add: q add.commute)
  then show dq: "drop (Suc q) b' = v @ NUL # r" by (simp add: dp)
  have "Suc q < length b'" using len assms(3) by (simp add: q b')
  moreover have "hd (drop (Suc q) b') = hd (v @ [NUL])" by (cases v) (simp_all add: dq)
  ultimately show "rd b' (Suc q) = Some (hd (v @ [NUL]))" by (simp add: rd_eq_Some_iff hd_drop_conv_nth)
  show "scan_delim b' n q = scan_delim b' n (Suc q)"
    using len assms(3) by (intro scan_delim_skip) (auto simp: q b')
qed (simp add: q b')

lemma cstr_of_prefix:
  assumes "take (Suc (p + length u)) b' = take (Suc (p + length u)) b" "drop p b = u @ NUL # t" "NUL \<notin> set u"
  shows "cstr (drop p b') = u"
proof -
  have "drop p (take (Suc (p + length u)) b') = drop p (take (Suc (p + length u)) b)" using assms(1) by simp
  then have "take (Suc (length u)) (drop p b') = take (Suc (length u)) (drop p b)" by (simp add: drop_take)
  also have "\<dots> = u @ [NUL]" by (simp add: assms(2))
  finally have "drop p b' = u @ NUL # drop (Suc (length u)) (drop p b')"
    by (metis append_Cons append_Nil append_assoc append_take_drop_id)
  then show ?thesis using assms(3) by (metis cstr_append_NUL)
qed

text \<open>The loop from a piece that starts at \<open>p\<close> and is the C string \<open>s\<close>.\<close>

lemma parse_loop_spec:
  assumes "drop p b = s @ NUL # r" "NUL \<notin> set s" "n = p + length s"
    and "scan_delim b n i = scan_delim b n p" "Suc (length a0) \<le> m" "m \<le> MAX_ARGUMENT"
  shows "\<exists>b' new. parse_loop b n m i (a0 @ [p]) = Some (b', a0 @ p # new) \<and> take p b' = take p b \<and>
    length b' = length b \<and> args_of b' (p # new) = at_split (m - length a0) s"
  using assms
proof (induction "m - length a0" arbitrary: b p s i a0 rule: less_induct)
  case less
  consider "m - length a0 = Suc 0" "\<not> Suc (length a0) < m" | m' where "Suc (length a0) < m" "m - length a0 = Suc (Suc m')"
  proof (cases "m - Suc (length a0)")
    case (Suc k)
    then have "m - length a0 = Suc (Suc k)" "Suc (length a0) < m" by arith+
    then show ?thesis using that(2) by blast
  qed (use that(1) less.prems(5) in simp)
  then show ?case
  proof cases
    case 1
    with less.prems(1,2) show ?thesis by (auto simp: parse_loop.simps [of b] args_of_def)
  next
    case more: 2
    show ?thesis
    proof (cases "CHR '','' \<in> set s")
      case False
      then have "scan_delim b n i = Some (n, b)" using scan_no_comma [OF less.prems(1)] less.prems(3,4) by simp
      moreover have "at_split (m - length a0) s = [s]" unfolding more(2) by (rule at_split_none [OF False])
      ultimately show ?thesis using more(1) less.prems(1,2) by (simp add: parse_loop.simps [of b] args_of_def)
    next
      case True
      then obtain u v where uv: "s = u @ CHR '','' # v" "CHR '','' \<notin> set u" by (metis split_list_first)
      define q b1 where q: "q = p + length u" and b1: "b1 = b[q := NUL]"
      have nu: "NUL \<notin> set u" "NUL \<notin> set v" using less.prems(2) uv by auto
      note cut = scan_comma [OF less.prems(1) [unfolded uv(1)] uv(2) less.prems(3) [unfolded uv(1)] q b1]
      have sc: "scan_delim b n i = Some (q, b1)" "q \<noteq> n" using less.prems(3,4) cut(1) uv(1) by (auto simp: q)
      have split: "at_split (m - length a0) s = u # (if v = [] then [] else at_split (Suc m') v)"
        unfolding more(2) uv(1) by (rule at_split_comma [OF uv(2)])
      show ?thesis
      proof (cases v)
        case Nil
        have "parse_loop b n m i (a0 @ [p]) = Some (b1, a0 @ [p])"
          using more(1) sc cut(4) less.prems(3) uv Nil by (simp add: parse_loop.simps [of b] q)
        with cut(2,6) nu split Nil show ?thesis by (auto simp: args_of_def b1)
      next
        case (Cons c v')
        have "\<exists>b' new. parse_loop b1 n m q ((a0 @ [p]) @ [Suc q]) = Some (b', (a0 @ [p]) @ Suc q # new) \<and>
          take (Suc q) b' = take (Suc q) b1 \<and> length b' = length b1 \<and>
          args_of b' (Suc q # new) = at_split (m - length (a0 @ [p])) v"
          using cut(3,5) nu(2) less.prems(3,6) uv more(1) by (intro less.hyps) (auto simp: q)
        then obtain b' new where ih: "parse_loop b1 n m q (a0 @ [p, Suc q]) = Some (b', a0 @ p # Suc q # new)"
          "take (Suc q) b' = take (Suc q) b1" "length b' = length b"
          "args_of b' (Suc q # new) = at_split (m - Suc (length a0)) v" by (auto simp: b1)
        have "parse_loop b n m i (a0 @ [p]) = parse_loop b1 n m q (a0 @ [p, Suc q])"
          using more(1) sc cut(4) nu(2) less.prems(3,6) uv Cons by (auto simp: parse_loop.simps [of b] q)
        moreover have "take p b' = take p b" using arg_cong [OF ih(2), of "take p"] cut(6) by (simp add: q)
        moreover have "cstr (drop p b') = u" using cstr_of_prefix [OF _ cut(2) nu(1)] ih(2) by (simp add: q)
        moreover have "m - Suc (length a0) = Suc m'" using more(2) by simp
        ultimately show ?thesis using ih split Cons by (auto simp: args_of_def)
      qed
    qed
  qed
qed

lemma parseBuff2Param_spec:
  assumes "NUL \<in> set b" "cstr b \<noteq> []" "m \<le> MAX_ARGUMENT"
  shows "\<exists>b' argv. parseBuff2Param b m = Some (0, b', argv) \<and> length b' = length b \<and>
    args_of b' argv = at_split (if m = 0 then MAX_ARGUMENT else m) (cstr b)"
proof -
  obtain r where r: "b = cstr b @ NUL # r" by (rule cstr_splitE [OF assms(1)])
  from r have "drop 0 b = cstr b @ NUL # r" by simp
  note spec = parse_loop_spec [OF this NUL_notin_cstr, of "length (cstr b)" 0 "[]"]
  let ?m = "if m = 0 then MAX_ARGUMENT else m"
  have "Suc 0 \<le> ?m" "?m \<le> MAX_ARGUMENT" using assms(3) by (auto simp: MAX_ARGUMENT_def)
  then obtain b' new where "parse_loop b (length (cstr b)) ?m 0 [0] = Some (b', 0 # new)"
    "length b' = length b" "args_of b' (0 # new) = at_split ?m (cstr b)"
    using spec [of ?m] by auto
  with assms show ?thesis by (auto simp: parseBuff2Param_def c_strlen_def)
qed

lemma parseBuff2Param_empty: "parseBuff2Param (NUL # r) m = Some (ERROR_INVALID_PARAMETER, NUL # r, [])"
  by (simp add: parseBuff2Param_def c_strlen_def)

section \<open>The command table\<close>

text \<open>
  The entries in the order of the table, each with the build switches that guard it (none for
  most), its name and \<open>maxargu\<close>; entries under \<open>#if 0\<close> are absent. \<open>!MBED_EN\<close> is the \<open>#else\<close>
  branch of \<open>#ifdef MBED_EN\<close>.
\<close>

definition atcmd_entries :: "(string list \<times> string \<times> nat) list" where
  "atcmd_entries = [
     ([], ''AT+REBOOT'', 0), ([], ''help'', 0), ([], ''AT+VERSION'', 0), ([], ''AT+MF_INFO'', 0),
     ([], ''AT+SCAN'', 0), ([], ''AT+SET_WIFICONFIG'', 0), ([], ''AT+SET_WIFICONFIG2'', 0),
     ([], ''AT+GET_CONFIG'', 0), ([], ''AT+WIFICONNECT'', 0), ([], ''AT+WIFICONNECT2'', 0),
     ([], ''AT+WIFIDISCONNECT'', 0), ([], ''AT+WIFIDISCONNECT2'', 0), ([], ''AT+SET_IFCONFIG'', 0),
     ([], ''AT+SET_IFCONFIG2'', 0), ([], ''AT+NETSTATUS'', 0), ([], ''AT+NETSTATUS2'', 0),
     ([], ''AT+SHOWCONNECTAP'', 0), ([], ''AT+SHOWALLAP'', 0), ([], ''AT+DUT_START'', 0),
     ([], ''AT+ACTIVECONNECT'', 0), ([], ''testp'', 0), ([], ''sysinfo'', 0), ([], ''meminfo'', 0),
     ([], ''md'', 2), ([], ''iperf'', 0), ([], ''ping'', 0), ([], ''regw'', 0), ([], ''regr'', 2),
     ([], ''AT+AP_EXIT'', 0), ([], ''AT+SET_APCONFIG'', 0), ([], ''AT+AP'', 0), ([], ''AT+GET_APMODE'', 0),
     ([], ''AT+HKAP'', 0), ([], ''AT+TCPCONNECT'', 0), ([], ''AT+TCPSEND'', 2),
     ([''LWIP_IPV6''], ''AT+IPV6SEND'', 2), ([], ''AT+TCPDISCONNECT'', 0), ([], ''AT+TCPLISTEN'', 0),
     ([], ''AT+TCPUNLISTEN'', 0), ([''LWIP_IPV6''], ''AT+IPV6LISTEN'', 0), ([], ''AT+UDPCREATE'', 0),
     ([], ''AT+UDPSEND'', 4), ([], ''AT+UDPCLOSE'', 0),
     ([''SUPPORT_PARTITION_CFG_TABLE''], ''AT+CFGPARSER'', 0),
     ([''SUPPORT_PARTITION_CFG_TABLE''], ''AT+CFG_TESTER'', 0),
     ([''SUPPORT_PARTITION_CFG_TABLE''], ''AT+CFG_MAC_TESTER'', 0),
     ([''SUPPORT_UASCENT_USER_CFG''], ''AT+USER_FLASH'', 0), ([], ''rf'', 0), ([], ''AT+RF_START'', 2),
     ([], ''AT+RF_CHANNEL'', 0), ([], ''AT+RF_RATE'', 1), ([], ''AT+RF_2GBAND_GAIN'', 1),
     ([], ''AT+RF_GAIN'', 1), ([], ''AT+RF_RATE_GAIN'', 2), ([], ''AT+RF_READ_TEMPCS'', 0),
     ([], ''AT+RF_STOP'', 0), ([], ''AT+RF_RESET'', 0), ([], ''AT+RF_COUNT'', 1),
     ([], ''AT+RF_ENABLE_TCSR'', 1), ([], ''AT+RF_DUMP'', 0), ([], ''AT+RF_CALI_DPD'', 1),
     ([], ''AT+RF_MANU_DPD'', 0), ([], ''AT+RF_FREQOFFSET'', 2), ([], ''AT+RF_FREQOFFSET_READXO'', 0),
     ([], ''AT+RF_FREQOFFSET_READXI'', 0), ([], ''AT+RF_2GPA1'', 1), ([], ''AT+RF_2GPA2'', 1),
     ([], ''AT+RF_2GPA3'', 1), ([], ''AT+RF_2GPABIAS'', 1), ([], ''AT+RF_2GPACELL'', 1),
     ([], ''AT+RF_2GPACAP'', 1), ([], ''AT+RF_LDO'', 1), ([], ''AT+RF_DCDC'', 1), ([], ''AT+RF_DCDCV'', 1),
     ([], ''AT+RF_DLDOV'', 1), ([], ''AT+RF_XOLDO'', 1), ([], ''AT+RF_RXPAD_CH13'', 1),
     ([], ''AT+RF_TEMP_BOUNDARY'', 2), ([], ''AT+RF_TABLE_RT'', 18), ([], ''AT+RF_TABLE_HT'', 18),
     ([], ''AT+RF_TABLE_LT'', 18), ([], ''AT+RF_TABLE_GAIN'', 18), ([], ''AT+RF_TABLE_BRATE_GAIN'', 1),
     ([], ''AT+RF_TABLE_GRATE_GAIN'', 4), ([], ''AT+RF_TABLE_20NRATE_GAIN'', 4),
     ([], ''AT+RF_TABLE_40NRATE_GAIN'', 4), ([], ''AT+RF_WRITE_MAC1'', 1), ([], ''AT+RF_READ_MAC1'', 1),
     ([], ''AT+RF_WRITE_MAC2'', 1), ([], ''AT+RF_READ_MAC2'', 1), ([], ''AT+EFUSE_ENABLE_WRITE'', 0),
     ([], ''AT+EFUSE_WRITE_MAC'', 1), ([], ''AT+EFUSE_READ_MAC'', 1), ([], ''AT+EFUSE_DUMP'', 0),
     ([], ''AT+RF_5G_BB_SCALE'', 0), ([], ''AT+RF_5G_BIAS1'', 0), ([], ''AT+RF_5G_BIAS2'', 0),
     ([], ''AT+RF_5GTABLE_RT'', 0), ([], ''AT+RF_5GTABLE_HT'', 0), ([], ''AT+RF_5GTABLE_LT'', 0),
     ([], ''AT+RF_5GTABLE_BIAS1'', 0), ([], ''AT+RF_5GTABLE_BIAS2'', 0),
     ([], ''AT+RF_5GTABLE_BAND_THRESHOLD'', 0), ([], ''AT+RF_TONE_GEN'', 0), ([], ''AT+POWERSAVE'', 0),
     ([''SSL_EN'', ''MBED_EN''], ''AT+SSLTEST'', 0), ([''SSL_EN'', ''!MBED_EN''], ''AT+SSLCONNECT'', 0),
     ([''SSL_EN'', ''!MBED_EN''], ''AT+SSLSEND'', 0), ([''SSL_EN'', ''!MBED_EN''], ''AT+SSLDISCONNECT'', 0),
     ([''SMARTCONFIG_EN''], ''AT+SC'', 0), ([], ''AT+SET_AUTO_CONNECT'', 1),
     ([''OTA_EN''], ''AT+OTASETSERVER'', 0), ([''OTA_EN''], ''AT+OTASETPARAM'', 0),
     ([''OTA_EN''], ''AT+OTASTART'', 0), ([''JD_CLOUD_EN''], ''AT+JD_DEVICE_REMOVE'', 0),
     ([''JD_CLOUD_EN''], ''AT+JD_START'', 0), ([], ''AT+SET_GPIO_TRI_STATE'', 0),
     ([], ''AT+SET_GPIO_LOGIC'', 0), ([], ''AT+SET_GPIO_PULL'', 0), ([], ''AT+READ_GPIO'', 0),
     ([], ''AT+SET_GPIO_INT'', 0), ([], ''AT+SET_PWM'', 0), ([], ''AT+SET_PWM_DISABLE'', 0),
     ([], ''AT+SET_PWM_ENABLE'', 0), ([], ''AT+SET_PWM_RECONFIG'', 0), ([], ''fixrate'', 0),
     ([], ''rc_mask'', 0), ([], ''AT+SET_COUNTRY_CODE'', 0), ([], ''q'', 0), ([], ''mib'', 0),
     ([''SETTING_UART_FW_UPGRADE_0''], ''AT+UART_FW_UPGRADE'', 0), ([], ''AT+H'', 0)]"

definition atcmdicomm_info_tbl :: "(string \<Rightarrow> bool) \<Rightarrow> (string \<times> nat) list" where
  "atcmdicomm_info_tbl build =
     map snd (filter (\<lambda>(fs, _). list_all build fs) atcmd_entries)"

section \<open>The dispatcher\<close>

datatype at_rsp = RspError int | RspOK string

text \<open>The loop over \<open>MAX_CMD_LEN\<close> that looks for the end of the command word.\<close>

definition at_ends :: "char \<Rightarrow> bool" where
  "at_ends c \<longleftrightarrow> c = NUL \<or> c = CHR ''='' \<or> c = CHR '' ''"

function cmd_scan :: "buf \<Rightarrow> nat \<Rightarrow> nat option option" where
  "cmd_scan b i =
     (if i < MAX_CMD_LEN
      then do { c \<leftarrow> rd b i; if at_ends c then Some (Some i) else cmd_scan b (Suc i) }
      else Some None)"
  by pat_completeness auto
termination by (relation "measure (\<lambda>(b, i). MAX_CMD_LEN - i)") auto

declare cmd_scan.simps [simp del]

text \<open>\<open>strcmp(name, cmd) == 0\<close> reads at most the bytes of \<open>name\<close> and its terminator.\<close>

definition c_streq :: "string \<Rightarrow> buf \<Rightarrow> bool" where
  "c_streq name cmd \<longleftrightarrow> take (Suc (length name)) cmd = name @ [NUL]"

text \<open>
  \<open>At_Parser\<close>. The line feed test compares \<open>buff[0]\<close> after it was overwritten with NUL, as the
  code does. The result is the return code, what is printed, the text buffer and the world.
\<close>

definition At_Parser ::
  "(string \<times> nat) list \<Rightarrow> (string \<Rightarrow> string list \<Rightarrow> 'w \<Rightarrow> int \<times> 'w) \<Rightarrow> buf \<Rightarrow>
   buf \<Rightarrow> nat \<Rightarrow> 'w \<Rightarrow> (int \<times> at_rsp list \<times> buf \<times> 'w) option" where
  "At_Parser tbl pfHandle cmd0 buff len w =
     do {
       buff \<leftarrow> wr buff len NUL;
       c0 \<leftarrow> rd buff 0;
       if Suc len = 1 \<and> (c0 = CHR 0x0D \<or> c0 = CHR 0x0A) then Some (ERROR_SUCCESS, [], buff, w)
       else do {
         e \<leftarrow> cmd_scan buff 0;
         (cmd, operat) \<leftarrow> (case e of
            None \<Rightarrow> Some (cmd0, NUL)
          | Some i \<Rightarrow> do { c1 \<leftarrow> blit cmd0 0 (take i buff); c2 \<leftarrow> wr c1 i NUL; Some (c2, buff ! i) });
         (nRet, buff, w) \<leftarrow> (case find (\<lambda>(name, _). c_streq name cmd) tbl of
            None \<Rightarrow> Some (ERROR_UNKNOWN_COMMAND, buff, w)
          | Some (name, maxargu) \<Rightarrow> do {
              let k = Suc (length name);
              (args, buff) \<leftarrow> (if operat \<noteq> NUL
                 then do { (_, b', argv) \<leftarrow> parseBuff2Param (drop k buff) maxargu;
                           Some (args_of b' argv, take k buff @ b') }
                 else Some ([], buff));
              let (nRet, w) = pfHandle name args w;
              Some (nRet, buff, w) });
         let rsp = (if nRet < ERROR_SUCCESS then [RspError nRet]
                    else if nRet = ERROR_SUCCESS then [RspOK (cstr cmd)] else []);
         Some (nRet, rsp, buff, w) } }"

lemma cmd_scan_found:
  "i + k < MAX_CMD_LEN \<Longrightarrow> i + k < length b \<Longrightarrow> at_ends (b ! (i + k)) \<Longrightarrow>
   (\<forall>j<k. \<not> at_ends (b ! (i + j))) \<Longrightarrow> cmd_scan b i = Some (Some (i + k))"
proof (induction k arbitrary: i)
  case 0
  then show ?case by (simp add: cmd_scan.simps mem_simps)
next
  case (Suc k)
  have "\<not> at_ends (b ! i)" using Suc.prems(4) by (metis add.right_neutral zero_less_Suc)
  moreover have "cmd_scan b (Suc i) = Some (Some (Suc i + k))"
    using Suc.prems by (intro Suc.IH) auto
  ultimately show ?case using Suc.prems(1,2) by (simp add: cmd_scan.simps [of b i] mem_simps)
qed

lemma cmd_scan_total:
  "MAX_CMD_LEN \<le> length b \<Longrightarrow> \<exists>r. cmd_scan b i = Some r \<and> (\<forall>k. r = Some k \<longrightarrow> k < MAX_CMD_LEN)"
proof (induction b i rule: cmd_scan.induct)
  case (1 b i)
  show ?case
  proof (cases "i < MAX_CMD_LEN")
    case True
    with 1 show ?thesis by (auto simp: cmd_scan.simps [of b i] mem_simps)
  qed (simp add: cmd_scan.simps)
qed

lemma c_streq_terminated: "NUL \<notin> set w \<Longrightarrow> NUL \<notin> set name \<Longrightarrow> c_streq name (w @ NUL # r) \<longleftrightarrow> name = w"
proof
  assume nn: "NUL \<notin> set w" "NUL \<notin> set name" and "c_streq name (w @ NUL # r)"
  then have t: "take (Suc (length name)) (w @ NUL # r) = name @ [NUL]" by (simp add: c_streq_def)
  have "w @ NUL # r = (name @ [NUL]) @ drop (Suc (length name)) (w @ NUL # r)"
    using t by (metis append_take_drop_id)
  then have "cstr (w @ NUL # r) = cstr (name @ NUL # drop (Suc (length name)) (w @ NUL # r))" by simp
  with nn show "name = w" by simp
qed (simp add: c_streq_def)

lemma find_first_match:
  "distinct (map fst tbl) \<Longrightarrow> (w, m) \<in> set tbl \<Longrightarrow> find (\<lambda>(name, _). name = w) tbl = Some (w, m)"
  by (induction tbl) (force simp: rev_image_eqI)+

text \<open>A command word with arguments, as the text buffer holds it when the line is complete.\<close>

definition at_word :: "string \<Rightarrow> bool" where
  "at_word w \<longleftrightarrow> length w < MAX_CMD_LEN \<and> list_all (\<lambda>c. \<not> at_ends c) w"

lemma at_word_NUL: "at_word w \<Longrightarrow> NUL \<notin> set w"
  by (auto simp: at_word_def at_ends_def list_all_iff)

lemma At_Parser_word:
  assumes "at_word w" "at_ends c" "length cmd0 = MAX_CMD_LEN"
    and "buff[len := NUL] = w @ c # t" "len < length buff"
    and nn: "\<forall>n \<in> set (map fst tbl). NUL \<notin> set n"
  shows "At_Parser tbl pfHandle cmd0 buff len wd =
    (case find (\<lambda>(name, _). name = w) tbl of
       None \<Rightarrow> Some (ERROR_UNKNOWN_COMMAND, [RspError ERROR_UNKNOWN_COMMAND], w @ c # t, wd)
     | Some (name, maxargu) \<Rightarrow> do {
         (args, b) \<leftarrow> (if c \<noteq> NUL then do { (_, b', argv) \<leftarrow> parseBuff2Param t maxargu;
             Some (args_of b' argv, w @ c # b') } else Some ([], w @ c # t));
         let (nRet, wd') = pfHandle w args wd;
         Some (nRet, if nRet < ERROR_SUCCESS then [RspError nRet]
                     else if nRet = ERROR_SUCCESS then [RspOK w] else [], b, wd') })"
proof -
  let ?b = "w @ c # t"
  have b: "wr buff len NUL = Some ?b" using assms(4,5) by (simp add: wr_def)
  have c0: "rd ?b 0 = Some (?b ! 0)" by (simp add: rd_def)
  have nolf: "(len = 0 \<and> (?b ! 0 = CHR 0x0D \<or> ?b ! 0 = CHR 0x0A)) = False"
  proof (cases "len = 0")
    case True
    have "buff[len := NUL] ! len = NUL" using assms(5) by (rule nth_list_update_eq)
    with True assms(4) show ?thesis by simp
  qed simp
  have sc: "cmd_scan ?b 0 = Some (Some (length w))"
    using cmd_scan_found [of 0 "length w" ?b] assms(1,2)
    by (auto simp: at_word_def list_all_length nth_append)
  have lw: "length w < length cmd0" using assms(1,3) by (simp add: at_word_def)
  then have cp: "blit cmd0 0 w = Some (w @ drop (length w) cmd0)" by (simp add: mem_simps)
  obtain d where d: "drop (length w) cmd0 = d # drop (Suc (length w)) cmd0"
    using lw by (metis Cons_nth_drop_Suc)
  have cw: "wr (w @ drop (length w) cmd0) (length w) NUL = Some (w @ NUL # drop (Suc (length w)) cmd0)"
    unfolding d by (simp add: wr_def)
  have fd: "find (\<lambda>(name, _). c_streq name (w @ NUL # drop (Suc (length w)) cmd0)) tbl =
      find (\<lambda>(name, _). name = w) tbl"
    using nn c_streq_terminated [OF at_word_NUL [OF assms(1)]]
    by (intro find_cong) auto
  have cs: "cstr (w @ NUL # drop (Suc (length w)) cmd0) = w"
    using at_word_NUL [OF assms(1)] by simp
  have nm: "find (\<lambda>(name, _). name = w) tbl = Some (name, m) \<Longrightarrow> name = w" for name m
    by (auto simp: find_Some_iff)
  note unf = At_Parser_def b c0 nolf sc cp cw fd Let_def ERROR_SUCCESS_def ERROR_UNKNOWN_COMMAND_def
  show ?thesis
  proof (cases "find (\<lambda>(name, _). name = w) tbl")
    case None
    then show ?thesis by (simp add: unf)
  next
    case (Some e)
    then obtain m where e: "e = (w, m)" using nm by (cases e) auto
    show ?thesis
    proof (cases "c = NUL")
      case True
      with Some e show ?thesis by (simp add: unf [unfolded True] cs split: prod.splits)
    next
      case False
      with Some e show ?thesis
        by (cases "parseBuff2Param t m") (simp_all add: unf cs split: prod.splits)
    qed
  qed
qed

section \<open>Properties\<close>

text \<open>
  Distinctness is evaluated on the names read as numbers to the base 256, where two names
  usually differ in the lowest bits.
\<close>

lemma atcmd_codes_distinct:
  "distinct (map (\<lambda>(_, n, _). fold (\<lambda>c k. k * 256 + of_char c) n (0 :: nat)) atcmd_entries)"
  by (simp add: atcmd_entries_def)

lemma atcmd_names_distinct: "distinct (map (\<lambda>(_, n, _). n) atcmd_entries)"
proof -
  let ?code = "\<lambda>n. fold (\<lambda>c k. k * 256 + of_char c) n (0 :: nat)"
  have "distinct (map ?code (map (\<lambda>(_, n, _). n) atcmd_entries))"
    using atcmd_codes_distinct by (simp add: comp_def split_beta')
  then show ?thesis by (simp only: distinct_map)
qed

lemma atcmd_entries_ok:
  "list_all (\<lambda>(_, n, m). at_word n \<and> m \<le> MAX_ARGUMENT) atcmd_entries"
  by code_simp

lemma at_table_facts:
  "distinct (map fst (atcmdicomm_info_tbl build)) \<and>
   list_all (\<lambda>(n, m). at_word n \<and> m \<le> MAX_ARGUMENT) (atcmdicomm_info_tbl build)"
proof
  have "map fst (atcmdicomm_info_tbl build) =
      map (\<lambda>(_, n, _). n) (filter (\<lambda>(fs, _). list_all build fs) atcmd_entries)"
    by (simp add: atcmdicomm_info_tbl_def split_beta')
  then show "distinct (map fst (atcmdicomm_info_tbl build))"
    using atcmd_names_distinct by (simp add: distinct_map_filter)
  show "list_all (\<lambda>(n, m). at_word n \<and> m \<le> MAX_ARGUMENT) (atcmdicomm_info_tbl build)"
    using atcmd_entries_ok by (auto simp: atcmdicomm_info_tbl_def list_all_iff)
qed

text \<open>
  In every build configuration the command table is usable by the dispatcher: no two entries
  have the same name (so no command hides another), every name is a command word shorter than
  the 32-byte local buffer, and no entry allows more arguments than \<open>argv\<close> has places.
\<close>

lemma at_table_well_formed:
  "distinct (map fst (atcmdicomm_info_tbl build)) \<and>
   list_all (\<lambda>(n, m). at_word n \<and> m \<le> MAX_ARGUMENT) (atcmdicomm_info_tbl build)"
  by (rule at_table_facts)

lemma At_Parser_command:
  assumes "(w, m) \<in> set (atcmdicomm_info_tbl build)" "c = CHR ''='' \<or> c = CHR '' ''"
    and "buff[len := NUL] = w @ c # args @ NUL # r" "NUL \<notin> set args" "args \<noteq> []"
    and "len < length buff" "length cmd0 = MAX_CMD_LEN"
  shows "map_option (\<lambda>(n, rsp, _, wd'). (n, rsp, wd'))
      (At_Parser (atcmdicomm_info_tbl build) pfHandle cmd0 buff len wd) =
    (let (n, wd') = pfHandle w (at_split (if m = 0 then MAX_ARGUMENT else m) args) wd
     in Some (n, if n < 0 then [RspError n] else if n = 0 then [RspOK w] else [], wd'))"
proof -
  let ?tbl = "atcmdicomm_info_tbl build"
  have tbl: "distinct (map fst ?tbl)" "list_all (\<lambda>(n, m). at_word n \<and> m \<le> MAX_ARGUMENT) ?tbl"
    using at_table_facts by auto
  then have w: "at_word w" "m \<le> MAX_ARGUMENT" using assms(1) by (auto simp: list_all_iff)
  have nn: "\<forall>n \<in> set (map fst ?tbl). NUL \<notin> set n"
    using tbl(2) at_word_NUL by (fastforce simp: list_all_iff)
  have c: "at_ends c" "c \<noteq> NUL" using assms(2) by (auto simp: at_ends_def)
  note P = At_Parser_word [OF w(1) c(1) assms(7,3,6) nn, of pfHandle wd]
  have "cstr (args @ NUL # r) \<noteq> []" using assms(4,5) by simp
  from parseBuff2Param_spec [OF _ this w(2)] obtain b' argv where
    "parseBuff2Param (args @ NUL # r) m = Some (0, b', argv)"
    "args_of b' argv = at_split (if m = 0 then MAX_ARGUMENT else m) args"
    using assms(4) by auto
  with P find_first_match [OF tbl(1) assms(1)] c(2) show ?thesis
    by (simp add: ERROR_SUCCESS_def Let_def split: prod.splits)
qed

lemma cmd_scan_SomeD:
  "cmd_scan b i = Some (Some k) \<Longrightarrow> i \<le> k \<and> k < MAX_CMD_LEN \<and> k < length b \<and> at_ends (b ! k) \<and>
   (\<forall>j. i \<le> j \<longrightarrow> j < k \<longrightarrow> \<not> at_ends (b ! j))"
proof (induction b i rule: cmd_scan.induct)
  case (1 b i)
  have i: "i < MAX_CMD_LEN" using 1(2) by (simp add: cmd_scan.simps [of b i] split: if_splits)
  with 1(2) have l: "i < length b" by (cases "i < length b") (simp_all add: cmd_scan.simps [of b i] rd_def)
  show ?case
  proof (cases "at_ends (b ! i)")
    case True
    with 1(2) i l show ?thesis by (simp add: cmd_scan.simps [of b i] rd_def)
  next
    case False
    with 1(2) i l have "cmd_scan b (Suc i) = Some (Some k)" by (simp add: cmd_scan.simps [of b i] rd_def)
    from 1(1) [OF i _ _ this] l False have "Suc i \<le> k \<and> k < MAX_CMD_LEN \<and> k < length b \<and> at_ends (b ! k) \<and>
      (\<forall>j. Suc i \<le> j \<longrightarrow> j < k \<longrightarrow> \<not> at_ends (b ! j))" by (simp add: rd_def)
    with False show ?thesis by (metis Suc_leD Suc_leI le_neq_implies_less)
  qed
qed

lemma parseBuff2Param_total:
  assumes "NUL \<in> set t" "m \<le> MAX_ARGUMENT"
  shows "\<exists>n b argv. parseBuff2Param t m = Some (n, b, argv) \<and> length b = length t"
proof (cases "cstr t = []")
  case True
  with assms(1) show ?thesis by (simp add: parseBuff2Param_def c_strlen_def)
next
  case False
  from parseBuff2Param_spec [OF assms(1) False assms(2)] show ?thesis by blast
qed

text \<open>
  C22: A complete command line \<open>name=arguments\<close> (or with a space for the equals sign) runs the
  handler of exactly that name, with the arguments split at the commas into at most \<open>maxargu\<close>
  (24 for entries that say 0) pieces, and prints the error, \<open>OK\<close> or nothing by the sign of the
  handler's return code.
\<close>

theorem At_Parser_runs_command:
  assumes "(w, m) \<in> set (atcmdicomm_info_tbl build)" "c = CHR ''='' \<or> c = CHR '' ''"
    and "buff[len := NUL] = w @ c # args @ NUL # r" "NUL \<notin> set args" "args \<noteq> []"
    and "len < length buff" "length cmd0 = MAX_CMD_LEN"
  shows "map_option (\<lambda>(n, rsp, _, wd'). (n, rsp, wd'))
      (At_Parser (atcmdicomm_info_tbl build) pfHandle cmd0 buff len wd) =
    (let (n, wd') = pfHandle w (at_split (if m = 0 then MAX_ARGUMENT else m) args) wd
     in Some (n, if n < 0 then [RspError n] else if n = 0 then [RspOK w] else [], wd'))"
  by (rule At_Parser_command [OF assms])

lemma At_Parser_runs_command_witness:
  "map_option (\<lambda>(n, rsp, _, wd'). (n, rsp, wd'))
     (At_Parser (atcmdicomm_info_tbl (\<lambda>_. False)) (\<lambda>name args _. (0, name # args)) (replicate 32 NUL)
       (''regr=c0a,4'' @ [NUL]) 10 [])
   = Some (0, [RspOK ''regr''], [''regr'', ''c0a'', ''4''])"
proof -
  have mem: "(''regr'', 2) \<in> set (atcmdicomm_info_tbl (\<lambda>_. False))"
    by (simp add: atcmdicomm_info_tbl_def atcmd_entries_def)
  have split: "at_split 2 ''c0a,4'' = [''c0a'', ''4'']" by code_simp
  show ?thesis
    by (subst At_Parser_runs_command [OF mem, where c = "CHR ''=''" and args = "''c0a,4''" and r = "[]"])
      (simp_all add: MAX_CMD_LEN_def split)
qed

lemma At_Parser_total:
  assumes "len < length buff" "MAX_CMD_LEN \<le> length buff" "length cmd0 = MAX_CMD_LEN"
  shows "\<exists>n rsp b wd'. At_Parser (atcmdicomm_info_tbl build) pfHandle cmd0 buff len wd = Some (n, rsp, b, wd') \<and>
    length b = length buff"
proof -
  let ?tbl = "atcmdicomm_info_tbl build" and ?b = "buff[len := NUL]"
  have tbl: "list_all (\<lambda>(n, m). at_word n \<and> m \<le> MAX_ARGUMENT) ?tbl"
    using at_table_facts by auto
  have nn: "\<forall>n \<in> set (map fst ?tbl). NUL \<notin> set n"
    using tbl at_word_NUL by (fastforce simp: list_all_iff)
  have wr: "wr buff len NUL = Some ?b" "rd ?b 0 = Some (?b ! 0)"
    using assms(1) by (auto simp: wr_def rd_def)
  obtain e where e: "cmd_scan ?b 0 = Some e" using cmd_scan_total [of ?b 0] assms(2) by auto
  show ?thesis
  proof (cases e)
    case None
    then show ?thesis
      by (cases "find (\<lambda>(name, _). c_streq name cmd0) ?tbl")
        (simp_all add: At_Parser_def wr e Let_def split: prod.splits)
  next
    case (Some k)
    note k = cmd_scan_SomeD [OF e [unfolded Some]]
    have "?b = take k ?b @ ?b ! k # drop (Suc k) ?b" using k by (metis id_take_nth_drop)
    moreover have "at_word (take k ?b)" using k by (auto simp: at_word_def list_all_length)
    ultimately obtain w c t where eq: "?b = w @ c # t" and w: "at_word w" and c: "at_ends c"
      using k by blast
    have lb: "length buff = Suc (length w + length t)" using arg_cong [OF eq, of length] by simp
    note P = At_Parser_word [OF w c assms(3) eq assms(1) nn, of pfHandle wd]
    have t: "NUL \<in> set t" if "c \<noteq> NUL"
    proof -
      have "?b ! len = NUL" using assms(1) by simp
      then have "NUL \<in> set ?b" using assms(1) by (metis length_list_update nth_mem)
      then show ?thesis using eq at_word_NUL [OF w] that by auto
    qed
    show ?thesis
    proof (cases "find (\<lambda>(name, _). name = w) ?tbl")
      case None
      with P lb show ?thesis by simp
    next
      case (Some nm)
      then have "nm \<in> set ?tbl" by (metis find_Some_iff nth_mem)
      moreover obtain name m where "nm = (name, m)" by fastforce
      ultimately have nm: "nm = (name, m)" "(name, m) \<in> set ?tbl" by auto
      then have "m \<le> MAX_ARGUMENT" using tbl by (auto simp: list_all_iff)
      with t parseBuff2Param_total [of t m] have "c \<noteq> NUL \<Longrightarrow> \<exists>x b y. parseBuff2Param t m = Some (x, b, y) \<and> length b = length t" by blast
      with P lb Some nm(1) show ?thesis
        by (cases "c = NUL") (auto split: prod.splits)
    qed
  qed
qed



text \<open>
  A line whose first 32 bytes hold no end of word leaves \<open>cmd\<close> as it was: if the stack still
  holds the name of a command there, that command runs, although the line does not name it.
\<close>

lemma At_Parser_overlong_runs_stale:
  assumes "(w, m) \<in> set (atcmdicomm_info_tbl build)"
    and "\<forall>i<MAX_CMD_LEN. \<not> at_ends (buff ! i)" "MAX_CMD_LEN \<le> len" "len < length buff"
  shows "\<exists>rsp b. At_Parser (atcmdicomm_info_tbl build) pfHandle (w @ NUL # junk) buff len wd =
    Some (fst (pfHandle w [] wd), rsp, b, snd (pfHandle w [] wd))"
proof -
  let ?tbl = "atcmdicomm_info_tbl build" and ?b = "buff[len := NUL]"
  have tbl: "distinct (map fst ?tbl)" "list_all (\<lambda>(n, m). at_word n \<and> m \<le> MAX_ARGUMENT) ?tbl"
    using at_table_facts by auto
  have nn: "\<forall>(n, _) \<in> set ?tbl. NUL \<notin> set n"
    using tbl(2) at_word_NUL by (fastforce simp: list_all_iff)
  have wr: "wr buff len NUL = Some ?b" "rd ?b 0 = Some (?b ! 0)" "len \<noteq> 0"
    using assms(3,4) by (auto simp: wr_def rd_def MAX_CMD_LEN_def)
  have "cmd_scan ?b 0 = Some None"
  proof -
    obtain e where e: "cmd_scan ?b 0 = Some e" using cmd_scan_total [of ?b 0] assms(3,4) by auto
    show ?thesis
    proof (cases e)
      case (Some k)
      from cmd_scan_SomeD [OF e [unfolded Some]] assms(2,3) show ?thesis by (metis nth_list_update_neq order_less_le_trans less_irrefl)
    qed (use e in simp)
  qed
  moreover have "find (\<lambda>(name, _). c_streq name (w @ NUL # junk)) ?tbl = Some (w, m)"
  proof -
    have "c_streq n (w @ NUL # junk) \<longleftrightarrow> n = w" if "(n, k) \<in> set ?tbl" for n k
      using nn that assms(1) by (intro c_streq_terminated) blast+
    then have "find (\<lambda>(name, _). c_streq name (w @ NUL # junk)) ?tbl = find (\<lambda>(name, _). name = w) ?tbl"
      by (intro find_cong) auto
    with find_first_match [OF tbl(1) assms(1)] show ?thesis by simp
  qed
  ultimately show ?thesis by (simp add: At_Parser_def wr Let_def split: prod.splits)
qed

lemma At_Parser_overlong_runs_stale_witness:
  "\<exists>rsp b. At_Parser (atcmdicomm_info_tbl (\<lambda>_. False)) (\<lambda>name _ _. (1, name))
     (''AT+REBOOT'' @ NUL # replicate 22 CHR ''x'') (replicate 40 CHR ''A'') 39 []
   = Some (1, rsp, b, ''AT+REBOOT'')"
proof -
  have mem: "(''AT+REBOOT'', 0) \<in> set (atcmdicomm_info_tbl (\<lambda>_. False))"
    by (simp add: atcmdicomm_info_tbl_def atcmd_entries_def)
  show ?thesis
    using At_Parser_overlong_runs_stale [OF mem, of "replicate 40 CHR ''A''" 39
        "\<lambda>name _ _. (1, name)" "replicate 22 CHR ''x''" "[]"]
    by (simp add: MAX_CMD_LEN_def at_ends_def)
qed

end
