(* ===== verification/CliEdit.thy ===== *)
theory CliEdit
  imports CliRx AtCmd
begin

text \<open>
  The line editor of the command line, \<open>projects/mac_atcmd/src/cli/cli.c\<close>: \<open>Cli_Init\<close>,
  \<open>Cli_Reset_Buf\<close>, one pass of \<open>Cli_Start\<close> and its key handling, over the receive ring of \<open>CliRx\<close>
  and the dispatcher of \<open>AtCmd\<close>. \<open>CLI_HISTORY_ENABLE\<close> is defined nowhere in the tree, so the
  history code is not compiled: the escape key reads one more byte from the driver and drops it.
  \<open>con\<close> lists what is written to the console. The abstract editor \<open>ed_step\<close> works on the line
  typed so far; the code refines it.
\<close>

definition CLI_BUFFER_SIZE :: nat where "CLI_BUFFER_SIZE = 2048"
definition CLI_PROMPT :: string where "CLI_PROMPT = ''?>''"

datatype con_out = PutChar char | Print string | PrintUsage | PrintAt "at_rsp list"

record cli =
  sgCmdBuffer :: buf
  sgCurPos :: u32
  con :: "con_out list"

definition put :: "con_out list \<Rightarrow> cli \<Rightarrow> cli" where
  "put xs s = s\<lparr>con := con s @ xs\<rparr>"

definition print_prompt :: "cli \<Rightarrow> cli" where
  "print_prompt = put [Print (CHR 0x0A # CLI_PROMPT)]"

definition Cli_Init :: "cli_rx \<times> cli \<Rightarrow> (cli_rx \<times> cli) option" where
  "Cli_Init = (\<lambda>(rx, s). do {
     let s = print_prompt s;
     b \<leftarrow> wr (sgCmdBuffer s) 0 NUL;
     Some (rx\<lparr>rx_evt := False, rx_isr_on := True\<rparr>, s\<lparr>sgCmdBuffer := b, sgCurPos := 0\<rparr>) })"

definition Cli_Reset_Buf :: "cli \<Rightarrow> cli option" where
  "Cli_Reset_Buf s = do {
     n \<leftarrow> c_strlen (sgCmdBuffer s);
     b \<leftarrow> blit (sgCmdBuffer s) 0 (replicate n NUL);
     Some (s\<lparr>sgCmdBuffer := b, sgCurPos := 0\<rparr>) }"

text \<open>Append a character to the line, as the \<open>'?'\<close> and \<open>default\<close> cases do.\<close>

definition cli_append :: "char \<Rightarrow> cli \<Rightarrow> cli option" where
  "cli_append ch s =
     (if word_of_nat (CLI_BUFFER_SIZE - 1) > sgCurPos s
      then do {
        b \<leftarrow> wr (sgCmdBuffer s) (unat (sgCurPos s)) ch;
        b \<leftarrow> wr b (unat (sgCurPos s + 1)) NUL;
        Some (put [PutChar ch] (s\<lparr>sgCmdBuffer := b, sgCurPos := sgCurPos s + 1\<rparr>)) }
      else Some s)"

text \<open>
  The \<open>switch\<close> of \<open>Cli_Start\<close>. \<open>cmd0\<close> is what the stack holds where \<open>At_Parser\<close> keeps its array.
\<close>

definition Cli_key ::
  "(string \<times> nat) list \<Rightarrow> (string \<Rightarrow> string list \<Rightarrow> 'w \<Rightarrow> int \<times> 'w) \<Rightarrow> buf \<Rightarrow> char \<Rightarrow>
   cli \<times> 'w \<Rightarrow> (cli \<times> 'w) option" where
  "Cli_key tbl pfHandle cmd0 ch = (\<lambda>(s, w).
     if ch = CHR 0x1B then Some (s, w)
     else if ch = CHR 0x08 \<or> ch = CHR 0x7F then
       (if 0 < sgCurPos s
        then do {
          b \<leftarrow> wr (sgCmdBuffer s) (unat (sgCurPos s - 1)) NUL;
          Some (put [PutChar (CHR 0x08), PutChar (CHR 0x20), PutChar (CHR 0x08)]
                  (s\<lparr>sgCmdBuffer := b, sgCurPos := sgCurPos s - 1\<rparr>), w) }
        else Some (s, w))
     else if ch = CHR 0x0D then
       do {
         n \<leftarrow> c_strlen (sgCmdBuffer s);
         (s, w) \<leftarrow> (if n > 0
           then do {
             b \<leftarrow> wr (sgCmdBuffer s) n NUL;
             (_, rsp, b, w) \<leftarrow> At_Parser tbl pfHandle cmd0 b n w;
             Some (put [PrintAt rsp] (s\<lparr>sgCmdBuffer := b\<rparr>), w) }
           else Some (s, w));
         let s = print_prompt s;
         b \<leftarrow> blit (sgCmdBuffer s) 0 (replicate (CLI_BUFFER_SIZE + 1) NUL);
         Some (s\<lparr>sgCmdBuffer := b, sgCurPos := 0\<rparr>, w) }
     else if ch = CHR ''?'' then
       (if sgCurPos s = 0 then Some (put [PutChar ch, PrintUsage] s, w)
        else map_option (\<lambda>s. (s, w)) (cli_append ch s))
     else map_option (\<lambda>s. (s, w)) (cli_append ch s))"

text \<open>One pass of \<open>Cli_Start\<close>: read a byte from the ring, or wait for the receive event.\<close>

definition Cli_Start ::
  "(string \<times> nat) list \<Rightarrow> (string \<Rightarrow> string list \<Rightarrow> 'w \<Rightarrow> int \<times> 'w) \<Rightarrow> buf \<Rightarrow>
   cli_rx \<times> cli \<times> 'w \<Rightarrow> (cli_rx \<times> cli \<times> 'w) option" where
  "Cli_Start tbl pfHandle cmd0 = (\<lambda>(rx, s, w). do {
     (cnt, dst, rx) \<leftarrow> uart_read 1 (Some [NUL]) rx;
     if cnt < 1 then Some (rx\<lparr>rx_evt := False\<rparr>, s, w)
     else do {
       b \<leftarrow> dst;
       ch \<leftarrow> rd b 0;
       (s, w) \<leftarrow> Cli_key tbl pfHandle cmd0 ch (s, w);
       Some (rx, s, w) } })"

section \<open>The abstract editor\<close>

text \<open>The line after a key, and the line handed to the dispatcher, if any.\<close>

definition ed_step :: "char \<Rightarrow> string \<Rightarrow> string \<times> string option" where
  "ed_step ch line =
     (if ch = CHR 0x1B then (line, None)
      else if ch = CHR 0x08 \<or> ch = CHR 0x7F then (butlast line, None)
      else if ch = CHR 0x0D then ([], if cstr line = [] then None else Some line)
      else if ch = CHR ''?'' \<and> line = [] then (line, None)
      else if length line < CLI_BUFFER_SIZE - 1 then (line @ [ch], None) else (line, None))"

definition line_buf :: "string \<Rightarrow> buf" where
  "line_buf line = line @ replicate (CLI_BUFFER_SIZE + 1 - length line) NUL"

definition cli_rep :: "cli \<Rightarrow> string \<Rightarrow> bool" where
  "cli_rep s line \<longleftrightarrow> length line < CLI_BUFFER_SIZE \<and> sgCmdBuffer s = line_buf line \<and>
     unat (sgCurPos s) = length line"

definition world_of :: "(int \<times> at_rsp list \<times> buf \<times> 'w) option \<Rightarrow> 'w \<Rightarrow> 'w" where
  "world_of r w = (case r of None \<Rightarrow> w | Some (_, _, _, w') \<Rightarrow> w')"

lemma line_buf_length [simp]: "length line < CLI_BUFFER_SIZE \<Longrightarrow> length (line_buf line) = CLI_BUFFER_SIZE + 1"
  by (simp add: line_buf_def)

lemma replicate_upd: "i < n \<Longrightarrow> (replicate n x)[i := x] = replicate n x"
  by (metis list_update_id nth_replicate)

lemma line_buf_snoc:
  assumes "length line < CLI_BUFFER_SIZE - 1"
  shows "(line_buf line)[length line := c, Suc (length line) := NUL] = line_buf (line @ [c])"
proof -
  obtain k where k: "CLI_BUFFER_SIZE + 1 - length line = Suc (Suc k)"
    using assms by (metis CLI_BUFFER_SIZE_def Suc_diff_Suc add.commute diff_Suc_1 less_SucI less_diff_conv plus_1_eq_Suc)
  then have k': "CLI_BUFFER_SIZE - length line = Suc k" by simp
  then show ?thesis using k by (simp add: line_buf_def list_update_append)
qed

lemma line_buf_butlast:
  assumes "line \<noteq> []" "length line < CLI_BUFFER_SIZE"
  shows "(line_buf line)[length line - 1 := NUL] = line_buf (butlast line)"
proof -
  obtain l c where l: "line = l @ [c]" using assms(1) by (metis append_butlast_last_id)
  have "CLI_BUFFER_SIZE + 1 - length l = Suc (CLI_BUFFER_SIZE + 1 - length line)"
    using assms(2) l by simp
  then show ?thesis using l by (simp add: line_buf_def list_update_append)
qed

lemma line_buf_NUL: "length line < CLI_BUFFER_SIZE \<Longrightarrow> NUL \<in> set (line_buf line)"
  by (simp add: line_buf_def)

lemma cstr_line_buf:
  assumes "length line < CLI_BUFFER_SIZE"
  shows "cstr (line_buf line) = cstr line"
proof (cases "NUL \<in> set line")
  case True
  then obtain r where "line = cstr line @ NUL # r" by (rule cstr_splitE)
  then have "line_buf line = cstr line @ NUL # (r @ replicate (CLI_BUFFER_SIZE + 1 - length line) NUL)"
    unfolding line_buf_def by (metis append_Cons append_assoc)
  then show ?thesis by simp
next
  case False
  obtain k where "CLI_BUFFER_SIZE + 1 - length line = Suc k"
    using assms by (metis Suc_diff_le Suc_eq_plus1 less_imp_le_nat)
  with False show ?thesis by (simp add: line_buf_def cstr_id)
qed

lemma blit_all: "length src = length dst \<Longrightarrow> blit dst 0 src = Some src"
  by (simp add: blit_def)

lemma cli_rep_put [simp]: "cli_rep (put xs s) line = cli_rep s line"
  by (simp add: cli_rep_def put_def)

lemma cli_append_rep:
  assumes "cli_rep s line"
  shows "\<exists>s'. cli_append ch s = Some s' \<and>
    cli_rep s' (if length line < CLI_BUFFER_SIZE - 1 then line @ [ch] else line)"
proof (cases "length line < CLI_BUFFER_SIZE - 1")
  case True
  have pos: "unat (sgCurPos s) = length line" "length line < CLI_BUFFER_SIZE" "sgCmdBuffer s = line_buf line"
    using assms by (auto simp: cli_rep_def)
  have lim: "unat (word_of_nat (CLI_BUFFER_SIZE - 1) :: u32) = CLI_BUFFER_SIZE - 1"
    by (simp add: CLI_BUFFER_SIZE_def)
  have guard: "sgCurPos s < word_of_nat (CLI_BUFFER_SIZE - 1)"
    using True pos(1) lim by (simp only: word_less_nat_alt)
  have next_pos: "unat (sgCurPos s + 1) = Suc (length line)"
    using unat_Suc_less [of "sgCurPos s" "word_of_nat (CLI_BUFFER_SIZE - 1)"] True pos(1) lim by simp
  have w1: "wr (line_buf line) (length line) ch = Some ((line_buf line)[length line := ch])"
    using pos(2) by (simp add: wr_def)
  have w2: "wr ((line_buf line)[length line := ch]) (Suc (length line)) NUL = Some (line_buf (line @ [ch]))"
    using True line_buf_snoc [OF True] by (simp add: wr_def)
  have "cli_append ch s = Some (put [PutChar ch]
      (s\<lparr>sgCmdBuffer := line_buf (line @ [ch]), sgCurPos := sgCurPos s + 1\<rparr>))"
    using guard by (simp add: cli_append_def pos(1,3) next_pos w1 w2)
  moreover have "cli_rep (s\<lparr>sgCmdBuffer := line_buf (line @ [ch]), sgCurPos := sgCurPos s + 1\<rparr>) (line @ [ch])"
    using True next_pos by (simp add: cli_rep_def)
  ultimately show ?thesis using True by simp
next
  case False
  then have "length line = CLI_BUFFER_SIZE - 1" using assms by (auto simp: cli_rep_def CLI_BUFFER_SIZE_def)
  then have "\<not> sgCurPos s < word_of_nat (CLI_BUFFER_SIZE - 1)"
    using assms by (simp add: cli_rep_def word_less_nat_alt CLI_BUFFER_SIZE_def)
  with assms False show ?thesis by (simp add: cli_append_def)
qed

lemma cli_cr_rep:
  assumes "cli_rep s line" "length cmd0 = MAX_CMD_LEN"
  shows "\<exists>s'. Cli_key (atcmdicomm_info_tbl build) pf cmd0 (CHR 0x0D) (s, w) = Some (s',
      if cstr line = [] then w
      else world_of (At_Parser (atcmdicomm_info_tbl build) pf cmd0 (line_buf line) (length (cstr line)) w) w) \<and>
    cli_rep s' []"
proof -
  let ?n = "length (cstr line)" and ?zero = "replicate (CLI_BUFFER_SIZE + 1) NUL"
  have rep: "sgCmdBuffer s = line_buf line" "length line < CLI_BUFFER_SIZE"
    using assms(1) by (auto simp: cli_rep_def)
  have len: "c_strlen (line_buf line) = Some ?n"
    using rep(2) line_buf_NUL [OF rep(2)] by (simp add: c_strlen_def cstr_line_buf)
  have done_: "cli_rep (put xs (s\<lparr>sgCmdBuffer := ?zero, sgCurPos := 0\<rparr>)) []" for xs
    by (simp add: cli_rep_def line_buf_def CLI_BUFFER_SIZE_def put_def)
  show ?thesis
  proof (cases "cstr line = []")
    case True
    have "blit (sgCmdBuffer (print_prompt s)) 0 ?zero = Some ?zero"
      using rep by (intro blit_all) (simp add: print_prompt_def put_def)
    with True rep len show ?thesis
      using done_ by (auto simp: Cli_key_def Let_def print_prompt_def put_def cli_rep_def)
  next
    case False
    have nl: "?n < length (line_buf line)"
      using rep(2) cstr_length_le [of line] by simp
    have w1: "wr (line_buf line) ?n NUL = Some (line_buf line)"
    proof -
      have "line_buf line ! ?n = NUL"
        using nth_length_cstr [OF line_buf_NUL [OF rep(2)]] rep(2) by (simp add: cstr_line_buf)
      with nl show ?thesis by (simp add: wr_def) (metis list_update_id)
    qed
    have "MAX_CMD_LEN \<le> length (line_buf line)" using rep(2) by (simp add: MAX_CMD_LEN_def CLI_BUFFER_SIZE_def)
    from At_Parser_total [OF nl this assms(2), of build pf w] obtain n rsp b w' where
      ap: "At_Parser (atcmdicomm_info_tbl build) pf cmd0 (line_buf line) ?n w = Some (n, rsp, b, w')"
      and b: "length b = length (line_buf line)" by blast
    have "blit (sgCmdBuffer (print_prompt (put [PrintAt rsp] (s\<lparr>sgCmdBuffer := b\<rparr>)))) 0 ?zero = Some ?zero"
      using rep b by (intro blit_all) (simp add: print_prompt_def put_def)
    with False rep len w1 ap show ?thesis
      using done_ by (auto simp: Cli_key_def Let_def print_prompt_def put_def cli_rep_def world_of_def)
  qed
qed

text \<open>The effect of a key on the world: the dispatcher runs on the line the editor hands over.\<close>

definition ed_world ::
  "(string \<times> nat) list \<Rightarrow> (string \<Rightarrow> string list \<Rightarrow> 'w \<Rightarrow> int \<times> 'w) \<Rightarrow> buf \<Rightarrow> string option \<Rightarrow> 'w \<Rightarrow> 'w" where
  "ed_world tbl pf cmd0 l w = (case l of None \<Rightarrow> w
     | Some line \<Rightarrow> world_of (At_Parser tbl pf cmd0 (line_buf line) (length (cstr line)) w) w)"

lemma Cli_key_rep:
  assumes "cli_rep s line" "length cmd0 = MAX_CMD_LEN"
  shows "\<exists>s'. Cli_key (atcmdicomm_info_tbl build) pf cmd0 ch (s, w) =
      Some (s', ed_world (atcmdicomm_info_tbl build) pf cmd0 (snd (ed_step ch line)) w) \<and>
    cli_rep s' (fst (ed_step ch line))"
proof -
  consider "ch = CHR 0x1B" | "ch = CHR 0x08 \<or> ch = CHR 0x7F" | "ch = CHR 0x0D"
    | "ch = CHR ''?''" | "ch \<notin> {CHR 0x1B, CHR 0x08, CHR 0x7F, CHR 0x0D, CHR ''?''}" by blast
  then show ?thesis
  proof cases
    case 1
    with assms show ?thesis by (simp add: Cli_key_def ed_step_def ed_world_def)
  next
    case 2
    show ?thesis
    proof (cases "line = []")
      case True
      with 2 assms(1) show ?thesis
        by (auto simp: Cli_key_def ed_step_def ed_world_def cli_rep_def word_less_nat_alt)
    next
      case False
      have rep: "sgCmdBuffer s = line_buf line" "length line < CLI_BUFFER_SIZE" "unat (sgCurPos s) = length line"
        using assms(1) by (auto simp: cli_rep_def)
      have pos: "0 < sgCurPos s" using rep(3) False by (simp add: word_less_nat_alt)
      then have p1: "unat (sgCurPos s - 1) = length line - 1" using rep(3) by (simp add: unat_minus_one)
      have "wr (line_buf line) (length line - 1) NUL = Some (line_buf (butlast line))"
        using line_buf_butlast [OF False rep(2)] rep(2) by (simp add: wr_def)
      with 2 pos p1 rep show ?thesis
        by (auto simp: Cli_key_def ed_step_def ed_world_def cli_rep_def put_def)
    qed
  next
    case 3
    with cli_cr_rep [OF assms, of build pf w] show ?thesis
      by (cases "cstr line = []") (auto simp: ed_step_def ed_world_def)
  next
    case 4
    have "sgCurPos s = 0 \<longleftrightarrow> line = []"
      using assms(1) by (auto simp: cli_rep_def unat_eq_zero)
    with 4 cli_append_rep [OF assms(1), of ch] assms(1) show ?thesis
      by (auto simp: Cli_key_def ed_step_def ed_world_def)
  next
    case 5
    with cli_append_rep [OF assms(1), of ch] show ?thesis
      by (auto simp: Cli_key_def ed_step_def ed_world_def)
  qed
qed

section \<open>Keys from the ring\<close>

text \<open>With a byte in the ring, a pass of \<open>Cli_Start\<close> is that key; with none, it waits.\<close>

lemma Cli_Start_key:
  assumes "ring_ok (ring rx)" "ring_content (ring rx) = c # cs"
  shows "\<exists>rx'. ring_ok (ring rx') \<and> ring_content (ring rx') = cs \<and>
    Cli_Start tbl pf cmd0 (rx, s, w) = map_option (\<lambda>(s, w). (rx', s, w)) (Cli_key tbl pf cmd0 c (s, w))"
proof -
  have cnt: "ring_count (ring rx) = Suc (length cs)"
    using assms(2) by (metis length_Cons length_ring_seq ring_content_def)
  from uart_read_spec [OF assms(1), of 1 "[NUL]"] obtain k b rx' where
    u: "uart_read 1 (Some [NUL]) rx = Some (k, Some b, rx')" "ring_ok (ring rx')" "unat k = 1"
      "length b = 1" "take (unat k) b @ ring_content (ring rx') = c # cs"
    unfolding assms(2) cnt by auto
  from u(4) obtain x where "b = [x]" by (metis One_nat_def length_0_conv length_Suc_conv)
  with u(3,5) have b: "b = [c]" "ring_content (ring rx') = cs" by auto
  have "\<not> k < 1" using u(3) by (simp add: word_less_nat_alt)
  with u b have "Cli_Start tbl pf cmd0 (rx, s, w) = map_option (\<lambda>(s, w). (rx', s, w)) (Cli_key tbl pf cmd0 c (s, w))"
    by (cases "Cli_key tbl pf cmd0 c (s, w)") (auto simp: Cli_Start_def rd_def)
  with u b show ?thesis by blast
qed

text \<open>\<open>n\<close> passes of the task's endless loop.\<close>

fun Cli_Task ::
  "(string \<times> nat) list \<Rightarrow> (string \<Rightarrow> string list \<Rightarrow> 'w \<Rightarrow> int \<times> 'w) \<Rightarrow> buf \<Rightarrow> nat \<Rightarrow>
   cli_rx \<times> cli \<times> 'w \<Rightarrow> (cli_rx \<times> cli \<times> 'w) option" where
  "Cli_Task tbl pf cmd0 0 st = Some st"
| "Cli_Task tbl pf cmd0 (Suc n) st = Option.bind (Cli_Start tbl pf cmd0 st) (Cli_Task tbl pf cmd0 n)"

fun ed_run ::
  "(string \<times> nat) list \<Rightarrow> (string \<Rightarrow> string list \<Rightarrow> 'w \<Rightarrow> int \<times> 'w) \<Rightarrow> buf \<Rightarrow> char list \<Rightarrow> string \<times> 'w \<Rightarrow> string \<times> 'w" where
  "ed_run tbl pf cmd0 [] st = st"
| "ed_run tbl pf cmd0 (c # cs) (line, w) =
     ed_run tbl pf cmd0 cs (fst (ed_step c line), ed_world tbl pf cmd0 (snd (ed_step c line)) w)"

lemma Cli_Task_refines:
  assumes "length cmd0 = MAX_CMD_LEN"
  shows "ring_ok (ring rx) \<Longrightarrow> ring_content (ring rx) = keys \<Longrightarrow> cli_rep s line \<Longrightarrow>
    \<exists>rx' s'. Cli_Task (atcmdicomm_info_tbl build) pf cmd0 (length keys) (rx, s, w) =
        Some (rx', s', snd (ed_run (atcmdicomm_info_tbl build) pf cmd0 keys (line, w))) \<and>
      ring_content (ring rx') = [] \<and> ring_ok (ring rx') \<and>
      cli_rep s' (fst (ed_run (atcmdicomm_info_tbl build) pf cmd0 keys (line, w)))"
proof (induction keys arbitrary: rx s line w)
  case Nil
  then show ?case by auto
next
  case (Cons c keys)
  let ?tbl = "atcmdicomm_info_tbl build"
  obtain rx1 where rx1: "ring_ok (ring rx1)" "ring_content (ring rx1) = keys"
    "Cli_Start ?tbl pf cmd0 (rx, s, w) = map_option (\<lambda>(s, w). (rx1, s, w)) (Cli_key ?tbl pf cmd0 c (s, w))"
    using Cli_Start_key [OF Cons.prems(1,2), of ?tbl pf cmd0 s w] by (elim exE conjE) blast
  obtain s1 where s1: "Cli_key ?tbl pf cmd0 c (s, w) = Some (s1, ed_world ?tbl pf cmd0 (snd (ed_step c line)) w)"
    "cli_rep s1 (fst (ed_step c line))"
    using Cli_key_rep [OF Cons.prems(3) assms, of build pf c w] by (elim exE conjE) blast
  from Cons.IH [OF rx1(1,2) s1(2)] rx1(3) s1(1) show ?case by simp
qed

lemma ed_run_append: "ed_run tbl pf cmd0 (xs @ ys) st = ed_run tbl pf cmd0 ys (ed_run tbl pf cmd0 xs st)"
  by (induction xs arbitrary: st) (auto split: prod.splits)

text \<open>Keys that only extend the line.\<close>

definition plain_key :: "char \<Rightarrow> bool" where
  "plain_key c \<longleftrightarrow> c \<notin> {NUL, CHR 0x1B, CHR 0x08, CHR 0x7F, CHR 0x0D}"

lemma ed_run_plain:
  "list_all plain_key keys \<Longrightarrow> length line + length keys < CLI_BUFFER_SIZE \<Longrightarrow>
   line \<noteq> [] \<or> keys = [] \<or> hd keys \<noteq> CHR ''?'' \<Longrightarrow>
   ed_run tbl pf cmd0 keys (line, w) = (line @ keys, w)"
  by (induction keys arbitrary: line)
    (auto simp: plain_key_def ed_step_def ed_world_def CLI_BUFFER_SIZE_def)

lemma at_entries_plain:
  "list_all (\<lambda>(n, m). list_all plain_key n \<and> n \<noteq> [] \<and> hd n \<noteq> CHR ''?'') (map snd atcmd_entries)"
  unfolding plain_key_def by code_simp

lemma at_table_plain:
  assumes "(w, m) \<in> set (atcmdicomm_info_tbl build)"
  shows "list_all plain_key w \<and> w \<noteq> [] \<and> hd w \<noteq> CHR ''?''"
proof -
  have "(w, m) \<in> set (map snd atcmd_entries)"
    using assms by (force simp: atcmdicomm_info_tbl_def)
  with at_entries_plain show ?thesis unfolding list_all_iff by blast
qed

lemma At_Parser_world:
  assumes "(w, m) \<in> set (atcmdicomm_info_tbl build)" "c = CHR ''='' \<or> c = CHR '' ''"
    and "NUL \<notin> set args" "args \<noteq> []" "length cmd0 = MAX_CMD_LEN"
    and "length (w @ c # args) < CLI_BUFFER_SIZE"
  shows "ed_world (atcmdicomm_info_tbl build) pf cmd0 (Some (w @ c # args)) wd =
    snd (pf w (at_split (if m = 0 then MAX_ARGUMENT else m) args) wd)"
proof -
  let ?l = "w @ c # args"
  have "NUL \<notin> set w" using at_table_facts [of build] assms(1) at_word_NUL by (fastforce simp: list_all_iff)
  with assms(2,3) have n: "NUL \<notin> set ?l" by auto
  then have cs: "cstr ?l = ?l" by (rule cstr_id)
  obtain k where k: "line_buf ?l = ?l @ NUL # replicate k NUL"
    using assms(6) by (auto simp: line_buf_def Suc_diff_Suc intro: that [of "CLI_BUFFER_SIZE - length ?l"]
      simp del: replicate_Suc simp add: replicate_Suc [symmetric])
  have b: "(line_buf ?l)[length ?l := NUL] = w @ c # args @ NUL # replicate k NUL"
    unfolding k by (metis append.assoc append_Cons list_update_length)
  have "length ?l < length (line_buf ?l)" using assms(6) by simp
  from At_Parser_command [OF assms(1,2) b assms(3,4) this assms(5), of pf wd]
  show ?thesis unfolding ed_world_def option.case cs
    by (auto simp: world_of_def split: option.splits prod.splits)
qed

lemma command_keys_run:
  assumes "(w, m) \<in> set (atcmdicomm_info_tbl build)" "c = CHR ''='' \<or> c = CHR '' ''"
    and "list_all plain_key args" "args \<noteq> []" "length cmd0 = MAX_CMD_LEN"
    and "length (w @ c # args) < CLI_BUFFER_SIZE"
  shows "ed_run (atcmdicomm_info_tbl build) pf cmd0 (w @ c # args @ [CHR 0x0D]) ([], wd) =
    ([], snd (pf w (at_split (if m = 0 then MAX_ARGUMENT else m) args) wd))"
proof -
  let ?l = "w @ c # args"
  have w: "list_all plain_key w" "w \<noteq> []" "hd w \<noteq> CHR ''?''" using at_table_plain [OF assms(1)] by auto
  have pl: "list_all plain_key ?l" using w assms(2,3) by (auto simp: plain_key_def)
  have "NUL \<notin> set args" using assms(3) by (auto simp: plain_key_def list_all_iff)
  note W = At_Parser_world [OF assms(1,2) this assms(4,5,6), of pf wd]
  have "NUL \<notin> set ?l" using pl by (auto simp: plain_key_def list_all_iff)
  then have "cstr ?l = ?l" by (rule cstr_id)
  moreover have "ed_run (atcmdicomm_info_tbl build) pf cmd0 ?l ([], wd) = (?l, wd)"
    using ed_run_plain [OF pl, of "[]"] w(2,3) assms(6) by simp
  ultimately show ?thesis
    using ed_run_append [of "atcmdicomm_info_tbl build" pf cmd0 ?l "[CHR 0x0D]"] W by (simp add: ed_step_def)
qed

text \<open>The power-on state of the editor: zeroed static storage.\<close>

definition cli_init :: cli where
  "cli_init = \<lparr>sgCmdBuffer = replicate (CLI_BUFFER_SIZE + 1) NUL, sgCurPos = 0, con = []\<rparr>"

lemma cli_init_rep: "cli_rep cli_init []"
  by (simp add: cli_init_def cli_rep_def line_buf_def CLI_BUFFER_SIZE_def)

lemma keys_arrive:
  assumes "length keys \<le> 2048" "ring_ok (ring rx)" "ring_content (ring rx) = []"
    and "uart_rx_isr keys rx = (rx1, hw)"
  shows "ring_ok (ring rx1)" "ring_content (ring rx1) = keys"
  using uart_rx_isr_spec(1) [OF assms(2,4)] clirx.fill_takes [OF assms(2,4)] assms(1,3) by auto

section \<open>Properties\<close>



text \<open>
  C15: From the wire to the handler: when the bytes of a line \<open>name=arguments\<close> and a carriage return
  arrive in one interrupt at an idle console, the task, run once per key, calls the handler of that
  name exactly once, with the arguments split at the commas, and returns to an empty line.
\<close>

theorem typed_command_runs:
  assumes "(name, m) \<in> set (atcmdicomm_info_tbl build)" "c = CHR ''='' \<or> c = CHR '' ''"
    and "list_all plain_key args" "args \<noteq> []" "length (name @ c # args) < CLI_BUFFER_SIZE"
    and "ring_ok (ring rx)" "ring_content (ring rx) = []" "cli_rep s []" "length cmd0 = MAX_CMD_LEN"
    and "uart_rx_isr (name @ c # args @ [CHR 0x0D]) rx = (rx1, hw)"
  shows "\<exists>rx2 s2. Cli_Task (atcmdicomm_info_tbl build) pf cmd0 (length (name @ c # args @ [CHR 0x0D])) (rx1, s, wd) =
      Some (rx2, s2, snd (pf name (at_split (if m = 0 then MAX_ARGUMENT else m) args) wd)) \<and>
    cli_rep s2 [] \<and> ring_content (ring rx2) = []"
proof -
  let ?keys = "name @ c # args @ [CHR 0x0D]"
  have "length ?keys \<le> 2048" using assms(5) by (simp add: CLI_BUFFER_SIZE_def)
  note k = keys_arrive [OF this assms(6,7,10)]
  note e = command_keys_run [OF assms(1,2,3,4,9,5), of pf wd]
  from Cli_Task_refines [OF assms(9) k assms(8), of build pf wd] show ?thesis unfolding e by auto
qed

lemma typed_command_runs_witness:
  "\<exists>rx2 s2. Cli_Task (atcmdicomm_info_tbl (\<lambda>_. False)) (\<lambda>n a w. (0, n # a)) (replicate 32 NUL) 11
      (fst (uart_rx_isr (''regr=c0a,4'' @ [CHR 0x0D]) cli_rx_init), cli_init, []) =
    Some (rx2, s2, [''regr'', ''c0a'', ''4'']) \<and> cli_rep s2 []"
proof -
  let ?keys = "''regr'' @ CHR ''='' # ''c0a,4'' @ [CHR 0x0D]"
  obtain rx1 hw where r: "uart_rx_isr ?keys cli_rx_init = (rx1, hw)" by fastforce
  have mem: "(''regr'', 2) \<in> set (atcmdicomm_info_tbl (\<lambda>_. False))"
    by (simp add: atcmdicomm_info_tbl_def atcmd_entries_def)
  have sp: "at_split 2 ''c0a,4'' = [''c0a'', ''4'']" by code_simp
  have "\<exists>rx2 s2. Cli_Task (atcmdicomm_info_tbl (\<lambda>_. False)) (\<lambda>n a w. (0, n # a)) (replicate 32 NUL)
      (length ?keys) (rx1, cli_init, []) =
      Some (rx2, s2, snd (0 :: int, ''regr'' # at_split (if 2 = (0 :: nat) then MAX_ARGUMENT else 2) ''c0a,4'')) \<and>
      cli_rep s2 [] \<and> ring_content (ring rx2) = []"
    by (rule typed_command_runs [OF mem _ _ _ _ cli_rx_init_ok cli_rx_init_content cli_init_rep _ r])
      (simp_all add: plain_key_def CLI_BUFFER_SIZE_def MAX_CMD_LEN_def)
  moreover have "length ?keys = 11" by simp
  ultimately show ?thesis using r sp by (simp only:) auto
qed

end
