(* ===== verification/Printf.thy ===== *)
theory Printf
  imports Prelude
begin

text \<open>
  The formatter of the C library patch, \<open>projects/mac_atcmd/src/libc_patch.c\<close>: \<open>_ntoa_format\<close>,
  \<open>_ntoa_long\<close>, \<open>_ntoa_long_long\<close>, \<open>vsnprintf\<close> and \<open>printf\<close> on a 32-bit target (\<open>size_t\<close>, \<open>int\<close>,
  \<open>long\<close> and pointers have 32 bits, \<open>long long\<close> 64). A variable argument is a value of \<open>va\<close>;
  fetching one of another type is undefined, as are accesses outside a buffer: the result is
  \<open>None\<close>. \<open>_ftoa\<close> works on doubles and is a parameter of the model. The negation of the least
  signed value wraps.
\<close>

type_synonym u64 = "64 word"

datatype 'd va = VaInt u32 | VaLongLong u64 | VaStr buf | VaDouble 'd

definition PRINTF_BUFFER_SIZE :: u32 where "PRINTF_BUFFER_SIZE = 256"
definition NTOA_BUFFER_SIZE :: u32 where "NTOA_BUFFER_SIZE = 32"

definition FLAGS_ZEROPAD :: u32 where "FLAGS_ZEROPAD = push_bit 0 1"
definition FLAGS_LEFT :: u32 where "FLAGS_LEFT = push_bit 1 1"
definition FLAGS_PLUS :: u32 where "FLAGS_PLUS = push_bit 2 1"
definition FLAGS_SPACE :: u32 where "FLAGS_SPACE = push_bit 3 1"
definition FLAGS_HASH :: u32 where "FLAGS_HASH = push_bit 4 1"
definition FLAGS_UPPERCASE :: u32 where "FLAGS_UPPERCASE = push_bit 5 1"
definition FLAGS_LONG :: u32 where "FLAGS_LONG = push_bit 6 1"
definition FLAGS_LONG_LONG :: u32 where "FLAGS_LONG_LONG = push_bit 7 1"
definition FLAGS_PRECISION :: u32 where "FLAGS_PRECISION = push_bit 8 1"

text \<open>A test \<open>flags & mask\<close>.\<close>

definition has :: "u32 \<Rightarrow> u32 \<Rightarrow> bool" where
  "has flags m \<longleftrightarrow> flags AND m \<noteq> 0"

section \<open>Numbers\<close>

text \<open>The \<open>do\<close> loop of \<open>_ntoa_long\<close> and \<open>_ntoa_long_long\<close>: the digits, least significant first.\<close>

definition digit_char :: "bool \<Rightarrow> nat \<Rightarrow> char" where
  "digit_char upper digit =
     (if digit < 10 then char_of (48 + digit) else char_of ((if upper then 65 else 97) + digit - 10))"

function ntoa_digits ::
  "bool \<Rightarrow> 'a::len word \<Rightarrow> 'a word \<Rightarrow> buf \<Rightarrow> u32 \<Rightarrow> (buf \<times> u32) option" where
  "ntoa_digits upper base value buf len =
     do {
       buf \<leftarrow> wr buf (unat len) (digit_char upper (unat (value mod base)));
       if len + 1 < NTOA_BUFFER_SIZE \<and> value div base \<noteq> 0
       then ntoa_digits upper base (value div base) buf (len + 1)
       else Some (buf, len + 1) }"
  by pat_completeness auto
termination
proof (relation "measure (\<lambda>(up, b, v, buf, len). if len = - 1 then 33 else 32 - unat len)", goal_cases)
  case (2 up b v buf len x)
  then show ?case
  proof (cases "len = - 1")
    case False
    then have s: "unat (len + 1) = Suc (unat len)" by (rule unat_Suc_max)
    with 2 have "Suc (unat len) < 32" by (simp add: NTOA_BUFFER_SIZE_def word_less_nat_alt)
    moreover have "len + 1 \<noteq> - 1"
    proof
      assume "len + 1 = - 1"
      with s have "unat (- 1 :: u32) = Suc (unat len)" by simp
      with \<open>Suc (unat len) < 32\<close> show False by (simp add: unsigned_minus_1_eq_mask mask_eq_exp_minus_1)
    qed
    ultimately show ?thesis using False s by simp
  qed simp
qed simp

text \<open>\<open>while (len < lim && len < NTOA_BUFFER_SIZE) buf[len++] = c\<close>\<close>

function pad_buf :: "char \<Rightarrow> u32 \<Rightarrow> buf \<Rightarrow> u32 \<Rightarrow> (buf \<times> u32) option" where
  "pad_buf c lim buf len =
     (if len < lim \<and> len < NTOA_BUFFER_SIZE
      then do { buf \<leftarrow> wr buf (unat len) c; pad_buf c lim buf (len + 1) }
      else Some (buf, len))"
  by pat_completeness auto
termination
  by (relation "measure (\<lambda>(c, lim, buf, len). 32 - unat len)")
    (auto simp: NTOA_BUFFER_SIZE_def word_less_nat_alt unat_Suc_less)

text \<open>The reversing \<open>for\<close> loop: \<open>off\<close> is where \<open>buffer\<close> points in the caller's buffer.\<close>

function rev_copy :: "buf \<Rightarrow> nat \<Rightarrow> buf \<Rightarrow> u32 \<Rightarrow> u32 \<Rightarrow> u32 \<Rightarrow> buf option" where
  "rev_copy buffer off buf len maxlen i =
     (if i < len \<and> i < maxlen
      then do {
        c \<leftarrow> rd buf (unat (len - i - 1));
        buffer \<leftarrow> wr buffer (off + unat i) c;
        rev_copy buffer off buf len maxlen (i + 1) }
      else Some buffer)"
  by pat_completeness auto
termination
  by (relation "measure (\<lambda>(b, off, buf, len, maxlen, i). unat len - unat i)")
    (auto simp: word_less_nat_alt unat_Suc_less)

text \<open>\<open>while (len < width && len < maxlen) buffer[len++] = ' '\<close>\<close>

function pad_tail :: "buf \<Rightarrow> nat \<Rightarrow> u32 \<Rightarrow> u32 \<Rightarrow> u32 \<Rightarrow> (buf \<times> u32) option" where
  "pad_tail buffer off width maxlen len =
     (if len < width \<and> len < maxlen
      then do { buffer \<leftarrow> wr buffer (off + unat len) (CHR '' ''); pad_tail buffer off width maxlen (len + 1) }
      else Some (buffer, len))"
  by pat_completeness auto
termination
  by (relation "measure (\<lambda>(b, off, width, maxlen, len). unat width - unat len)")
    (auto simp: word_less_nat_alt unat_Suc_less)

definition put_if :: "bool \<Rightarrow> char \<Rightarrow> buf \<times> u32 \<Rightarrow> (buf \<times> u32) option" where
  "put_if b c = (\<lambda>(buf, len). if b then do { buf \<leftarrow> wr buf (unat len) c; Some (buf, len + 1) } else Some (buf, len))"

definition handle_hash :: "u32 \<Rightarrow> u32 \<Rightarrow> u32 \<Rightarrow> u32 \<Rightarrow> buf \<times> u32 \<Rightarrow> (buf \<times> u32) option" where
  "handle_hash base prec width flags = (\<lambda>(buf, len).
     if has flags FLAGS_HASH
     then do {
       let len = (if (len = prec \<or> len = width) \<and> len > 0
                  then (let len = len - 1 in if base = 16 \<and> len > 0 then len - 1 else len)
                  else len);
       (buf, len) \<leftarrow> put_if (base = 16 \<and> \<not> has flags FLAGS_UPPERCASE \<and> len < NTOA_BUFFER_SIZE) (CHR ''x'') (buf, len);
       (buf, len) \<leftarrow> put_if (base = 16 \<and> has flags FLAGS_UPPERCASE \<and> len < NTOA_BUFFER_SIZE) (CHR ''X'') (buf, len);
       put_if (len < NTOA_BUFFER_SIZE) (CHR ''0'') (buf, len) }
     else Some (buf, len))"

definition handle_sign :: "bool \<Rightarrow> u32 \<Rightarrow> u32 \<Rightarrow> buf \<times> u32 \<Rightarrow> (buf \<times> u32) option" where
  "handle_sign negative width flags = (\<lambda>(buf, len).
     let len = (if len = width \<and> (negative \<or> has flags FLAGS_PLUS \<or> has flags FLAGS_SPACE) then len - 1 else len)
     in if len < NTOA_BUFFER_SIZE
        then if negative then put_if True (CHR ''-'') (buf, len)
             else if has flags FLAGS_PLUS then put_if True (CHR ''+'') (buf, len)
             else put_if (has flags FLAGS_SPACE) (CHR '' '') (buf, len)
        else Some (buf, len))"

definition ntoa_format ::
  "buf \<Rightarrow> nat \<Rightarrow> buf \<Rightarrow> u32 \<Rightarrow> bool \<Rightarrow> u32 \<Rightarrow> u32 \<Rightarrow> u32 \<Rightarrow> u32 \<Rightarrow> u32 \<Rightarrow> (buf \<times> u32) option" where
  "ntoa_format buffer off buf len negative base maxlen prec width flags =
     (if maxlen = 0 \<or> base > 16 then Some (buffer, 0)
      else do {
        (buf, len) \<leftarrow> (if \<not> has flags FLAGS_LEFT then pad_buf (CHR ''0'') prec buf len else Some (buf, len));
        (buf, len) \<leftarrow> (if \<not> has flags FLAGS_LEFT \<and> has flags FLAGS_ZEROPAD
                      then pad_buf (CHR ''0'') width buf len else Some (buf, len));
        (buf, len) \<leftarrow> handle_hash base prec width flags (buf, len);
        (buf, len) \<leftarrow> handle_sign negative width flags (buf, len);
        (buf, len) \<leftarrow> (if \<not> has flags FLAGS_LEFT \<and> \<not> has flags FLAGS_ZEROPAD
                      then pad_buf (CHR '' '') width buf len else Some (buf, len));
        buffer \<leftarrow> rev_copy buffer off buf len maxlen 0;
        if has flags FLAGS_LEFT then pad_tail buffer off width maxlen len else Some (buffer, len) })"

text \<open>
  \<open>_ntoa_long\<close> and \<open>_ntoa_long_long\<close>. The local array starts with unknown bytes; every byte that is
  read was written before, which the choice of NUL for them does not hide: an access outside
  the 32 bytes is \<open>None\<close> all the same.
\<close>

definition ntoa_long ::
  "buf \<Rightarrow> nat \<Rightarrow> u32 \<Rightarrow> bool \<Rightarrow> u32 \<Rightarrow> u32 \<Rightarrow> u32 \<Rightarrow> u32 \<Rightarrow> u32 \<Rightarrow> (buf \<times> u32) option" where
  "ntoa_long buffer off v negative base maxlen prec width flags =
     do {
       let buf = replicate (unat NTOA_BUFFER_SIZE) NUL;
       (buf, len) \<leftarrow> (if \<not> has flags FLAGS_PRECISION \<or> v \<noteq> 0
                     then ntoa_digits (has flags FLAGS_UPPERCASE) base v buf 0 else Some (buf, 0));
       ntoa_format buffer off buf len negative base maxlen prec width flags }"

definition ntoa_long_long ::
  "buf \<Rightarrow> nat \<Rightarrow> u64 \<Rightarrow> bool \<Rightarrow> u64 \<Rightarrow> u32 \<Rightarrow> u32 \<Rightarrow> u32 \<Rightarrow> u32 \<Rightarrow> (buf \<times> u32) option" where
  "ntoa_long_long buffer off v negative base maxlen prec width flags =
     do {
       let buf = replicate (unat NTOA_BUFFER_SIZE) NUL;
       (buf, len) \<leftarrow> (if \<not> has flags FLAGS_PRECISION \<or> v \<noteq> 0
                     then ntoa_digits (has flags FLAGS_UPPERCASE) base v buf 0 else Some (buf, 0));
       ntoa_format buffer off buf len negative (ucast base) maxlen prec width flags }"

declare ntoa_digits.simps [simp del] pad_buf.simps [simp del] rev_copy.simps [simp del] pad_tail.simps [simp del]

section \<open>What the number formatter writes\<close>

text \<open>The digits of a number, least significant first, and the number they stand for.\<close>

function rev_digits :: "nat \<Rightarrow> nat \<Rightarrow> nat list" where
  "rev_digits b n = (if b < 2 \<or> n < b then [n] else n mod b # rev_digits b (n div b))"
  by pat_completeness auto
termination by (relation "measure snd") auto

declare rev_digits.simps [simp del]

definition pad_to :: "char \<Rightarrow> nat \<Rightarrow> string \<Rightarrow> string" where
  "pad_to c n ds = ds @ replicate (min n 32 - length ds) c"

text \<open>The reversed text after each stage, on the list of characters produced so far.\<close>

definition snoc_if :: "bool \<Rightarrow> char \<Rightarrow> string \<Rightarrow> string" where
  "snoc_if b c ds = (if b \<and> length ds < 32 then ds @ [c] else ds)"

definition hash_ref :: "u32 \<Rightarrow> nat \<Rightarrow> nat \<Rightarrow> u32 \<Rightarrow> string \<Rightarrow> string" where
  "hash_ref base prec width flags ds =
     (if has flags FLAGS_HASH
      then let ds1 = (if length ds = prec \<or> length ds = width then butlast ds else ds);
               ds2 = (if (length ds = prec \<or> length ds = width) \<and> base = 16 then butlast ds1 else ds1)
           in snoc_if True (CHR ''0'')
                (snoc_if (base = 16) (if has flags FLAGS_UPPERCASE then CHR ''X'' else CHR ''x'') ds2)
      else ds)"

definition sign_char :: "bool \<Rightarrow> u32 \<Rightarrow> char option" where
  "sign_char negative flags =
     (if negative then Some (CHR ''-'') else if has flags FLAGS_PLUS then Some (CHR ''+'')
      else if has flags FLAGS_SPACE then Some (CHR '' '') else None)"

definition sign_ref :: "bool \<Rightarrow> nat \<Rightarrow> u32 \<Rightarrow> string \<Rightarrow> string" where
  "sign_ref negative width flags ds =
     (case sign_char negative flags of None \<Rightarrow> ds
      | Some c \<Rightarrow> snoc_if True c (if length ds = width then butlast ds else ds))"

text \<open>\<open>unsigned_ref\<close> is the text before the sign, \<open>field_ref\<close> all that is written, in order.\<close>

definition unsigned_ref :: "u32 \<Rightarrow> nat \<Rightarrow> nat \<Rightarrow> u32 \<Rightarrow> string \<Rightarrow> string" where
  "unsigned_ref base prec width flags ds =
     hash_ref base prec width flags
       (if has flags FLAGS_LEFT then ds
        else if has flags FLAGS_ZEROPAD then pad_to (CHR ''0'') width (pad_to (CHR ''0'') prec ds)
        else pad_to (CHR ''0'') prec ds)"

definition field_ref :: "bool \<Rightarrow> u32 \<Rightarrow> nat \<Rightarrow> nat \<Rightarrow> nat \<Rightarrow> u32 \<Rightarrow> string \<Rightarrow> string" where
  "field_ref negative base maxlen prec width flags ds =
     (let s = sign_ref negative width flags (unsigned_ref base prec width flags ds)
      in if has flags FLAGS_LEFT then rev s @ replicate (min width maxlen - length s) (CHR '' '')
         else rev (if has flags FLAGS_ZEROPAD then s else pad_to (CHR '' '') width s))"

text \<open>\<open>nrep buf len ds\<close>: the local array of 32 bytes holds \<open>ds\<close> in its first \<open>len\<close> bytes.\<close>

definition nrep :: "buf \<Rightarrow> u32 \<Rightarrow> string \<Rightarrow> bool" where
  "nrep buf len ds \<longleftrightarrow> length buf = 32 \<and> unat len = length ds \<and> length ds \<le> 32 \<and> take (length ds) buf = ds"

lemma nrep_less: "nrep buf len ds \<Longrightarrow> len < NTOA_BUFFER_SIZE \<longleftrightarrow> length ds < 32"
  by (simp add: nrep_def NTOA_BUFFER_SIZE_def word_less_nat_alt)

lemma nrep_snoc:
  assumes "nrep buf len ds" "length ds < 32"
  shows "wr buf (unat len) c = Some (buf[length ds := c])" "nrep (buf[length ds := c]) (len + 1) (ds @ [c])"
proof -
  have l: "unat len = length ds" "length buf = 32" "take (length ds) buf = ds" using assms(1) by (auto simp: nrep_def)
  with assms(2) show "wr buf (unat len) c = Some (buf[length ds := c])" by (simp add: wr_def)
  have "unat (len + 1) = Suc (unat len)" using l assms(2) unat_Suc_less [of len 32] by simp
  with l assms(2) show "nrep (buf[length ds := c]) (len + 1) (ds @ [c])"
    by (simp add: nrep_def take_Suc_conv_app_nth)
qed

lemma nrep_butlast:
  assumes "nrep buf len ds" "ds \<noteq> []"
  shows "nrep buf (len - 1) (butlast ds)"
proof -
  have "len \<noteq> 0" using assms by (auto simp: nrep_def)
  then have "unat (len - 1) = unat len - 1" by (rule unat_minus_one)
  moreover have "take (length ds - 1) buf = butlast ds"
    using assms by (metis butlast_take length_take min.absorb2 nat_le_linear nrep_def take_all)
  ultimately show ?thesis using assms by (auto simp: nrep_def)
qed

lemma ntoa_digits_spec:
  assumes "1 < unat base"
  shows "nrep buf len ds \<Longrightarrow> length ds < 32 \<Longrightarrow>
    \<exists>buf' len'. ntoa_digits up base v buf len = Some (buf', len') \<and>
      nrep buf' len' (take 32 (ds @ map (digit_char up) (rev_digits (unat base) (unat v))))"
  using assms
proof (induction up base v buf len arbitrary: ds rule: ntoa_digits.induct)
  case (1 up base v buf len)
  let ?c = "digit_char up (unat (v mod base))" and ?b = "buf[length ds := digit_char up (unat (v mod base))]"
  note w = nrep_snoc [OF 1(2,3), of ?c]
  have d: "v div base = 0 \<longleftrightarrow> unat v < unat base"
    using 1(4) unat_eq_zero [of "v div base"] by (auto simp: unat_div div_eq_0_iff)
  have lt: "len + 1 < NTOA_BUFFER_SIZE \<longleftrightarrow> length (ds @ [?c]) < 32" by (rule nrep_less [OF w(2)])
  show ?case
  proof (cases "len + 1 < NTOA_BUFFER_SIZE \<and> v div base \<noteq> 0")
    case True
    from 1(1) [OF w(1) True w(2) _ 1(4)] True lt obtain buf' len' where r:
      "ntoa_digits up base (v div base) ?b (len + 1) = Some (buf', len')"
      "nrep buf' len' (take 32 ((ds @ [?c]) @ map (digit_char up) (rev_digits (unat base) (unat (v div base)))))"
      by auto
    have "rev_digits (unat base) (unat v) = unat (v mod base) # rev_digits (unat base) (unat (v div base))"
      using True d 1(4) by (subst rev_digits.simps) (simp add: unat_div unat_mod)
    with r True w(1) show ?thesis by (subst ntoa_digits.simps) simp
  next
    case False
    have "take 32 (ds @ map (digit_char up) (rev_digits (unat base) (unat v))) = ds @ [?c]"
    proof (cases "v div base = 0")
      case True
      then have "rev_digits (unat base) (unat v) = [unat (v mod base)]"
        using d 1(4) by (subst rev_digits.simps) (simp add: unat_mod)
      with 1(3) show ?thesis by simp
    next
      case nz: False
      with False lt 1(3) have "length ds = 31" by simp
      moreover have "rev_digits (unat base) (unat v) = unat (v mod base) # rev_digits (unat base) (unat (v div base))"
        using nz d 1(4) by (subst rev_digits.simps) (simp add: unat_div unat_mod)
      ultimately show ?thesis by simp
    qed
    with False w show ?thesis by (subst ntoa_digits.simps) auto
  qed
qed

lemma pad_buf_spec:
  "nrep buf len ds \<Longrightarrow> \<exists>buf' len'. pad_buf c lim buf len = Some (buf', len') \<and> nrep buf' len' (pad_to c (unat lim) ds)"
proof (induction c lim buf len arbitrary: ds rule: pad_buf.induct)
  case (1 c lim buf len)
  have cond: "len < lim \<and> len < NTOA_BUFFER_SIZE \<longleftrightarrow> length ds < min (unat lim) 32"
    using 1(2) nrep_less [OF 1(2)] by (auto simp: nrep_def word_less_nat_alt)
  show ?case
  proof (cases "length ds < min (unat lim) 32")
    case True
    then have l: "length ds < 32" by simp
    note w = nrep_snoc [OF 1(2) l, of c]
    have "pad_to c (unat lim) (ds @ [c]) = pad_to c (unat lim) ds"
      using True by (simp add: pad_to_def Suc_diff_Suc replicate_append_same flip: replicate_Suc)
    with 1(1) [OF cond [THEN iffD2, OF True] w] w(1) True cond show ?thesis
      by (subst pad_buf.simps) simp
  next
    case False
    with cond have "pad_buf c lim buf len = Some (buf, len)" by (subst pad_buf.simps) auto
    moreover from False have "min (unat lim) 32 - length ds = 0" by linarith
    then have "pad_to c (unat lim) ds = ds" by (simp add: pad_to_def)
    ultimately show ?thesis using 1(2) by simp
  qed
qed

lemma rev_copy_spec:
  assumes "nrep buf len ds" "off + unat maxlen \<le> length buffer"
  shows "unat i \<le> min (length ds) (unat maxlen) \<Longrightarrow> rev_copy buffer off buf len maxlen i =
    blit buffer (off + unat i) (drop (unat i) (take (unat maxlen) (rev ds)))"
  using assms
proof (induction buffer off buf len maxlen i rule: rev_copy.induct)
  case (1 buffer off buf len maxlen i)
  have l: "unat len = length ds" "take (length ds) buf = ds" "length ds \<le> length buf" using 1(3) by (auto simp: nrep_def)
  have cond: "i < len \<and> i < maxlen \<longleftrightarrow> unat i < min (length ds) (unat maxlen)"
    using l by (auto simp: word_less_nat_alt)
  show ?case
  proof (cases "i < len \<and> i < maxlen")
    case True
    with cond have i: "unat i < length ds" "unat i < unat maxlen" by auto
    have "i \<le> len" using True by (simp add: less_imp_le)
    then have "unat (len - i) = length ds - unat i" using l by (simp add: unat_sub)
    moreover have "len - i \<noteq> 0" using True by auto
    ultimately have n: "unat (len - i - 1) = length ds - unat i - 1" using unat_minus_one by metis
    let ?c = "rev ds ! unat i"
    have "buf ! (length ds - unat i - 1) = ?c"
      using i l(2) by (metis Suc_diff_1 diff_Suc_eq_diff_pred diff_less length_greater_0_conv list.size(3) not_less_zero
        nth_take rev_nth zero_less_Suc diff_diff_left add.commute plus_1_eq_Suc)
    with n i l have r: "rd buf (unat (len - i - 1)) = Some ?c" by (simp add: rd_def)
    have w: "wr buffer (off + unat i) ?c = Some (buffer[off + unat i := ?c])"
      using i 1(4) by (simp add: wr_def)
    have s: "unat (i + 1) = Suc (unat i)" using True by (intro unat_Suc_less [of i len]) (simp add: word_less_nat_alt)
    have "rev_copy (buffer[off + unat i := ?c]) off buf len maxlen (i + 1) =
        blit (buffer[off + unat i := ?c]) (Suc (off + unat i)) (drop (Suc (unat i)) (take (unat maxlen) (rev ds)))"
      using 1(1) [OF True r w] s i 1(3,4) by simp
    also have "\<dots> = blit buffer (off + unat i) (?c # drop (Suc (unat i)) (take (unat maxlen) (rev ds)))"
      by (rule blit_upd_Cons) (use i 1(4) in simp)
    also have "?c # drop (Suc (unat i)) (take (unat maxlen) (rev ds)) = drop (unat i) (take (unat maxlen) (rev ds))"
      using i by (subst (2) Cons_nth_drop_Suc [symmetric]) auto
    finally show ?thesis using True r w by (subst rev_copy.simps) simp
  next
    case False
    with cond have "\<not> unat i < min (length ds) (unat maxlen)" by blast
    with 1(2) have "unat i = min (length ds) (unat maxlen)" by linarith
    then have "drop (unat i) (take (unat maxlen) (rev ds)) = []" by simp
    with False 1(2,4) show ?thesis by (subst rev_copy.simps) (auto simp: blit_def)
  qed
qed

lemma pad_tail_spec:
  "off + unat maxlen \<le> length buffer \<Longrightarrow>
   \<exists>len'. pad_tail buffer off width maxlen len = map_option (\<lambda>b. (b, len'))
       (blit buffer (off + unat len) (replicate (min (unat width) (unat maxlen) - unat len) (CHR '' ''))) \<and>
     unat len' = max (unat len) (min (unat width) (unat maxlen))"
  if "off + unat len \<le> length buffer"
  using that
proof (induction buffer off width maxlen len rule: pad_tail.induct)
  case (1 buffer off width maxlen len)
  let ?m = "min (unat width) (unat maxlen)"
  have cond: "len < width \<and> len < maxlen \<longleftrightarrow> unat len < ?m" by (auto simp: word_less_nat_alt)
  show ?case
  proof (cases "len < width \<and> len < maxlen")
    case True
    with cond have i: "unat len < ?m" by simp
    have w: "wr buffer (off + unat len) (CHR '' '') = Some (buffer[off + unat len := CHR '' ''])"
      using i 1(2) by (simp add: wr_def)
    have s: "unat (len + 1) = Suc (unat len)" using True by (intro unat_Suc_less [of len width]) (simp add: word_less_nat_alt)
    from 1(1) [OF True w] 1(2) s i obtain len' where r:
      "pad_tail (buffer[off + unat len := CHR '' '']) off width maxlen (len + 1) = map_option (\<lambda>b. (b, len'))
        (blit (buffer[off + unat len := CHR '' '']) (Suc (off + unat len)) (replicate (?m - Suc (unat len)) (CHR '' '')))"
      "unat len' = max (Suc (unat len)) ?m" by auto
    have "blit (buffer[off + unat len := CHR '' '']) (Suc (off + unat len)) (replicate (?m - Suc (unat len)) (CHR '' '')) =
      blit buffer (off + unat len) (replicate (?m - unat len) (CHR '' ''))"
      using i 1(2) by (subst blit_upd_Cons) (simp_all add: Suc_diff_Suc flip: replicate_Suc)
    with r True w i show ?thesis by (subst pad_tail.simps) (auto intro!: exI [of _ len'])
  next
    case False
    with cond 1(2,3) show ?thesis by (subst pad_tail.simps) (auto simp: blit_def)
  qed
qed

lemma put_if_spec:
  assumes "nrep buf len ds" "b \<longrightarrow> length ds < 32"
  shows "\<exists>buf' len'. put_if b c (buf, len) = Some (buf', len') \<and> nrep buf' len' (snoc_if b c ds)"
  using nrep_snoc [OF assms(1), of c] assms by (auto simp: put_if_def snoc_if_def)

lemma nrep_eq: "nrep buf len ds \<Longrightarrow> len = w \<longleftrightarrow> length ds = unat w"
  by (simp add: nrep_def word_unat_eq_iff)

lemma nrep_pos: "nrep buf len ds \<Longrightarrow> len > 0 \<longleftrightarrow> ds \<noteq> []"
  by (auto simp: nrep_def word_less_nat_alt)

lemma handle_hash_spec:
  assumes "nrep buf len ds"
  shows "\<exists>buf' len'. handle_hash base prec width flags (buf, len) = Some (buf', len') \<and>
    nrep buf' len' (hash_ref base (unat prec) (unat width) flags ds)"
proof (cases "has flags FLAGS_HASH")
  case True
  define eq where "eq \<longleftrightarrow> length ds = unat prec \<or> length ds = unat width"
  define len1 where "len1 = (if (len = prec \<or> len = width) \<and> len > 0
      then (let len = len - 1 in if base = 16 \<and> len > 0 then len - 1 else len) else len)"
  define ds1 where "ds1 = (if eq \<and> base = 16 then butlast (if eq then butlast ds else ds) else if eq then butlast ds else ds)"
  have len1: "nrep buf len1 ds1"
  proof (cases "eq \<and> ds \<noteq> []")
    case True
    have b: "nrep buf (len - 1) (butlast ds)" using nrep_butlast [OF assms] True by simp
    have "nrep buf (len - 1 - 1) (butlast (butlast ds))" if "butlast ds \<noteq> []" using nrep_butlast [OF b that] .
    with b True assms show ?thesis
      by (auto simp: len1_def ds1_def eq_def nrep_eq [OF assms] nrep_pos [OF assms] nrep_pos [OF b] Let_def)
  next
    case False
    with assms show ?thesis
      by (auto simp: len1_def ds1_def eq_def nrep_eq [OF assms] nrep_pos [OF assms])
  qed
  define ds2 where "ds2 = snoc_if (base = 16 \<and> \<not> has flags FLAGS_UPPERCASE) (CHR ''x'') ds1"
  define ds3 where "ds3 = snoc_if (base = 16 \<and> has flags FLAGS_UPPERCASE) (CHR ''X'') ds2"
  have pi: "\<exists>buf' len'. put_if (b \<and> len < NTOA_BUFFER_SIZE) c (buf, len) = Some (buf', len') \<and> nrep buf' len' (snoc_if b c ds)"
    if "nrep buf len ds" for b c buf len ds
    using put_if_spec [OF that, of "b \<and> len < NTOA_BUFFER_SIZE" c] nrep_less [OF that] by (auto simp: snoc_if_def)
  from pi [OF len1, of "base = 16 \<and> \<not> has flags FLAGS_UPPERCASE" "CHR ''x''"] obtain b2 l2 where
    2: "put_if (base = 16 \<and> \<not> has flags FLAGS_UPPERCASE \<and> len1 < NTOA_BUFFER_SIZE) (CHR ''x'') (buf, len1) = Some (b2, l2)"
      "nrep b2 l2 ds2" by (auto simp: ds2_def conj_assoc)
  from pi [OF 2(2), of "base = 16 \<and> has flags FLAGS_UPPERCASE" "CHR ''X''"] obtain b3 l3 where
    3: "put_if (base = 16 \<and> has flags FLAGS_UPPERCASE \<and> l2 < NTOA_BUFFER_SIZE) (CHR ''X'') (b2, l2) = Some (b3, l3)"
      "nrep b3 l3 ds3" by (auto simp: ds3_def conj_assoc)
  from pi [OF 3(2), of True "CHR ''0''"] obtain b4 l4 where
    4: "put_if (l3 < NTOA_BUFFER_SIZE) (CHR ''0'') (b3, l3) = Some (b4, l4)" "nrep b4 l4 (snoc_if True (CHR ''0'') ds3)"
    by auto
  have "ds3 = snoc_if (base = 16) (if has flags FLAGS_UPPERCASE then CHR ''X'' else CHR ''x'') ds1"
    by (auto simp: ds2_def ds3_def snoc_if_def)
  then have "hash_ref base (unat prec) (unat width) flags ds = snoc_if True (CHR ''0'') ds3"
    using True by (simp add: hash_ref_def Let_def ds1_def eq_def)
  moreover have "handle_hash base prec width flags (buf, len) = Some (b4, l4)"
    using True 2(1) 3(1) 4(1) unfolding handle_hash_def len1_def by (simp add: Let_def)
  ultimately show ?thesis using 4(2) by simp
qed (use assms in \<open>auto simp: handle_hash_def hash_ref_def\<close>)

lemma handle_sign_spec:
  assumes "nrep buf len ds" "sign_char negative flags \<noteq> None \<longrightarrow> width \<noteq> 0 \<or> ds \<noteq> []"
  shows "\<exists>buf' len'. handle_sign negative width flags (buf, len) = Some (buf', len') \<and>
    nrep buf' len' (sign_ref negative (unat width) flags ds)"
proof (cases "sign_char negative flags")
  case None
  with assms(1) show ?thesis
    by (auto simp: handle_sign_def sign_ref_def sign_char_def put_if_def split: if_splits)
next
  case (Some c)
  define len1 where "len1 = (if len = width then len - 1 else len)"
  define ds1 where "ds1 = (if length ds = unat width then butlast ds else ds)"
  have "ds \<noteq> []" if "length ds = unat width" using that assms(2) Some by (auto simp: unat_eq_zero)
  then have n: "nrep buf len1 ds1"
    using assms(1) nrep_butlast [OF assms(1)] by (auto simp: len1_def ds1_def nrep_eq [OF assms(1)])
  have "handle_sign negative width flags (buf, len) = put_if (len1 < NTOA_BUFFER_SIZE) c (buf, len1)"
    using Some by (auto simp: handle_sign_def sign_char_def len1_def Let_def put_if_def split: if_splits)
  moreover have "sign_ref negative (unat width) flags ds = snoc_if (len1 < NTOA_BUFFER_SIZE) c ds1"
    using Some nrep_less [OF n] by (auto simp: sign_ref_def ds1_def snoc_if_def)
  ultimately show ?thesis using put_if_spec [OF n, of "len1 < NTOA_BUFFER_SIZE" c] nrep_less [OF n] by simp
qed

text \<open>The blanks behind a left-justified field.\<close>

lemma pad_left_spec:
  fixes width :: u32
  assumes "blit buffer off (take (unat maxlen) (rev ds)) = Some b" "unat len = length ds" "off + unat maxlen \<le> length buffer"
  defines "field \<equiv> rev ds @ replicate (min (unat width) (unat maxlen) - length ds) (CHR '' '')"
  shows "\<exists>len'. pad_tail b off width maxlen len = map_option (\<lambda>b. (b, len')) (blit buffer off (take (unat maxlen) field)) \<and>
    unat len' = length field"
proof (cases "length ds \<le> unat maxlen")
  case True
  let ?k = "min (unat width) (unat maxlen) - length ds"
  have "length b = length buffer" by (rule blit_length [OF assms(1)])
  with pad_tail_spec [of off len b maxlen width] True assms(2,3) obtain len' where p:
    "pad_tail b off width maxlen len = map_option (\<lambda>b. (b, len')) (blit b (off + length ds) (replicate ?k (CHR '' '')))"
    "unat len' = max (length ds) (min (unat width) (unat maxlen))" by auto
  have "take (unat maxlen) field = field" using True by (simp add: field_def)
  moreover have "blit buffer off field = blit b (off + length ds) (replicate ?k (CHR '' ''))"
    using assms(1) True by (simp add: field_def blit_append)
  ultimately show ?thesis using p by (auto simp: field_def intro!: exI [of _ len'])
next
  case False
  have "pad_tail b off width maxlen len = Some (b, len)"
    using False assms(2) by (subst pad_tail.simps) (simp add: word_less_nat_alt)
  with False assms(1,2) show ?thesis by (simp add: field_def)
qed

lemma ntoa_format_spec:
  assumes "nrep buf len ds" "maxlen \<noteq> 0" "base \<le> 16" "off + unat maxlen \<le> length buffer"
    and "sign_char negative flags \<noteq> None \<longrightarrow> width \<noteq> 0 \<or> unsigned_ref base (unat prec) (unat width) flags ds \<noteq> []"
  shows "\<exists>len'. ntoa_format buffer off buf len negative base maxlen prec width flags =
      map_option (\<lambda>b. (b, len')) (blit buffer off (take (unat maxlen)
        (field_ref negative base (unat maxlen) (unat prec) (unat width) flags ds))) \<and>
    unat len' = length (field_ref negative base (unat maxlen) (unat prec) (unat width) flags ds)"
proof -
  let ?left = "has flags FLAGS_LEFT" and ?zero = "has flags FLAGS_ZEROPAD"
  define d1 where "d1 = (if \<not> ?left then pad_to (CHR ''0'') (unat prec) ds else ds)"
  define d2 where "d2 = (if \<not> ?left \<and> ?zero then pad_to (CHR ''0'') (unat width) d1 else d1)"
  define d3 where "d3 = hash_ref base (unat prec) (unat width) flags d2"
  define d4 where "d4 = sign_ref negative (unat width) flags d3"
  define d5 where "d5 = (if \<not> ?left \<and> \<not> ?zero then pad_to (CHR '' '') (unat width) d4 else d4)"
  have u: "unsigned_ref base (unat prec) (unat width) flags ds = d3"
    by (auto simp: unsigned_ref_def d1_def d2_def d3_def)
  obtain b1 l1 where 1: "(if \<not> ?left then pad_buf (CHR ''0'') prec buf len else Some (buf, len)) = Some (b1, l1)"
    "nrep b1 l1 d1" using pad_buf_spec [OF assms(1), of "CHR ''0''" prec] assms(1)
    unfolding d1_def by (cases ?left) auto
  obtain b2 l2 where 2: "(if \<not> ?left \<and> ?zero then pad_buf (CHR ''0'') width b1 l1 else Some (b1, l1)) = Some (b2, l2)"
    "nrep b2 l2 d2" using pad_buf_spec [OF 1(2), of "CHR ''0''" width] 1(2) 
    unfolding d2_def by (cases "\<not> ?left \<and> ?zero") auto
  obtain b3 l3 where 3: "handle_hash base prec width flags (b2, l2) = Some (b3, l3)" "nrep b3 l3 d3"
    using handle_hash_spec [OF 2(2)] unfolding d3_def by blast
  obtain b4 l4 where 4: "handle_sign negative width flags (b3, l3) = Some (b4, l4)" "nrep b4 l4 d4"
    using handle_sign_spec [OF 3(2)] assms(5) unfolding d4_def u by blast
  obtain b5 l5 where 5: "(if \<not> ?left \<and> \<not> ?zero then pad_buf (CHR '' '') width b4 l4 else Some (b4, l4)) = Some (b5, l5)"
    "nrep b5 l5 d5" using pad_buf_spec [OF 4(2), of "CHR '' ''" width] 4(2) 
    unfolding d5_def by (cases "\<not> ?left \<and> \<not> ?zero") auto
  have r: "rev_copy buffer off b5 l5 maxlen 0 = blit buffer off (take (unat maxlen) (rev d5))"
    using rev_copy_spec [OF 5(2) assms(4), of 0] by simp
  have "off + length (take (unat maxlen) (rev d5)) \<le> length buffer"
    by (rule order_trans [OF _ assms(4)]) simp
  then obtain b6 where b6: "blit buffer off (take (unat maxlen) (rev d5)) = Some b6" "length b6 = length buffer"
    using blit_ok by blast
  have F: "ntoa_format buffer off buf len negative base maxlen prec width flags =
      (if ?left then pad_tail b6 off width maxlen l5 else Some (b6, l5))"
  proof -
    have "\<not> (maxlen = 0 \<or> base > 16)" using assms(2,3) by (simp add: not_less)
    then show ?thesis
      by (simp only: ntoa_format_def 1(1) 2(1) 3(1) 4(1) 5(1) r b6(1) if_False Option.bind.simps prod.case)
  qed
  have fr: "field_ref negative base (unat maxlen) (unat prec) (unat width) flags ds =
      (if ?left then rev d4 @ replicate (min (unat width) (unat maxlen) - length d4) (CHR '' '') else rev d5)"
    unfolding field_ref_def u d4_def [symmetric] by (simp add: Let_def d5_def)
  have l5: "unat l5 = length d5" using 5(2) by (simp add: nrep_def)
  show ?thesis
  proof (cases ?left)
    case False
    with F fr b6 l5 show ?thesis by simp
  next
    case True
    then have "d5 = d4" by (simp add: d5_def)
    with F fr True pad_left_spec [OF b6(1) l5 assms(4), of width] show ?thesis by simp
  qed
qed

definition digits_ref :: "nat \<Rightarrow> nat \<Rightarrow> u32 \<Rightarrow> string" where
  "digits_ref base v flags =
     (if has flags FLAGS_PRECISION \<and> v = 0 then []
      else take 32 (map (digit_char (has flags FLAGS_UPPERCASE)) (rev_digits base v)))"

lemma ntoa_start:
  assumes "1 < unat base"
  shows "\<exists>buf len. (if \<not> has flags FLAGS_PRECISION \<or> v \<noteq> 0
      then ntoa_digits (has flags FLAGS_UPPERCASE) base v (replicate (unat NTOA_BUFFER_SIZE) NUL) 0
      else Some (replicate (unat NTOA_BUFFER_SIZE) NUL, 0)) = Some (buf, len) \<and>
    nrep buf len (digits_ref (unat base) (unat v) flags)"
proof -
  have n: "nrep (replicate (unat NTOA_BUFFER_SIZE) NUL) 0 []" by (simp add: nrep_def NTOA_BUFFER_SIZE_def)
  from ntoa_digits_spec [OF assms n, of "has flags FLAGS_UPPERCASE" v] n show ?thesis
    by (auto simp: digits_ref_def unat_eq_zero)
qed

lemma ntoa_long_spec:
  assumes "1 < unat base" "base \<le> 16" "maxlen \<noteq> 0" "off + unat maxlen \<le> length buffer"
    and "sign_char negative flags \<noteq> None \<longrightarrow> width \<noteq> 0 \<or>
      unsigned_ref base (unat prec) (unat width) flags (digits_ref (unat base) (unat v) flags) \<noteq> []"
    and "t = field_ref negative base (unat maxlen) (unat prec) (unat width) flags (digits_ref (unat base) (unat v) flags)"
  shows "\<exists>len'. ntoa_long buffer off v negative base maxlen prec width flags =
      map_option (\<lambda>b. (b, len')) (blit buffer off (take (unat maxlen) t)) \<and> unat len' = length t"
proof -
  from ntoa_start [OF assms(1), of flags v] obtain buf len where
    1: "(if \<not> has flags FLAGS_PRECISION \<or> v \<noteq> 0
      then ntoa_digits (has flags FLAGS_UPPERCASE) base v (replicate (unat NTOA_BUFFER_SIZE) NUL) 0
      else Some (replicate (unat NTOA_BUFFER_SIZE) NUL, 0)) = Some (buf, len)"
    "nrep buf len (digits_ref (unat base) (unat v) flags)" by blast
  have "ntoa_long buffer off v negative base maxlen prec width flags =
      ntoa_format buffer off buf len negative base maxlen prec width flags"
    by (simp only: ntoa_long_def Let_def 1(1) Option.bind.simps prod.case)
  with ntoa_format_spec [OF 1(2) assms(3,2,4,5)] assms(6) show ?thesis by simp
qed

section \<open>The format interpreter\<close>

definition is_digit :: "char \<Rightarrow> bool" where
  "is_digit ch \<longleftrightarrow> (48 :: nat) \<le> of_char ch \<and> (of_char ch :: nat) \<le> 57"

text \<open>
  The format is a C string: the pointer moves over the list, and reading past its end is
  undefined. \<open>c_atoi\<close> wraps like the unsigned arithmetic of \<open>_atoi\<close>.
\<close>

fun c_atoi :: "u32 \<Rightarrow> buf \<Rightarrow> (u32 \<times> buf) option" where
  "c_atoi i [] = None"
| "c_atoi i (c # cs) = (if is_digit c then c_atoi (i * 10 + word_of_nat (of_char c - 48)) cs else Some (i, c # cs))"

definition flag_of :: "char \<Rightarrow> u32 option" where
  "flag_of c =
     (if c = CHR ''0'' then Some FLAGS_ZEROPAD else if c = CHR ''-'' then Some FLAGS_LEFT
      else if c = CHR ''+'' then Some FLAGS_PLUS else if c = CHR '' '' then Some FLAGS_SPACE
      else if c = CHR ''#'' then Some FLAGS_HASH else None)"

fun parse_flags :: "u32 \<Rightarrow> buf \<Rightarrow> (u32 \<times> buf) option" where
  "parse_flags flags [] = None"
| "parse_flags flags (c # cs) =
     (case flag_of c of Some b \<Rightarrow> parse_flags (flags OR b) cs | None \<Rightarrow> Some (flags, c # cs))"

fun va_int :: "'d va list \<Rightarrow> (u32 \<times> 'd va list) option" where
  "va_int (VaInt v # va) = Some (v, va)"
| "va_int _ = None"

fun va_long_long :: "'d va list \<Rightarrow> (u64 \<times> 'd va list) option" where
  "va_long_long (VaLongLong v # va) = Some (v, va)"
| "va_long_long _ = None"

fun va_str :: "'d va list \<Rightarrow> (buf \<times> 'd va list) option" where
  "va_str (VaStr v # va) = Some (v, va)"
| "va_str _ = None"

fun va_double :: "'d va list \<Rightarrow> ('d \<times> 'd va list) option" where
  "va_double (VaDouble v # va) = Some (v, va)"
| "va_double _ = None"

definition parse_width :: "u32 \<Rightarrow> buf \<Rightarrow> 'd va list \<Rightarrow> (u32 \<times> u32 \<times> buf \<times> 'd va list) option" where
  "parse_width flags fmt va =
     do {
       c \<leftarrow> rd fmt 0;
       if is_digit c then do { (w, fmt) \<leftarrow> c_atoi 0 fmt; Some (flags, w, fmt, va) }
       else if c = CHR ''*'' then do {
         (w, va) \<leftarrow> va_int va;
         Some (if w <s 0 then (flags OR FLAGS_LEFT, - w, tl fmt, va) else (flags, w, tl fmt, va)) }
       else Some (flags, 0, fmt, va) }"

definition parse_precision :: "u32 \<Rightarrow> buf \<Rightarrow> 'd va list \<Rightarrow> (u32 \<times> u32 \<times> buf \<times> 'd va list) option" where
  "parse_precision flags fmt va =
     do {
       c \<leftarrow> rd fmt 0;
       if c = CHR ''.''
       then do {
         let flags = flags OR FLAGS_PRECISION;
         let fmt = tl fmt;
         c \<leftarrow> rd fmt 0;
         if is_digit c then do { (p, fmt) \<leftarrow> c_atoi 0 fmt; Some (flags, p, fmt, va) }
         else if c = CHR ''*'' then do { (p, va) \<leftarrow> va_int va; Some (flags, p, tl fmt, va) }
         else Some (flags, 0, fmt, va) }
       else Some (flags, 0, fmt, va) }"

definition parse_length :: "u32 \<Rightarrow> buf \<Rightarrow> (u32 \<times> buf) option" where
  "parse_length flags fmt =
     do {
       c \<leftarrow> rd fmt 0;
       let (flags, fmt) = (if c = CHR ''l'' \<or> c = CHR ''L'' then (flags OR FLAGS_LONG, tl fmt) else (flags, fmt));
       c \<leftarrow> rd fmt 0;
       Some (if c = CHR ''l'' \<and> has flags FLAGS_LONG then (flags OR FLAGS_LONG_LONG, tl fmt) else (flags, fmt)) }"

text \<open>\<open>while ((idx < buffer_len) && (l++ < width)) buffer[idx++] = ' '\<close>\<close>

function pad_out :: "buf \<Rightarrow> u32 \<Rightarrow> u32 \<Rightarrow> u32 \<Rightarrow> u32 \<Rightarrow> (buf \<times> u32) option" where
  "pad_out buffer idx buffer_len l width =
     (if idx < buffer_len \<and> l < width
      then do { buffer \<leftarrow> wr buffer (unat idx) (CHR '' ''); pad_out buffer (idx + 1) buffer_len (l + 1) width }
      else Some (buffer, idx))"
  by pat_completeness auto
termination
  by (relation "measure (\<lambda>(b, idx, n, l, width). unat width - unat l)")
    (auto simp: word_less_nat_alt unat_Suc_less)

text \<open>The string output loop; \<open>prec\<close> is \<open>None\<close> when no precision was given.\<close>

fun str_out :: "buf \<Rightarrow> u32 \<Rightarrow> u32 \<Rightarrow> u32 option \<Rightarrow> buf \<Rightarrow> (buf \<times> u32) option" where
  "str_out buffer idx buffer_len prec [] = (if idx < buffer_len then None else Some (buffer, idx))"
| "str_out buffer idx buffer_len prec (c # p) =
     (if idx < buffer_len \<and> c \<noteq> NUL \<and> prec \<noteq> Some 0
      then do {
        buffer \<leftarrow> wr buffer (unat idx) c;
        str_out buffer (idx + 1) buffer_len (map_option (\<lambda>n. n - 1) prec) p }
      else Some (buffer, idx))"

definition c_abs :: "'a::len word \<Rightarrow> 'a word" where
  "c_abs v = (if 0 <s v then v else 0 - v)"

text \<open>
  The integer cases of the specifier \<open>switch\<close>. \<open>idx += \<dots>\<close> adds the number of characters the
  formatter reports, which may exceed the room it was given.
\<close>

definition conv_base :: "char \<Rightarrow> u32 \<Rightarrow> u32 \<times> u32" where
  "conv_base c flags =
     (let (base, flags) =
        (if c = CHR ''x'' \<or> c = CHR ''X'' then (16, flags)
         else if c = CHR ''o'' then (8, flags)
         else if c = CHR ''b'' then (2, flags AND NOT FLAGS_HASH)
         else (10, flags AND NOT FLAGS_HASH));
        flags = (if c = CHR ''X'' then flags OR FLAGS_UPPERCASE else flags);
        flags = (if c \<noteq> CHR ''i'' \<and> c \<noteq> CHR ''d'' then flags AND NOT (FLAGS_PLUS OR FLAGS_SPACE) else flags)
      in (base, flags))"

definition conv_int ::
  "char \<Rightarrow> buf \<Rightarrow> u32 \<Rightarrow> u32 \<Rightarrow> u32 \<Rightarrow> u32 \<Rightarrow> u32 \<Rightarrow> 'd va list \<Rightarrow> (buf \<times> u32 \<times> 'd va list) option" where
  "conv_int c buffer idx buffer_len flags width precision va =
     (let (base, flags) = conv_base c flags;
          sgn = (c = CHR ''i'' \<or> c = CHR ''d'')
      in if has flags FLAGS_LONG_LONG
         then do {
           (v, va) \<leftarrow> va_long_long va;
           (buffer, n) \<leftarrow> ntoa_long_long buffer (unat idx) (if sgn then c_abs v else v) (sgn \<and> v <s 0)
             (ucast base) (buffer_len - idx) precision width flags;
           Some (buffer, idx + n, va) }
         else do {
           (v, va) \<leftarrow> va_int va;
           (buffer, n) \<leftarrow> ntoa_long buffer (unat idx) (if sgn then c_abs v else v) (sgn \<and> v <s 0)
             base (buffer_len - idx) precision width flags;
           Some (buffer, idx + n, va) })"

definition conv_char ::
  "buf \<Rightarrow> u32 \<Rightarrow> u32 \<Rightarrow> u32 \<Rightarrow> u32 \<Rightarrow> 'd va list \<Rightarrow> (buf \<times> u32 \<times> 'd va list) option" where
  "conv_char buffer idx buffer_len flags width va =
     do {
       (buffer, idx) \<leftarrow> (if \<not> has flags FLAGS_LEFT then pad_out buffer idx buffer_len 1 width else Some (buffer, idx));
       (v, va) \<leftarrow> va_int va;
       buffer \<leftarrow> wr buffer (unat idx) (char_of (unat v mod 256));
       let idx = idx + 1;
       (buffer, idx) \<leftarrow> (if has flags FLAGS_LEFT then pad_out buffer idx buffer_len 1 width else Some (buffer, idx));
       Some (buffer, idx, va) }"

definition conv_str ::
  "buf \<Rightarrow> u32 \<Rightarrow> u32 \<Rightarrow> u32 \<Rightarrow> u32 \<Rightarrow> u32 \<Rightarrow> 'd va list \<Rightarrow> (buf \<times> u32 \<times> 'd va list) option" where
  "conv_str buffer idx buffer_len flags width precision va =
     do {
       (p, va) \<leftarrow> va_str va;
       n \<leftarrow> c_strlen p;
       let l = word_of_nat n;
       let l = (if has flags FLAGS_PRECISION then (if l < precision then l else precision) else l);
       (buffer, idx) \<leftarrow> (if \<not> has flags FLAGS_LEFT then pad_out buffer idx buffer_len l width else Some (buffer, idx));
       (buffer, idx) \<leftarrow> str_out buffer idx buffer_len (if has flags FLAGS_PRECISION then Some precision else None) p;
       (buffer, idx) \<leftarrow> (if has flags FLAGS_LEFT then pad_out buffer idx buffer_len l width else Some (buffer, idx));
       Some (buffer, idx, va) }"

type_synonym 'd ftoa_fun = "'d \<Rightarrow> buf \<Rightarrow> nat \<Rightarrow> u32 \<Rightarrow> u32 \<Rightarrow> u32 \<Rightarrow> u32 \<Rightarrow> (buf \<times> u32) option"

definition conv_spec ::
  "'d ftoa_fun \<Rightarrow> char \<Rightarrow> buf \<Rightarrow> u32 \<Rightarrow> u32 \<Rightarrow> u32 \<Rightarrow> u32 \<Rightarrow> u32 \<Rightarrow> 'd va list \<Rightarrow> (buf \<times> u32 \<times> 'd va list) option" where
  "conv_spec ftoa c buffer idx buffer_len flags width precision va =
     (if c \<in> set ''diuxXob'' then conv_int c buffer idx buffer_len flags width precision va
      else if c = CHR ''f'' \<or> c = CHR ''F'' then do {
        (v, va) \<leftarrow> va_double va;
        (buffer, n) \<leftarrow> ftoa v buffer (unat idx) (buffer_len - idx) precision width flags;
        Some (buffer, idx + n, va) }
      else if c = CHR ''c'' then conv_char buffer idx buffer_len flags width va
      else if c = CHR ''s'' then conv_str buffer idx buffer_len flags width precision va
      else if c = CHR ''p'' then do {
        (v, va) \<leftarrow> va_int va;
        (buffer, n) \<leftarrow> ntoa_long buffer (unat idx) v False 16 (buffer_len - idx) precision 8
          (flags OR (FLAGS_ZEROPAD OR FLAGS_UPPERCASE));
        Some (buffer, idx + n, va) }
      else do { buffer \<leftarrow> wr buffer (unat idx) c; Some (buffer, idx + 1, va) })"

text \<open>What follows a \<open>'%'\<close>: flags, width, precision, length and specifier.\<close>

definition directive ::
  "'d ftoa_fun \<Rightarrow> buf \<Rightarrow> u32 \<Rightarrow> u32 \<Rightarrow> buf \<Rightarrow> 'd va list \<Rightarrow> (buf \<times> u32 \<times> buf \<times> 'd va list) option" where
  "directive ftoa buffer idx buffer_len fmt va =
     do {
       (flags, fmt) \<leftarrow> parse_flags 0 fmt;
       (flags, width, fmt, va) \<leftarrow> parse_width flags fmt va;
       (flags, precision, fmt, va) \<leftarrow> parse_precision flags fmt va;
       (flags, fmt) \<leftarrow> parse_length flags fmt;
       c \<leftarrow> rd fmt 0;
       (buffer, idx, va) \<leftarrow> conv_spec ftoa c buffer idx buffer_len flags width precision va;
       Some (buffer, idx, tl fmt, va) }"

lemma parse_flags_length: "parse_flags f cs = Some (g, ds) \<Longrightarrow> length ds \<le> length cs"
  by (induction f cs rule: parse_flags.induct) (auto split: option.splits)

lemma c_atoi_length: "c_atoi i cs = Some (n, ds) \<Longrightarrow> length ds \<le> length cs"
  by (induction i cs rule: c_atoi.induct) (auto split: if_splits)

lemma parse_width_length: "parse_width f cs va = Some (g, w, ds, va') \<Longrightarrow> length ds \<le> length cs"
  by (auto simp: parse_width_def split: bind_splits if_splits dest: c_atoi_length)

lemma parse_precision_length: "parse_precision f cs va = Some (g, w, ds, va') \<Longrightarrow> length ds \<le> length cs"
  by (auto simp: parse_precision_def Let_def split: bind_splits if_splits dest!: c_atoi_length)

lemma parse_length_length: "parse_length f cs = Some (g, ds) \<Longrightarrow> length ds \<le> length cs"
  by (auto simp: parse_length_def Let_def split: bind_splits if_splits)

lemma directive_shorter:
  assumes "directive ftoa buffer idx n cs va = Some (b, i, ds, va')"
  shows "length ds < Suc (length cs)"
proof -
  have "length ds \<le> length cs"
    using assms
    by (auto simp: directive_def split: bind_splits
        dest!: parse_flags_length parse_width_length parse_precision_length parse_length_length) linarith
  then show ?thesis by simp
qed

text \<open>
  The main loop. \<open>idx\<close> is an \<open>int\<close>; the comparison with the unsigned \<open>buffer_len\<close> converts it.
\<close>

function vsn_loop ::
  "'d ftoa_fun \<Rightarrow> buf \<Rightarrow> u32 \<Rightarrow> u32 \<Rightarrow> buf \<Rightarrow> 'd va list \<Rightarrow> (buf \<times> u32) option" where
  "vsn_loop ftoa buffer idx buffer_len fmt va =
     (if idx < buffer_len
      then (case fmt of
          [] \<Rightarrow> None
        | c # cs \<Rightarrow>
            if c = NUL then map_option (\<lambda>b. (b, idx)) (wr buffer (unat idx) NUL)
            else if c \<noteq> CHR ''%'' then
              do { buffer \<leftarrow> wr buffer (unat idx) c; vsn_loop ftoa buffer (idx + 1) buffer_len cs va }
            else do {
              (buffer, idx, fmt, va) \<leftarrow> directive ftoa buffer idx buffer_len cs va;
              vsn_loop ftoa buffer idx buffer_len fmt va })
      else Some (buffer, idx))"
  by pat_completeness auto
termination
  by (relation "measure (\<lambda>(ftoa, b, i, n, fmt, va). length fmt)") (auto dest: directive_shorter)

definition vsnprintf :: "'d ftoa_fun \<Rightarrow> buf \<Rightarrow> u32 \<Rightarrow> buf \<Rightarrow> 'd va list \<Rightarrow> (buf \<times> u32) option" where
  "vsnprintf ftoa buffer buffer_len format va = vsn_loop ftoa buffer 0 buffer_len format va"

text \<open>
  \<open>printf\<close>: format into a local array of 256 bytes, whose first content \<open>junk\<close> is unknown, then
  write \<open>ret\<close> bytes to the UART, each line feed after a carriage return.
\<close>

definition crlf :: "string \<Rightarrow> string" where
  "crlf s = concat (map (\<lambda>c. if c = CHR 0x0A then [CHR 0x0D, c] else [c]) s)"

fun emit :: "buf \<Rightarrow> nat \<Rightarrow> nat \<Rightarrow> string option" where
  "emit buffer i 0 = Some []"
| "emit buffer i (Suc n) =
     do {
       c \<leftarrow> rd buffer i;
       out \<leftarrow> emit buffer (Suc i) n;
       Some ((if c = CHR 0x0A then [CHR 0x0D, c] else [c]) @ out) }"

definition printf :: "'d ftoa_fun \<Rightarrow> buf \<Rightarrow> buf \<Rightarrow> 'd va list \<Rightarrow> (string \<times> u32) option" where
  "printf ftoa junk format va =
     do {
       (buffer, ret) \<leftarrow> vsnprintf ftoa junk PRINTF_BUFFER_SIZE format va;
       out \<leftarrow> emit buffer 0 (if ret <s 0 then 0 else unat ret);
       Some (out, ret) }"

declare vsn_loop.simps [simp del] pad_out.simps [simp del]

section \<open>Flags, digits and widths\<close>

lemmas flags_defs = FLAGS_ZEROPAD_def FLAGS_LEFT_def FLAGS_PLUS_def FLAGS_SPACE_def FLAGS_HASH_def
  FLAGS_UPPERCASE_def FLAGS_LONG_def FLAGS_LONG_LONG_def FLAGS_PRECISION_def

lemma of_char_digit: "d < 10 \<Longrightarrow> of_char (digit_char up d) = 48 + d"
  by (simp add: digit_char_def)

lemma is_digit_digit_char: "d < 16 \<Longrightarrow> is_digit (digit_char up d) \<longleftrightarrow> d < 10"
  by (auto simp: is_digit_def digit_char_def)

lemma rev_digits_less: "1 < b \<Longrightarrow> d \<in> set (rev_digits b n) \<Longrightarrow> d < b"
  by (induction b n rule: rev_digits.induct) (subst (asm) (2) rev_digits.simps, auto split: if_splits)

lemma rev_digits_not_Nil [simp]: "rev_digits b n \<noteq> []"
  by (subst rev_digits.simps) simp

lemma foldl_digits:
  "1 < b \<Longrightarrow> foldl (\<lambda>a d. a * of_nat b + of_nat d) 0 (rev (rev_digits b n)) = (of_nat n :: 'a::comm_semiring_1)"
proof (induction b n rule: rev_digits.induct)
  case (1 b n)
  show ?case
  proof (cases "n < b")
    case True
    then show ?thesis by (subst rev_digits.simps) simp
  next
    case False
    with 1 have "foldl (\<lambda>a d. a * of_nat b + of_nat d) 0 (rev (rev_digits b n)) =
        of_nat (n div b) * of_nat b + (of_nat (n mod b) :: 'a)"
      by (subst rev_digits.simps) simp
    also have "\<dots> = of_nat (n div b * b + n mod b)" by (simp only: of_nat_add of_nat_mult)
    finally show ?thesis by simp
  qed
qed

lemma c_atoi_digits:
  "\<forall>d \<in> set ds. d < 10 \<Longrightarrow> \<not> is_digit c \<Longrightarrow>
   c_atoi i (map (digit_char up) ds @ c # cs) = Some (foldl (\<lambda>a d. a * 10 + of_nat d) i ds, c # cs)"
  by (induction ds arbitrary: i) (simp_all add: is_digit_digit_char of_char_digit)

text \<open>The decimal text of a number; \<open>_atoi\<close> reads it back.\<close>

definition decimal :: "nat \<Rightarrow> string" where
  "decimal n = map (digit_char False) (rev (rev_digits 10 n))"

lemma c_atoi_decimal:
  assumes "\<not> is_digit c"
  shows "c_atoi 0 (decimal n @ c # cs) = Some (of_nat n, c # cs)"
proof -
  have "\<forall>d \<in> set (rev (rev_digits 10 n)). d < 10" using rev_digits_less [of 10 _ n] by auto
  from c_atoi_digits [OF this assms] foldl_digits [of 10 n, where ?'a = u32] show ?thesis
    by (simp add: decimal_def)
qed

lemma decimal_Cons:
  assumes "0 < n"
  shows "\<exists>d ds. decimal n = digit_char False d # ds \<and> 0 < d \<and> d < 10"
proof -
  have "0 < last (rev_digits 10 n) \<and> last (rev_digits 10 n) < 10" using assms
  proof (induction "10 :: nat" n rule: rev_digits.induct)
    case (1 n)
    then show ?case by (subst (1 2) rev_digits.simps) (auto simp: div_greater_zero_iff)
  qed
  then show ?thesis unfolding decimal_def
    by (metis hd_rev list.collapse list.simps(9) rev_digits_not_Nil rev_is_Nil_conv)
qed

lemma rev_digits_length: "1 < b \<Longrightarrow> n < 2 ^ k \<Longrightarrow> 0 < k \<Longrightarrow> length (rev_digits b n) \<le> k"
proof (induction b n arbitrary: k rule: rev_digits.induct)
  case (1 b n)
  show ?case
  proof (cases "n < b")
    case True
    with 1(4) show ?thesis by (subst rev_digits.simps) simp
  next
    case False
    obtain j where k: "k = Suc j" using 1(4) by (cases k) auto
    have "n div b \<le> n div 2" using 1(2) by (intro div_le_mono2) auto
    with 1(3) k have n: "n div b < 2 ^ j" by simp
    moreover have "0 < n div b" using False 1(2) by (simp add: div_greater_zero_iff)
    ultimately have "0 < j" by (cases j) auto
    with 1(1) [OF _ 1(2) n] False 1(2) k show ?thesis by (subst rev_digits.simps) simp
  qed
qed

lemma rev_digits_length_10: "n < 10 ^ k \<Longrightarrow> 0 < k \<Longrightarrow> length (rev_digits 10 n) \<le> k"
proof (induction k arbitrary: n)
  case (Suc k)
  then show ?case
  proof (cases "n < 10")
    case False
    with Suc.prems have "n div 10 < 10 ^ k" "0 < k" by (auto intro: gr0I)
    with Suc.IH False show ?thesis by (subst rev_digits.simps) simp
  qed (subst rev_digits.simps, simp)
qed simp

section \<open>Fields as the C standard describes them\<close>

text \<open>
  The text of an integer conversion with the digits \<open>ds\<close> (most significant first), a minus sign
  when \<open>neg\<close>, a field width and the flags \<open>'-'\<close> and \<open>'0'\<close>.
\<close>

definition num_field :: "bool \<Rightarrow> bool \<Rightarrow> nat \<Rightarrow> bool \<Rightarrow> string \<Rightarrow> string" where
  "num_field left zero w neg ds =
     (let s = (if neg then ''-'' else []); k = w - length (s @ ds)
      in if left then s @ ds @ replicate k (CHR '' '')
         else if zero then s @ replicate k (CHR ''0'') @ ds
         else replicate k (CHR '' '') @ s @ ds)"

lemma length_num_field: "length (num_field left zero w neg ds) = max w (length ds + of_bool neg)"
  by (auto simp: num_field_def Let_def)

text \<open>The code agrees unless a negative number has exactly as many digits as the field is wide.\<close>

lemma field_ref_std:
  assumes "\<not> has flags FLAGS_HASH" "\<not> has flags FLAGS_PLUS" "\<not> has flags FLAGS_SPACE"
    and "w \<le> 32" "has flags FLAGS_LEFT \<longrightarrow> w \<le> maxlen" "length ds + of_bool neg \<le> 32" "ds \<noteq> []" "neg \<longrightarrow> length ds \<noteq> w"
  shows "field_ref neg base maxlen 0 w flags (rev ds) =
    num_field (has flags FLAGS_LEFT) (has flags FLAGS_ZEROPAD) w neg ds"
proof -
  have m: "min w 32 = w" "has flags FLAGS_LEFT \<Longrightarrow> min w maxlen = w" using assms(4,5) by auto
  have h: "unsigned_ref base 0 w flags (rev ds) =
      (if \<not> has flags FLAGS_LEFT \<and> has flags FLAGS_ZEROPAD then rev ds @ replicate (w - length ds) (CHR ''0'') else rev ds)"
    using assms(1) by (simp add: unsigned_ref_def hash_ref_def pad_to_def m)
  have sc: "sign_char neg flags = (if neg then Some (CHR ''-'') else None)"
    using assms(2,3) by (simp add: sign_char_def)
  show ?thesis
  proof (cases "neg \<and> \<not> has flags FLAGS_LEFT \<and> has flags FLAGS_ZEROPAD \<and> length ds < w")
    case True
    then obtain k where k: "w - length ds = Suc k" by (metis Suc_diff_Suc)
    then have wk: "w = length ds + Suc k" by linarith
    have "sign_ref neg w flags (unsigned_ref base 0 w flags (rev ds)) = rev ds @ replicate k (CHR ''0'') @ ''-''"
    proof -
      have "butlast (rev ds @ replicate (Suc k) (CHR ''0'')) = rev ds @ replicate k (CHR ''0'')"
        by (metis append.assoc butlast_snoc replicate_Suc replicate_append_same)
      moreover have "unsigned_ref base 0 w flags (rev ds) = rev ds @ replicate (Suc k) (CHR ''0'')"
        using True unfolding h k by simp
      ultimately show ?thesis
        using True assms(4) unfolding sign_ref_def sc by (simp add: wk snoc_if_def del: replicate_Suc)
    qed
    with True show ?thesis
      by (simp add: field_ref_def num_field_def Let_def wk)
  next
    case False
    have "sign_ref neg w flags (unsigned_ref base 0 w flags (rev ds)) =
        unsigned_ref base 0 w flags (rev ds) @ (if neg then ''-'' else [])"
      using False assms(6,8) unfolding sign_ref_def sc by (auto simp: h snoc_if_def)
    then have f: "field_ref neg base maxlen 0 w flags (rev ds) =
        (let s = unsigned_ref base 0 w flags (rev ds) @ (if neg then ''-'' else [])
         in if has flags FLAGS_LEFT then rev s @ replicate (min w maxlen - length s) (CHR '' '')
            else rev (if has flags FLAGS_ZEROPAD then s else pad_to (CHR '' '') w s))"
      by (simp only: field_ref_def)
    consider "has flags FLAGS_LEFT" | "\<not> has flags FLAGS_LEFT" "has flags FLAGS_ZEROPAD"
      | "\<not> has flags FLAGS_LEFT" "\<not> has flags FLAGS_ZEROPAD" by blast
    then show ?thesis
    proof cases
      case 1
      then show ?thesis by (simp add: f h num_field_def Let_def m)
    next
      case 2
      with False have "neg \<Longrightarrow> w - length ds = 0" by simp
      with 2 show ?thesis unfolding f h num_field_def Let_def by auto
    next
      case 3
      then show ?thesis by (simp add: f h num_field_def Let_def m pad_to_def)
    qed
  qed
qed

section \<open>Formats as a sequence of pieces\<close>

text \<open>
  A format is literal text, \<open>%%\<close>, an integer conversion with optional \<open>'-'\<close>, \<open>'0'\<close> and width, or
  \<open>%s\<close>: how each is written in the format, the arguments it takes and the text it stands for.
\<close>

datatype piece = Lit string | Percent | Num bool bool nat char u32 | Str string

definition conv_radix :: "char \<Rightarrow> nat" where
  "conv_radix c = (if c = CHR ''x'' \<or> c = CHR ''X'' then 16 else if c = CHR ''o'' then 8 else 10)"

definition conv_signed :: "char \<Rightarrow> bool" where
  "conv_signed c \<longleftrightarrow> c = CHR ''d'' \<or> c = CHR ''i''"

definition num_neg :: "char \<Rightarrow> u32 \<Rightarrow> bool" where
  "num_neg c v \<longleftrightarrow> conv_signed c \<and> v <s 0"

definition num_digits :: "char \<Rightarrow> u32 \<Rightarrow> string" where
  "num_digits c v = map (digit_char (c = CHR ''X''))
     (rev (rev_digits (conv_radix c) (unat (if num_neg c v then - v else v))))"

fun piece_fmt :: "piece \<Rightarrow> string" where
  "piece_fmt (Lit s) = s"
| "piece_fmt Percent = ''%%''"
| "piece_fmt (Num left zero w c v) =
     CHR ''%'' # (if left then ''-'' else []) @ (if zero then ''0'' else []) @ (if w = 0 then [] else decimal w) @ [c]"
| "piece_fmt (Str s) = ''%s''"

fun piece_args :: "piece \<Rightarrow> 'd va list" where
  "piece_args (Num left zero w c v) = [VaInt v]"
| "piece_args (Str s) = [VaStr (s @ [NUL])]"
| "piece_args _ = []"

fun piece_text :: "piece \<Rightarrow> string" where
  "piece_text (Lit s) = s"
| "piece_text Percent = ''%''"
| "piece_text (Num left zero w c v) = num_field left zero w (num_neg c v) (num_digits c v)"
| "piece_text (Str s) = s"

fun piece_ok :: "piece \<Rightarrow> bool" where
  "piece_ok (Lit s) \<longleftrightarrow> NUL \<notin> set s \<and> CHR ''%'' \<notin> set s"
| "piece_ok Percent \<longleftrightarrow> True"
| "piece_ok (Num left zero w c v) \<longleftrightarrow> c \<in> set ''diuxXo'' \<and> w \<le> 32 \<and> (num_neg c v \<longrightarrow> w \<noteq> length (num_digits c v))"
| "piece_ok (Str s) \<longleftrightarrow> NUL \<notin> set s"

definition plain_flags :: "bool \<Rightarrow> bool \<Rightarrow> u32" where
  "plain_flags left zero = (if left then FLAGS_LEFT else 0) OR (if zero then FLAGS_ZEROPAD else 0)"

lemma flag_of_None: "(of_char c :: nat) \<notin> {48, 45, 43, 32, 35} \<Longrightarrow> flag_of c = None"
  by (auto simp: flag_of_def)

lemma parse_flags_plain:
  assumes "flag_of c = None"
  shows "parse_flags 0 ((if left then ''-'' else []) @ (if zero then ''0'' else []) @ c # cs) =
    Some (plain_flags left zero, c # cs)"
  using assms by (auto simp: plain_flags_def flag_of_def)

lemma directive_plain:
  assumes "\<not> is_digit c" "flag_of c = None" "c \<notin> {CHR ''*'', CHR ''.'', CHR ''l'', CHR ''L''}"
  shows "directive ftoa b i n ((if left then ''-'' else []) @ (if zero then ''0'' else []) @
      (if w = 0 then [] else decimal w) @ c # cs) va =
    map_option (\<lambda>(b, i, va). (b, i, cs, va))
      (conv_spec ftoa c b i n (plain_flags left zero) (of_nat w) 0 va)"
proof -
  let ?F = "plain_flags left zero" and ?t = "(if w = 0 then [] else decimal w) @ c # cs"
  have "parse_flags 0 ((if left then ''-'' else []) @ (if zero then ''0'' else []) @ ?t) = Some (?F, ?t) \<and>
    parse_width ?F ?t va = Some (?F, of_nat w, c # cs, va)"
  proof (cases "w = 0")
    case True
    with assms show ?thesis
      using parse_flags_plain [OF assms(2)] by (simp add: parse_width_def rd_def)
  next
    case False
    then obtain d ds where d: "decimal w = digit_char False d # ds" "0 < d" "d < 10"
      using decimal_Cons by blast
    have "flag_of (digit_char False d) = None" using d(2,3) by (intro flag_of_None) (simp add: of_char_digit)
    from parse_flags_plain [OF this] False d(1,3) c_atoi_decimal [OF assms(1), of w cs] show ?thesis
      by (simp add: parse_width_def rd_def is_digit_digit_char)
  qed
  moreover have "parse_precision ?F (c # cs) va = Some (?F, 0, c # cs, va)"
    using assms(3) by (simp add: parse_precision_def rd_def)
  moreover have "parse_length ?F (c # cs) = Some (?F, c # cs)"
    using assms(3) by (simp add: parse_length_def rd_def)
  ultimately show ?thesis
    by (cases "conv_spec ftoa c b i n ?F (of_nat w) 0 va") (auto simp: directive_def rd_def)
qed

lemma conv_base_plain:
  assumes "c \<in> set ''diuxXo''"
  shows "\<exists>flags. conv_base c (plain_flags left zero) = (of_nat (conv_radix c), flags) \<and>
    has flags FLAGS_LEFT = left \<and> has flags FLAGS_ZEROPAD = zero \<and>
    has flags FLAGS_UPPERCASE = (c = CHR ''X'') \<and> \<not> has flags FLAGS_HASH \<and> \<not> has flags FLAGS_PLUS \<and>
    \<not> has flags FLAGS_SPACE \<and> \<not> has flags FLAGS_PRECISION \<and> \<not> has flags FLAGS_LONG_LONG"
  using assms
  by (cases left; cases zero)
    (auto simp: conv_base_def plain_flags_def flags_defs has_def conv_radix_def)

lemma conv_radix_bounds: "1 < conv_radix c" "conv_radix c \<le> 16"
  by (simp_all add: conv_radix_def)

lemma conv_radix_word: "unat (of_nat (conv_radix c) :: u32) = conv_radix c" "(of_nat (conv_radix c) :: u32) \<le> 16"
  by (simp_all add: conv_radix_def word_le_nat_alt)

lemma signed_abs_unat: "v <s 0 \<Longrightarrow> c_abs v = - v" "\<not> v <s 0 \<Longrightarrow> c_abs v = v" for v :: "'a::len word"
proof -
  show "c_abs v = - v" if "v <s 0"
  proof -
    from that have "\<not> 0 <s v" by (simp add: word_sless_alt)
    then show ?thesis by (simp add: c_abs_def)
  qed
  show "c_abs v = v" if "\<not> v <s 0"
  proof (cases "0 <s v")
    case False
    with that have "sint v = sint (0 :: 'a word)" by (simp add: word_sless_alt)
    then have "v = 0" by (metis signed_word_eqI)
    then show ?thesis by (simp add: c_abs_def)
  qed (simp add: c_abs_def)
qed

lemma neg_not_zero: "v <s 0 \<Longrightarrow> - v \<noteq> 0" for v :: "'a::len word"
  by (auto simp: word_sless_alt)

lemma num_digits_bounds:
  "num_digits c v \<noteq> []" "length (num_digits c v) + of_bool (num_neg c v) \<le> 32"
proof -
  let ?v = "if num_neg c v then - v else v"
  show "num_digits c v \<noteq> []" by (simp add: num_digits_def)
  have v: "unat ?v < 2 ^ 32" using unsigned_less [of ?v, where ?'a = nat] by (simp del: if_split)
  show "length (num_digits c v) + of_bool (num_neg c v) \<le> 32"
  proof (cases "num_neg c v")
    case True
    then have "conv_radix c = 10" by (auto simp: num_neg_def conv_signed_def conv_radix_def)
    moreover have "length (rev_digits 10 (unat ?v)) \<le> 10" by (rule rev_digits_length_10 [OF less_trans [OF v]]) simp_all
    ultimately show ?thesis using True by (simp add: num_digits_def)
  next
    case False
    have "length (rev_digits (conv_radix c) (unat ?v)) \<le> 32"
      by (rule rev_digits_length [OF conv_radix_bounds(1) v]) simp
    with False show ?thesis by (simp add: num_digits_def)
  qed
qed

text \<open>One integer conversion: the field is written as far as there is room, and counted in full.\<close>

lemma conv_int_field:
  assumes c: "c \<in> set ''diuxXo''" and w: "w \<le> 32" and room: "0 < unat n - unat i" "unat n \<le> length b"
  shows "\<exists>flags len. has flags FLAGS_LEFT = left \<and> has flags FLAGS_ZEROPAD = zero \<and>
    \<not> has flags FLAGS_HASH \<and> \<not> has flags FLAGS_PLUS \<and> \<not> has flags FLAGS_SPACE \<and>
    (let t = field_ref (num_neg c v) (of_nat (conv_radix c)) (unat n - unat i) 0 w flags (rev (num_digits c v))
     in conv_int c b i n (plain_flags left zero) (of_nat w) 0 (VaInt v # va) =
        map_option (\<lambda>b. (b, i + len, va)) (blit b (unat i) (take (unat n - unat i) t)) \<and> unat len = length t)"
proof -
  obtain flags where F: "conv_base c (plain_flags left zero) = (of_nat (conv_radix c), flags)"
    "has flags FLAGS_LEFT = left" "has flags FLAGS_ZEROPAD = zero"
    "has flags FLAGS_UPPERCASE = (c = CHR ''X'')" "\<not> has flags FLAGS_HASH" "\<not> has flags FLAGS_PLUS"
    "\<not> has flags FLAGS_SPACE" "\<not> has flags FLAGS_PRECISION" "\<not> has flags FLAGS_LONG_LONG"
    using conv_base_plain [OF c, of left zero] by blast
  let ?neg = "num_neg c v" and ?v = "if num_neg c v then - v else v"
  let ?ds = "num_digits c v" and ?base = "of_nat (conv_radix c) :: u32"
  let ?t = "field_ref ?neg ?base (unat n - unat i) 0 w flags (rev ?ds)"
  have sgn: "c = CHR ''i'' \<or> c = CHR ''d'' \<longleftrightarrow> conv_signed c" by (auto simp: conv_signed_def)
  have val: "(if conv_signed c then c_abs v else v) = ?v" "(conv_signed c \<and> v <s 0) = ?neg"
    using signed_abs_unat [of v] by (auto simp: num_neg_def)
  have uw: "unat (of_nat w :: u32) = w" using w by (simp add: unat_of_nat)
  have dig: "digits_ref (unat ?base) (unat ?v) flags = rev ?ds"
    using num_digits_bounds(2) [of c v] F(4,8) by (simp add: digits_ref_def num_digits_def conv_radix_word rev_map)
  have r: "unat (n - i) = unat n - unat i"
    using room by (intro unat_sub) (simp add: word_le_nat_alt)
  have u0: "unsigned_ref ?base 0 w flags (rev ?ds) \<noteq> []"
    using num_digits_bounds(1) F(5) by (auto simp: unsigned_ref_def hash_ref_def pad_to_def)
  have nz: "n - i \<noteq> 0" using r room by (auto simp flip: unat_eq_0)
  from ntoa_long_spec [of ?base "n - i" "unat i" b ?neg flags "of_nat w" 0 ?v ?t, OF _ _ nz]
  obtain len where l: "ntoa_long b (unat i) ?v ?neg ?base (n - i) 0 (of_nat w) flags =
      map_option (\<lambda>b. (b, len)) (blit b (unat i) (take (unat n - unat i) ?t))" "unat len = length ?t"
    using conv_radix_bounds conv_radix_word u0 uw dig r room by auto
  have "conv_int c b i n (plain_flags left zero) (of_nat w) 0 (VaInt v # va) =
      Option.bind (ntoa_long b (unat i) ?v ?neg ?base (n - i) 0 (of_nat w) flags) (\<lambda>(b, len). Some (b, i + len, va))"
    using F(9) by (simp add: conv_int_def F(1) sgn val)
  with l have "conv_int c b i n (plain_flags left zero) (of_nat w) 0 (VaInt v # va) =
      map_option (\<lambda>b. (b, i + len, va)) (blit b (unat i) (take (unat n - unat i) ?t))"
    by (cases "blit b (unat i) (take (unat n - unat i) ?t)") auto
  with l(2) F show ?thesis by (intro exI [of _ flags] exI [of _ len]) (simp add: Let_def)
qed

lemma conv_int_plain:
  assumes c: "c \<in> set ''diuxXo''" and ok: "piece_ok (Num left zero w c v)"
    and t: "t = piece_text (Num left zero w c v)"
    and room: "0 < unat n - unat i" "unat n \<le> length b" "left \<longrightarrow> w \<le> unat n - unat i"
  shows "\<exists>len. conv_int c b i n (plain_flags left zero) (of_nat w) 0 (VaInt v # va) =
      map_option (\<lambda>b. (b, i + len, va)) (blit b (unat i) (take (unat n - unat i) t)) \<and> unat len = length t"
proof -
  have w: "w \<le> 32" using ok by simp
  from conv_int_field [OF c w room(1,2), of left zero v va] obtain flags len where
    F: "has flags FLAGS_LEFT = left" "has flags FLAGS_ZEROPAD = zero" "\<not> has flags FLAGS_HASH"
      "\<not> has flags FLAGS_PLUS" "\<not> has flags FLAGS_SPACE" and
    l: "let t = field_ref (num_neg c v) (of_nat (conv_radix c)) (unat n - unat i) 0 w flags (rev (num_digits c v))
     in conv_int c b i n (plain_flags left zero) (of_nat w) 0 (VaInt v # va) =
        map_option (\<lambda>b. (b, i + len, va)) (blit b (unat i) (take (unat n - unat i) t)) \<and> unat len = length t"
    by blast
  have "field_ref (num_neg c v) (of_nat (conv_radix c)) (unat n - unat i) 0 w flags (rev (num_digits c v)) = t"
    using field_ref_std [OF F(3-5) w _ num_digits_bounds(2,1)] F(1,2) room(3) ok t by auto
  with l show ?thesis by (auto simp: Let_def)
qed

text \<open>Padding and strings with no width.\<close>

lemma pad_out_none: "\<not> l < width \<Longrightarrow> pad_out b i n l width = Some (b, i)"
  by (subst pad_out.simps) simp

lemma str_out_plain:
  "NUL \<notin> set s \<Longrightarrow> unat i + length s < unat n \<Longrightarrow> unat n \<le> length b \<Longrightarrow>
   str_out b i n None (s @ NUL # r) = map_option (\<lambda>b. (b, i + of_nat (length s))) (blit b (unat i) s)"
proof (induction s arbitrary: b i)
  case Nil
  then have "i < n" by (simp add: word_less_nat_alt)
  with Nil show ?case by simp
next
  case (Cons c s)
  then have i: "i < n" "unat (i + 1) = Suc (unat i)"
    using unat_Suc_less [of i n] by (auto simp: word_less_nat_alt)
  have "str_out (b[unat i := c]) (i + 1) n None (s @ NUL # r) =
      map_option (\<lambda>b. (b, i + 1 + of_nat (length s))) (blit (b[unat i := c]) (unat (i + 1)) s)"
    using Cons.prems i by (intro Cons.IH) auto
  moreover have "blit (b[unat i := c]) (Suc (unat i)) s = blit b (unat i) (c # s)"
    using Cons.prems by (intro blit_upd_Cons) simp
  ultimately show ?case using Cons.prems i by (auto simp: wr_def ac_simps)
qed

lemma lit_step:
  "NUL \<notin> set s \<Longrightarrow> CHR ''%'' \<notin> set s \<Longrightarrow> unat i + length s < unat n \<Longrightarrow> unat n \<le> length b \<Longrightarrow>
   vsn_loop ftoa b i n (s @ cs) va =
     Option.bind (blit b (unat i) s) (\<lambda>b. vsn_loop ftoa b (i + of_nat (length s)) n cs va)"
proof (induction s arbitrary: b i)
  case (Cons c s)
  then have i: "i < n" "unat (i + 1) = Suc (unat i)"
    using unat_Suc_less [of i n] by (auto simp: word_less_nat_alt)
  have "vsn_loop ftoa b i n ((c # s) @ cs) va = vsn_loop ftoa (b[unat i := c]) (i + 1) n (s @ cs) va"
    using Cons.prems i by (subst vsn_loop.simps) (auto simp: wr_def)
  also have "\<dots> = Option.bind (blit (b[unat i := c]) (Suc (unat i)) s)
      (\<lambda>b. vsn_loop ftoa b (i + 1 + of_nat (length s)) n cs va)"
    using Cons.prems i by (subst Cons.IH) auto
  also have "blit (b[unat i := c]) (Suc (unat i)) s = blit b (unat i) (c # s)"
    using Cons.prems by (intro blit_upd_Cons) simp
  finally show ?case by (simp add: ac_simps)
qed simp

lemma conv_str_plain:
  assumes "NUL \<notin> set s" "unat i + length s < unat n" "unat n \<le> length b"
  shows "conv_str b i n 0 0 0 (VaStr (s @ [NUL]) # va) =
    map_option (\<lambda>b. (b, i + of_nat (length s), va)) (blit b (unat i) s)"
  using str_out_plain [OF assms, of "[]"] assms(1)
  by (cases "blit b (unat i) s") (simp_all add: conv_str_def has_def pad_out_none)

lemma directive_step:
  assumes "i < n" "directive ftoa b i n fmt va = map_option (\<lambda>b. (b, i + len, cs, va')) r"
  shows "vsn_loop ftoa b i n (CHR ''%'' # fmt) va = Option.bind r (\<lambda>b. vsn_loop ftoa b (i + len) n cs va')"
  using assms by (subst vsn_loop.simps) (cases r; simp)

lemma conv_letters_all:
  "list_all (\<lambda>c. \<not> is_digit c \<and> flag_of c = None \<and> c \<notin> {CHR ''*'', CHR ''.'', CHR ''l'', CHR ''L''}) ''diuxXos%''"
  by code_simp

lemma conv_letters: "c \<in> set ''diuxXos%'' \<Longrightarrow> \<not> is_digit c \<and> flag_of c = None \<and> c \<notin> {CHR ''*'', CHR ''.'', CHR ''l'', CHR ''L''}"
  using conv_letters_all unfolding list_all_iff by blast

lemma piece_step:
  assumes "piece_ok p" "unat i + length (piece_text p) < unat n" "unat n \<le> length b"
  shows "\<exists>len. vsn_loop ftoa b i n (piece_fmt p @ cs) (piece_args p @ va) =
      Option.bind (blit b (unat i) (piece_text p)) (\<lambda>b. vsn_loop ftoa b (i + len) n cs va) \<and>
    unat len = length (piece_text p)"
proof -
  have i: "i < n" using assms(2) by (simp add: word_less_nat_alt)
  have len: "unat (of_nat (length (piece_text p)) :: u32) = length (piece_text p)"
    using assms(2) unsigned_less [of n, where ?'a = nat] by (simp add: unat_of_nat)
  note D = directive_plain [where ftoa = ftoa and b = b and i = i and n = n and cs = cs]
  note L = conv_letters [THEN conjunct1] conv_letters [THEN conjunct2, THEN conjunct1]
    conv_letters [THEN conjunct2, THEN conjunct2]
  show ?thesis
  proof (cases p)
    case (Lit s)
    with assms len lit_step [of s i n b ftoa cs va] show ?thesis by (intro exI [of _ "of_nat (length s)"]) simp
  next
    case Percent
    have "directive ftoa b i n (CHR ''%'' # cs) va = map_option (\<lambda>b. (b, i + 1, cs, va)) (blit b (unat i) ''%'')"
      using D [OF L, of "CHR ''%''" False False 0 va] assms(2,3) Percent
      by (simp add: conv_spec_def wr_def blit_def upd_conv_take_nth_drop)
    from directive_step [OF i this] Percent show ?thesis by (intro exI [of _ 1]) simp
  next
    case (Str s)
    have "directive ftoa b i n (CHR ''s'' # cs) (VaStr (s @ [NUL]) # va) =
        map_option (\<lambda>b. (b, i + of_nat (length s), cs, va)) (blit b (unat i) s)"
      using D [OF L, of "CHR ''s''" False False 0 "VaStr (s @ [NUL]) # va"] conv_str_plain [of s i n b va] assms Str
      by (simp add: conv_spec_def plain_flags_def option.map_comp comp_def)
    from directive_step [OF i this] Str len show ?thesis by (intro exI [of _ "of_nat (length s)"]) simp
  next
    case (Num left zero w c v)
    have c: "c \<in> set ''diuxXo''" using assms(1) Num by simp
    then have c': "c \<in> set ''diuxXos%''" "c \<in> set ''diuxXob''" by auto
    have "left \<longrightarrow> w \<le> unat n - unat i" using assms(2) Num by (auto simp: length_num_field)
    with conv_int_plain [OF c _ refl, of left zero w v n i b va] assms Num obtain k where
      k: "conv_int c b i n (plain_flags left zero) (of_nat w) 0 (VaInt v # va) =
        map_option (\<lambda>b. (b, i + k, va)) (blit b (unat i) (piece_text p))" "unat k = length (piece_text p)"
      by auto
    have "directive ftoa b i n ((if left then ''-'' else []) @ (if zero then ''0'' else []) @
        (if w = 0 then [] else decimal w) @ c # cs) (VaInt v # va) =
        map_option (\<lambda>b. (b, i + k, cs, va)) (blit b (unat i) (piece_text p))"
      unfolding D [OF L(1) [OF c'(1)] L(2) [OF c'(1)] L(3) [OF c'(1)]] using c'(2) k(1)
      by (simp add: conv_spec_def option.map_comp comp_def)
    from directive_step [OF i this] Num k(2) show ?thesis by (intro exI [of _ k]) simp
  qed
qed

text \<open>All pieces of a format whose text fits.\<close>

lemma vsn_loop_pieces:
  "list_all piece_ok ps \<Longrightarrow> unat i + length (concat (map piece_text ps)) < unat n \<Longrightarrow> unat n \<le> length b \<Longrightarrow>
   \<exists>j. vsn_loop ftoa b i n (concat (map piece_fmt ps) @ cs) (concat (map piece_args ps) @ va) =
       Option.bind (blit b (unat i) (concat (map piece_text ps))) (\<lambda>b. vsn_loop ftoa b j n cs va) \<and>
     unat j = unat i + length (concat (map piece_text ps))"
proof (induction ps arbitrary: b i)
  case Nil
  then show ?case by (intro exI [of _ i]) simp
next
  case (Cons p ps)
  let ?t = "piece_text p" and ?ts = "concat (map piece_text ps)"
  from piece_step [of p i n b ftoa "concat (map piece_fmt ps) @ cs" "concat (map piece_args ps) @ va"] Cons.prems
  obtain k where k: "vsn_loop ftoa b i n (piece_fmt p @ concat (map piece_fmt ps) @ cs)
      (piece_args p @ concat (map piece_args ps) @ va) = Option.bind (blit b (unat i) ?t)
        (\<lambda>b. vsn_loop ftoa b (i + k) n (concat (map piece_fmt ps) @ cs) (concat (map piece_args ps) @ va))"
    "unat k = length ?t" by auto
  obtain b' where b': "blit b (unat i) ?t = Some b'" "length b' = length b"
    using blit_ok [of "unat i" ?t b] Cons.prems by auto
  have ik: "unat (i + k) = unat i + length ?t"
    using k(2) Cons.prems(2) unsigned_less [of n, where ?'a = nat] by (subst unat_add_lem [THEN iffD1]) auto
  from Cons.IH [of "i + k" b'] Cons.prems ik b'(2) obtain j where
    "vsn_loop ftoa b' (i + k) n (concat (map piece_fmt ps) @ cs) (concat (map piece_args ps) @ va) =
       Option.bind (blit b' (unat i + length ?t) ?ts) (\<lambda>b. vsn_loop ftoa b j n cs va)"
    "unat j = unat i + length ?t + length ?ts" by auto
  moreover have "blit b (unat i) (?t @ ?ts) = blit b' (unat i + length ?t) ?ts"
    by (simp add: blit_append b'(1))
  ultimately show ?case using k(1) b'(1) by (intro exI [of _ j]) simp
qed

text \<open>The same from the start of the buffer.\<close>

lemma vsn_loop_start:
  assumes "list_all piece_ok ps" "t = concat (map piece_text ps)" "length t < unat n" "unat n \<le> length b"
  shows "vsn_loop ftoa b 0 n (concat (map piece_fmt ps) @ cs) (concat (map piece_args ps) @ va) =
    vsn_loop ftoa (t @ drop (length t) b) (of_nat (length t)) n cs va"
    and "unat (of_nat (length t) :: u32) = length t"
proof -
  from vsn_loop_pieces [OF assms(1), of 0 n b ftoa cs va] assms(2-4) obtain j where
    j: "vsn_loop ftoa b 0 n (concat (map piece_fmt ps) @ cs) (concat (map piece_args ps) @ va) =
       Option.bind (blit b 0 t) (\<lambda>b. vsn_loop ftoa b j n cs va)" "unat j = length t" by auto
  have "j = of_nat (length t)" by (simp flip: j(2))
  with j assms(3,4) show "vsn_loop ftoa b 0 n (concat (map piece_fmt ps) @ cs) (concat (map piece_args ps) @ va) =
    vsn_loop ftoa (t @ drop (length t) b) (of_nat (length t)) n cs va"
    "unat (of_nat (length t) :: u32) = length t" by (auto simp: blit_def)
qed

lemma vsn_loop_end:
  "unat i < unat n \<Longrightarrow> unat n \<le> length b \<Longrightarrow> vsn_loop ftoa b i n (NUL # r) va = Some (b[unat i := NUL], i)"
  by (subst vsn_loop.simps) (simp add: wr_def word_less_nat_alt)

lemma emit_spec: "i + n \<le> length b \<Longrightarrow> emit b i n = Some (crlf (take n (drop i b)))"
proof (induction b i n rule: emit.induct)
  case (2 b i n)
  then have "drop i b = b ! i # drop (Suc i) b" by (simp add: Cons_nth_drop_Suc)
  with 2 show ?case by (simp add: rd_def crlf_def)
qed (simp add: crlf_def)

lemma emit_None: "length b < i + n \<Longrightarrow> i \<le> length b \<Longrightarrow> emit b i n = None"
  by (induction b i n rule: emit.induct) (auto simp: rd_def split: bind_splits)

lemma printf_count_signed:
  assumes "unat r < 2 ^ 31"
  shows "(if r <s 0 then 0 else unat r) = unat (r :: u32)"
proof -
  have "\<not> bit (unat r) 31" using assms by (simp add: bit_iff_odd)
  then have "\<not> bit r 31" by (simp add: bit_unsigned_iff)
  then have "\<not> sint r < 0" by (simp flip: bit_last_iff)
  then show ?thesis by (simp add: word_sless_alt)
qed

lemma vsnprintf_pieces:
  assumes "list_all piece_ok ps" "t = concat (map piece_text ps)" "length t < unat n" "unat n \<le> length b"
  shows "vsnprintf ftoa b n (concat (map piece_fmt ps) @ NUL # r) (concat (map piece_args ps)) =
    Some (t @ NUL # drop (Suc (length t)) b, of_nat (length t))"
  using vsn_loop_start(1) [OF assms, of ftoa "NUL # r" "[]"] vsn_loop_start(2) [OF assms] assms(3,4)
  by (simp add: vsnprintf_def vsn_loop_end list_update_append Cons_nth_drop_Suc [symmetric])

lemma printf_pieces:
  assumes "list_all piece_ok ps" "t = concat (map piece_text ps)" "length t < 256" "length junk = 256"
  shows "printf ftoa junk (concat (map piece_fmt ps) @ NUL # r) (concat (map piece_args ps)) =
    Some (crlf t, of_nat (length t))"
proof -
  have u: "unat (of_nat (length t) :: u32) = length t" using assms(3) by (simp add: unat_of_nat)
  have "\<not> (of_nat (length t) :: u32) <s 0 \<or> length t = 0"
    using printf_count_signed [of "of_nat (length t)"] assms(3) unfolding u by (auto split: if_splits)
  then have c: "(if (of_nat (length t) :: u32) <s 0 then 0 else unat (of_nat (length t) :: u32)) = length t"
    unfolding u by auto
  have "vsnprintf ftoa junk PRINTF_BUFFER_SIZE (concat (map piece_fmt ps) @ NUL # r) (concat (map piece_args ps)) =
    Some (t @ NUL # drop (Suc (length t)) junk, of_nat (length t))"
    by (rule vsnprintf_pieces [OF assms(1,2)]) (use assms(3,4) in \<open>simp_all add: PRINTF_BUFFER_SIZE_def\<close>)
  then show ?thesis unfolding printf_def
    using emit_spec [of 0 "length t" "t @ NUL # drop (Suc (length t)) junk"] c by simp
qed

text \<open>A plain text that does not fit.\<close>

lemma vsn_loop_full: "\<not> i < n \<Longrightarrow> vsn_loop ftoa b i n fmt va = Some (b, i)"
  by (subst vsn_loop.simps) simp

lemma vsnprintf_long_text:
  assumes "NUL \<notin> set s" "CHR ''%'' \<notin> set s" "unat n \<le> length s" "unat n \<le> length b" "0 < n"
  shows "vsnprintf ftoa b n (s @ NUL # r) va = Some (take (unat n) s @ drop (unat n) b, n)"
proof -
  obtain m where m: "unat n = Suc m" using assms(5) by (metis gr0_implies_Suc unat_gt_0 word_gt_0)
  then have ml: "m < length s" using assms(3) by simp
  let ?s = "take m s" and ?c = "s ! m"
  have s: "s = ?s @ ?c # drop (Suc m) s" using ml by (simp add: id_take_nth_drop)
  have "?c \<in> set s" using ml by simp
  then have c: "?c \<noteq> NUL" "?c \<noteq> CHR ''%''" using assms(1,2) by auto
  have "list_all piece_ok [Lit ?s]" using assms(1,2) by (auto dest: in_set_takeD)
  from vsn_loop_start(1) [OF this refl, of n b ftoa "?c # drop (Suc m) s @ NUL # r" va]
    vsn_loop_start(2) [OF this refl, of n b] m ml assms(4)
  have st: "vsn_loop ftoa b 0 n (?s @ ?c # drop (Suc m) s @ NUL # r) va =
      vsn_loop ftoa (?s @ drop m b) (of_nat m) n (?c # drop (Suc m) s @ NUL # r) va"
    "unat (of_nat m :: u32) = m" by (simp_all add: min_absorb2)
  have i: "(of_nat m :: u32) < n" "\<not> (of_nat m :: u32) + 1 < n"
    using st(2) m unat_Suc_less [of "of_nat m :: u32" n] by (auto simp: word_less_nat_alt)
  then have e: "(of_nat m :: u32) + 1 = n" using st(2) m unat_Suc_less [of "of_nat m :: u32" n]
    by (simp add: word_unat_eq_iff word_less_nat_alt)
  have "vsn_loop ftoa (?s @ drop m b) (of_nat m) n (?c # drop (Suc m) s @ NUL # r) va =
      Some ((?s @ drop m b)[m := ?c], n)"
    using i c st(2) e m ml assms(4) by (subst vsn_loop.simps) (simp add: wr_def vsn_loop_full)
  moreover have "(?s @ drop m b)[m := ?c] = take (unat n) s @ drop (unat n) b"
    using ml m assms(4) by (simp add: list_update_append take_Suc_conv_app_nth Cons_nth_drop_Suc [symmetric])
  moreover have "vsnprintf ftoa b n (s @ NUL # r) va =
      vsn_loop ftoa b 0 n (?s @ ?c # drop (Suc m) s @ NUL # r) va"
    unfolding vsnprintf_def by (subst s) simp
  ultimately show ?thesis using st(1) by simp
qed

text \<open>A field as wide as the digits of a negative number, and a field across the buffer's end.\<close>

lemma field_ref_drop:
  assumes "\<not> has flags FLAGS_HASH" "\<not> has flags FLAGS_PLUS" "\<not> has flags FLAGS_SPACE" "ds \<noteq> []" "length ds \<le> 32"
  shows "field_ref True base maxlen 0 (length ds) flags (rev ds) = CHR ''-'' # tl ds"
proof -
  obtain d ds' where ds: "ds = d # ds'" using assms(4) by (cases ds) auto
  have "unsigned_ref base 0 (length ds) flags (rev ds) = rev ds"
    using assms(1) by (simp add: unsigned_ref_def hash_ref_def pad_to_def)
  then have s: "sign_ref True (length ds) flags (unsigned_ref base 0 (length ds) flags (rev ds)) = rev ds' @ ''-''"
    using assms(2,3,5) by (simp add: sign_ref_def sign_char_def snoc_if_def ds)
  then show ?thesis unfolding field_ref_def s by (simp add: Let_def pad_to_def ds)
qed

lemma num_directive:
  assumes "c \<in> set ''diuxXo''" "i < n"
    and "conv_int c b i n (plain_flags left zero) (of_nat w) 0 (VaInt v # va) = map_option (\<lambda>b. (b, i + len, va)) r"
  shows "vsn_loop ftoa b i n (piece_fmt (Num left zero w c v) @ cs) (VaInt v # va) =
    Option.bind r (\<lambda>b. vsn_loop ftoa b (i + len) n cs va)"
proof -
  have c: "c \<in> set ''diuxXos%''" "c \<in> set ''diuxXob''" using assms(1) by auto
  from conv_letters [OF c(1)] have "\<not> is_digit c" "flag_of c = None" "c \<notin> {CHR ''*'', CHR ''.'', CHR ''l'', CHR ''L''}"
    by auto
  from directive_plain [OF this, of ftoa b i n left zero w cs "VaInt v # va"] assms(3) c(2)
  have "directive ftoa b i n ((if left then ''-'' else []) @ (if zero then ''0'' else []) @
      (if w = 0 then [] else decimal w) @ c # cs) (VaInt v # va) = map_option (\<lambda>b. (b, i + len, cs, va)) r"
    by (simp add: conv_spec_def option.map_comp comp_def)
  from directive_step [OF assms(2) this] show ?thesis by simp
qed

lemma vsnprintf_full_field:
  fixes ftoa :: "'d ftoa_fun"
  assumes "v <s 0" "w = length (num_digits CHR ''d'' v)" "w < unat n" "unat n \<le> length b"
  shows "vsnprintf ftoa b n (piece_fmt (Num False False w CHR ''d'' v) @ NUL # r) [VaInt v] =
    Some (CHR ''-'' # tl (num_digits CHR ''d'' v) @ NUL # drop (Suc w) b, of_nat w)"
proof -
  have neg: "num_neg CHR ''d'' v" using assms(1) by (simp add: num_neg_def conv_signed_def)
  note nb = num_digits_bounds [of "CHR ''d''" v]
  have w: "w \<le> 32" "w \<noteq> 0" using nb assms(2) neg by auto
  let ?t = "CHR ''-'' # tl (num_digits CHR ''d'' v)"
  have lt: "length ?t = w" using w(2) assms(2) by (cases "num_digits CHR ''d'' v") auto
  have n: "0 < unat n - unat (0 :: u32)" "0 < n" using assms(3) by (auto simp: word_less_nat_alt)
  let ?va = "[VaInt v] :: 'd va list"
  from conv_int_field [OF _ w(1) n(1) assms(4), of "CHR ''d''" False False v "[] :: 'd va list"] obtain flags len where
    F: "\<not> has flags FLAGS_HASH" "\<not> has flags FLAGS_PLUS" "\<not> has flags FLAGS_SPACE" and
    l: "let t = field_ref True (of_nat (conv_radix CHR ''d'')) (unat n - unat (0 :: u32)) 0 w flags (rev (num_digits CHR ''d'' v))
     in conv_int CHR ''d'' b 0 n (plain_flags False False) (of_nat w) 0 ?va =
        map_option (\<lambda>b. (b, 0 + len, [])) (blit b (unat (0 :: u32)) (take (unat n - unat (0 :: u32)) t)) \<and> unat len = length t"
    using neg by auto
  have "field_ref True (of_nat (conv_radix CHR ''d'')) (unat n - unat (0 :: u32)) 0 w flags (rev (num_digits CHR ''d'' v)) = ?t"
    unfolding assms(2) by (rule field_ref_drop [OF F nb(1)]) (use nb(2) in simp)
  with l lt assms(3) have k: "conv_int CHR ''d'' b 0 n (plain_flags False False) (of_nat w) 0 ?va =
      map_option (\<lambda>b. (b, 0 + len, [])) (blit b 0 ?t)" "unat len = w" by (auto simp: Let_def)
  have "len = of_nat w" by (simp flip: k(2))
  moreover have "blit b 0 ?t = Some (?t @ drop w b)" using lt assms(3,4) by (simp add: blit_def)
  moreover have "(?t @ drop w b)[w := NUL] = ?t @ NUL # drop (Suc w) b"
    using upd_after [of ?t b NUL] lt assms(3,4) by (simp only:)
  ultimately show ?thesis
    using num_directive [OF _ n(2) k(1), of ftoa "NUL # r"] k(2) lt assms(3,4)
      vsn_loop_end [of "of_nat w" n "?t @ drop w b" ftoa r "[]"]
    by (simp add: vsnprintf_def)
qed

lemma printf_overrun:
  fixes ftoa :: "'d ftoa_fun"
  assumes "list_all piece_ok ps" "t = concat (map piece_text ps)" "length t < 256" "length junk = 256"
    and "piece_ok (Num False zero w c v)" "256 < length t + length (piece_text (Num False zero w c v))"
  shows "printf ftoa junk (concat (map piece_fmt ps) @ piece_fmt (Num False zero w c v) @ NUL # r)
    (concat (map piece_args ps) @ [VaInt v]) = None"
proof -
  let ?n = "PRINTF_BUFFER_SIZE" and ?b = "t @ drop (length t) junk" and ?f = "piece_text (Num False zero w c v)"
  have n: "unat ?n = 256" by (simp add: PRINTF_BUFFER_SIZE_def)
  let ?i = "of_nat (length t) :: u32"
  have i: "unat ?i = length t" using assms(3) by (simp add: unat_of_nat)
  have c: "c \<in> set ''diuxXo''" using assms(5) by simp
  from conv_int_plain [OF c assms(5) refl, of ?n ?i ?b "[] :: 'd va list"] n i assms(3,4) obtain len where
    k: "conv_int c ?b ?i ?n (plain_flags False zero) (of_nat w) 0 ([VaInt v] :: 'd va list) =
      map_option (\<lambda>b. (b, ?i + len, [])) (blit ?b (unat ?i) (take (256 - length t) ?f))" "unat len = length ?f"
    by auto
  have f: "length ?f \<le> 32" using assms(5) num_digits_bounds(2) [of c v] by (simp add: length_num_field)
  have "length t + length (take (256 - length t) ?f) \<le> length ?b"
    using assms(3,4) by (simp del: piece_text.simps)
  from blit_ok [OF this] obtain b' where
    b': "blit ?b (length t) (take (256 - length t) ?f) = Some b'" "length b' = 256"
    using assms(3,4) by auto
  have ul: "unat (?i + len) = length t + length ?f"
    using i k(2) f assms(3) by (simp add: unat_word_ariths)
  have "?i < ?n" using i n assms(3) by (simp add: word_less_nat_alt)
  from num_directive [OF c this k(1), of ftoa "NUL # r"] b' i ul n assms(6)
  have "vsn_loop ftoa ?b ?i ?n (piece_fmt (Num False zero w c v) @ NUL # r) [VaInt v] = Some (b', ?i + len)"
    by (simp add: vsn_loop_full word_less_nat_alt del: piece_fmt.simps piece_text.simps)
  moreover have "length t < unat ?n" "unat ?n \<le> length junk" using n assms(3,4) by auto
  ultimately have v: "vsnprintf ftoa junk ?n (concat (map piece_fmt ps) @ piece_fmt (Num False zero w c v) @ NUL # r)
      (concat (map piece_args ps) @ [VaInt v]) = Some (b', ?i + len)"
    unfolding vsnprintf_def by (subst vsn_loop_start(1) [OF assms(1,2)])
  have "unat (?i + len) < 2 ^ 31" using ul f assms(3) by simp
  from printf_count_signed [OF this] v ul b'(2) assms(6) show ?thesis
    by (simp add: printf_def emit_None del: piece_fmt.simps piece_text.simps)
qed

section \<open>Properties\<close>



text \<open>
  The console receives, for such a format of at most 255 characters, exactly that text with a
  carriage return before every line feed, whatever the uninitialised buffer held.
\<close>

lemma printf_renders:
  assumes "list_all piece_ok ps" "length (concat (map piece_text ps)) < 256" "length junk = 256"
  shows "printf ftoa junk (concat (map piece_fmt ps) @ NUL # r) (concat (map piece_args ps)) =
    Some (crlf (concat (map piece_text ps)), of_nat (length (concat (map piece_text ps))))"
  by (rule printf_pieces [OF assms(1) refl assms(2,3)])

lemma printf_renders_witness:
  "printf (\<lambda>(d :: unit) b off m w p f. None) (replicate 256 (CHR ''J'')) (''%u%%'' @ [CHR 0x0A, NUL]) [VaInt 42] =
   Some (''42%'' @ [CHR 0x0D, CHR 0x0A], 4)"
proof -
  let ?ps = "[Num False False 0 (CHR ''u'') 42, Percent, Lit [CHR 0x0A]]"
  have d: "num_digits (CHR ''u'') 42 = ''42''" "\<not> num_neg (CHR ''u'') 42" by code_simp+
  have t: "concat (map piece_text ?ps) = ''42%'' @ [CHR 0x0A]" by (simp add: d num_field_def)
  have "list_all piece_ok ?ps" by (simp add: d)
  from printf_renders [OF this, of "replicate 256 (CHR ''J'')" "\<lambda>(d :: unit) b off m w p f. None" "[]"]
  show ?thesis unfolding t by (simp add: crlf_def)
qed

text \<open>
  A number printed by \<open>vsnprintf\<close> with \<open>%u\<close> is read back unchanged by \<open>_atoi\<close>, for all
  \<open>2 ^ 32\<close> values.
\<close>

lemma printed_number_reads_back:
  assumes "10 < unat n" "unat n \<le> length b"
  shows "\<exists>b' k. vsnprintf ftoa b n (''%u'' @ NUL # r) [VaInt v] = Some (b', k) \<and>
    map_option fst (c_atoi 0 b') = Some v"
proof -
  let ?p = "Num False False 0 (CHR ''u'') v"
  have d: "num_digits (CHR ''u'') v = decimal (unat v)"
    by (simp add: num_digits_def decimal_def num_neg_def conv_signed_def conv_radix_def)
  have "length (rev_digits 10 (unat v)) \<le> 10"
    using unsigned_less [of v, where ?'a = nat] by (intro rev_digits_length_10) simp_all
  then have l: "length (decimal (unat v)) \<le> 10" by (simp add: decimal_def)
  have t: "piece_text ?p = decimal (unat v)"
    by (simp add: num_field_def d num_neg_def conv_signed_def)
  have ok: "list_all piece_ok [?p]" by (simp add: num_neg_def conv_signed_def)
  have len: "length (decimal (unat v)) < unat n" using l assms(1) by linarith
  have "vsnprintf ftoa b n (''%u'' @ NUL # r) [VaInt v] =
      Some (decimal (unat v) @ NUL # drop (Suc (length (decimal (unat v)))) b, of_nat (length (decimal (unat v))))"
    using vsnprintf_pieces [OF ok refl _ assms(2), of ftoa r] len t by simp
  moreover have "\<not> is_digit NUL" by (simp add: is_digit_def)
  ultimately show ?thesis by (simp add: c_atoi_decimal)
qed

lemma printed_number_reads_back_witness:
  "\<exists>b' k. vsnprintf (\<lambda>(d :: unit) b off m w p f. None) (replicate 11 NUL) 11 (''%u'' @ [NUL]) [VaInt 4000000000] = Some (b', k) \<and>
    map_option fst (c_atoi 0 b') = Some 4000000000"
  by (rule printed_number_reads_back) simp_all

text \<open>
  A negative number printed with \<open>%wd\<close> where \<open>w\<close> is exactly its number of digits loses its most
  significant digit: the minus sign overwrites it.
\<close>

lemma printf_negative_full_field:
  assumes "v <s 0" "w = length (num_digits CHR ''d'' v)" "w < unat n" "unat n \<le> length b"
  shows "vsnprintf ftoa b n (piece_fmt (Num False False w CHR ''d'' v) @ NUL # r) [VaInt v] =
      Some (CHR ''-'' # tl (num_digits CHR ''d'' v) @ NUL # drop (Suc w) b, of_nat w) \<and>
    piece_text (Num False False w CHR ''d'' v) = CHR ''-'' # num_digits CHR ''d'' v"
proof
  show "vsnprintf ftoa b n (piece_fmt (Num False False w CHR ''d'' v) @ NUL # r) [VaInt v] =
      Some (CHR ''-'' # tl (num_digits CHR ''d'' v) @ NUL # drop (Suc w) b, of_nat w)"
    by (rule vsnprintf_full_field [OF assms])
  show "piece_text (Num False False w CHR ''d'' v) = CHR ''-'' # num_digits CHR ''d'' v"
    using assms(1,2) by (simp add: num_field_def num_neg_def conv_signed_def)
qed

lemma printf_negative_full_field_witness:
  "vsnprintf (\<lambda>(d :: unit) b off m w p f. None) (replicate 8 NUL) 8 (''%3d'' @ [NUL]) [VaInt (- 100)] =
   Some (''-00'' @ NUL # replicate 4 NUL, 3)"
proof -
  have d: "num_digits (CHR ''d'') (- 100) = ''100''" "(- 100 :: u32) <s 0" "decimal 3 = ''3''" by code_simp+
  from printf_negative_full_field [OF d(2), of 3 8 "replicate 8 NUL" "\<lambda>(d :: unit) b off m w p f. None" "[]"] show ?thesis
    by (simp add: d(1,3))
qed

text \<open>
  \<open>printf\<close> reads past its 256-byte buffer whenever an integer field crosses the buffer's end:
  the formatter counts the characters it could not store, and \<open>printf\<close> sends that many bytes.
\<close>

lemma printf_field_overrun:
  assumes "list_all piece_ok ps" "length (concat (map piece_text ps)) < 256" "length junk = 256"
    and "piece_ok (Num False zero w c v)"
    and "256 < length (concat (map piece_text ps)) + length (piece_text (Num False zero w c v))"
  shows "printf ftoa junk (concat (map piece_fmt ps) @ piece_fmt (Num False zero w c v) @ NUL # r)
    (concat (map piece_args ps) @ [VaInt v]) = None"
  by (rule printf_overrun [OF assms(1) refl assms(2-5)])

lemma printf_field_overrun_witness:
  "printf (\<lambda>(d :: unit) b off m w p f. None) (replicate 256 NUL) (replicate 250 (CHR ''a'') @ ''%8u'' @ [NUL]) [VaInt 5] = None"
proof -
  let ?ps = "[Lit (replicate 250 (CHR ''a''))]" and ?p = "Num False False 8 (CHR ''u'') 5"
  have d: "num_digits (CHR ''u'') 5 = ''5''" "\<not> num_neg (CHR ''u'') 5" "decimal 8 = ''8''" by code_simp+
  have "printf (\<lambda>(d :: unit) b off m w p f. None) (replicate 256 NUL) (concat (map piece_fmt ?ps) @ piece_fmt ?p @ NUL # [])
    (concat (map piece_args ?ps) @ [VaInt 5]) = None"
    by (rule printf_field_overrun) (simp_all add: d num_field_def)
  then show ?thesis by (simp add: d(3))
qed

text \<open>
  Text that does not fit is cut to the size of the buffer, with no terminator, and the return
  value is that size.
\<close>

theorem vsnprintf_truncates:
  assumes "NUL \<notin> set s" "CHR ''%'' \<notin> set s" "unat n \<le> length s" "unat n \<le> length b" "0 < n"
  shows "vsnprintf ftoa b n (s @ NUL # r) va = Some (take (unat n) s @ drop (unat n) b, n)"
  by (rule vsnprintf_long_text [OF assms])

lemma vsnprintf_truncates_witness:
  "vsnprintf (\<lambda>(d :: unit) b off m w p f. None) (replicate 4 NUL) 3 (''abcd'' @ [NUL]) [] = Some (''abc'' @ [NUL], 3)"
  using vsnprintf_truncates [of "''abcd''" 3 "replicate 4 NUL" "\<lambda>(d :: unit) b off m w p f. None" "[]" "[]"]
  by simp

text \<open>
  \<open>%+.0d\<close> of zero has no digits; the sign handling then decrements the length below zero, and
  the copy reads outside the local array.
\<close>

lemma printf_plus_empty_underflow:
  assumes "0 < n"
  shows "vsnprintf ftoa b n (''%+.0d'' @ NUL # r) (VaInt 0 # va) = None"
proof -
  have h: "has 0x104 FLAGS_LEFT = False" "has 0x104 FLAGS_ZEROPAD = False" "has 0x104 FLAGS_PRECISION = True"
    "has 0x104 FLAGS_HASH = False" "has 0x104 FLAGS_PLUS = True" "has 0x104 FLAGS_LONG_LONG = False"
    "has 0x104 FLAGS_LONG = False"
    by (simp_all add: has_def flags_defs)
  have pb: "pad_buf c 0 b l = Some (b, l)" for c b l by (subst pad_buf.simps) simp
  have rc: "rev_copy buffer off (replicate 32 NUL) (- 1) m 0 = None" if "0 < m" for buffer off m
    using that by (subst rev_copy.simps) (simp add: rd_def word_gt_0)
  have f: "flag_of CHR ''+'' = Some FLAGS_PLUS" "flag_of CHR ''.'' = None" by (simp_all add: flag_of_def)
  have fl: "FLAGS_PLUS OR FLAGS_PRECISION = 0x104" by (simp_all add: flags_defs)
  have dg: "\<not> is_digit CHR ''.''" "is_digit CHR ''0''" "\<not> is_digit CHR ''d''" by (simp_all add: is_digit_def)
  have cb: "conv_base CHR ''d'' 0x104 = (10, 0x104)" by (simp add: conv_base_def flags_defs)
  have "ntoa_long b 0 0 False 10 n 0 0 0x104 = None"
    using assms by (simp add: ntoa_long_def h pb ntoa_format_def handle_hash_def handle_sign_def rc NTOA_BUFFER_SIZE_def Let_def)
  then have "conv_int CHR ''d'' b 0 n 0x104 0 0 (VaInt 0 # va) = None"
    by (simp add: conv_int_def cb h c_abs_def)
  then have "directive ftoa b 0 n (''+.0d'' @ NUL # r) (VaInt 0 # va) = None"
    by (simp add: directive_def f fl parse_width_def parse_precision_def parse_length_def rd_def dg conv_spec_def)
  with assms show ?thesis by (simp add: vsnprintf_def vsn_loop.simps [of ftoa b 0 n])
qed

lemma printf_plus_empty_underflow_witness:
  "vsnprintf (\<lambda>(d :: unit) b off m w p f. None) (replicate 64 NUL) 64 (''%+.0d'' @ [NUL]) [VaInt 0] = None"
  by (rule printf_plus_empty_underflow) simp

end
