(* ===== verification/KeyLed.thy ===== *)
theory KeyLed
  imports Prelude
begin

text \<open>
  The key and LED task of the switch, \<open>wtwd-m/m166/projects/mac_atcmd/src/app/key_led.c\<close>, in the
  build of its \<open>project.mk\<close>: \<open>CK_CLOUD_EN\<close> set, \<open>WT_CLOUD_EN\<close> not, one key. The state of the task
  (\<open>keyled\<close>), of the LED timer (\<open>flash\<close>) and of the key timer (\<open>key_scan\<close>) are the file's static
  variables. Calls into other modules are recorded in order in \<open>acts\<close>; what they return (the tick,
  the cloud device mode, whether a delay is due) is the environment of an event. A \<open>char\<close> is
  signed or not by the compiler: \<open>key_check_handler\<close> takes that as a parameter.
\<close>

abbreviation (input) "DEVICE_WFLED \<equiv> 13 :: nat"
abbreviation (input) "DEVICE_PWLED \<equiv> 1 :: nat"
abbreviation (input) "DEVICE_KEY1 \<equiv> 0 :: nat"
abbreviation (input) "DEVICE_SWITCH1 \<equiv> 11 :: nat"

abbreviation (input) "DEVICE_STATION \<equiv> 0 :: u8"
abbreviation (input) "DEVICE_SMART \<equiv> 1 :: u8"
abbreviation (input) "DEVICE_AP_MODE \<equiv> 2 :: u8"

abbreviation (input) "WIFI_DIS_CON \<equiv> 0 :: u8"
abbreviation (input) "WIFI_CONNECT \<equiv> 1 :: u8"
abbreviation (input) "WIFI_INTERNET \<equiv> 2 :: u8"

abbreviation (input) "COLINK_OFFLINE \<equiv> 0 :: u8"
abbreviation (input) "COLINK_ONLINE \<equiv> 1 :: u8"
abbreviation (input) "COLINK_UN_REG \<equiv> 2 :: u8"
abbreviation (input) "COLINK_UPGRADE \<equiv> 3 :: u8"

abbreviation (input) "STATUS_NORMAL \<equiv> 0 :: u8"
abbreviation (input) "STATUS_NO_WIFI \<equiv> 1 :: u8"
abbreviation (input) "STATUS_NO_SER \<equiv> 2 :: u8"
abbreviation (input) "STATUS_UN_REG \<equiv> 3 :: u8"
abbreviation (input) "STATUS_UPGRADE \<equiv> 4 :: u8"
abbreviation (input) "STATUS_SMART \<equiv> 5 :: u8"
abbreviation (input) "STATUS_AP_MODE \<equiv> 6 :: u8"
abbreviation (input) "STATUS_MAX_NUM \<equiv> 7 :: u8"

abbreviation (input) "LIGHT_F_COUNT \<equiv> 20 :: u16"
abbreviation (input) "KEY_LONG_VAL \<equiv> 50 :: u8"

abbreviation (input) "EVENT_DEV_KEY \<equiv> 1 :: u32"
abbreviation (input) "EVENT_CONNECT \<equiv> 2 :: u32"
abbreviation (input) "EVENT_SWITCH \<equiv> 3 :: u32"
abbreviation (input) "EVENT_01_SEC \<equiv> 4 :: u32"
abbreviation (input) "EVENT_SW_TIMER \<equiv> 5 :: u32"
abbreviation (input) "EVENT_UP_TIMER \<equiv> 6 :: u32"
abbreviation (input) "EVENT_DEVSTATUS \<equiv> 7 :: u32"
abbreviation (input) "EVENT_PING114 \<equiv> 8 :: u32"
abbreviation (input) "EVENT_BRIGHT \<equiv> 0x100 :: u32"
abbreviation (input) "EVENT_FLHMODE \<equiv> 0x200 :: u32"

abbreviation (input) "KEY_KEY1 \<equiv> 1 :: u32"
abbreviation (input) "KEY_1LONG \<equiv> 0x100 :: u32"

text \<open>Device modes and states of the cloud library, from its headers.\<close>

abbreviation (input) "DEVICE_MODE_START \<equiv> 0 :: u8"
abbreviation (input) "DEVICE_MODE_SETTING \<equiv> 1 :: u8"
abbreviation (input) "DEVICE_MODE_UPGRADE \<equiv> 4 :: u8"
abbreviation (input) "DEVICE_OFFLINE \<equiv> 0 :: u32"
abbreviation (input) "DEVICE_ONLINE \<equiv> 1 :: u32"
abbreviation (input) "DEVICE_UNREGISTERED \<equiv> 2 :: u32"

datatype kl_act = GpioMode nat u8 | GpioDir nat u8 | GpioPullUp nat | SetLogic nat bool
  | SetMode u8 | InitDevice | DlDeviceidStart | ClearPoweronNumber | EsptouchStop | EsptouchInit
  | SoftapExit | WifiAutoConnect | EnterSelfAP | WdtInit | WdtKick | InternetPing | SetSwitchNvram bool
  | ColinkSwitchUpdate | MytimeStart | ColinkProcessStart | ColinkDeleteTimer | UpdateDelay | CleanDelay
  | Delay nat | DeleteMsgQ | DeleteTimer string | StartTimer string

type_synonym kl_msg = "u32 \<times> u32"

record keyled =
  pwr_status :: bool
  led_status :: u8
  dev_status :: u8
  wifi_status :: u8
  colink_status :: u8
  start_smart_t :: u32
  save_mode :: u8
  clear_count :: u8
  sec_30 :: u8
  acts :: "kl_act list"

record flash =
  count :: u16
  prev_status :: u16
  led_prev :: bool

record key_scan =
  last_key1 :: u8
  conut :: u8

record kl_env =
  now_ms :: u32
  co_mode :: u8
  delay_due :: bool

definition act :: "kl_act list \<Rightarrow> keyled \<Rightarrow> keyled" where
  "act xs s = s\<lparr>acts := acts s @ xs\<rparr>"

section \<open>Timers and callbacks\<close>

definition cycle_1sec_handler :: "kl_msg list" where
  "cycle_1sec_handler = [(EVENT_01_SEC, 0)]"

definition update_led_status :: "keyled \<Rightarrow> u8" where
  "update_led_status s =
     (if dev_status s = DEVICE_SMART then STATUS_SMART
      else if dev_status s = DEVICE_AP_MODE then STATUS_AP_MODE
      else if wifi_status s = WIFI_DIS_CON then STATUS_NO_WIFI
      else if wifi_status s = WIFI_CONNECT then STATUS_NO_SER
      else if colink_status s = COLINK_UPGRADE then STATUS_UPGRADE
      else if colink_status s = COLINK_UN_REG then STATUS_UN_REG
      else if colink_status s = COLINK_ONLINE then STATUS_NORMAL
      else if colink_status s = COLINK_OFFLINE then STATUS_NO_SER
      else STATUS_NORMAL)"

definition flash_pattern :: "u32 list" where
  "flash_pattern = [0xFFFFF, 0x00001, 0x00005, 0x003FF, 0x00015, 0xFFCCC, 0x33333]"

definition flash_start :: flash where
  "flash_start = \<lparr>count = 0, prev_status = - 1, led_prev = False\<rparr>"

definition led_flash_handler :: "u8 \<Rightarrow> flash \<Rightarrow> (flash \<times> kl_act list) option" where
  "led_flash_handler led f =
     do {
       let f = (if sint (prev_status f) \<noteq> uint led then f\<lparr>count := 0, prev_status := ucast led\<rparr> else f);
       (f, out) \<leftarrow> (if led < STATUS_MAX_NUM
         then do {
           p \<leftarrow> rd flash_pattern (unat led);
           let led_gpio = (p AND push_bit (unat (count f)) 1 \<noteq> 0);
           Some (if led_gpio \<noteq> led_prev f then (f\<lparr>led_prev := led_gpio\<rparr>, [SetLogic DEVICE_WFLED led_gpio]) else (f, [])) }
         else Some (f, []));
       let c = count f + 1;
       Some (f\<lparr>count := (if LIGHT_F_COUNT \<le>s c then 0 else c)\<rparr>, out) }"

definition char_val :: "bool \<Rightarrow> u8 \<Rightarrow> int" where
  "char_val char_signed c = (if char_signed then sint c else uint c)"

definition key_check_handler :: "bool \<Rightarrow> bool \<Rightarrow> key_scan \<Rightarrow> key_scan \<times> kl_msg list" where
  "key_check_handler char_signed level k =
     (let state = (if level then 1 else 0 :: u8);
          (k, out) =
            (if state = 0
             then (k\<lparr>conut := conut k + 1\<rparr>, if conut k = KEY_LONG_VAL then [(EVENT_DEV_KEY, KEY_1LONG)] else [])
             else (k\<lparr>conut := 0\<rparr>,
               if last_key1 k = 0 \<and> char_val char_signed (conut k) < 50 then [(EVENT_DEV_KEY, KEY_KEY1)] else []))
      in (k\<lparr>last_key1 := state\<rparr>, out))"

definition key_scan_start :: key_scan where
  "key_scan_start = \<lparr>last_key1 = 1, conut = 0\<rparr>"

definition get_Switch_status :: "keyled \<Rightarrow> int" where
  "get_Switch_status s = (if pwr_status s then 1 else 0)"

definition Ctrl_Switch_cb :: "int \<Rightarrow> kl_msg list" where
  "Ctrl_Switch_cb open = [(EVENT_SWITCH, if open \<noteq> 0 then 1 else 0)]"

definition Timer_Switch_cb :: "int \<Rightarrow> kl_msg list" where
  "Timer_Switch_cb open = [(EVENT_SW_TIMER, if open \<noteq> 0 then 1 else 0)]"

definition Timer_update_time :: "kl_msg list" where
  "Timer_update_time = [(EVENT_UP_TIMER, 0)]"

definition Ctrl_bright_cb :: "u32 \<Rightarrow> kl_msg list" where
  "Ctrl_bright_cb bright = [(EVENT_BRIGHT, bright)]"

definition Ctrl_flashmode_cb :: "u32 \<Rightarrow> kl_msg list" where
  "Ctrl_flashmode_cb mode = [(EVENT_FLHMODE, mode)]"

definition wifi_status_cb :: "int \<Rightarrow> kl_msg list" where
  "wifi_status_cb connect = [(EVENT_CONNECT, if connect \<noteq> 0 then 1 else 0)]"

definition DevStatus_Notify_cb :: "u32 \<Rightarrow> kl_msg list" where
  "DevStatus_Notify_cb status = [(EVENT_DEVSTATUS, status)]"

definition Ping_Notify_cb :: "u32 \<Rightarrow> u32 \<Rightarrow> kl_msg list" where
  "Ping_Notify_cb ping recv = [(EVENT_PING114, if ping \<noteq> 0 \<and> recv = 0 then 0 else 1)]"

section \<open>The task\<close>

definition active_Switch :: "bool \<Rightarrow> keyled \<Rightarrow> keyled" where
  "active_Switch pwron s =
     act [SetLogic DEVICE_SWITCH1 pwron, SetLogic DEVICE_PWLED pwron] (s\<lparr>pwr_status := pwron\<rparr>)"

definition KeyLed_Init :: "kl_act list" where
  "KeyLed_Init = [GpioMode DEVICE_KEY1 0, GpioDir DEVICE_KEY1 0, GpioPullUp DEVICE_KEY1,
     GpioMode DEVICE_WFLED 0, GpioDir DEVICE_WFLED 1, SetLogic DEVICE_WFLED False,
     GpioMode DEVICE_PWLED 0, GpioDir DEVICE_PWLED 1, SetLogic DEVICE_PWLED False,
     GpioMode DEVICE_SWITCH1 0, GpioDir DEVICE_SWITCH1 1]"

definition exit_link_config :: "u8 \<Rightarrow> kl_act list" where
  "exit_link_config state =
     (if state \<noteq> 0
      then (if state = 1 then [EsptouchStop] else []) @ (if state = 2 then [SoftapExit] else []) @ [WifiAutoConnect]
      else [])"

definition set_led :: "keyled \<Rightarrow> keyled" where
  "set_led s = s\<lparr>led_status := update_led_status s\<rparr>"

text \<open>Leaving the configuration mode, as on the time-out and on a key press.\<close>

definition leave_config :: "keyled \<Rightarrow> keyled" where
  "leave_config s =
     set_led (act (SetMode (save_mode s) # exit_link_config (dev_status s)) s
       \<lparr>dev_status := DEVICE_STATION, wifi_status := WIFI_DIS_CON\<rparr>)"

definition on_1sec :: "kl_env \<Rightarrow> keyled \<Rightarrow> keyled" where
  "on_1sec e s =
     (let s = (if 0 < clear_count s
               then (let s = s\<lparr>clear_count := clear_count s - 1\<rparr>
                     in if clear_count s = 0 then act [ClearPoweronNumber] s else s)
               else s);
          s = (if (led_status s = STATUS_SMART \<or> led_status s = STATUS_AP_MODE) \<and>
                  start_smart_t s + 180000 < now_ms e
               then leave_config s else s);
          s = act [WdtKick] s
      in if wifi_status s \<noteq> WIFI_DIS_CON
         then (let s = (if sec_30 s = 0 then act [InternetPing] s else s);
                   n = sec_30 s + 1
               in s\<lparr>sec_30 := (if 30 \<le> n then 0 else n)\<rparr>)
         else s)"

definition on_long_key :: "kl_env \<Rightarrow> keyled \<Rightarrow> keyled" where
  "on_long_key e s =
     (if co_mode e = DEVICE_MODE_UPGRADE \<or> dev_status s = DEVICE_AP_MODE then s
      else if dev_status s = DEVICE_SMART
      then act [EsptouchStop, EnterSelfAP] (set_led (s\<lparr>start_smart_t := now_ms e, dev_status := DEVICE_AP_MODE\<rparr>))
      else act [EsptouchStop, SetMode DEVICE_MODE_SETTING, EsptouchInit]
        (set_led (s\<lparr>save_mode := co_mode e, start_smart_t := now_ms e, dev_status := DEVICE_SMART\<rparr>)))"

definition toggle_switch :: "keyled \<Rightarrow> keyled" where
  "toggle_switch s = (let s = active_Switch (\<not> pwr_status s) s in act [SetSwitchNvram (pwr_status s)] s)"

definition on_short_key :: "kl_env \<Rightarrow> keyled \<Rightarrow> keyled" where
  "on_short_key e s =
     (if dev_status s \<noteq> 0 then leave_config s
      else if co_mode e = DEVICE_MODE_UPGRADE then s
      else act [ColinkSwitchUpdate] (toggle_switch s))"

definition on_connect :: "kl_env \<Rightarrow> u32 \<Rightarrow> keyled \<Rightarrow> keyled" where
  "on_connect e d s =
     (let s = (if d = 1
               then act (MytimeStart # (if co_mode e \<noteq> DEVICE_MODE_SETTING then [ColinkProcessStart] else []))
                      (s\<lparr>dev_status := DEVICE_STATION, wifi_status := WIFI_CONNECT\<rparr>)
               else s);
          s = (if d = 0 then s\<lparr>wifi_status := WIFI_DIS_CON\<rparr> else s)
      in set_led s)"

definition on_devstatus :: "u32 \<Rightarrow> keyled \<Rightarrow> keyled" where
  "on_devstatus v s =
     (let s = (if v = DEVICE_UNREGISTERED then act [ColinkDeleteTimer] (s\<lparr>colink_status := COLINK_UN_REG\<rparr>) else s);
          s = (if v = DEVICE_ONLINE then act [ColinkSwitchUpdate] (s\<lparr>colink_status := COLINK_ONLINE\<rparr>) else s);
          s = (if v = DEVICE_OFFLINE then s\<lparr>colink_status := COLINK_OFFLINE\<rparr> else s);
          s = (if v = 10 then s\<lparr>colink_status := COLINK_UPGRADE\<rparr> else s);
          s = (if v = 11 then s\<lparr>colink_status := COLINK_ONLINE\<rparr> else s)
      in set_led s)"

definition on_ping :: "u32 \<Rightarrow> keyled \<Rightarrow> keyled" where
  "on_ping v s =
     (if v = 1
      then (if wifi_status s = WIFI_INTERNET then s else set_led (s\<lparr>wifi_status := WIFI_INTERNET\<rparr>))
      else (if wifi_status s = WIFI_CONNECT then s else set_led (s\<lparr>wifi_status := WIFI_CONNECT\<rparr>)))"

definition on_switch :: "u32 \<Rightarrow> u32 \<Rightarrow> keyled \<Rightarrow> keyled" where
  "on_switch cmd d s =
     (if (d = 1 \<and> \<not> pwr_status s) \<or> (d = 0 \<and> pwr_status s)
      then (let s = toggle_switch s in if cmd = EVENT_SW_TIMER then act [ColinkSwitchUpdate] s else s)
      else s)"

text \<open>The \<open>switch\<close> of the endless loop on one message.\<close>

definition task_event :: "kl_env \<Rightarrow> kl_msg \<Rightarrow> keyled \<Rightarrow> keyled" where
  "task_event e msg s =
     (let (cmd, d) = msg in
      if cmd = EVENT_01_SEC then on_1sec e s
      else if cmd = EVENT_DEV_KEY then
        (if d = KEY_1LONG then on_long_key e s else if d = KEY_KEY1 then on_short_key e s else s)
      else if cmd = EVENT_CONNECT then on_connect e d s
      else if cmd = EVENT_DEVSTATUS then on_devstatus d s
      else if cmd = EVENT_PING114 then on_ping d s
      else if cmd = EVENT_SW_TIMER then (if led_status s \<noteq> STATUS_NORMAL then s else on_switch cmd d s)
      else if cmd = EVENT_SWITCH then on_switch cmd d s
      else if cmd = EVENT_UP_TIMER then act (UpdateDelay # (if delay_due e then [CleanDelay] else [])) s
      else s)"

text \<open>
  The part of \<open>TaskKeyLed\<close> before the loop. \<open>t1\<close>, \<open>t2\<close>, \<open>t3\<close> and \<open>q\<close> tell whether the timers and the queue
  could be created; on a failure the task deletes what it created and ends (\<open>Inl\<close>). \<open>Inr\<close> holds the
  state and the messages it posted to itself.
\<close>

definition TaskKeyLed_start ::
  "bool \<Rightarrow> bool \<Rightarrow> bool \<Rightarrow> bool \<Rightarrow> bool \<Rightarrow> bool \<Rightarrow> int \<Rightarrow> keyled \<Rightarrow> kl_act list + keyled \<times> kl_msg list" where
  "TaskKeyLed_start t1 t2 t3 q wifi_up nvram poweron s =
     (let s = s\<lparr>clear_count := 9, sec_30 := 0, led_status := (if wifi_up then STATUS_NO_SER else STATUS_NO_WIFI)\<rparr>;
          cyc = DeleteTimer ''cycle_1sec'' ; fla = DeleteTimer ''led_flash''; key = DeleteTimer ''key_check''
      in if \<not> t1 then Inl (acts s)
         else (let s = act [StartTimer ''cycle_1sec''] s
         in if \<not> t2 then Inl (acts s @ [cyc])
         else if \<not> t3 then Inl (acts s @ [fla, cyc])
         else if \<not> q then Inl (acts s @ [key, fla, cyc])
         else (let s = active_Switch nvram (act KeyLed_Init s);
                   s = act [StartTimer ''led_flash'', StartTimer ''key_check'', SetMode DEVICE_MODE_START, InitDevice,
                            DlDeviceidStart] s
         in if 4 < poweron then Inr (act [Delay 3000, WdtInit] s, [(EVENT_DEV_KEY, KEY_1LONG)])
            else Inr (act [WifiAutoConnect, WdtInit] s, []))))"

text \<open>The file's statics at power-on.\<close>

definition keyled_zero :: keyled where
  "keyled_zero = \<lparr>pwr_status = False, led_status = 0, dev_status = 0, wifi_status = 0, colink_status = 0,
     start_smart_t = 0, save_mode = 0, clear_count = 0, sec_30 = 0, acts = []\<rparr>"

section \<open>The key timer\<close>

fun key_run :: "bool \<Rightarrow> bool list \<Rightarrow> key_scan \<Rightarrow> key_scan \<times> kl_msg list" where
  "key_run sg [] k = (k, [])"
| "key_run sg (l # ls) k =
     (let (k, out) = key_check_handler sg l k; (k, outs) = key_run sg ls k in (k, out @ outs))"

lemma key_run_append:
  "key_run sg (xs @ ys) k =
     (let (k, out) = key_run sg xs k; (k, outs) = key_run sg ys k in (k, out @ outs))"
  by (induction xs arbitrary: k) (auto simp: Let_def split: prod.splits)

lemma key_held:
  "key_run sg (replicate n False) key_scan_start =
     (\<lparr>last_key1 = (if n = 0 then 1 else 0), conut = of_nat n\<rparr>,
      replicate ((n + 205) div 256) (EVENT_DEV_KEY, KEY_1LONG))"
proof (induction n)
  case 0
  then show ?case by (simp add: key_scan_start_def)
next
  case (Suc n)
  have c: "(of_nat n :: u8) = KEY_LONG_VAL \<longleftrightarrow> n mod 256 = 50"
    by (simp add: word_unat_eq_iff unat_of_nat)
  have d: "(Suc n + 205) div 256 = (n + 205) div 256 + of_bool (n mod 256 = 50)"
  proof -
    have "(n + 206) mod 256 = (n mod 256 + 206) mod 256" by (simp add: mod_add_left_eq)
    moreover have "(r + 206) mod 256 = 0 \<longleftrightarrow> r = 50" if "r < 256" for r :: nat
      using that by (cases "r < 50") (simp_all add: le_mod_geq)
    ultimately have "(n + 206) mod 256 = 0 \<longleftrightarrow> n mod 256 = 50" by simp
    then show ?thesis using div_Suc [of "n + 205" 256] by (simp add: add.commute)
  qed
  have "key_check_handler sg False \<lparr>last_key1 = (if n = 0 then 1 else 0), conut = of_nat n\<rparr> =
      (\<lparr>last_key1 = 0, conut = of_nat (Suc n)\<rparr>,
       replicate (of_bool (n mod 256 = 50)) (EVENT_DEV_KEY, KEY_1LONG))"
    using c by (simp add: key_check_handler_def Let_def add.commute)
  moreover have "replicate (Suc n) False = replicate n False @ [False]"
    by (simp add: replicate_append_same)
  ultimately show ?case
    by (simp only: key_run_append Suc.IH d replicate_add) (simp add: Let_def)
qed

lemma key_press:
  assumes "0 < n"
  shows "key_run sg (replicate n False @ [True]) key_scan_start =
    (key_scan_start, replicate ((n + 205) div 256) (EVENT_DEV_KEY, KEY_1LONG) @
       (if char_val sg (of_nat n) < 50 then [(EVENT_DEV_KEY, KEY_KEY1)] else []))"
  unfolding key_run_append key_held using assms
  by (simp add: key_check_handler_def key_scan_start_def Let_def)

lemma char_val_small: "n < 128 \<Longrightarrow> char_val sg (of_nat n) = int n"
proof -
  assume n: "n < 128"
  then have u: "uint (of_nat n :: u8) = int n" by (simp add: uint_nat unat_of_nat)
  moreover from u n have "sint (of_nat n :: u8) = int n"
    by (simp add: sint_uint signed_take_bit_int_eq_self)
  ultimately show ?thesis by (simp add: char_val_def)
qed

section \<open>The LED timer\<close>

fun flash_run :: "u8 \<Rightarrow> nat \<Rightarrow> flash \<Rightarrow> (flash \<times> kl_act list) option" where
  "flash_run led 0 f = Some (f, [])"
| "flash_run led (Suc n) f =
     do {
       (f, out) \<leftarrow> flash_run led n f;
       (f, out') \<leftarrow> led_flash_handler led f;
       Some (f, out @ out') }"

text \<open>The level a pin has after a sequence of actions.\<close>

fun level :: "nat \<Rightarrow> kl_act list \<Rightarrow> bool option \<Rightarrow> bool option" where
  "level p [] x = x"
| "level p (SetLogic q v # as) x = level p as (if q = p then Some v else x)"
| "level p (_ # as) x = level p as x"

lemma level_append [simp]: "level p (as @ bs) x = level p bs (level p as x)"
  by (induction p as x rule: level.induct) auto

lemma sint_ucast_u8: "sint (ucast w :: u16) = uint w" for w :: u8
proof -
  have "uint w < 256" using uint_bounded [of w] by simp
  moreover have "- (2 ^ 15) \<le> uint w" by (rule order_trans [of _ 0]) simp_all
  ultimately have "signed_take_bit 15 (uint w) = uint w" by (intro signed_take_bit_int_eq_self) simp_all
  with \<open>uint w < 256\<close> show ?thesis by (simp add: sint_uint unsigned_ucast_eq take_bit_int_eq_self)
qed

lemma flash_pattern_length: "length flash_pattern = 7"
  by (simp add: flash_pattern_def)

text \<open>One tick with the status the timer already shows, or with a new one.\<close>

lemma flash_tick:
  assumes "led < STATUS_MAX_NUM" "unat (count f) < 20"
    and "c = (if sint (prev_status f) \<noteq> uint led then 0 else unat (count f))"
  shows "\<exists>f' out. led_flash_handler led f = Some (f', out) \<and> sint (prev_status f') = uint led \<and>
    unat (count f') = Suc c mod 20 \<and> led_prev f' = bit (flash_pattern ! unat led) c \<and>
    level DEVICE_WFLED out (Some (led_prev f)) = Some (led_prev f')"
proof -
  define g where "g = (if sint (prev_status f) \<noteq> uint led then f\<lparr>count := 0, prev_status := ucast led\<rparr> else f)"
  have g: "unat (count g) = c" "sint (prev_status g) = uint led" "led_prev g = led_prev f"
    using assms(3) by (auto simp: g_def sint_ucast_u8)
  have c: "c < 20" using assms(2,3) by (simp split: if_splits)
  have r: "rd flash_pattern (unat led) = Some (flash_pattern ! unat led)"
    using assms(1) by (simp add: rd_def flash_pattern_length word_less_nat_alt)
  have s: "unat (count g + 1) = Suc c" using g(1) c unat_Suc_less [of "count g" 20] by simp
  define wrap where "wrap \<longleftrightarrow> Suc c = 20"
  have m: "Suc c mod 20 = (if wrap then 0 else Suc c)" using c by (auto simp: wrap_def)
  have sl: "LIGHT_F_COUNT \<le>s count g + 1 \<longleftrightarrow> wrap"
  proof -
    have "sint (count g + 1) = int (Suc c)"
      using s c by (simp add: sint_uint uint_nat signed_take_bit_int_eq_self)
    then show ?thesis using c by (auto simp: word_sle_eq wrap_def)
  qed
  show ?thesis
    using assms(1) g s
    by (simp add: led_flash_handler_def g_def [symmetric] r sl m and_exp_eq_0_iff_not_bit Let_def)
qed

lemma flash_run_spec:
  assumes "led < STATUS_MAX_NUM" "sint (prev_status f) \<noteq> uint led" "unat (count f) < 20"
  shows "\<exists>f' out. flash_run led (Suc n) f = Some (f', out) \<and> sint (prev_status f') = uint led \<and>
    unat (count f') = Suc n mod 20 \<and> led_prev f' = bit (flash_pattern ! unat led) (n mod 20) \<and>
    level DEVICE_WFLED out (Some (led_prev f)) = Some (led_prev f')"
proof (induction n)
  case 0
  from flash_tick [OF assms(1,3)] assms(2) show ?case by auto
next
  case (Suc n)
  then obtain f1 out1 where 1: "flash_run led (Suc n) f = Some (f1, out1)" "sint (prev_status f1) = uint led"
    "unat (count f1) = Suc n mod 20" "level DEVICE_WFLED out1 (Some (led_prev f)) = Some (led_prev f1)" by blast
  then have "unat (count f1) < 20" by simp
  from flash_tick [OF assms(1) this] 1(2,3) obtain f2 out2 where
    "led_flash_handler led f1 = Some (f2, out2)" "sint (prev_status f2) = uint led"
    "unat (count f2) = Suc (Suc n) mod 20" "led_prev f2 = bit (flash_pattern ! unat led) (Suc n mod 20)"
    "level DEVICE_WFLED out2 (Some (led_prev f1)) = Some (led_prev f2)"
    by (auto simp: mod_Suc_eq)
  with 1 show ?case by simp
qed

section \<open>Runs of the task\<close>

definition task_run :: "(kl_env \<times> kl_msg) list \<Rightarrow> keyled \<Rightarrow> keyled" where
  "task_run = fold (\<lambda>(e, m). task_event e m)"

text \<open>The states the task can be in, from power-on with the stored relay state \<open>nv\<close>.\<close>

inductive kl_reach :: "bool \<Rightarrow> keyled \<Rightarrow> bool" for nv where
  start: "TaskKeyLed_start t1 t2 t3 q wifi_up nv poweron keyled_zero = Inr (s, ms) \<Longrightarrow> kl_reach nv s"
| event: "kl_reach nv s \<Longrightarrow> kl_reach nv (task_event e m s)"

inductive_cases kl_reach_cases: "kl_reach nv s"

text \<open>The relay state in flash after a sequence of actions.\<close>

fun stored :: "kl_act list \<Rightarrow> bool \<Rightarrow> bool" where
  "stored [] x = x"
| "stored (SetSwitchNvram v # as) x = stored as v"
| "stored (_ # as) x = stored as x"

lemma stored_append [simp]: "stored (as @ bs) x = stored bs (stored as x)"
  by (induction as x rule: stored.induct) auto

definition switch_inv :: "bool \<Rightarrow> keyled \<Rightarrow> bool" where
  "switch_inv nv s \<longleftrightarrow> level DEVICE_SWITCH1 (acts s) None = Some (pwr_status s) \<and>
     level DEVICE_PWLED (acts s) None = Some (pwr_status s) \<and> stored (acts s) nv = pwr_status s"

definition status_inv :: "keyled \<Rightarrow> bool" where
  "status_inv s \<longleftrightarrow> dev_status s \<le> 2 \<and> wifi_status s \<le> 2 \<and> colink_status s \<le> 3 \<and> sec_30 s < 30 \<and>
     (led_status s = update_led_status s \<or>
      dev_status s = DEVICE_STATION \<and> wifi_status s = WIFI_DIS_CON \<and> led_status s = STATUS_NO_SER)"

lemma act_simps [simp]:
  "pwr_status (act xs s) = pwr_status s" "led_status (act xs s) = led_status s"
  "dev_status (act xs s) = dev_status s" "wifi_status (act xs s) = wifi_status s"
  "colink_status (act xs s) = colink_status s" "start_smart_t (act xs s) = start_smart_t s"
  "save_mode (act xs s) = save_mode s" "clear_count (act xs s) = clear_count s" "sec_30 (act xs s) = sec_30 s"
  "acts (act xs s) = acts s @ xs"
  by (simp_all add: act_def)

lemma set_led_simps [simp]:
  "pwr_status (set_led s) = pwr_status s" "led_status (set_led s) = update_led_status s"
  "dev_status (set_led s) = dev_status s" "wifi_status (set_led s) = wifi_status s"
  "colink_status (set_led s) = colink_status s" "start_smart_t (set_led s) = start_smart_t s"
  "save_mode (set_led s) = save_mode s" "clear_count (set_led s) = clear_count s" "sec_30 (set_led s) = sec_30 s"
  "acts (set_led s) = acts s"
  by (simp_all add: set_led_def)

lemma update_led_cong:
  "dev_status s = dev_status t \<Longrightarrow> wifi_status s = wifi_status t \<Longrightarrow> colink_status s = colink_status t \<Longrightarrow>
   update_led_status s = update_led_status t"
  by (simp add: update_led_status_def)

lemma toggle_switch_simps [simp]:
  "pwr_status (toggle_switch s) = (\<not> pwr_status s)" "led_status (toggle_switch s) = led_status s"
  "dev_status (toggle_switch s) = dev_status s" "wifi_status (toggle_switch s) = wifi_status s"
  "colink_status (toggle_switch s) = colink_status s" "start_smart_t (toggle_switch s) = start_smart_t s"
  "save_mode (toggle_switch s) = save_mode s" "clear_count (toggle_switch s) = clear_count s"
  "sec_30 (toggle_switch s) = sec_30 s"
  "acts (toggle_switch s) = acts s @ [SetLogic DEVICE_SWITCH1 (\<not> pwr_status s),
     SetLogic DEVICE_PWLED (\<not> pwr_status s), SetSwitchNvram (\<not> pwr_status s)]"
  by (simp_all add: toggle_switch_def active_Switch_def Let_def)

lemmas event_defs = task_event_def on_1sec_def on_long_key_def on_short_key_def on_connect_def on_devstatus_def
  on_ping_def on_switch_def leave_config_def exit_link_config_def

lemma switch_inv_act:
  "\<forall>a \<in> set xs. case a of SetLogic p v \<Rightarrow> False | SetSwitchNvram v \<Rightarrow> False | _ \<Rightarrow> True \<Longrightarrow>
   switch_inv nv (act xs s) = switch_inv nv s"
proof -
  assume a: "\<forall>a \<in> set xs. case a of SetLogic p v \<Rightarrow> False | SetSwitchNvram v \<Rightarrow> False | _ \<Rightarrow> True"
  then have "level p xs x = x" for p x by (induction xs) (auto split: kl_act.splits)
  moreover from a have "stored xs x = x" for x by (induction xs) (auto split: kl_act.splits)
  ultimately show ?thesis by (simp add: switch_inv_def)
qed

lemma switch_inv_toggle: "switch_inv nv s \<Longrightarrow> switch_inv nv (toggle_switch s)"
  by (simp add: switch_inv_def)

lemma switch_inv_upd [simp]:
  "switch_inv nv (s\<lparr>led_status := a\<rparr>) = switch_inv nv s" "switch_inv nv (s\<lparr>dev_status := b\<rparr>) = switch_inv nv s"
  "switch_inv nv (s\<lparr>wifi_status := b\<rparr>) = switch_inv nv s" "switch_inv nv (s\<lparr>colink_status := b\<rparr>) = switch_inv nv s"
  "switch_inv nv (s\<lparr>start_smart_t := d\<rparr>) = switch_inv nv s" "switch_inv nv (s\<lparr>save_mode := b\<rparr>) = switch_inv nv s"
  "switch_inv nv (s\<lparr>clear_count := b\<rparr>) = switch_inv nv s" "switch_inv nv (s\<lparr>sec_30 := b\<rparr>) = switch_inv nv s"
  "switch_inv nv (set_led s) = switch_inv nv s"
  by (simp_all add: switch_inv_def)

lemma switch_inv_leave: "switch_inv nv (leave_config s) = switch_inv nv s"
  by (simp add: leave_config_def exit_link_config_def switch_inv_act)

lemma switch_inv_1sec: "switch_inv nv (on_1sec e s) = switch_inv nv s"
  by (simp add: on_1sec_def Let_def switch_inv_act switch_inv_leave)

lemma switch_inv_long: "switch_inv nv (on_long_key e s) = switch_inv nv s"
  by (simp add: on_long_key_def switch_inv_act)

lemma switch_inv_short: "switch_inv nv s \<Longrightarrow> switch_inv nv (on_short_key e s)"
  by (simp add: on_short_key_def switch_inv_act switch_inv_leave switch_inv_toggle)

lemma switch_inv_connect: "switch_inv nv (on_connect e d s) = switch_inv nv s"
  by (simp add: on_connect_def Let_def switch_inv_act)

lemma switch_inv_devstatus: "switch_inv nv (on_devstatus v s) = switch_inv nv s"
  by (simp add: on_devstatus_def Let_def switch_inv_act)

lemma switch_inv_ping: "switch_inv nv (on_ping v s) = switch_inv nv s"
  by (simp add: on_ping_def)

lemma switch_inv_switch: "switch_inv nv s \<Longrightarrow> switch_inv nv (on_switch c d s)"
  by (simp add: on_switch_def Let_def switch_inv_act switch_inv_toggle)

lemma switch_inv_event: "switch_inv nv s \<Longrightarrow> switch_inv nv (task_event e m s)"
  by (cases m) (simp add: task_event_def switch_inv_1sec switch_inv_long switch_inv_short switch_inv_connect
    switch_inv_devstatus switch_inv_ping switch_inv_switch switch_inv_act)

lemma switch_inv_start:
  "TaskKeyLed_start t1 t2 t3 q wifi_up nv poweron keyled_zero = Inr (s, ms) \<Longrightarrow> switch_inv nv s"
  by (auto simp: TaskKeyLed_start_def keyled_zero_def active_Switch_def KeyLed_Init_def switch_inv_def Let_def
      split: if_splits)

lemma kl_reach_switch: "kl_reach nv s \<Longrightarrow> switch_inv nv s"
  by (induction rule: kl_reach.induct) (auto intro: switch_inv_start switch_inv_event)

text \<open>The display status after each handler.\<close>

lemma update_led_upd [simp]:
  "update_led_status (act xs s) = update_led_status s" "update_led_status (toggle_switch s) = update_led_status s"
  "update_led_status (s\<lparr>clear_count := c\<rparr>) = update_led_status s"
  "update_led_status (s\<lparr>sec_30 := n\<rparr>) = update_led_status s"
  "update_led_status (set_led s) = update_led_status s"
  by (rule update_led_cong; simp)+

lemma status_inv_act [simp]: "status_inv (act xs s) = status_inv s"
  by (simp add: status_inv_def)

lemma status_inv_set_led:
  "status_inv (set_led s) \<longleftrightarrow> dev_status s \<le> 2 \<and> wifi_status s \<le> 2 \<and> colink_status s \<le> 3 \<and> sec_30 s < 30"
  by (auto simp: status_inv_def)

lemma status_invD:
  assumes "status_inv s"
  shows "dev_status s \<le> 2" "wifi_status s \<le> 2" "colink_status s \<le> 3" "sec_30 s < 30"
  using assms by (simp_all add: status_inv_def)

lemma status_inv_leave: "status_inv s \<Longrightarrow> status_inv (leave_config s)"
  by (auto simp: leave_config_def status_inv_set_led dest: status_invD)

lemma status_inv_upd:
  "status_inv (s\<lparr>clear_count := c\<rparr>) = status_inv s"
  "n < 30 \<Longrightarrow> status_inv s \<Longrightarrow> status_inv (s\<lparr>sec_30 := n\<rparr>)"
  by (simp_all add: status_inv_def)

lemma status_inv_1sec: "status_inv s \<Longrightarrow> status_inv (on_1sec e s)"
  by (simp add: on_1sec_def Let_def status_inv_leave status_inv_upd)

lemma status_inv_long: "status_inv s \<Longrightarrow> status_inv (on_long_key e s)"
  by (auto simp: on_long_key_def status_inv_set_led dest: status_invD)

lemma status_inv_toggle: "status_inv (toggle_switch s) = status_inv s"
  by (simp add: status_inv_def)

lemma status_inv_short: "status_inv s \<Longrightarrow> status_inv (on_short_key e s)"
  by (simp add: on_short_key_def status_inv_leave status_inv_toggle)

lemma status_inv_connect: "status_inv s \<Longrightarrow> status_inv (on_connect e d s)"
  by (auto simp: on_connect_def status_inv_set_led Let_def dest: status_invD)

lemma status_inv_devstatus: "status_inv s \<Longrightarrow> status_inv (on_devstatus v s)"
  by (auto simp: on_devstatus_def status_inv_set_led Let_def dest: status_invD)

lemma status_inv_ping: "status_inv s \<Longrightarrow> status_inv (on_ping v s)"
  by (auto simp: on_ping_def status_inv_set_led dest: status_invD)

lemma status_inv_switch: "status_inv s \<Longrightarrow> status_inv (on_switch c d s)"
  by (simp add: on_switch_def Let_def status_inv_toggle)

lemma status_inv_event: "status_inv s \<Longrightarrow> status_inv (task_event e m s)"
  by (cases m) (simp add: task_event_def status_inv_1sec status_inv_long status_inv_short status_inv_connect
    status_inv_devstatus status_inv_ping status_inv_switch)

definition clears :: "kl_act list \<Rightarrow> nat" where
  "clears xs = length (filter (\<lambda>a. a = ClearPoweronNumber) xs)"

lemma clears_simps [simp]: "clears [] = 0" "clears (a # xs) = (if a = ClearPoweronNumber then 1 else 0) + clears xs"
  "clears (xs @ ys) = clears xs + clears ys"
  by (simp_all add: clears_def)

lemma start_fields:
  "TaskKeyLed_start t1 t2 t3 q wifi_up nv poweron keyled_zero = Inr (s, ms) \<Longrightarrow>
   dev_status s = 0 \<and> wifi_status s = 0 \<and> colink_status s = 0 \<and> sec_30 s = 0 \<and> clear_count s = 9 \<and>
   led_status s = (if wifi_up then STATUS_NO_SER else STATUS_NO_WIFI) \<and> clears (acts s) = 0"
  by (auto simp: TaskKeyLed_start_def keyled_zero_def active_Switch_def KeyLed_Init_def Let_def split: if_splits)

lemma status_inv_start:
  "TaskKeyLed_start t1 t2 t3 q wifi_up nv poweron keyled_zero = Inr (s, ms) \<Longrightarrow> status_inv s"
  using start_fields [of t1 t2 t3 q wifi_up nv poweron s ms]
  by (cases wifi_up) (simp_all add: status_inv_def update_led_status_def)

lemma kl_reach_status: "kl_reach nv s \<Longrightarrow> status_inv s"
  by (induction rule: kl_reach.induct) (auto intro: status_inv_start status_inv_event)

lemma update_led_bound: "update_led_status s < STATUS_MAX_NUM"
  by (simp add: update_led_status_def)

lemma u8_le_2: "x \<le> 2 \<longleftrightarrow> x = 0 \<or> x = 1 \<or> x = 2" for x :: u8
  by (auto simp: word_le_nat_alt word_unat_eq_iff)

lemma update_led_config:
  "dev_status s = DEVICE_SMART \<Longrightarrow> update_led_status s = STATUS_SMART"
  "dev_status s = DEVICE_AP_MODE \<Longrightarrow> update_led_status s = STATUS_AP_MODE"
  "dev_status s = DEVICE_STATION \<Longrightarrow> update_led_status s < STATUS_SMART"
  by (simp_all add: update_led_status_def)

lemma status_inv_config:
  assumes "status_inv s"
  shows "led_status s = STATUS_SMART \<or> led_status s = STATUS_AP_MODE \<longleftrightarrow> dev_status s \<noteq> DEVICE_STATION"
proof -
  have l: "led_status s = update_led_status s \<or> dev_status s = DEVICE_STATION \<and> led_status s = STATUS_NO_SER"
    using assms by (auto simp: status_inv_def)
  have "dev_status s = 0 \<or> dev_status s = 1 \<or> dev_status s = 2"
    using status_invD(1) [OF assms] by (simp add: u8_le_2)
  then show ?thesis
  proof (elim disjE)
    assume "dev_status s = 0"
    with l update_led_config(3) [of s] show ?thesis by (cases "led_status s = update_led_status s") auto
  next
    assume "dev_status s = 1"
    with l update_led_config(1) [of s] show ?thesis by simp
  next
    assume "dev_status s = 2"
    with l update_led_config(2) [of s] show ?thesis by simp
  qed
qed

section \<open>Seconds and switch commands\<close>

fun seconds :: "(kl_env \<times> kl_msg) list \<Rightarrow> nat" where
  "seconds [] = 0"
| "seconds ((e, (c, d)) # evs) = (if c = EVENT_01_SEC then 1 else 0) + seconds evs"

lemma leave_clear: "clear_count (leave_config s) = clear_count s" "clears (acts (leave_config s)) = clears (acts s)"
  by (simp_all add: leave_config_def exit_link_config_def)

lemma event_clear_other:
  assumes "c \<noteq> EVENT_01_SEC"
  shows "clear_count (task_event e (c, d) s) = clear_count s" "clears (acts (task_event e (c, d) s)) = clears (acts s)"
  using assms
  by (simp_all add: task_event_def on_long_key_def on_short_key_def on_connect_def on_devstatus_def on_ping_def
    on_switch_def leave_clear Let_def)

lemma event_clear_sec:
  "clear_count (task_event e (EVENT_01_SEC, d) s) = (if 0 < clear_count s then clear_count s - 1 else 0)"
  "clears (acts (task_event e (EVENT_01_SEC, d) s)) = clears (acts s) + (if clear_count s = 1 then 1 else 0)"
  by (simp_all add: task_event_def on_1sec_def leave_clear Let_def word_neq_0_conv [symmetric])

lemma task_run_Cons: "task_run ((e, m) # evs) s = task_run evs (task_event e m s)"
  by (simp add: task_run_def)

lemma task_run_clear:
  "unat (clear_count (task_run evs s)) = unat (clear_count s) - seconds evs \<and>
   clears (acts (task_run evs s)) =
     clears (acts s) + (if 0 < unat (clear_count s) \<and> unat (clear_count s) \<le> seconds evs then 1 else 0)"
proof (induction evs arbitrary: s)
  case Nil
  then show ?case by (cases "unat (clear_count s)") (simp_all add: task_run_def)
next
  case (Cons ev evs)
  obtain e c d where ev: "ev = (e, c, d)" by (cases ev) auto
  let ?s = "task_event e (c, d) s"
  show ?case
  proof (cases "c = EVENT_01_SEC")
    case False
    with Cons [of ?s] event_clear_other [OF False, of e d s] ev show ?thesis by (simp add: task_run_Cons)
  next
    case True
    have n: "unat (clear_count ?s) = unat (clear_count s) - 1"
      using event_clear_sec(1) [of e d s] True
      by (cases "0 < clear_count s") (auto simp: unat_minus_one word_less_nat_alt unat_gt_0)
    have "clear_count s = 1 \<longleftrightarrow> unat (clear_count s) = 1" by (simp add: word_unat_eq_iff)
    with event_clear_sec(2) [of e d s] True
    have k: "clears (acts ?s) = clears (acts s) + (if unat (clear_count s) = 1 then 1 else 0)" by simp
    have "clears (acts (task_run evs ?s)) = clears (acts s) + (if unat (clear_count s) = 1 then 1 else 0) +
        (if 0 < unat (clear_count s) - 1 \<and> unat (clear_count s) - 1 \<le> seconds evs then 1 else 0)"
      using Cons [of ?s] k n by simp
    with Cons [of ?s] n True ev show ?thesis by (auto simp: task_run_Cons)
  qed
qed

section \<open>Properties\<close>

text \<open>
  What a key press does, for every length: held for \<open>n\<close> samples of 100 ms and released, it posts
  one long-press event for the 51st sample and one more every 256 samples after it, and a short-press
  event on release exactly when the wrapped counter reads below 50; the scan is then idle again.
  This holds whether \<open>char\<close> is signed or not.
\<close>

lemma key_press_events:
  assumes "0 < n"
  shows "key_run sg (replicate n False @ [True]) key_scan_start =
    (key_scan_start, replicate ((n + 205) div 256) (EVENT_DEV_KEY, KEY_1LONG) @
       (if char_val sg (of_nat n) < 50 then [(EVENT_DEV_KEY, KEY_KEY1)] else []))"
  by (rule key_press [OF assms])

lemma key_press_events_witness:
  "key_run True (replicate 60 False @ [True]) key_scan_start = (key_scan_start, [(EVENT_DEV_KEY, KEY_1LONG)])"
proof -
  have "\<not> char_val True (of_nat 60) < 50" by (subst char_val_small) simp_all
  then show ?thesis by (subst key_press_events) simp_all
qed

text \<open>
  The key does what its users expect up to 12.7 seconds: a press of at most 49 samples is one
  short press, one of 51 to 127 samples is one long press and no short one - but a press of exactly
  50 samples posts no event at all.
\<close>

lemma key_press_classes:
  assumes "0 < n" "n < 128"
  shows "snd (key_run sg (replicate n False @ [True]) key_scan_start) =
    (if n < 50 then [(EVENT_DEV_KEY, KEY_KEY1)] else if n = 50 then [] else [(EVENT_DEV_KEY, KEY_1LONG)])"
proof -
  have "(n + 205) div 256 = (if n \<le> 50 then 0 else 1)"
  proof (cases "n \<le> 50")
    case False
    with assms(2) have "(n + 205) div 256 = 1" by (intro div_nat_eqI) simp_all
    with False show ?thesis by simp
  qed simp
  then show ?thesis by (simp add: key_press [OF assms(1)] char_val_small [OF assms(2)])
qed

lemma key_press_classes_witness:
  "snd (key_run False (replicate 50 False @ [True]) key_scan_start) = []"
  by (subst key_press_classes) simp_all

text \<open>
  C21: In every reachable state of the task the relay, the power LED and the stored power-on state
  agree with \<open>pwr_status\<close>, whatever messages were received in whatever order.
\<close>

theorem relay_led_nvram_agree:
  assumes "kl_reach nv s"
  shows "level DEVICE_SWITCH1 (acts s) None = Some (pwr_status s) \<and>
    level DEVICE_PWLED (acts s) None = Some (pwr_status s) \<and> stored (acts s) nv = pwr_status s"
  using kl_reach_switch [OF assms] by (simp add: switch_inv_def)

text \<open>The state after start-up with the given stored relay state and WiFi status.\<close>

definition keyled_boot :: "bool \<Rightarrow> bool \<Rightarrow> keyled" where
  "keyled_boot wifi_up nv = (case TaskKeyLed_start True True True True wifi_up nv 0 keyled_zero of
     Inr (s, ms) \<Rightarrow> s | Inl xs \<Rightarrow> keyled_zero)"

lemma keyled_boot_reach: "kl_reach nv (keyled_boot wifi_up nv)"
proof -
  obtain s ms where "TaskKeyLed_start True True True True wifi_up nv 0 keyled_zero = Inr (s, ms)"
    by (auto simp: TaskKeyLed_start_def Let_def)
  then show ?thesis by (auto simp: keyled_boot_def intro: kl_reach.start)
qed

lemma relay_led_nvram_agree_witness:
  "stored (acts (task_event \<lparr>now_ms = 0, co_mode = 3, delay_due = False\<rparr> (EVENT_SWITCH, 1) (keyled_boot False False))) False = True"
proof -
  have "kl_reach False (task_event \<lparr>now_ms = 0, co_mode = 3, delay_due = False\<rparr> (EVENT_SWITCH, 1) (keyled_boot False False))"
    by (rule kl_reach.event [OF keyled_boot_reach])
  from relay_led_nvram_agree [OF this] show ?thesis
    by (simp add: keyled_boot_def TaskKeyLed_start_def Let_def task_event_def on_switch_def active_Switch_def keyled_zero_def)
qed

text \<open>
  The status the LED shows is always in range of the pattern table and is the one computed from
  the device, WiFi and cloud states, except between a start with WiFi already up and the first
  status message; it shows a configuration pattern exactly while a configuration is running.
\<close>

lemma led_status_consistent:
  assumes "kl_reach nv s"
  shows "led_status s < STATUS_MAX_NUM \<and>
    (led_status s = update_led_status s \<or> wifi_status s = WIFI_DIS_CON \<and> led_status s = STATUS_NO_SER) \<and>
    (led_status s = STATUS_SMART \<or> led_status s = STATUS_AP_MODE \<longleftrightarrow> dev_status s \<noteq> DEVICE_STATION)"
proof -
  note i = kl_reach_status [OF assms]
  have l: "led_status s = update_led_status s \<or> wifi_status s = WIFI_DIS_CON \<and> led_status s = STATUS_NO_SER"
    using i by (auto simp: status_inv_def)
  then have "led_status s < STATUS_MAX_NUM" using update_led_bound [of s] by auto
  with l status_inv_config [OF i] show ?thesis by blast
qed

lemma led_status_consistent_witness: "led_status (keyled_boot True False) < STATUS_MAX_NUM"
  using led_status_consistent [OF keyled_boot_reach [of False True]] by blast



text \<open>
  When the 32-bit millisecond clock is within 180 seconds of wrapping, a configuration started
  then is abandoned at the very next tick.
\<close>

lemma config_abandoned_at_wrap:
  assumes "kl_reach nv s" "dev_status s \<noteq> DEVICE_STATION" "2 ^ 32 \<le> unat (start_smart_t s) + 180000"
    and "start_smart_t s \<le> now_ms e"
  shows "dev_status (task_event e (EVENT_01_SEC, d) s) = DEVICE_STATION"
proof -
  have led: "led_status s = STATUS_SMART \<or> led_status s = STATUS_AP_MODE"
    using status_inv_config [OF kl_reach_status [OF assms(1)]] assms(2) by simp
  have l: "unat (start_smart_t s) < 4294967296" using unsigned_less [of "start_smart_t s", where ?'a = nat] by simp
  have "unat (start_smart_t s + 180000) = (unat (start_smart_t s) + 180000) mod 4294967296"
    by (simp add: unat_word_ariths)
  also have "\<dots> = unat (start_smart_t s) + 180000 - 4294967296"
    using assms(3) l by (simp add: le_mod_geq)
  finally have "unat (start_smart_t s + 180000) < unat (start_smart_t s)" using l assms(3) by simp
  then have "start_smart_t s + 180000 < now_ms e" using assms(4) by (simp add: word_less_nat_alt word_le_nat_alt)
  with led show ?thesis by (auto simp: task_event_def on_1sec_def Let_def leave_config_def)
qed

lemma config_abandoned_at_wrap_witness:
  "let e = \<lparr>now_ms = 0xFFFFFF00, co_mode = 3, delay_due = False\<rparr>;
       s = task_event e (EVENT_DEV_KEY, KEY_1LONG) (keyled_boot False False)
   in dev_status s = DEVICE_SMART \<and> dev_status (task_event e (EVENT_01_SEC, 0) s) = DEVICE_STATION"
proof -
  let ?e = "\<lparr>now_ms = 0xFFFFFF00, co_mode = 3, delay_due = False\<rparr>"
  let ?s = "task_event ?e (EVENT_DEV_KEY, KEY_1LONG) (keyled_boot False False)"
  have f: "dev_status ?s = DEVICE_SMART" "start_smart_t ?s = 0xFFFFFF00"
    by (simp_all add: keyled_boot_def TaskKeyLed_start_def Let_def task_event_def on_long_key_def active_Switch_def keyled_zero_def)
  have "kl_reach False ?s" by (rule kl_reach.event [OF keyled_boot_reach])
  from config_abandoned_at_wrap [OF this, of ?e 0] f show ?thesis by (simp add: Let_def)
qed

text \<open>
  The power-on counter is cleared exactly once in the life of the task, at its ninth second,
  whatever other messages arrive in between.
\<close>

lemma poweron_cleared_once:
  assumes "TaskKeyLed_start t1 t2 t3 q wifi_up nv poweron keyled_zero = Inr (s, ms)"
  shows "clears (acts (task_run evs s)) = (if 9 \<le> seconds evs then 1 else 0)"
  using task_run_clear [of evs s] start_fields [OF assms] by simp

lemma poweron_cleared_once_witness:
  "clears (acts (task_run (replicate 20 (\<lparr>now_ms = 5, co_mode = 3, delay_due = False\<rparr>, (EVENT_01_SEC, 0))) (keyled_boot False True))) = 1"
proof -
  have "seconds (replicate n (\<lparr>now_ms = 5, co_mode = 3, delay_due = False\<rparr>, (EVENT_01_SEC, 0))) = n" for n
    by (induction n) simp_all
  moreover obtain ms where "TaskKeyLed_start True True True True False True 0 keyled_zero = Inr (keyled_boot False True, ms)"
    by (simp add: keyled_boot_def TaskKeyLed_start_def Let_def)
  ultimately show ?thesis by (simp add: poweron_cleared_once)
qed

text \<open>
  The status LED plays the pattern of the status from its first step and repeats it: after
  \<open>n + 1\<close> ticks of the flash timer with a new status, no tick read outside the table and the pin is at
  bit \<open>n mod 20\<close> of the pattern, although the driver is called only on changes.
\<close>

lemma led_plays_pattern:
  assumes "led < STATUS_MAX_NUM" "sint (prev_status f) \<noteq> uint led" "unat (count f) < 20"
  shows "\<exists>f' out. flash_run led (Suc n) f = Some (f', out) \<and>
    level DEVICE_WFLED out (Some (led_prev f)) = Some (bit (flash_pattern ! unat led) (n mod 20))"
  using flash_run_spec [OF assms, of n] by auto

lemma led_plays_pattern_witness:
  "\<exists>f' out. flash_run STATUS_NO_SER 23 flash_start = Some (f', out) \<and> level DEVICE_WFLED out (Some False) = Some True"
proof -
  have "\<exists>f' out. flash_run STATUS_NO_SER (Suc 22) flash_start = Some (f', out) \<and>
    level DEVICE_WFLED out (Some (led_prev flash_start)) = Some (bit (flash_pattern ! unat STATUS_NO_SER) (22 mod 20))"
    by (rule led_plays_pattern) (simp_all add: flash_start_def)
  then show ?thesis by (simp add: flash_pattern_def flash_start_def bit_iff_odd)
qed

end
