(* ===== verification/DhcpOptions.thy ===== *)
theory DhcpOptions
  imports Prelude
begin

text \<open>
  DHCP packets and their options: \<open>components/net/udhcp/common.c\<close> (\<open>udhcp_get_option\<close>,
  \<open>udhcp_end_option\<close>, \<open>udhcp_add_binary_option\<close>, \<open>udhcp_add_simple_option\<close>, \<open>udhcp_find_option\<close>,
  the table \<open>dhcp_optflags\<close>) and \<open>packet.c\<close> (\<open>udhcp_init_header\<close>, the checks of
  \<open>udhcp_recv_kernel_packet\<close>), on a little-endian target. A pointer into a packet is the field it
  points into and an offset; an access outside the field is \<open>None\<close>. The abstract view of an options
  field is the list of its options.
\<close>

type_synonym bytes = "u8 list"

record dhcp_packet =
  pkt_op :: u8
  htype :: u8
  hlen :: u8
  hops :: u8
  xid :: u32
  secs :: u16
  pkt_flags :: u16
  ciaddr :: u32
  yiaddr :: u32
  siaddr_nip :: u32
  gateway_nip :: u32
  chaddr :: bytes
  sname :: bytes
  file_field :: bytes
  cookie :: u32
  options :: bytes

definition DHCP_OPTIONS_BUFSIZE :: nat where "DHCP_OPTIONS_BUFSIZE = 308"
definition DHCP_MAGIC :: u32 where "DHCP_MAGIC = 0x63825363"

abbreviation (input) "BOOTREQUEST \<equiv> 1 :: u8"
abbreviation (input) "BOOTREPLY \<equiv> 2 :: u8"

abbreviation (input) "DHCP_PADDING \<equiv> 0 :: u8"
abbreviation (input) "DHCP_SUBNET \<equiv> 1 :: u8"
abbreviation (input) "DHCP_ROUTER \<equiv> 3 :: u8"
abbreviation (input) "DHCP_DNS_SERVER \<equiv> 6 :: u8"
abbreviation (input) "DHCP_HOST_NAME \<equiv> 0x0c :: u8"
abbreviation (input) "DHCP_REQUESTED_IP \<equiv> 0x32 :: u8"
abbreviation (input) "DHCP_LEASE_TIME \<equiv> 0x33 :: u8"
abbreviation (input) "DHCP_OPTION_OVERLOAD \<equiv> 0x34 :: u8"
abbreviation (input) "DHCP_MESSAGE_TYPE \<equiv> 0x35 :: u8"
abbreviation (input) "DHCP_SERVER_ID \<equiv> 0x36 :: u8"
abbreviation (input) "DHCP_END \<equiv> 0xff :: u8"

abbreviation (input) "DHCPDISCOVER \<equiv> 1 :: u8"
abbreviation (input) "DHCPOFFER \<equiv> 2 :: u8"
abbreviation (input) "DHCPREQUEST \<equiv> 3 :: u8"
abbreviation (input) "DHCPDECLINE \<equiv> 4 :: u8"
abbreviation (input) "DHCPACK \<equiv> 5 :: u8"
abbreviation (input) "DHCPNAK \<equiv> 6 :: u8"
abbreviation (input) "DHCPRELEASE \<equiv> 7 :: u8"
abbreviation (input) "DHCPINFORM \<equiv> 8 :: u8"

section \<open>Byte order\<close>

definition le32 :: "u32 \<Rightarrow> bytes" where
  "le32 w = [ucast w, ucast (drop_bit 8 w), ucast (drop_bit 16 w), ucast (drop_bit 24 w)]"

definition of_le32 :: "bytes \<Rightarrow> u32" where
  "of_le32 bs = (ucast (bs ! 0) OR push_bit 8 (ucast (bs ! 1)) OR push_bit 16 (ucast (bs ! 2)) OR
     push_bit 24 (ucast (bs ! 3)))"

definition htonl :: "u32 \<Rightarrow> u32" where
  "htonl w = of_le32 (rev (le32 w))"

abbreviation (input) "ntohl \<equiv> htonl"

lemma length_le32 [simp]: "length (le32 w) = 4"
  by (simp add: le32_def)

lemma not_bit_u8: "8 \<le> n \<Longrightarrow> \<not> bit w n" for w :: u8
  using bit_imp_le_length [of w n] by auto

lemma of_le32_le32 [simp]: "of_le32 (le32 w) = w"
proof (rule bit_word_eqI)
  fix n assume "n < LENGTH(32)"
  then consider "n < 8" | "8 \<le> n" "n < 16" | "16 \<le> n" "n < 24" | "24 \<le> n" "n < 32" by force
  then show "bit (of_le32 (le32 w)) n \<longleftrightarrow> bit w n"
    by cases (auto simp: of_le32_def le32_def bit_simps)
qed

lemma le32_of_le32: "length bs = 4 \<Longrightarrow> le32 (of_le32 bs) = bs"
proof -
  assume "length bs = 4"
  then obtain a b c d where bs: "bs = [a, b, c, d]"
    by (auto simp: numeral_eq_Suc length_Suc_conv)
  have "ucast (of_le32 bs) = a" "ucast (drop_bit 8 (of_le32 bs)) = b"
    "ucast (drop_bit 16 (of_le32 bs)) = c" "ucast (drop_bit 24 (of_le32 bs)) = d"
    by (rule bit_word_eqI; auto simp: of_le32_def bs bit_simps not_bit_u8)+
  then show ?thesis by (simp add: le32_def bs)
qed

lemma htonl_htonl [simp]: "htonl (htonl w) = w"
  by (simp add: htonl_def le32_of_le32)

section \<open>Reading options\<close>

datatype area = Options | File | Sname

type_synonym ptr = "area \<times> nat"

fun area_bytes :: "area \<Rightarrow> dhcp_packet \<Rightarrow> bytes" where
  "area_bytes Options p = options p"
| "area_bytes File p = file_field p"
| "area_bytes Sname p = sname p"

definition pkt_byte :: "dhcp_packet \<Rightarrow> ptr \<Rightarrow> u8 option" where
  "pkt_byte p = (\<lambda>(a, i). rd (area_bytes a p) i)"

text \<open>\<open>move_from_unaligned32\<close> through an option pointer.\<close>

definition pkt_u32 :: "dhcp_packet \<Rightarrow> ptr \<Rightarrow> u32 option" where
  "pkt_u32 p = (\<lambda>(a, i). if i + 4 \<le> length (area_bytes a p) then Some (of_le32 (take 4 (drop i (area_bytes a p)))) else None)"

abbreviation (input) "FILE_FIELD \<equiv> 1 :: u32"
abbreviation (input) "SNAME_FIELD \<equiv> 2 :: u32"
abbreviation (input) "FILE_FIELD101 \<equiv> 0x101 :: u32"
abbreviation (input) "SNAME_FIELD101 \<equiv> 0x202 :: u32"

text \<open>The search below leaves each field at most once, and inside a field \<open>rem\<close> decreases.\<close>

lemma overload_bits:
  "ov AND 0x101 = 1 \<Longrightarrow> \<not> bit ov 8" "ov AND 0x202 = 2 \<Longrightarrow> \<not> bit ov 9"
  "bit (ov OR 0x101) 8" "bit (ov OR 0x101) 9 = bit ov 9" "bit (ov OR 0x202) 9" "bit (ov OR 0x202) 8 = bit ov 8"
  "bit (ov OR ucast v) 8 = bit ov 8" "bit (ov OR ucast v) 9 = bit ov 9" for ov :: u32 and v :: u8
proof -
  show "\<not> bit ov 8" if "ov AND 0x101 = 1"
  proof
    assume "bit ov 8"
    then have "bit (ov AND 0x101) 8" by (simp add: bit_simps)
    with that show False by simp
  qed
  show "\<not> bit ov 9" if "ov AND 0x202 = 2"
  proof
    assume "bit ov 9"
    then have "bit (ov AND 0x202) 9" by (simp add: bit_simps)
    with that show False by simp
  qed
qed (simp_all add: bit_simps not_bit_u8)

lemma rem_pos: "\<not> r < 2 + uint n \<Longrightarrow> 0 < r \<and> - 2 < uint n" for n :: u8
  using uint_ge_0 [of n] by linarith

text \<open>
  The loop of \<open>udhcp_get_option\<close>: the field and position \<open>optionptr\<close> points at, the bytes that remain
  and the \<open>overload\<close> bits. The inner \<open>None\<close> is a null result.
\<close>

function get_option_loop :: "dhcp_packet \<Rightarrow> u8 \<Rightarrow> area \<Rightarrow> nat \<Rightarrow> int \<Rightarrow> u32 \<Rightarrow> ptr option option" where
  "get_option_loop p code a i rem overload =
     (if rem \<le> 0 then Some None
      else do {
        c \<leftarrow> pkt_byte p (a, i);
        if c = DHCP_PADDING then get_option_loop p code a (i + 1) (rem - 1) overload
        else if c = DHCP_END then
          (if overload AND FILE_FIELD101 = FILE_FIELD
           then get_option_loop p code File 0 (int (length (file_field p))) (overload OR FILE_FIELD101)
           else if overload AND SNAME_FIELD101 = SNAME_FIELD
           then get_option_loop p code Sname 0 (int (length (sname p))) (overload OR SNAME_FIELD101)
           else Some None)
        else do {
          n \<leftarrow> pkt_byte p (a, i + 1);
          let len = 2 + unat n;
          let rem = rem - int len;
          if rem < 0 then get_option_loop p code a i rem overload
          else if c = code then Some (Some (a, i + 2))
          else if c = DHCP_OPTION_OVERLOAD then do {
            v \<leftarrow> pkt_byte p (a, i + 2);
            get_option_loop p code a (i + len) rem (overload OR ucast v) }
          else get_option_loop p code a (i + len) rem overload } })"
  by pat_completeness auto

termination
  by (relation "measures [\<lambda>(p, code, a, i, rem, ov). of_bool (\<not> bit ov 8) + of_bool (\<not> bit ov 9),
      \<lambda>(p, code, a, i, rem, ov). nat rem]")
    (auto simp: overload_bits dest: rem_pos)

definition udhcp_get_option :: "dhcp_packet \<Rightarrow> u8 \<Rightarrow> ptr option option" where
  "udhcp_get_option p code = get_option_loop p code Options 0 (int (length (options p))) 0"

declare get_option_loop.simps [simp del]

section \<open>Adding options\<close>

text \<open>\<open>udhcp_end_option\<close>: no bounds are checked, so a field without an end option is overrun.\<close>

function end_option_loop :: "bytes \<Rightarrow> nat \<Rightarrow> nat option" where
  "end_option_loop opts i =
     do {
       c \<leftarrow> rd opts i;
       if c = DHCP_END then Some i
       else if c = DHCP_PADDING then end_option_loop opts (i + 1)
       else do { n \<leftarrow> rd opts (i + 1); end_option_loop opts (i + unat n + 2) } }"
  by pat_completeness auto
termination by (relation "measure (\<lambda>(opts, i). length opts - i)") (auto simp: rd_def split: if_splits)

declare end_option_loop.simps [simp del]

definition udhcp_end_option :: "bytes \<Rightarrow> nat option" where
  "udhcp_end_option opts = end_option_loop opts 0"

definition udhcp_add_binary_option :: "dhcp_packet \<Rightarrow> bytes \<Rightarrow> dhcp_packet option" where
  "udhcp_add_binary_option p addopt =
     do {
       end \<leftarrow> udhcp_end_option (options p);
       n \<leftarrow> rd addopt 1;
       let len = 2 + unat n;
       if DHCP_OPTIONS_BUFSIZE \<le> end + len + 1 then Some p
       else if length addopt < len then None
       else do {
         opts \<leftarrow> blit (options p) end (take len addopt);
         opts \<leftarrow> wr opts (end + len) DHCP_END;
         Some (p\<lparr>options := opts\<rparr>) } }"

text \<open>The option types, their lengths, and the table of known options.\<close>

abbreviation (input) "OPTION_IP \<equiv> 1 :: u8"
abbreviation (input) "OPTION_IP_PAIR \<equiv> 2 :: u8"
abbreviation (input) "OPTION_STRING \<equiv> 3 :: u8"
abbreviation (input) "OPTION_STRING_HOST \<equiv> 4 :: u8"
abbreviation (input) "OPTION_U8 \<equiv> 5 :: u8"
abbreviation (input) "OPTION_U16 \<equiv> 6 :: u8"
abbreviation (input) "OPTION_U32 \<equiv> 7 :: u8"
abbreviation (input) "OPTION_S32 \<equiv> 8 :: u8"
abbreviation (input) "OPTION_STATIC_ROUTES \<equiv> 10 :: u8"
abbreviation (input) "OPTION_6RD \<equiv> 11 :: u8"
abbreviation (input) "OPTION_TYPE_MASK \<equiv> 0x0f :: u8"
abbreviation (input) "OPTION_REQ \<equiv> 0x10 :: u8"
abbreviation (input) "OPTION_LIST \<equiv> 0x20 :: u8"

definition dhcp_optflags :: "(u8 \<times> u8) list" where
  "dhcp_optflags =
     [(OPTION_IP OR OPTION_REQ, 0x01), (OPTION_S32, 0x02), (OPTION_IP OR OPTION_LIST OR OPTION_REQ, 0x03),
      (OPTION_IP OR OPTION_LIST OR OPTION_REQ, 0x06), (OPTION_IP OR OPTION_LIST, 0x09),
      (OPTION_STRING_HOST OR OPTION_REQ, 0x0c), (OPTION_U16, 0x0d), (OPTION_STRING_HOST OR OPTION_REQ, 0x0f),
      (OPTION_IP, 0x10), (OPTION_STRING, 0x11), (OPTION_U8, 0x17), (OPTION_U16, 0x1a), (OPTION_IP OR OPTION_REQ, 0x1c),
      (OPTION_IP_PAIR OR OPTION_LIST, 0x21), (OPTION_STRING_HOST, 0x28), (OPTION_IP OR OPTION_LIST, 0x29),
      (OPTION_IP OR OPTION_LIST OR OPTION_REQ, 0x2a), (OPTION_IP OR OPTION_LIST, 0x2c), (OPTION_U32, 0x33),
      (OPTION_IP, 0x36), (OPTION_STRING, 0x38), (OPTION_STRING_HOST, 0x42), (OPTION_STRING, 0x43),
      (OPTION_STATIC_ROUTES OR OPTION_LIST, 0x79), (OPTION_STRING, 0xd1), (OPTION_6RD, 0xd4),
      (OPTION_STATIC_ROUTES OR OPTION_LIST, 0xf9), (OPTION_STRING, 0xfc), (OPTION_IP, 0x32), (OPTION_U8, 0x35),
      (OPTION_U16, 0x39)]"

definition dhcp_option_lengths :: bytes where
  "dhcp_option_lengths = [0, 4, 8, 1, 1, 1, 2, 4, 4, 0, 5, 22]"

definition udhcp_add_simple_option :: "dhcp_packet \<Rightarrow> u8 \<Rightarrow> u32 \<Rightarrow> dhcp_packet option" where
  "udhcp_add_simple_option p code d =
     (case find (\<lambda>(f, c). c = code) dhcp_optflags of
        None \<Rightarrow> Some p
      | Some (f, c) \<Rightarrow> do {
          len \<leftarrow> rd dhcp_option_lengths (unat (f AND OPTION_TYPE_MASK));
          udhcp_add_binary_option p ([code, len] @ le32 d) })"

text \<open>The configured options are a list sorted by code.\<close>

fun udhcp_find_option :: "bytes list \<Rightarrow> u8 \<Rightarrow> bytes option option" where
  "udhcp_find_option [] code = Some None"
| "udhcp_find_option (d # ds) code =
     do {
       c \<leftarrow> rd d 0;
       if c < code then udhcp_find_option ds code
       else Some (if c = code then Some d else None) }"

definition zero_packet :: dhcp_packet where
  "zero_packet = \<lparr>pkt_op = 0, htype = 0, hlen = 0, hops = 0, xid = 0, secs = 0, pkt_flags = 0, ciaddr = 0, yiaddr = 0,
     siaddr_nip = 0, gateway_nip = 0, chaddr = replicate 16 0, sname = replicate 64 0, file_field = replicate 128 0,
     cookie = 0, options = replicate DHCP_OPTIONS_BUFSIZE 0\<rparr>"

definition udhcp_init_header :: "u8 \<Rightarrow> dhcp_packet option" where
  "udhcp_init_header type =
     do {
       let p = zero_packet\<lparr>pkt_op := (if type = DHCPOFFER \<or> type = DHCPACK \<or> type = DHCPNAK then BOOTREPLY else BOOTREQUEST),
         htype := 1, hlen := 6, cookie := htonl DHCP_MAGIC\<rparr>;
       opts \<leftarrow> wr (options p) 0 DHCP_END;
       udhcp_add_simple_option (p\<lparr>options := opts\<rparr>) DHCP_MESSAGE_TYPE (ucast type) }"

text \<open>\<open>udhcp_recv_kernel_packet\<close> on what the socket delivered: the number of bytes, and the packet they fill.\<close>

definition udhcp_recv_kernel_packet :: "int \<Rightarrow> dhcp_packet \<Rightarrow> int" where
  "udhcp_recv_kernel_packet n p =
     (if n < 0 then n else if cookie p \<noteq> htonl DHCP_MAGIC then - 2 else n)"

section \<open>The list of options a field holds\<close>

type_synonym dhcp_option = "u8 \<times> bytes"

definition opt_ok :: "dhcp_option \<Rightarrow> bool" where
  "opt_ok o1 \<longleftrightarrow> fst o1 \<noteq> DHCP_PADDING \<and> fst o1 \<noteq> DHCP_END \<and> length (snd o1) < 256"

definition enc_opt :: "dhcp_option \<Rightarrow> bytes" where
  "enc_opt o1 = [fst o1, of_nat (length (snd o1))] @ snd o1"

definition enc_opts :: "dhcp_option list \<Rightarrow> bytes" where
  "enc_opts os = concat (map enc_opt os)"

definition has_opts :: "bytes \<Rightarrow> dhcp_option list \<Rightarrow> bool" where
  "has_opts b os \<longleftrightarrow> list_all opt_ok os \<and> (\<exists>r. b = enc_opts os @ DHCP_END # r)"

lemma enc_opts_simps [simp]:
  "enc_opts [] = []" "enc_opts (x # os) = enc_opt x @ enc_opts os" "enc_opts (os @ os') = enc_opts os @ enc_opts os'"
  by (simp_all add: enc_opts_def)

lemma length_enc_opt [simp]: "length (enc_opt x) = 2 + length (snd x)"
  by (simp add: enc_opt_def)

lemma opt_ok_len: "opt_ok x \<Longrightarrow> unat (of_nat (length (snd x)) :: u8) = length (snd x)"
  by (simp add: opt_ok_def unat_of_nat)

lemma end_option_spec:
  "list_all opt_ok os \<Longrightarrow> end_option_loop (pre @ enc_opts os @ DHCP_END # r) (length pre) = Some (length pre + length (enc_opts os))"
proof (induction os arbitrary: pre)
  case Nil
  then show ?case by (subst end_option_loop.simps) (simp add: rd_def)
next
  case (Cons x os)
  have ok: "opt_ok x" using Cons.prems by simp
  have "end_option_loop ((pre @ enc_opt x) @ enc_opts os @ DHCP_END # r) (length (pre @ enc_opt x)) =
      Some (length (pre @ enc_opt x) + length (enc_opts os))"
    using Cons.prems by (intro Cons.IH) simp
  moreover have "rd (pre @ enc_opts (x # os) @ DHCP_END # r) (length pre) = Some (fst x)"
    "rd (pre @ enc_opts (x # os) @ DHCP_END # r) (length pre + 1) = Some (of_nat (length (snd x)))"
    by (simp_all add: rd_def nth_append enc_opt_def)
  ultimately show ?case
    using ok opt_ok_len [OF ok] by (subst end_option_loop.simps) (simp add: opt_ok_def add.assoc)
qed

lemma udhcp_end_option_spec: "has_opts b os \<Longrightarrow> udhcp_end_option b = Some (length (enc_opts os))"
  using end_option_spec [of os "[]"] by (auto simp: has_opts_def udhcp_end_option_def)

text \<open>Adding an option appends it to the list, or does nothing when it does not fit.\<close>

lemma udhcp_add_binary_spec:
  assumes "has_opts (options p) os" "length (options p) = DHCP_OPTIONS_BUFSIZE" "opt_ok x"
  shows "if length (enc_opts os) + length (enc_opt x) + 1 < DHCP_OPTIONS_BUFSIZE
    then \<exists>b. udhcp_add_binary_option p (enc_opt x @ rest) = Some (p\<lparr>options := b\<rparr>) \<and>
      has_opts b (os @ [x]) \<and> length b = DHCP_OPTIONS_BUFSIZE
    else udhcp_add_binary_option p (enc_opt x @ rest) = Some p"
proof -
  note e = udhcp_end_option_spec [OF assms(1)]
  have n: "rd (enc_opt x @ rest) (Suc 0) = Some (of_nat (length (snd x)))" by (simp add: rd_def enc_opt_def)
  note l = opt_ok_len [OF assms(3)]
  obtain r where r: "options p = enc_opts os @ DHCP_END # r" "list_all opt_ok os"
    using assms(1) by (auto simp: has_opts_def)
  show ?thesis
  proof (cases "length (enc_opts os) + length (enc_opt x) + 1 < DHCP_OPTIONS_BUFSIZE")
    case False
    then show ?thesis by (simp add: udhcp_add_binary_option_def e n l)
  next
    case True
    let ?k = "length (enc_opts os)" and ?m = "length (enc_opt x)"
    have bl: "blit (options p) ?k (enc_opt x) = Some (enc_opts os @ enc_opt x @ drop (?k + ?m) (options p))"
      using True assms(2) r(1) by (simp add: blit_def)
    have d: "drop (?k + ?m) (options p) = options p ! (?k + ?m) # drop (Suc (?k + ?m)) (options p)"
      using True assms(2) by (simp add: Cons_nth_drop_Suc)
    let ?b = "enc_opts os @ enc_opt x @ DHCP_END # drop (Suc (?k + ?m)) (options p)"
    have w: "wr (enc_opts os @ enc_opt x @ drop (?k + ?m) (options p)) (?k + ?m) DHCP_END = Some ?b"
      unfolding d using wr_Some [of "?k + ?m" "(enc_opts os @ enc_opt x) @ options p ! (?k + ?m) # drop (Suc (?k + ?m)) (options p)"]
      by (simp add: list_update_append)
    have "udhcp_add_binary_option p (enc_opt x @ rest) = Some (p\<lparr>options := ?b\<rparr>)"
      using True bl w l by (simp add: udhcp_add_binary_option_def e n)
    moreover have "has_opts ?b (os @ [x])" using r(2) assms(3) by (auto simp: has_opts_def)
    moreover have "length ?b = DHCP_OPTIONS_BUFSIZE" using True assms(2) by simp
    ultimately show ?thesis using True by auto
  qed
qed

section \<open>Searching a well-formed packet\<close>

text \<open>The bytes an option pointer designates: as many as the length byte before it says.\<close>

definition opt_data :: "dhcp_packet \<Rightarrow> ptr \<Rightarrow> bytes" where
  "opt_data p = (\<lambda>(a, j). take (unat (area_bytes a p ! (j - 1))) (drop j (area_bytes a p)))"

definition ovl :: "dhcp_option list \<Rightarrow> u32 \<Rightarrow> u32" where
  "ovl os = fold (\<lambda>x ov. if fst x = DHCP_OPTION_OVERLOAD then ov OR ucast (hd (snd x)) else ov) os"

fun opt_pos :: "nat \<Rightarrow> dhcp_option list \<Rightarrow> u8 \<Rightarrow> nat option" where
  "opt_pos k [] code = None"
| "opt_pos k (x # os) code = (if fst x = code then Some (k + 2) else opt_pos (k + length (enc_opt x)) os code)"

definition ovl_ok :: "dhcp_option \<Rightarrow> bool" where
  "ovl_ok x \<longleftrightarrow> (fst x = DHCP_OPTION_OVERLOAD \<longrightarrow> snd x \<noteq> [])"

lemma loop_opts:
  assumes "area_bytes a p = pre @ enc_opts os @ DHCP_END # r" "list_all opt_ok os" "list_all ovl_ok os"
  shows "get_option_loop p code a (length pre) (int (length (enc_opts os) + 1 + length r)) ov =
    (case opt_pos (length pre) os code of Some j \<Rightarrow> Some (Some (a, j))
     | None \<Rightarrow> get_option_loop p code a (length pre + length (enc_opts os)) (1 + int (length r)) (ovl os ov))"
  using assms
proof (induction os arbitrary: pre ov)
  case Nil
  then show ?case by (simp add: ovl_def add.commute)
next
  case (Cons x os)
  have ok: "opt_ok x" "ovl_ok x" using Cons.prems by simp_all
  note l = opt_ok_len [OF ok(1)]
  have l2: "uint (of_nat (length (snd x)) :: u8) = int (length (snd x))" using l by (metis uint_nat)
  have b: "pkt_byte p (a, length pre) = Some (fst x)" "pkt_byte p (a, length pre + 1) = Some (of_nat (length (snd x)))"
    using Cons.prems(1) by (simp_all add: pkt_byte_def rd_def nth_append enc_opt_def)
  have b2: "pkt_byte p (a, length pre + 2) = Some (hd (snd x))" if "fst x = DHCP_OPTION_OVERLOAD"
    using Cons.prems(1) ok(2) that by (cases "snd x") (simp_all add: pkt_byte_def rd_def nth_append enc_opt_def ovl_ok_def)
  have IH: "get_option_loop p code a (length (pre @ enc_opt x)) (int (length (enc_opts os) + 1 + length r)) ov' =
    (case opt_pos (length (pre @ enc_opt x)) os code of Some j \<Rightarrow> Some (Some (a, j))
     | None \<Rightarrow> get_option_loop p code a (length (pre @ enc_opt x) + length (enc_opts os)) (1 + int (length r)) (ovl os ov'))" for ov'
    using Cons.prems by (intro Cons.IH) simp_all
  have nz: "fst x \<noteq> DHCP_PADDING" "fst x \<noteq> DHCP_END" using ok(1) by (simp_all add: opt_ok_def)
  show ?case
  proof (cases "fst x = code")
    case True
    then show ?thesis
      using nz b l l2 by (subst get_option_loop.simps) (auto simp: Let_def)
  next
    case False
    let ?ov = "if fst x = DHCP_OPTION_OVERLOAD then ov OR ucast (hd (snd x)) else ov"
    have "get_option_loop p code a (length pre) (int (length (enc_opts (x # os)) + 1 + length r)) ov =
        get_option_loop p code a (length (pre @ enc_opt x)) (int (length (enc_opts os) + 1 + length r)) ?ov"
      using nz False b2 b l l2 by (subst get_option_loop.simps) (auto simp: Let_def algebra_simps)
    also have "ovl os ?ov = ovl (x # os) ov" by (simp add: ovl_def)
    ultimately show ?thesis using False IH [of ?ov] by (simp add: add.assoc cong: option.case_cong)
  qed
qed

lemma opt_pos_None: "opt_pos k os code = None \<longleftrightarrow> map_of os code = None"
  by (induction os arbitrary: k) auto

lemma opt_pos_data:
  assumes "opt_pos (length pre) os code = Some j" "list_all opt_ok os" "area_bytes a p = pre @ enc_opts os @ r"
  shows "map_of os code = Some (opt_data p (a, j))"
  using assms
proof (induction os arbitrary: pre)
  case (Cons x os)
  show ?case
  proof (cases "fst x = code")
    case True
    then have "opt_data p (a, j) = snd x"
      using Cons.prems opt_ok_len [of x] by (auto simp: opt_data_def enc_opt_def nth_append)
    with True show ?thesis by (cases x) simp
  next
    case False
    then show ?thesis using Cons.prems Cons.IH [of "pre @ enc_opt x"] by (cases x) (simp add: add.assoc)
  qed
qed simp

text \<open>The search of one field: the first option with the code, or on to the end marker.\<close>

lemma loop_field:
  assumes "has_opts (area_bytes a p) os" "list_all ovl_ok os"
  shows "case map_of os code of
      Some d \<Rightarrow> \<exists>j. get_option_loop p code a 0 (int (length (area_bytes a p))) ov = Some (Some (a, j)) \<and> opt_data p (a, j) = d
    | None \<Rightarrow> \<exists>i r. 0 < r \<and> pkt_byte p (a, i) = Some DHCP_END \<and>
        get_option_loop p code a 0 (int (length (area_bytes a p))) ov = get_option_loop p code a i r (ovl os ov)"
proof -
  obtain r where r: "area_bytes a p = enc_opts os @ DHCP_END # r" and ok: "list_all opt_ok os"
    using assms(1) by (auto simp: has_opts_def)
  note l = loop_opts [of a p "[]" os r code ov, simplified, OF r ok assms(2)]
  have "get_option_loop p code a 0 (int (length (area_bytes a p))) ov =
    (case opt_pos 0 os code of Some j \<Rightarrow> Some (Some (a, j))
     | None \<Rightarrow> get_option_loop p code a (length (enc_opts os)) (1 + int (length r)) (ovl os ov))"
    using l by (simp add: r algebra_simps cong: option.case_cong)
  moreover have "pkt_byte p (a, length (enc_opts os)) = Some DHCP_END"
    by (simp add: pkt_byte_def rd_def r nth_append)
  moreover have "map_of os code = Some (opt_data p (a, j))" if "opt_pos 0 os code = Some j" for j
    using opt_pos_data [of "[]" os code j a p "DHCP_END # r"] that ok r by simp
  ultimately show ?thesis
    using opt_pos_None [of 0 os code]
    by (cases "opt_pos 0 os code") (auto split: option.splits intro!: exI [of _ "length (enc_opts os)"] exI [of _ "1 + int (length r)"])
qed

lemma loop_end:
  assumes "0 < r" "pkt_byte p (a, i) = Some DHCP_END"
  shows "get_option_loop p code a i r ov =
      (if ov AND 0x101 = 1 then get_option_loop p code File 0 (int (length (file_field p))) (ov OR 0x101)
       else if ov AND 0x202 = 2 then get_option_loop p code Sname 0 (int (length (sname p))) (ov OR 0x202)
       else Some None)"
  using assms by (subst get_option_loop.simps) simp

section \<open>What the search returns\<close>

lemma word_eq_bits: "a = b \<longleftrightarrow> (\<forall>n. bit a n \<longleftrightarrow> bit b n)" for a b :: "'a::len word"
  by (auto intro: bit_eqI)

lemma field_bits:
  "ov AND 0x101 = 1 \<longleftrightarrow> bit ov 0 \<and> \<not> bit ov 8" "ov AND 0x202 = 2 \<longleftrightarrow> bit ov 1 \<and> \<not> bit ov 9" for ov :: u32
proof -
  have "(0x101 :: u32) = push_bit 0 1 OR push_bit 8 1" "(0x202 :: u32) = push_bit 1 1 OR push_bit 9 1" by simp_all
  then have b: "bit (0x101 :: u32) n \<longleftrightarrow> n = 0 \<or> n = 8" "bit (0x202 :: u32) n \<longleftrightarrow> n = 1 \<or> n = 9" for n
    by (auto simp only: bit_or_iff bit_simps possible_bit_word) simp_all
  have "ov AND 0x101 = 1 \<longleftrightarrow> (\<forall>n. bit (ov AND 0x101) n \<longleftrightarrow> bit (1 :: u32) n)" by (rule word_eq_bits)
  then show "ov AND 0x101 = 1 \<longleftrightarrow> bit ov 0 \<and> \<not> bit ov 8"
    unfolding bit_and_iff b bit_1_iff by (metis zero_neq_numeral)
  have "(2 :: u32) = push_bit 1 1" by simp
  then have c: "bit (2 :: u32) n \<longleftrightarrow> n = 1" for n
    by (auto simp only: bit_simps possible_bit_word) simp_all
  have "ov AND 0x202 = 2 \<longleftrightarrow> (\<forall>n. bit (ov AND 0x202) n \<longleftrightarrow> bit (2 :: u32) n)" by (rule word_eq_bits)
  then show "ov AND 0x202 = 2 \<longleftrightarrow> bit ov 1 \<and> \<not> bit ov 9"
    unfolding bit_and_iff b c by (metis one_eq_numeral_iff num.distinct(1,3))
qed

lemma ovl_id: "list_all (\<lambda>x. fst x \<noteq> DHCP_OPTION_OVERLOAD) os \<Longrightarrow> ovl os ov = ov"
  by (induction os arbitrary: ov) (simp_all add: ovl_def)

lemma ovl_high: "8 \<le> n \<Longrightarrow> bit (ovl os ov) n = bit ov n"
  by (induction os arbitrary: ov) (simp_all add: ovl_def bit_simps not_bit_u8)

lemma no_ovl_ok: "list_all (\<lambda>x. fst x \<noteq> DHCP_OPTION_OVERLOAD) os \<Longrightarrow> list_all ovl_ok os"
  by (auto simp: ovl_ok_def list_all_iff)

lemma search_sname:
  assumes "bit ov 1 \<longrightarrow> has_opts (sname p) ss \<and> list_all (\<lambda>x. fst x \<noteq> DHCP_OPTION_OVERLOAD) ss"
    "0 < r" "pkt_byte p (a, i) = Some DHCP_END" "bit ov 0 \<longrightarrow> bit ov 8" "\<not> bit ov 9"
  shows "map_option (map_option (opt_data p)) (get_option_loop p code a i r ov) =
    Some (map_of (if bit ov 1 then ss else []) code)"
proof (cases "bit ov 1")
  case False
  then show ?thesis using assms by (auto simp: loop_end field_bits)
next
  case True
  with assms have s: "has_opts (area_bytes Sname p) ss" "list_all ovl_ok ss" "ovl ss ov' = ov'" for ov'
    by (simp_all add: no_ovl_ok ovl_id)
  show ?thesis
    using True assms(2-5) loop_field [OF s(1,2), of code "ov OR 0x202"]
    by (auto simp: loop_end field_bits overload_bits s(3) bit_simps split: option.splits)
qed

lemma search_file:
  assumes "bit ov 0 \<longrightarrow> has_opts (file_field p) fs \<and> list_all (\<lambda>x. fst x \<noteq> DHCP_OPTION_OVERLOAD) fs"
    "bit ov 1 \<longrightarrow> has_opts (sname p) ss \<and> list_all (\<lambda>x. fst x \<noteq> DHCP_OPTION_OVERLOAD) ss"
    "0 < r" "pkt_byte p (a, i) = Some DHCP_END" "\<not> bit ov 8" "\<not> bit ov 9"
  shows "map_option (map_option (opt_data p)) (get_option_loop p code a i r ov) =
    Some (map_of ((if bit ov 0 then fs else []) @ (if bit ov 1 then ss else [])) code)"
proof (cases "bit ov 0")
  case False
  then show ?thesis using assms by (simp add: search_sname)
next
  case True
  with assms have s: "has_opts (area_bytes File p) fs" "list_all ovl_ok fs" "ovl fs ov' = ov'" for ov'
    by (simp_all add: no_ovl_ok ovl_id)
  have b: "bit (ov OR 0x101) 0" "bit (ov OR 0x101) 1 = bit ov 1" "bit (ov OR 0x101) 8" "\<not> bit (ov OR 0x101) 9"
    using assms(6) True by (simp_all add: bit_simps)
  have e: "get_option_loop p code a i r ov = get_option_loop p code File 0 (int (length (file_field p))) (ov OR 0x101)"
    using True assms(3-5) by (simp add: loop_end field_bits)
  show ?thesis
  proof (cases "map_of fs code")
    case (Some d)
    then show ?thesis using True loop_field [OF s(1,2), of code "ov OR 0x101"] by (auto simp: e)
  next
    case None
    then obtain i' r' where "0 < r'" "pkt_byte p (File, i') = Some DHCP_END"
      "get_option_loop p code a i r ov = get_option_loop p code File i' r' (ov OR 0x101)"
      using loop_field [OF s(1,2), of code "ov OR 0x101"] by (auto simp: e s(3))
    then show ?thesis
      using None True search_sname [of "ov OR 0x101" p ss r' File i' code] assms(2) b by (simp add: map_add_def)
  qed
qed

text \<open>The options a reader sees: those of the options field, then of the fields it overloads.\<close>

definition view :: "dhcp_option list \<Rightarrow> dhcp_option list \<Rightarrow> dhcp_option list \<Rightarrow> dhcp_option list" where
  "view os fs ss = os @ (if bit (ovl os 0) 0 then fs else []) @ (if bit (ovl os 0) 1 then ss else [])"

lemma get_option_view:
  assumes "has_opts (options p) os" "list_all ovl_ok os"
    "bit (ovl os 0) 0 \<Longrightarrow> has_opts (file_field p) fs \<and> list_all (\<lambda>x. fst x \<noteq> DHCP_OPTION_OVERLOAD) fs"
    "bit (ovl os 0) 1 \<Longrightarrow> has_opts (sname p) ss \<and> list_all (\<lambda>x. fst x \<noteq> DHCP_OPTION_OVERLOAD) ss"
  shows "map_option (map_option (opt_data p)) (udhcp_get_option p code) = Some (map_of (view os fs ss) code)"
proof -
  note f = loop_field [of Options p os, simplified, OF assms(1,2), of code 0]
  show ?thesis
  proof (cases "map_of os code")
    case (Some d)
    then show ?thesis using f by (auto simp: udhcp_get_option_def view_def map_add_def split: option.splits)
  next
    case None
    then obtain i r where "0 < r" "pkt_byte p (Options, i) = Some DHCP_END"
      "udhcp_get_option p code = get_option_loop p code Options i r (ovl os 0)"
      using f by (auto simp: udhcp_get_option_def)
    then show ?thesis
      using None search_file [of "ovl os 0" p fs ss r Options i code] assms(3,4)
      by (simp add: view_def map_add_def ovl_high)
  qed
qed

text \<open>Without overload the options field alone decides.\<close>

lemma get_option_plain:
  assumes "has_opts (options p) os" "list_all (\<lambda>x. fst x \<noteq> DHCP_OPTION_OVERLOAD) os"
  shows "map_option (map_option (opt_data p)) (udhcp_get_option p code) = Some (map_of os code)"
  using get_option_view [OF assms(1) no_ovl_ok [OF assms(2)], of "[]" "[]" code]
  by (simp add: view_def ovl_id [OF assms(2)])

section \<open>Malformed packets\<close>

text \<open>A pointer the search returns designates bytes inside the field, behind the code that was asked for.\<close>

definition in_field :: "dhcp_packet \<Rightarrow> u8 \<Rightarrow> ptr \<Rightarrow> bool" where
  "in_field p code = (\<lambda>(a, j). 2 \<le> j \<and> j + unat (area_bytes a p ! (j - 1)) \<le> length (area_bytes a p) \<and>
     area_bytes a p ! (j - 2) = code)"

lemma loop_neg: "rem \<le> 0 \<Longrightarrow> get_option_loop p code a i rem ov = Some None"
  by (subst get_option_loop.simps) simp

lemma loop_in_field:
  "get_option_loop p code a i rem ov = Some (Some q) \<Longrightarrow> int i + rem = int (length (area_bytes a p)) \<Longrightarrow> in_field p code q"
proof (induction p code a i rem ov rule: get_option_loop.induct)
  case (1 p code a i rem ov)
  note IH = "1.IH" and len = "1.prems"(2)
  show ?case
  proof (cases "rem \<le> 0")
    case True
    with "1.prems"(1) show ?thesis by (simp add: loop_neg)
  next
    case False
    note h = "1.prems"(1) [unfolded get_option_loop.simps [of p code a i rem ov], simplified Let_def]
    from h False obtain c where c: "pkt_byte p (a, i) = Some c" by (cases "pkt_byte p (a, i)") auto
    consider (pad) "c = 0" | (last) "c = 255" | (opt) "c \<noteq> 0" "c \<noteq> 255" by blast
    then show ?thesis
    proof cases
      case pad
      with h False c len show ?thesis by (intro IH(1) [OF False c]) simp_all
    next
      case last
      with h False c show ?thesis
        using IH(2) [OF False c _ last] IH(3) [OF False c _ last] by (simp split: if_splits)
    next
      case opt
      with h False c obtain n where n: "pkt_byte p (a, i + 1) = Some n" by (cases "pkt_byte p (a, i + 1)") auto
      note IH = IH(5,6) [OF False c opt n refl refl]
      have ge: "\<not> rem - int (2 + unat n) < 0"
      proof
        assume lt: "rem - int (2 + unat n) < 0"
        then have "get_option_loop p code a i (rem - int (2 + unat n)) ov = Some None" by (simp add: loop_neg)
        with h False c n opt lt show False by simp
      qed
      have l: "int (i + (2 + unat n)) + (rem - int (2 + unat n)) = int (length (area_bytes a p))"
        using len by simp
      show ?thesis
      proof (cases "c = code")
        case True
        then have "q = (a, i + 2)" using h False c n opt ge by simp
        moreover have "i + 2 + unat n \<le> length (area_bytes a p)" using ge len by linarith
        ultimately show ?thesis using c n True by (auto simp: in_field_def pkt_byte_def rd_eq_Some_iff)
      next
        case ne: False
        show ?thesis
        proof (cases "c = 52")
          case ov: True
          with h False c n opt ge ne obtain v where v: "pkt_byte p (a, i + 2) = Some v"
            by (cases "pkt_byte p (a, i + 2)") auto
          then show ?thesis using IH(1) [OF ge ne ov v _ l] h False c n opt ge ne ov by simp
        next
          case nov: False
          then show ?thesis using IH(2) [OF ge ne nov _ l] h False c n opt ge ne by simp
        qed
      qed
    qed
  qed
qed

text \<open>The search stays inside the fields when each of them ends with an end marker.\<close>

definition ends_marked :: "dhcp_packet \<Rightarrow> bool" where
  "ends_marked p \<longleftrightarrow> (\<forall>a \<in> {Options, File, Sname}. area_bytes a p \<noteq> [] \<and> last (area_bytes a p) = DHCP_END)"

lemma ends_marked_area: "ends_marked p \<Longrightarrow> area_bytes a p \<noteq> [] \<and> area_bytes a p ! (length (area_bytes a p) - 1) = DHCP_END"
  by (cases a) (auto simp: ends_marked_def last_conv_nth)

lemma loop_safe:
  "ends_marked p \<Longrightarrow> int i + rem = int (length (area_bytes a p)) \<Longrightarrow> get_option_loop p code a i rem ov \<noteq> None"
proof (induction p code a i rem ov rule: get_option_loop.induct)
  case (1 p code a i rem ov)
  note IH = "1.IH" and len = "1.prems"(2) and e = ends_marked_area [OF "1.prems"(1), of a]
  show ?case
  proof (cases "rem \<le> 0")
    case True
    then show ?thesis by (simp add: loop_neg)
  next
    case False
    have byte: "pkt_byte p (a, j) = Some (area_bytes a p ! j)" if "j < length (area_bytes a p)" for j
      using that by (simp add: pkt_byte_def rd_def)
    have i: "i < length (area_bytes a p)" using False len by simp
    note c = byte [OF i]
    let ?c = "area_bytes a p ! i"
    show ?thesis
    proof (cases "?c = 0 \<or> ?c = 255")
      case True
      then show ?thesis
        using False c len IH(1) [OF False c _ "1.prems"(1)] IH(2) [OF False c _ _ _ "1.prems"(1)]
          IH(3) [OF False c _ _ _ _ "1.prems"(1)]
        by (subst get_option_loop.simps) auto
    next
      case opt: False
      then have i1: "i + 1 < length (area_bytes a p)"
        using i e by (cases "i = length (area_bytes a p) - 1") auto
      note n = byte [OF i1]
      let ?n = "area_bytes a p ! (i + 1)"
      have i2: "i + 2 < length (area_bytes a p)" if "\<not> rem - int (2 + unat ?n) < 0"
        using that i1 e len by (cases "i + 1 = length (area_bytes a p) - 1") auto
      have o2: "?c \<noteq> 0" "?c \<noteq> 255" using opt by simp_all
      have l: "int (i + (2 + unat ?n)) + (rem - int (2 + unat ?n)) = int (length (area_bytes a p))"
        using len by simp
      note IH = IH(5) [OF False c o2 n refl refl _ _ _ byte "1.prems"(1) l] IH(6) [OF False c o2 n refl refl _ _ _ "1.prems"(1) l]
      show ?thesis
      proof (cases "rem - int (2 + unat ?n) < 0")
        case True
        then have "get_option_loop p code a i (rem - int (2 + unat ?n)) ov = Some None" by (simp add: loop_neg)
        then show ?thesis using False c n o2 True by (subst get_option_loop.simps) (simp add: Let_def)
      next
        case ge: False
        show ?thesis using False c n o2 ge IH [OF ge] i2 [OF ge] byte [OF i2 [OF ge]]
          by (subst get_option_loop.simps) (simp add: Let_def)
      qed
    qed
  qed
qed

text \<open>A field that ends in the code of an option, with no room for its length byte, is overrun.\<close>

lemma loop_padding:
  "take k (drop i (area_bytes a p)) = replicate k 0 \<Longrightarrow> i + k \<le> length (area_bytes a p) \<Longrightarrow> int k \<le> rem \<Longrightarrow>
   get_option_loop p code a i rem ov = get_option_loop p code a (i + k) (rem - int k) ov"
proof (induction k arbitrary: i rem)
  case (Suc k)
  have b: "pkt_byte p (a, i) = Some 0" "take k (drop (Suc i) (area_bytes a p)) = replicate k 0"
    using Suc.prems(1,2) by (auto simp: pkt_byte_def rd_def Cons_nth_drop_Suc [symmetric])
  have "get_option_loop p code a i rem ov = get_option_loop p code a (Suc i) (rem - 1) ov"
    using Suc.prems(3) b by (subst get_option_loop.simps) simp
  then show ?case using Suc.IH [of "Suc i" "rem - 1"] Suc.prems b by (simp add: algebra_simps)
qed simp

lemma loop_overrun:
  assumes "area_bytes a p = replicate k 0 @ [c]" "c \<noteq> DHCP_PADDING" "c \<noteq> DHCP_END"
  shows "get_option_loop p code a 0 (int (length (area_bytes a p))) ov = None"
proof -
  have "get_option_loop p code a 0 (int (length (area_bytes a p))) ov = get_option_loop p code a k 1 ov"
    using loop_padding [of k 0 a p "int (length (area_bytes a p))" code ov] assms(1) by simp
  also have "\<dots> = None"
    using assms by (subst get_option_loop.simps) (simp add: pkt_byte_def rd_def nth_append)
  finally show ?thesis .
qed

section \<open>Building packets\<close>

text \<open>Adding a list of encoded options, one after the other.\<close>

fun add_all :: "dhcp_option list \<Rightarrow> dhcp_packet \<Rightarrow> dhcp_packet option" where
  "add_all [] p = Some p"
| "add_all (x # xs) p = do { p \<leftarrow> udhcp_add_binary_option p (enc_opt x); add_all xs p }"

lemma add_binary_fits:
  assumes "has_opts (options p) os" "length (options p) = DHCP_OPTIONS_BUFSIZE" "opt_ok x"
    "length (enc_opts os) + length (enc_opt x) + 1 < DHCP_OPTIONS_BUFSIZE"
  obtains b where "udhcp_add_binary_option p (enc_opt x @ rest) = Some (p\<lparr>options := b\<rparr>)"
    "has_opts b (os @ [x])" "length b = DHCP_OPTIONS_BUFSIZE"
  using udhcp_add_binary_spec [OF assms(1-3), of rest] assms(4) by auto

lemma add_all_spec:
  assumes "has_opts (options p) os" "length (options p) = DHCP_OPTIONS_BUFSIZE" "list_all opt_ok xs"
    "length (enc_opts (os @ xs)) + 1 < DHCP_OPTIONS_BUFSIZE"
  shows "\<exists>b. add_all xs p = Some (p\<lparr>options := b\<rparr>) \<and> has_opts b (os @ xs) \<and> length b = DHCP_OPTIONS_BUFSIZE"
  using assms
proof (induction xs arbitrary: p os)
  case (Cons x xs)
  obtain b where b: "udhcp_add_binary_option p (enc_opt x) = Some (p\<lparr>options := b\<rparr>)"
    "has_opts b (os @ [x])" "length b = DHCP_OPTIONS_BUFSIZE"
    using add_binary_fits [of p os x "[]"] Cons.prems by auto
  show ?case
    using Cons.IH [of "p\<lparr>options := b\<rparr>" "os @ [x]"] b Cons.prems by auto
next
  case Nil
  then show ?case by (intro exI [of _ "options p"]) simp
qed

text \<open>A simple option of the table is encoded with the length of its type.\<close>

definition simple_opt :: "u8 \<Rightarrow> nat \<Rightarrow> u32 \<Rightarrow> dhcp_option" where
  "simple_opt code n d = (code, take n (le32 d))"

lemma add_simple_as_binary:
  assumes "find (\<lambda>(f, c). c = code) dhcp_optflags = Some (f, code)"
    "rd dhcp_option_lengths (unat (f AND OPTION_TYPE_MASK)) = Some (of_nat n)" "n \<le> 4"
  shows "udhcp_add_simple_option p code d = udhcp_add_binary_option p (enc_opt (simple_opt code n d) @ drop n (le32 d))"
  using assms by (simp add: udhcp_add_simple_option_def enc_opt_def simple_opt_def)

lemma simple_codes:
  "udhcp_add_simple_option p DHCP_SUBNET d = udhcp_add_binary_option p (enc_opt (simple_opt DHCP_SUBNET 4 d) @ [])"
  "udhcp_add_simple_option p DHCP_LEASE_TIME d = udhcp_add_binary_option p (enc_opt (simple_opt DHCP_LEASE_TIME 4 d) @ [])"
  "udhcp_add_simple_option p DHCP_SERVER_ID d = udhcp_add_binary_option p (enc_opt (simple_opt DHCP_SERVER_ID 4 d) @ [])"
  "udhcp_add_simple_option p DHCP_REQUESTED_IP d = udhcp_add_binary_option p (enc_opt (simple_opt DHCP_REQUESTED_IP 4 d) @ [])"
  "udhcp_add_simple_option p DHCP_MESSAGE_TYPE d =
    udhcp_add_binary_option p (enc_opt (simple_opt DHCP_MESSAGE_TYPE 1 d) @ drop 1 (le32 d))"
  by (simp_all add: udhcp_add_simple_option_def dhcp_optflags_def dhcp_option_lengths_def rd_def enc_opt_def simple_opt_def)

lemma opt_ok_simple: "code \<noteq> 0 \<Longrightarrow> code \<noteq> 255 \<Longrightarrow> n \<le> 4 \<Longrightarrow> opt_ok (simple_opt code n d)"
  by (simp add: opt_ok_def simple_opt_def)

text \<open>The header: a zeroed packet with the message type as its only option.\<close>

definition header :: "u8 \<Rightarrow> bytes \<Rightarrow> dhcp_packet" where
  "header type b = zero_packet\<lparr>pkt_op := (if type = DHCPOFFER \<or> type = DHCPACK \<or> type = DHCPNAK then BOOTREPLY else BOOTREQUEST),
     htype := 1, hlen := 6, cookie := htonl DHCP_MAGIC, options := b\<rparr>"

lemma simple_type: "simple_opt DHCP_MESSAGE_TYPE 1 (ucast type) = (DHCP_MESSAGE_TYPE, [type])" for type :: u8
proof -
  have "ucast (ucast type :: u32) = type" by (rule bit_word_eqI) (simp add: bit_simps)
  then show ?thesis by (simp add: simple_opt_def le32_def)
qed

lemma udhcp_init_header_spec:
  "\<exists>b. udhcp_init_header type = Some (header type b) \<and> has_opts b [(DHCP_MESSAGE_TYPE, [type])] \<and>
     length b = DHCP_OPTIONS_BUFSIZE"
proof -
  let ?p = "zero_packet\<lparr>pkt_op := (if type = DHCPOFFER \<or> type = DHCPACK \<or> type = DHCPNAK then BOOTREPLY else BOOTREQUEST),
     htype := 1, hlen := 6, cookie := htonl DHCP_MAGIC\<rparr>"
  have w: "wr (options ?p) 0 DHCP_END = Some (DHCP_END # replicate 307 0)"
    by (simp add: zero_packet_def DHCP_OPTIONS_BUFSIZE_def wr_def numeral_eq_Suc)
  let ?q = "?p\<lparr>options := DHCP_END # replicate 307 0\<rparr>"
  have h: "has_opts (options ?q) []" "length (options ?q) = DHCP_OPTIONS_BUFSIZE"
    by (simp_all add: has_opts_def DHCP_OPTIONS_BUFSIZE_def)
  have ok: "opt_ok (simple_opt DHCP_MESSAGE_TYPE 1 (ucast type))" by (rule opt_ok_simple) simp_all
  obtain b where b: "udhcp_add_simple_option ?q DHCP_MESSAGE_TYPE (ucast type) = Some (?q\<lparr>options := b\<rparr>)"
    "has_opts b ([] @ [simple_opt DHCP_MESSAGE_TYPE 1 (ucast type)])" "length b = DHCP_OPTIONS_BUFSIZE"
    unfolding simple_codes(5) by (rule add_binary_fits [OF h ok])
      (simp_all add: simple_opt_def DHCP_OPTIONS_BUFSIZE_def)
  then show ?thesis
    unfolding udhcp_init_header_def Let_def w bind.bind_lunit simple_type [symmetric]
    by (auto simp: header_def simp del: One_nat_def)
qed

lemma built_packet:
  assumes "list_all opt_ok xs" "list_all (\<lambda>x. fst x \<noteq> DHCP_OPTION_OVERLOAD) xs"
    "length (enc_opts xs) + 4 < DHCP_OPTIONS_BUFSIZE"
  shows "\<exists>p. Option.bind (udhcp_init_header type) (add_all xs) = Some p \<and>
    (\<forall>code. map_option (map_option (opt_data p)) (udhcp_get_option p code) =
      Some (map_of ((DHCP_MESSAGE_TYPE, [type]) # xs) code))"
proof -
  let ?o = "(DHCP_MESSAGE_TYPE, [type])"
  obtain b where b: "udhcp_init_header type = Some (header type b)" "has_opts b [?o]" "length b = DHCP_OPTIONS_BUFSIZE"
    using udhcp_init_header_spec by blast
  have "length (enc_opts ([?o] @ xs)) + 1 < DHCP_OPTIONS_BUFSIZE" using assms(3) by simp
  then obtain b' where b': "add_all xs (header type b) = Some (header type b\<lparr>options := b'\<rparr>)" "has_opts b' (?o # xs)"
    using add_all_spec [of "header type b" "[?o]" xs] b assms(1) by (auto simp: header_def)
  have "map_option (map_option (opt_data (header type b\<lparr>options := b'\<rparr>))) (udhcp_get_option (header type b\<lparr>options := b'\<rparr>) code) =
      Some (map_of (?o # xs) code)" for code
    using b'(2) assms(2) by (intro get_option_plain) simp_all
  with b(1) b'(1) show ?thesis by auto
qed

lemma udhcp_find_option_sorted:
  assumes "sorted (map hd ds)" "list_all (\<lambda>d. d \<noteq> []) ds"
  shows "udhcp_find_option ds code = Some (find (\<lambda>d. hd d = code) ds)"
  using assms
proof (induction ds)
  case (Cons d ds)
  have "find (\<lambda>d. hd d = code) ds = None" if "code < hd d"
    using Cons.prems(1) that by (auto simp: find_None_iff)
  then show ?case using Cons by (auto simp: rd_def hd_conv_nth)
qed simp

section \<open>Properties\<close>

text \<open>
  C19: Reading an option of a well-formed packet: for every code, \<open>udhcp_get_option\<close> returns the data of
  the first option with that code in the options field, then in the \<open>file\<close> and the \<open>sname\<close> field when
  an overload option (its bits collected over the options field) says that they hold options, and a
  null pointer when there is none.
\<close>

theorem option_lookup:
  assumes "has_opts (options p) os" "list_all ovl_ok os"
    "bit (ovl os 0) 0 \<Longrightarrow> has_opts (file_field p) fs \<and> list_all (\<lambda>x. fst x \<noteq> DHCP_OPTION_OVERLOAD) fs"
    "bit (ovl os 0) 1 \<Longrightarrow> has_opts (sname p) ss \<and> list_all (\<lambda>x. fst x \<noteq> DHCP_OPTION_OVERLOAD) ss"
  shows "map_option (map_option (opt_data p)) (udhcp_get_option p code) = Some (map_of (view os fs ss) code)"
  by (rule get_option_view [OF assms])

lemma option_lookup_witness:
  "map_option (map_option (opt_data (zero_packet\<lparr>options := [0x34, 1, 1, 0x35, 1, 3, 255], file_field := [0x36, 4, 10, 0, 0, 1, 255]\<rparr>)))
    (udhcp_get_option (zero_packet\<lparr>options := [0x34, 1, 1, 0x35, 1, 3, 255], file_field := [0x36, 4, 10, 0, 0, 1, 255]\<rparr>)
      DHCP_SERVER_ID) = Some (Some [10, 0, 0, 1])"
proof -
  let ?p = "zero_packet\<lparr>options := [0x34, 1, 1, 0x35, 1, 3, 255], file_field := [0x36, 4, 10, 0, 0, 1, 255]\<rparr>"
  let ?os = "[(0x34, [1]), (0x35, [3])] :: dhcp_option list"
  have b: "ovl ?os 0 = 1" by (simp add: ovl_def)
  have v: "view ?os [(0x36, [10, 0, 0, 1])] [] = ?os @ [(0x36, [10, 0, 0, 1])]" by (simp add: view_def b)
  have "map_option (map_option (opt_data ?p)) (udhcp_get_option ?p DHCP_SERVER_ID) =
      Some (map_of (view ?os [(0x36, [10, 0, 0, 1])] []) DHCP_SERVER_ID)"
    by (rule option_lookup) (simp_all add: b has_opts_def enc_opt_def opt_ok_def ovl_ok_def)
  then show ?thesis by (simp only: v) simp
qed

text \<open>
  C28: A packet whose fields end in an end marker can hold anything else: the search for any option makes
  no access outside the field it reads, and a pointer it returns designates bytes of that field that
  follow the code asked for.
\<close>

theorem options_search_safe:
  assumes "ends_marked p"
  shows "\<exists>r. udhcp_get_option p code = Some r \<and> (\<forall>q. r = Some q \<longrightarrow> in_field p code q)"
  using loop_safe [OF assms, of 0 _ Options] loop_in_field [of p code Options 0 _ 0]
  by (fastforce simp: udhcp_get_option_def)

lemma options_search_safe_witness:
  "\<exists>r. udhcp_get_option (zero_packet\<lparr>options := [0x35, 200, 255], file_field := [255], sname := [255]\<rparr>) 0x35 = Some r \<and>
     (\<forall>q. r = Some q \<longrightarrow> in_field (zero_packet\<lparr>options := [0x35, 200, 255], file_field := [255], sname := [255]\<rparr>) 0x35 q)"
  by (rule options_search_safe) (simp add: ends_marked_def)

text \<open>
  A packet with no end marker whose options field is padding up to its last byte, and an option
  code there, makes the search read the length byte past the end of the field.
\<close>

lemma options_search_overrun:
  assumes "options p = replicate k 0 @ [c]" "c \<noteq> DHCP_PADDING" "c \<noteq> DHCP_END"
  shows "udhcp_get_option p code = None"
  using loop_overrun [of Options p k c code 0] assms by (simp add: udhcp_get_option_def)

lemma options_search_overrun_witness:
  "udhcp_get_option (zero_packet\<lparr>options := replicate 307 0 @ [0x35]\<rparr>) DHCP_MESSAGE_TYPE = None"
  by (rule options_search_overrun [of _ 307 "0x35"]) simp_all

text \<open>
  C26: What is put into a packet is read back: from a packet made by \<open>udhcp_init_header\<close> and any list of
  options added with \<open>udhcp_add_binary_option\<close> that fits the field, \<open>udhcp_get_option\<close> returns for every
  code the data of the first option added with it, the message type included, and nothing else.
\<close>

theorem built_packet_lookup:
  assumes "list_all opt_ok xs" "list_all (\<lambda>x. fst x \<noteq> DHCP_OPTION_OVERLOAD) xs"
    "length (enc_opts xs) + 4 < DHCP_OPTIONS_BUFSIZE"
  shows "\<exists>p. Option.bind (udhcp_init_header type) (add_all xs) = Some p \<and>
    (\<forall>code. map_option (map_option (opt_data p)) (udhcp_get_option p code) =
      Some (map_of ((DHCP_MESSAGE_TYPE, [type]) # xs) code))"
  by (rule built_packet [OF assms])

lemma built_packet_lookup_witness:
  "\<exists>p. Option.bind (udhcp_init_header DHCPACK) (add_all [(0x33, [0, 0, 14, 16]), (0x36, [10, 0, 0, 1])]) = Some p \<and>
    map_option (map_option (opt_data p)) (udhcp_get_option p 0x36) = Some (Some [10, 0, 0, 1])"
proof -
  let ?xs = "[(0x33, [0, 0, 14, 16]), (0x36, [10, 0, 0, 1])] :: dhcp_option list"
  obtain p where p: "Option.bind (udhcp_init_header DHCPACK) (add_all ?xs) = Some p"
    "\<And>code. map_option (map_option (opt_data p)) (udhcp_get_option p code) = Some (map_of ((DHCP_MESSAGE_TYPE, [DHCPACK]) # ?xs) code)"
    using built_packet_lookup [of ?xs DHCPACK] by (auto simp: opt_ok_def DHCP_OPTIONS_BUFSIZE_def simp del: map_of.simps)
  show ?thesis using p(1) p(2) [of "0x36"] by (intro exI [of _ p] conjI) simp_all
qed

end
