(* ===== verification/DhcpLeases.thy ===== *)
theory DhcpLeases
  imports DhcpOptions
begin

text \<open>
  The lease table of the DHCP server: \<open>components/net/udhcp/leases.c\<close> and \<open>static_leases.c\<close>. The array
  \<open>g_leases\<close> is a list of \<open>max_leases\<close> records and a pointer into it is an index; \<open>now\<close> is what
  \<open>ssv_time\<close> returns. \<open>softap_set_ip_info\<close> is a call of the driver and is kept as a log; the driver's
  \<open>softap_get_sta_index_by_mac\<close> is a parameter. A host name is given by the bytes from its pointer
  to the end of the field it lies in.
\<close>

section \<open>The table\<close>

record dyn_lease =
  expires :: u32
  lease_nip :: u32
  lease_mac :: bytes
  hostname :: bytes
  pad :: bytes

definition zero_lease :: dyn_lease where
  "zero_lease = \<lparr>expires = 0, lease_nip = 0, lease_mac = replicate 6 0, hostname = replicate 20 0, pad = replicate 2 0\<rparr>"

record lease_table =
  g_leases :: "dyn_lease list"
  ip_info :: "(bytes \<times> u32) list"

type_synonym static_lease = "bytes \<times> u32"

record server_config_t =
  server_nip :: u32
  server_mac :: bytes
  cfg_options :: "bytes list"
  start_ip :: u32
  end_ip :: u32
  subnet :: u32
  gw :: u32
  dns :: u32
  max_lease_sec :: u32
  min_lease_sec :: u32
  max_leases :: u32
  decline_time :: u32
  conflict_time :: u32
  offer_time :: u32
  auto_time :: u32
  cfg_siaddr_nip :: u32
  cfg_sname :: "bytes option"
  boot_file :: "bytes option"
  static_leases :: "static_lease list"

section \<open>Static leases\<close>

definition add_static_lease :: "static_lease list \<Rightarrow> bytes \<Rightarrow> u32 \<Rightarrow> static_lease list" where
  "add_static_lease ls mac nip = ls @ [(take 6 mac, nip)]"

fun get_static_nip_by_mac :: "static_lease list \<Rightarrow> bytes \<Rightarrow> u32" where
  "get_static_nip_by_mac [] mac = 0"
| "get_static_nip_by_mac (l # ls) mac = (if fst l = take 6 mac then snd l else get_static_nip_by_mac ls mac)"

fun is_nip_reserved :: "static_lease list \<Rightarrow> u32 \<Rightarrow> bool" where
  "is_nip_reserved [] nip = False"
| "is_nip_reserved (l # ls) nip = (if snd l = nip then True else is_nip_reserved ls nip)"

section \<open>Dynamic leases\<close>

fun oldest_loop :: "dyn_lease list \<Rightarrow> nat \<Rightarrow> nat option \<Rightarrow> u32 \<Rightarrow> nat option" where
  "oldest_loop [] i oldest t = oldest"
| "oldest_loop (l # ls) i oldest t =
     (if expires l < t then oldest_loop ls (i + 1) (Some i) (expires l) else oldest_loop ls (i + 1) oldest t)"

definition oldest_expired_lease :: "u32 \<Rightarrow> dyn_lease list \<Rightarrow> nat option" where
  "oldest_expired_lease now ls = oldest_loop ls 0 None now"

definition clear_leases :: "bytes option \<Rightarrow> u32 \<Rightarrow> dyn_lease list \<Rightarrow> dyn_lease list" where
  "clear_leases mac nip ls =
     map (\<lambda>l. if (case mac of None \<Rightarrow> False | Some m \<Rightarrow> lease_mac l = take 6 m) \<or> nip \<noteq> 0 \<and> lease_nip l = nip
       then zero_lease else l) ls"

text \<open>\<open>strncpy (dst, src, n)\<close>: up to \<open>n\<close> bytes of the string, then zeros up to \<open>n\<close>.\<close>

definition c_strncpy :: "bytes \<Rightarrow> bytes \<Rightarrow> nat \<Rightarrow> bytes option" where
  "c_strncpy dst src n =
     (let s = takeWhile (\<lambda>b. b \<noteq> 0) (take n src)
      in if n \<le> length src \<or> length s < length src then blit dst 0 (s @ replicate (n - length s) 0) else None)"

text \<open>The replacement of what is not printable ASCII, up to the terminator. \<open>p\<close> runs over the name and the padding behind it.\<close>

fun sanitize :: "bytes \<Rightarrow> bytes option" where
  "sanitize [] = None"
| "sanitize (b # bs) =
     (if b = 0 then Some (b # bs)
      else do { bs \<leftarrow> sanitize bs; Some ((if b < 32 \<or> 126 < b then 0x5e else b) # bs) })"

definition store_hostname :: "bytes \<Rightarrow> int \<Rightarrow> dyn_lease \<Rightarrow> dyn_lease option" where
  "store_hostname name len l =
     do {
       let n = len + 1;
       let n = (if 20 < n then 20 else n);
       h \<leftarrow> c_strncpy (hostname l) name (nat n);
       r \<leftarrow> sanitize (h @ pad l);
       Some (l\<lparr>hostname := take 20 r, pad := drop 20 r\<rparr>) }"

definition add_lease ::
  "u32 \<Rightarrow> bytes option \<Rightarrow> u32 \<Rightarrow> u32 \<Rightarrow> bytes option \<Rightarrow> int \<Rightarrow> 'a lease_table_scheme \<Rightarrow>
   ('a lease_table_scheme \<times> nat option) option" where
  "add_lease now mac nip leasetime name len s =
     do {
       let s = s\<lparr>g_leases := clear_leases mac nip (g_leases s)\<rparr>;
       case oldest_expired_lease now (g_leases s) of
         None \<Rightarrow> Some (s, None)
       | Some i \<Rightarrow> do {
           let l = zero_lease;
           l \<leftarrow> (case name of None \<Rightarrow> Some l | Some h \<Rightarrow> store_hostname h len l);
           let l = (case mac of None \<Rightarrow> l | Some m \<Rightarrow> l\<lparr>lease_mac := take 6 m\<rparr>);
           let l = l\<lparr>lease_nip := nip, expires := now + leasetime\<rparr>;
           ls \<leftarrow> wr (g_leases s) i l;
           Some (s\<lparr>g_leases := ls, ip_info := ip_info s @ [(lease_mac l, lease_nip l)]\<rparr>, Some i) } }"

definition is_expired_lease :: "u32 \<Rightarrow> dyn_lease \<Rightarrow> bool" where
  "is_expired_lease now l \<longleftrightarrow> expires l < now"

fun find_index :: "('a \<Rightarrow> bool) \<Rightarrow> 'a list \<Rightarrow> nat option" where
  "find_index P [] = None"
| "find_index P (x # xs) = (if P x then Some 0 else map_option Suc (find_index P xs))"

definition find_lease_by_mac :: "dyn_lease list \<Rightarrow> bytes \<Rightarrow> nat option" where
  "find_lease_by_mac ls mac = find_index (\<lambda>l. lease_mac l = take 6 mac) ls"

definition find_lease_by_nip :: "dyn_lease list \<Rightarrow> u32 \<Rightarrow> nat option" where
  "find_lease_by_nip ls nip = find_index (\<lambda>l. lease_nip l = nip) ls"

definition arpping :: "u32 \<Rightarrow> bytes \<Rightarrow> u32 \<Rightarrow> bytes \<Rightarrow> int" where
  "arpping test_nip safe_mac from_ip from_mac = 1"

definition nobody_responds_to_arp ::
  "server_config_t \<Rightarrow> u32 \<Rightarrow> u32 \<Rightarrow> bytes \<Rightarrow> 'a lease_table_scheme \<Rightarrow> ('a lease_table_scheme \<times> int) option" where
  "nobody_responds_to_arp cfg now nip safe_mac s =
     (let r = arpping nip safe_mac (server_nip cfg) (server_mac cfg)
      in if r \<noteq> 0 then Some (s, r)
         else do { (s, _) \<leftarrow> add_lease now None nip (conflict_time cfg) None 0 s; Some (s, 0) })"

text \<open>
  The \<open>do\<close> loop of \<open>find_free_or_expired_nip\<close>. One pass: an address to return (\<open>Inl\<close>), or the oldest
  offline lease seen so far (\<open>Inr\<close>).
\<close>

definition free_step ::
  "(bytes \<Rightarrow> int) \<Rightarrow> server_config_t \<Rightarrow> u32 \<Rightarrow> bytes \<Rightarrow> u32 \<Rightarrow> nat option \<Rightarrow> 'a lease_table_scheme \<Rightarrow>
   ('a lease_table_scheme \<times> (u32 + nat option)) option" where
  "free_step sta cfg now safe_mac addr oldest s =
     (if addr AND 0xff = 0 \<or> addr AND 0xff = 0xff then Some (s, Inr oldest)
      else let nip = htonl addr in
        if nip = server_nip cfg \<or> is_nip_reserved (static_leases cfg) nip then Some (s, Inr oldest)
        else case find_lease_by_nip (g_leases s) nip of
          None \<Rightarrow> do {
            (s, r) \<leftarrow> nobody_responds_to_arp cfg now nip safe_mac s;
            Some (s, if r \<noteq> 0 then Inl nip else Inr oldest) }
        | Some i \<Rightarrow> do {
            l \<leftarrow> rd (g_leases s) i;
            older \<leftarrow> (case oldest of None \<Rightarrow> Some True
                        | Some j \<Rightarrow> do { o' \<leftarrow> rd (g_leases s) j; Some (expires l < expires o') });
            Some (s, Inr (if older \<and> sta (lease_mac l) = - 1 then Some i else oldest)) })"

lemma word_dec_less: "w \<noteq> 0 \<Longrightarrow> unat (w - 1) < unat w" for w :: "'a::len word"
  by (simp add: unat_minus_one unat_gt_0)

function free_loop ::
  "(bytes \<Rightarrow> int) \<Rightarrow> server_config_t \<Rightarrow> u32 \<Rightarrow> bytes \<Rightarrow> u32 \<Rightarrow> u32 \<Rightarrow> nat option \<Rightarrow> 'a lease_table_scheme \<Rightarrow>
   ('a lease_table_scheme \<times> u32) option" where
  "free_loop sta cfg now safe_mac stop addr oldest s =
     do {
       (s, r) \<leftarrow> free_step sta cfg now safe_mac addr oldest s;
       case r of
         Inl nip \<Rightarrow> Some (s, nip)
       | Inr oldest \<Rightarrow>
           if addr + 1 \<noteq> stop then free_loop sta cfg now safe_mac stop (addr + 1) oldest s
           else (case oldest of None \<Rightarrow> Some (s, 0)
             | Some i \<Rightarrow> do { l \<leftarrow> rd (g_leases s) i; Some (s, lease_nip l) }) }"
  by pat_completeness auto
termination
proof (relation "measure (\<lambda>(sta, cfg, now, m, stop, addr, oldest, s). unat (stop - 1 - addr))", goal_cases)
  case (2 sta cfg now m stop addr oldest s x s' r old)
  have "stop - 1 - addr \<noteq> 0" using 2(4) by (metis diff_add_cancel eq_iff_diff_eq_0)
  moreover have "stop - 1 - (addr + 1) = stop - 1 - addr - 1" by simp
  ultimately have "unat (stop - 1 - (addr + 1)) < unat (stop - 1 - addr)" by (metis word_dec_less)
  then show ?case by simp
qed simp

definition find_free_or_expired_nip ::
  "(bytes \<Rightarrow> int) \<Rightarrow> server_config_t \<Rightarrow> u32 \<Rightarrow> bytes \<Rightarrow> 'a lease_table_scheme \<Rightarrow> ('a lease_table_scheme \<times> u32) option" where
  "find_free_or_expired_nip sta cfg now safe_mac s =
     free_loop sta cfg now safe_mac (end_ip cfg + 1) (start_ip cfg) None s"

declare free_loop.simps [simp del]

section \<open>Searching the table\<close>

lemma find_index_Some: "find_index P xs = Some i \<longleftrightarrow> i < length xs \<and> P (xs ! i) \<and> (\<forall>j<i. \<not> P (xs ! j))"
proof (induction xs arbitrary: i)
  case (Cons x xs)
  then show ?case
    by (cases i) (auto simp: All_less_Suc2)
qed simp

lemma find_index_None: "find_index P xs = None \<longleftrightarrow> (\<forall>x\<in>set xs. \<not> P x)"
  by (induction xs) auto

lemma oldest_loop_spec:
  "(\<forall>l\<in>set ls. t \<le> expires l) \<and> oldest_loop ls k old t = old \<or>
   (\<exists>i<length ls. oldest_loop ls k old t = Some (k + i) \<and> expires (ls ! i) < t \<and> (\<forall>l\<in>set ls. expires (ls ! i) \<le> expires l))"
proof (induction ls arbitrary: k old t)
  case (Cons l ls)
  show ?case
  proof (cases "expires l < t")
    case True
    have "(\<forall>x\<in>set ls. expires l \<le> expires x) \<and> oldest_loop (l # ls) k old t = Some k \<or>
      (\<exists>i<length ls. oldest_loop (l # ls) k old t = Some (Suc k + i) \<and> expires (ls ! i) < expires l \<and>
        (\<forall>x\<in>set ls. expires (ls ! i) \<le> expires x))"
      using Cons.IH [of "expires l" "Suc k" "Some k"] True by simp
    then show ?thesis
    proof
      assume "(\<forall>x\<in>set ls. expires l \<le> expires x) \<and> oldest_loop (l # ls) k old t = Some k"
      with True show ?thesis by (intro disjI2 exI [of _ 0]) simp
    next
      assume "\<exists>i<length ls. oldest_loop (l # ls) k old t = Some (Suc k + i) \<and> expires (ls ! i) < expires l \<and>
        (\<forall>x\<in>set ls. expires (ls ! i) \<le> expires x)"
      then obtain i where i: "i < length ls" "oldest_loop (l # ls) k old t = Some (Suc k + i)"
        "expires (ls ! i) < expires l" "\<forall>x\<in>set ls. expires (ls ! i) \<le> expires x" by blast
      with True show ?thesis by (intro disjI2 exI [of _ "Suc i"]) auto
    qed
  next
    case False
    have "(\<forall>x\<in>set ls. t \<le> expires x) \<and> oldest_loop (l # ls) k old t = old \<or>
      (\<exists>i<length ls. oldest_loop (l # ls) k old t = Some (Suc k + i) \<and> expires (ls ! i) < t \<and>
        (\<forall>x\<in>set ls. expires (ls ! i) \<le> expires x))"
      using Cons.IH [of t "Suc k" old] False by simp
    then show ?thesis
    proof
      assume "\<exists>i<length ls. oldest_loop (l # ls) k old t = Some (Suc k + i) \<and> expires (ls ! i) < t \<and>
        (\<forall>x\<in>set ls. expires (ls ! i) \<le> expires x)"
      then obtain i where "i < length ls" "oldest_loop (l # ls) k old t = Some (Suc k + i)"
        "expires (ls ! i) < t" "\<forall>x\<in>set ls. expires (ls ! i) \<le> expires x" by blast
      with False show ?thesis by (intro disjI2 exI [of _ "Suc i"]) auto
    qed (use False in auto)
  qed
qed simp

lemma oldest_expired_None: "oldest_expired_lease now ls = None \<longleftrightarrow> (\<forall>l\<in>set ls. now \<le> expires l)"
proof -
  have "\<not> (\<forall>l\<in>set ls. now \<le> expires l)" if "i < length ls" "expires (ls ! i) < now" for i
    using that nth_mem [of i ls] by (meson not_le)
  then show ?thesis
    using oldest_loop_spec [of ls now 0 None] by (auto simp: oldest_expired_lease_def)
qed

lemma oldest_expired_Some:
  "oldest_expired_lease now ls = Some i \<Longrightarrow>
   i < length ls \<and> expires (ls ! i) < now \<and> (\<forall>l\<in>set ls. expires (ls ! i) \<le> expires l)"
  using oldest_loop_spec [of ls now 0 None] by (auto simp: oldest_expired_lease_def)

section \<open>The invariant\<close>

definition unique_on :: "('a \<Rightarrow> 'b) \<Rightarrow> 'b \<Rightarrow> 'a list \<Rightarrow> bool" where
  "unique_on f z ls \<longleftrightarrow> (\<forall>i<length ls. \<forall>j<length ls. f (ls ! i) = f (ls ! j) \<and> f (ls ! i) \<noteq> z \<longrightarrow> i = j)"

definition lease_ok :: "dyn_lease \<Rightarrow> bool" where
  "lease_ok l \<longleftrightarrow> length (lease_mac l) = 6 \<and> length (hostname l) = 20 \<and> length (pad l) = 2"

abbreviation zero_mac :: bytes where "zero_mac \<equiv> replicate 6 0"

definition leases_ok :: "dyn_lease list \<Rightarrow> bool" where
  "leases_ok ls \<longleftrightarrow> list_all lease_ok ls \<and> unique_on lease_nip 0 ls \<and> unique_on lease_mac zero_mac ls"

lemma zero_lease_simps [simp]:
  "lease_nip zero_lease = 0" "lease_mac zero_lease = zero_mac" "expires zero_lease = 0" "lease_ok zero_lease"
  "hostname zero_lease = replicate 20 0" "pad zero_lease = replicate 2 0"
  by (simp_all add: zero_lease_def lease_ok_def)

lemma unique_on_zero: "unique_on f (f z) (replicate n z)"
  by (simp add: unique_on_def)

lemma unique_on_clear: "unique_on f (f z) ls \<Longrightarrow> unique_on f (f z) (map (\<lambda>l. if P l then z else l) ls)"
  by (auto simp: unique_on_def split: if_splits)

lemma unique_on_put:
  "unique_on f z ls \<Longrightarrow> \<forall>l\<in>set ls. f l = f x \<longrightarrow> f x = z \<Longrightarrow> unique_on f z (ls[i := x])"
  unfolding unique_on_def
proof (intro allI impI)
  fix a b
  assume u: "\<forall>i<length ls. \<forall>j<length ls. f (ls ! i) = f (ls ! j) \<and> f (ls ! i) \<noteq> z \<longrightarrow> i = j"
    and x: "\<forall>l\<in>set ls. f l = f x \<longrightarrow> f x = z" and ab: "a < length (ls[i := x])" "b < length (ls[i := x])"
    and e: "f (ls[i := x] ! a) = f (ls[i := x] ! b) \<and> f (ls[i := x] ! a) \<noteq> z"
  have m: "ls ! a \<in> set ls" "ls ! b \<in> set ls" using ab by simp_all
  show "a = b"
  proof (cases "i = a \<or> i = b")
    case True
    then have "a = b \<or> f x = f (ls ! a) \<or> f x = f (ls ! b)" using ab e by (metis length_list_update nth_list_update)
    moreover have "i = a \<and> a < length ls \<or> i = b \<and> b < length ls" using True ab by auto
    then have "f x \<noteq> z" using e ab by auto
    ultimately show ?thesis using x m by metis
  next
    case False
    with e have "f (ls ! a) = f (ls ! b) \<and> f (ls ! a) \<noteq> z" by (metis nth_list_update_neq)
    then show ?thesis using u ab by (metis length_list_update)
  qed
qed

lemma clear_leases_ok: "leases_ok ls \<Longrightarrow> leases_ok (clear_leases mac nip ls)"
  using unique_on_clear [of lease_nip zero_lease ls] unique_on_clear [of lease_mac zero_lease ls]
  by (auto simp: leases_ok_def clear_leases_def list_all_iff)

lemma clear_leases_length [simp]: "length (clear_leases mac nip ls) = length ls"
  by (simp add: clear_leases_def)

lemma cleared: "l \<in> set (clear_leases mac nip ls) \<Longrightarrow>
  (nip \<noteq> 0 \<longrightarrow> lease_nip l \<noteq> nip) \<and> (\<forall>m. mac = Some m \<longrightarrow> take 6 m \<noteq> zero_mac \<longrightarrow> lease_mac l \<noteq> take 6 m)"
  by (auto simp: clear_leases_def split: if_splits)

text \<open>The name is stored whenever it can be read.\<close>

definition name_readable :: "bytes option \<Rightarrow> int \<Rightarrow> bool" where
  "name_readable name len \<longleftrightarrow> (case name of None \<Rightarrow> True
     | Some h \<Rightarrow> 0 \<le> len \<and> (min 20 (nat (len + 1)) \<le> length h \<or> 0 \<in> set h))"

lemma sanitize_total: "0 \<in> set bs \<Longrightarrow> \<exists>r. sanitize bs = Some r \<and> length r = length bs"
  by (induction bs) auto

lemma sanitize_length: "sanitize bs = Some r \<Longrightarrow> length r = length bs"
  by (induction bs arbitrary: r) (auto split: if_splits bind_splits)

lemma c_strncpy_length: "c_strncpy d h n = Some r \<Longrightarrow> length r = length d"
  by (auto simp: c_strncpy_def Let_def blit_length split: if_splits)

lemma store_hostname_frame:
  "store_hostname h len l = Some l' \<Longrightarrow> lease_ok l \<Longrightarrow>
   lease_ok l' \<and> lease_nip l' = lease_nip l \<and> lease_mac l' = lease_mac l \<and> expires l' = expires l"
proof -
  assume a: "store_hostname h len l = Some l'" and ok: "lease_ok l"
  obtain n d r where d: "c_strncpy (hostname l) h n = Some d" "sanitize (d @ pad l) = Some r"
    "l' = l\<lparr>hostname := take 20 r, pad := drop 20 r\<rparr>"
    using a by (auto simp: store_hostname_def Let_def split: bind_splits)
  have "length r = 22" using sanitize_length [OF d(2)] c_strncpy_length [OF d(1)] ok by (simp add: lease_ok_def)
  then show ?thesis using d(3) ok by (simp add: lease_ok_def)
qed

lemma takeWhile_short: "0 \<in> set h \<Longrightarrow> length (takeWhile (\<lambda>b. b \<noteq> 0) h) < length h" for h :: bytes
  by (induction h) auto

lemma store_hostname_total:
  assumes "name_readable (Some h) len" "lease_ok l" "pad l = replicate 2 0"
  shows "\<exists>l'. store_hostname h len l = Some l'"
proof -
  let ?n = "min 20 (nat (len + 1))"
  let ?s = "takeWhile (\<lambda>b. b \<noteq> 0) (take ?n h)"
  have "length ?s \<le> length (take ?n h)" by (rule length_takeWhile_le)
  then have s: "length ?s \<le> ?n" by simp
  have "?n \<le> length h \<or> 0 \<in> set h" using assms(1) by (auto simp: name_readable_def)
  then have "?n \<le> length h \<or> length ?s < length h"
  proof
    assume z: "0 \<in> set h"
    show ?thesis
    proof (cases "?n \<le> length h")
      case False
      then have "take ?n h = h" by (intro take_all) linarith
      with takeWhile_short [OF z] show ?thesis by auto
    qed blast
  qed blast
  then obtain d where d: "c_strncpy (hostname l) h ?n = Some d"
    using s assms(2) by (auto simp: c_strncpy_def Let_def blit_def lease_ok_def)
  obtain r where "sanitize (d @ pad l) = Some r"
    using sanitize_total [of "d @ pad l"] assms(3) by auto
  moreover have "nat (if 20 < len + 1 then 20 else len + 1) = ?n" by simp
  ultimately show ?thesis using d by (simp add: store_hostname_def Let_def)
qed

section \<open>Adding a lease\<close>

lemma add_lease_full:
  "oldest_expired_lease now (clear_leases mac nip (g_leases s)) = None \<Longrightarrow>
   add_lease now mac nip t name len s = Some (s\<lparr>g_leases := clear_leases mac nip (g_leases s)\<rparr>, None)"
  by (simp add: add_lease_def Let_def)

definition new_lease :: "u32 \<Rightarrow> bytes option \<Rightarrow> u32 \<Rightarrow> u32 \<Rightarrow> dyn_lease \<Rightarrow> dyn_lease" where
  "new_lease now mac nip t l =
     (case mac of None \<Rightarrow> l | Some m \<Rightarrow> l\<lparr>lease_mac := take 6 m\<rparr>)\<lparr>lease_nip := nip, expires := now + t\<rparr>"

lemma add_lease_at:
  assumes "oldest_expired_lease now (clear_leases mac nip (g_leases s)) = Some i"
  shows "add_lease now mac nip t name len s =
    Option.bind (case name of None \<Rightarrow> Some zero_lease | Some h \<Rightarrow> store_hostname h len zero_lease)
      (\<lambda>l. Some (s\<lparr>g_leases := (clear_leases mac nip (g_leases s))[i := new_lease now mac nip t l],
         ip_info := ip_info s @ [(lease_mac (new_lease now mac nip t l), nip)]\<rparr>, Some i))"
  using assms oldest_expired_Some [OF assms]
  by (simp add: add_lease_def Let_def wr_def new_lease_def)

lemma add_lease_cases:
  assumes "add_lease now mac nip t name len s = Some (s', r)" "leases_ok (g_leases s)"
    "\<forall>m. mac = Some m \<longrightarrow> 6 \<le> length m"
  defines "ls \<equiv> clear_leases mac nip (g_leases s)"
  obtains (full) "r = None" "s' = s\<lparr>g_leases := ls\<rparr>" "\<forall>l\<in>set ls. now \<le> expires l"
  | (added) i l where "r = Some i" "i < length ls" "expires (ls ! i) < now" "\<forall>l\<in>set ls. expires (ls ! i) \<le> expires l"
    "g_leases s' = ls[i := l]" "lease_nip l = nip" "lease_mac l = (case mac of None \<Rightarrow> zero_mac | Some m \<Rightarrow> take 6 m)"
    "expires l = now + t" "lease_ok l" "ip_info s' = ip_info s @ [(lease_mac l, lease_nip l)]"
proof (cases "oldest_expired_lease now ls")
  case None
  then show ?thesis
    using assms(1) by (intro full) (simp_all add: add_lease_full ls_def oldest_expired_None)
next
  case (Some i)
  note at = add_lease_at [OF Some [unfolded ls_def], of t name len] and o' = oldest_expired_Some [OF Some]
  obtain l0 where l0: "(case name of None \<Rightarrow> Some zero_lease | Some h \<Rightarrow> store_hostname h len zero_lease) = Some l0"
    using assms(1) unfolding at by (auto split: bind_splits)
  have f: "lease_ok l0" "lease_mac l0 = zero_mac"
    using l0 store_hostname_frame [of _ len zero_lease l0] by (auto split: option.splits)
  let ?l = "new_lease now mac nip t l0"
  have "lease_ok ?l" using f(1) assms(3) by (auto simp: new_lease_def lease_ok_def split: option.splits)
  moreover have "r = Some i" "g_leases s' = ls[i := ?l]" "ip_info s' = ip_info s @ [(lease_mac ?l, nip)]"
    using assms(1) unfolding at l0 ls_def by auto
  ultimately show ?thesis
    using o' f(2) by (intro added) (auto simp: new_lease_def split: option.splits)
qed

lemma add_lease_total:
  assumes "name_readable name len" "leases_ok (g_leases s)"
  shows "\<exists>s' r. add_lease now mac nip t name len s = Some (s', r)"
proof (cases "oldest_expired_lease now (clear_leases mac nip (g_leases s))")
  case (Some i)
  obtain l where "(case name of None \<Rightarrow> Some zero_lease | Some h \<Rightarrow> store_hostname h len zero_lease) = Some l"
    using store_hostname_total [of _ len zero_lease] assms(1) by (cases name) (auto simp: zero_lease_def lease_ok_def)
  then show ?thesis by (simp add: add_lease_at [OF Some])
qed (simp add: add_lease_full)

lemma add_lease_ok:
  assumes "add_lease now mac nip t name len s = Some (s', r)" "leases_ok (g_leases s)"
    "\<forall>m. mac = Some m \<longrightarrow> 6 \<le> length m"
  shows "leases_ok (g_leases s') \<and> length (g_leases s') = length (g_leases s)"
proof (rule add_lease_cases [OF assms], goal_cases)
  case 1
  then show ?thesis using clear_leases_ok [OF assms(2)] by simp
next
  case added: (2 i l)
  let ?ls = "clear_leases mac nip (g_leases s)"
  have ok: "leases_ok ?ls" by (rule clear_leases_ok [OF assms(2)])
  have c: "x \<in> set ?ls \<Longrightarrow> (nip \<noteq> 0 \<longrightarrow> lease_nip x \<noteq> nip) \<and> (lease_mac l \<noteq> zero_mac \<longrightarrow> lease_mac x \<noteq> lease_mac l)" for x
    using cleared [of x mac nip "g_leases s"] added(7) by (auto split: option.splits)
  have "unique_on lease_nip 0 (?ls[i := l])" "unique_on lease_mac zero_mac (?ls[i := l])"
    using ok c added(6) by (auto intro!: unique_on_put simp: leases_ok_def)
  moreover have "list_all lease_ok (?ls[i := l])"
    using ok added(9) by (auto simp: leases_ok_def list_all_iff dest!: set_update_subset_insert [THEN subsetD])
  ultimately show ?thesis using added(5) by (simp add: leases_ok_def)
qed

lemma find_unique:
  assumes "unique_on f z ls" "i < length ls" "f (ls ! i) = v" "v \<noteq> z"
  shows "find_index (\<lambda>l. f l = v) ls = Some i"
  using assms unfolding find_index_Some unique_on_def by (metis less_trans nat_neq_iff)

lemma find_by_mac_added:
  assumes "leases_ok ls" "i < length ls" "lease_mac (ls ! i) = take 6 m" "take 6 m \<noteq> zero_mac"
  shows "find_lease_by_mac ls m = Some i"
  unfolding find_lease_by_mac_def using find_unique [of lease_mac zero_mac ls i "take 6 m"] assms
  by (simp add: leases_ok_def)

lemma find_by_nip_added:
  assumes "leases_ok ls" "i < length ls" "lease_nip (ls ! i) = nip" "nip \<noteq> 0"
  shows "find_lease_by_nip ls nip = Some i"
  unfolding find_lease_by_nip_def using find_unique [of lease_nip 0 ls i nip] assms by (simp add: leases_ok_def)

text \<open>What \<open>add_lease\<close> does to the table, seen through the searches of it.\<close>

lemma add_lease_spec:
  assumes "add_lease now (Some m) nip t name len s = Some (s', Some i)" "leases_ok (g_leases s)"
    "6 \<le> length m" "take 6 m \<noteq> zero_mac" "nip \<noteq> 0"
  shows "find_lease_by_mac (g_leases s') m = Some i" "find_lease_by_nip (g_leases s') nip = Some i"
    "i < length (g_leases s')" "lease_nip (g_leases s' ! i) = nip" "lease_mac (g_leases s' ! i) = take 6 m"
    "expires (g_leases s' ! i) = now + t"
    "\<forall>l\<in>set (g_leases s). lease_mac l \<noteq> take 6 m \<and> lease_nip l \<noteq> nip \<and> now \<le> expires l \<longrightarrow> l \<in> set (g_leases s')"
proof -
  let ?ls = "clear_leases (Some m) nip (g_leases s)"
  have six: "\<forall>m'. Some m = Some m' \<longrightarrow> 6 \<le> length m'" using assms(3) by simp
  have ok: "leases_ok (g_leases s')" using add_lease_ok [OF assms(1,2) six] by simp
  obtain l where l: "i < length ?ls" "expires (?ls ! i) < now" "g_leases s' = ?ls[i := l]" "lease_nip l = nip"
    "lease_mac l = take 6 m" "expires l = now + t"
    by (rule add_lease_cases [OF assms(1,2) six]) auto
  then show il: "i < length (g_leases s')" "lease_nip (g_leases s' ! i) = nip" "lease_mac (g_leases s' ! i) = take 6 m"
    "expires (g_leases s' ! i) = now + t" by simp_all
  show "find_lease_by_mac (g_leases s') m = Some i" using find_by_mac_added [OF ok il(1,3)] assms(4) .
  show "find_lease_by_nip (g_leases s') nip = Some i" using find_by_nip_added [OF ok il(1,2)] assms(5) .
  show "\<forall>x\<in>set (g_leases s). lease_mac x \<noteq> take 6 m \<and> lease_nip x \<noteq> nip \<and> now \<le> expires x \<longrightarrow> x \<in> set (g_leases s')"
  proof (intro ballI impI)
    fix x assume x: "x \<in> set (g_leases s)" "lease_mac x \<noteq> take 6 m \<and> lease_nip x \<noteq> nip \<and> now \<le> expires x"
    then have "x \<in> set ?ls" by (force simp: clear_leases_def)
    then obtain j where j: "j < length ?ls" "?ls ! j = x" by (auto simp: in_set_conv_nth)
    with l(2) x(2) have "j \<noteq> i" by auto
    with j have "?ls[i := l] ! j = x" by simp
    with j(1) l(3) show "x \<in> set (g_leases s')" by (metis length_list_update nth_mem)
  qed
qed

section \<open>Finding an address\<close>

text \<open>The addresses the server may hand out, and the leases of stations that are not connected.\<close>

definition usable :: "server_config_t \<Rightarrow> u32 \<Rightarrow> bool" where
  "usable cfg a \<longleftrightarrow> a AND 0xff \<noteq> 0 \<and> a AND 0xff \<noteq> 0xff \<and> htonl a \<noteq> server_nip cfg \<and>
     \<not> is_nip_reserved (static_leases cfg) (htonl a)"

definition offline :: "(bytes \<Rightarrow> int) \<Rightarrow> dyn_lease list \<Rightarrow> u32 \<Rightarrow> nat \<Rightarrow> bool" where
  "offline sta ls a i \<longleftrightarrow> find_lease_by_nip ls (htonl a) = Some i \<and> sta (lease_mac (ls ! i)) = - 1"

lemma find_nip_Some: "find_lease_by_nip ls nip = Some i \<Longrightarrow> i < length ls \<and> lease_nip (ls ! i) = nip"
  by (simp add: find_lease_by_nip_def find_index_Some)

lemma free_step_eq:
  assumes "\<And>j. oldest = Some j \<Longrightarrow> j < length (g_leases s)"
  shows "free_step sta cfg now m a oldest s = Some (s,
    if \<not> usable cfg a then Inr oldest
    else case find_lease_by_nip (g_leases s) (htonl a) of None \<Rightarrow> Inl (htonl a)
      | Some i \<Rightarrow> Inr (if (case oldest of None \<Rightarrow> True | Some j \<Rightarrow> expires (g_leases s ! i) < expires (g_leases s ! j)) \<and>
          sta (lease_mac (g_leases s ! i)) = - 1 then Some i else oldest))"
  using assms find_nip_Some [of "g_leases s" "htonl a"]
  by (auto simp: free_step_def usable_def Let_def nobody_responds_to_arp_def arpping_def rd_def split: option.splits)

lemma range_split:
  fixes a e x :: u32
  assumes "a < e"
  shows "a \<le> x \<and> x \<le> e \<longleftrightarrow> x = a \<or> a + 1 \<le> x \<and> x \<le> e"
proof -
  have "unat (a + 1) = Suc (unat a)" using assms by (intro unat_Suc_less) (simp add: word_less_nat_alt)
  then show ?thesis using assms by (auto simp: word_le_nat_alt word_less_nat_alt word_unat_eq_iff)
qed

text \<open>
  The search from \<open>a\<close> on, with \<open>oldest\<close> carried in: the first usable address without a lease, or else the
  offline lease that expires first among the one carried in and those of the usable addresses.
\<close>

definition best :: "dyn_lease list \<Rightarrow> (nat \<Rightarrow> bool) \<Rightarrow> u32 \<Rightarrow> bool" where
  "best ls C r \<longleftrightarrow> (if \<exists>i. C i then \<exists>i. C i \<and> (\<forall>j. C j \<longrightarrow> expires (ls ! i) \<le> expires (ls ! j)) \<and> r = lease_nip (ls ! i) else r = 0)"

lemma best_cong: "(\<And>i. C i \<longleftrightarrow> D i) \<Longrightarrow> best ls C r = best ls D r"
  by (simp add: best_def)

text \<open>An index that is beaten by another one does not matter.\<close>

lemma best_drop:
  assumes "best ls (\<lambda>i. C i \<or> i = j) r" "expires (ls ! j) \<le> expires (ls ! k)"
  shows "best ls (\<lambda>i. C i \<or> i = j \<or> i = k) r"
proof -
  obtain i where i: "C i \<or> i = j" "\<forall>x. C x \<or> x = j \<longrightarrow> expires (ls ! i) \<le> expires (ls ! x)" "r = lease_nip (ls ! i)"
    using assms(1) by (auto simp: best_def split: if_splits)
  then have "\<forall>x. C x \<or> x = j \<or> x = k \<longrightarrow> expires (ls ! i) \<le> expires (ls ! x)"
    using assms(2) order_trans by blast
  with i show ?thesis unfolding best_def by auto
qed

definition free_in :: "(bytes \<Rightarrow> int) \<Rightarrow> server_config_t \<Rightarrow> dyn_lease list \<Rightarrow> (u32 \<Rightarrow> bool) \<Rightarrow> nat option \<Rightarrow> u32 \<Rightarrow> bool" where
  "free_in sta cfg ls R oldest r \<longleftrightarrow>
     (\<exists>x. R x \<and> usable cfg x \<and> find_lease_by_nip ls (htonl x) = None \<and> r = htonl x) \<or>
     (\<forall>x. R x \<and> usable cfg x \<longrightarrow> find_lease_by_nip ls (htonl x) \<noteq> None) \<and>
     best ls (\<lambda>i. oldest = Some i \<or> (\<exists>x. R x \<and> usable cfg x \<and> offline sta ls x i)) r"

lemma free_in_skip:
  assumes "free_in sta cfg ls R oldest r" "\<not> usable cfg a"
  shows "free_in sta cfg ls (\<lambda>x. x = a \<or> R x) oldest r"
proof -
  have e: "(x = a \<or> R x) \<and> usable cfg x \<longleftrightarrow> R x \<and> usable cfg x" for x using assms(2) by auto
  have "(\<exists>x. (x = a \<or> R x) \<and> usable cfg x \<and> P x) \<longleftrightarrow> (\<exists>x. R x \<and> usable cfg x \<and> P x)" for P using assms(2) by auto
  then show ?thesis using assms(1) unfolding free_in_def e by simp
qed

lemma free_in_leased:
  assumes "free_in sta cfg ls R (if older \<and> sta (lease_mac (ls ! i)) = - 1 then Some i else oldest) r"
    "usable cfg a" "find_lease_by_nip ls (htonl a) = Some i"
    "older \<longleftrightarrow> (case oldest of None \<Rightarrow> True | Some j \<Rightarrow> expires (ls ! i) < expires (ls ! j))"
  shows "free_in sta cfg ls (\<lambda>x. x = a \<or> R x) oldest r"
proof -
  let ?old = "if older \<and> sta (lease_mac (ls ! i)) = - 1 then Some i else oldest"
  let ?O = "\<lambda>k. \<exists>x. R x \<and> usable cfg x \<and> offline sta ls x k"
  have off: "(\<exists>x. (x = a \<or> R x) \<and> usable cfg x \<and> offline sta ls x k) \<longleftrightarrow>
      k = i \<and> sta (lease_mac (ls ! i)) = - 1 \<or> ?O k" for k
    using assms(2,3) by (auto simp: offline_def)
  have "best ls (\<lambda>k. oldest = Some k \<or> (\<exists>x. (x = a \<or> R x) \<and> usable cfg x \<and> offline sta ls x k)) r"
    if b: "best ls (\<lambda>k. ?old = Some k \<or> ?O k) r"
  proof (cases "sta (lease_mac (ls ! i)) = - 1")
    case False
    then show ?thesis using b by (simp add: off)
  next
    case on: True
    show ?thesis
    proof (cases oldest)
      case None
      then show ?thesis using b on assms(4) unfolding off by (auto elim!: best_cong [THEN iffD1, rotated])
    next
      case (Some j)
      have "best ls (\<lambda>k. ?O k \<or> k = i \<or> k = j) r"
      proof (cases older)
        case True
        then have "best ls (\<lambda>k. ?O k \<or> k = i) r" using b on by (auto elim!: best_cong [THEN iffD1, rotated])
        then show ?thesis using True assms(4) Some by (intro best_drop) auto
      next
        case False
        then have "best ls (\<lambda>k. ?O k \<or> k = j) r" using b Some by (auto elim!: best_cong [THEN iffD1, rotated])
        then have "best ls (\<lambda>k. ?O k \<or> k = j \<or> k = i) r" using False assms(4) Some by (intro best_drop) auto
        then show ?thesis by (auto elim!: best_cong [THEN iffD1, rotated])
      qed
      then show ?thesis unfolding off using on Some by (auto elim!: best_cong [THEN iffD1, rotated])
    qed
  qed
  then show ?thesis using assms(1-3) unfolding free_in_def by auto
qed

lemma free_loop_spec:
  fixes s :: "'a lease_table_scheme"
  assumes "a \<le> end_ip cfg" "\<forall>j. oldest = Some j \<longrightarrow> j < length (g_leases s)"
  shows "\<exists>r. free_loop sta cfg now m (end_ip cfg + 1) a oldest s = Some (s, r) \<and>
    free_in sta cfg (g_leases s) (\<lambda>x. a \<le> x \<and> x \<le> end_ip cfg) oldest r"
  using assms
proof (induction "unat (end_ip cfg - a)" arbitrary: a oldest rule: less_induct)
  case less
  let ?ls = "g_leases s" and ?R = "\<lambda>x. if a = end_ip cfg then False else a + 1 \<le> x \<and> x \<le> end_ip cfg"
  have R: "(\<lambda>x. a \<le> x \<and> x \<le> end_ip cfg) = (\<lambda>x. x = a \<or> ?R x)"
    using less.prems(1) range_split [of a "end_ip cfg"] by (auto simp: fun_eq_iff)
  note step = free_step_eq [of oldest s sta cfg now m a]
  have cont: "\<exists>r. (if a + 1 \<noteq> end_ip cfg + 1 then free_loop sta cfg now m (end_ip cfg + 1) (a + 1) old s
       else (case old of None \<Rightarrow> Some (s, 0) | Some i \<Rightarrow> do { l \<leftarrow> rd (g_leases s) i; Some (s, lease_nip l) })) = Some (s, r) \<and>
      free_in sta cfg ?ls ?R old r" if old: "\<forall>j. old = Some j \<longrightarrow> j < length ?ls" for old
  proof (cases "a = end_ip cfg")
    case True
    then show ?thesis using old by (cases old) (auto simp: free_in_def best_def rd_def)
  next
    case False
    then have lt: "a < end_ip cfg" using less.prems(1) by simp
    have u: "unat (end_ip cfg - (a + 1)) < unat (end_ip cfg - a)"
      using word_dec_less [of "end_ip cfg - a"] lt by (simp add: algebra_simps)
    have "a + 1 \<le> end_ip cfg" using range_split [OF lt, of "end_ip cfg"] lt by auto
    from less.hyps [OF u this old] show ?thesis using False by simp
  qed
  show ?case
  proof (cases "usable cfg a")
    case False
    from cont [OF less.prems(2)] obtain r where r: "(if a + 1 \<noteq> end_ip cfg + 1 then free_loop sta cfg now m (end_ip cfg + 1) (a + 1) oldest s
       else (case oldest of None \<Rightarrow> Some (s, 0) | Some i \<Rightarrow> do { l \<leftarrow> rd (g_leases s) i; Some (s, lease_nip l) })) = Some (s, r)"
      "free_in sta cfg ?ls ?R oldest r" by blast
    have "free_loop sta cfg now m (end_ip cfg + 1) a oldest s = Some (s, r)"
      using step less.prems(2) False r(1) by (subst free_loop.simps) simp
    then show ?thesis using free_in_skip [OF r(2) False] unfolding R by blast
  next
    case use: True
    show ?thesis
    proof (cases "find_lease_by_nip ?ls (htonl a)")
      case None
      have "free_loop sta cfg now m (end_ip cfg + 1) a oldest s = Some (s, htonl a)"
        using step less.prems(2) use None by (subst free_loop.simps) simp
      moreover have "free_in sta cfg ?ls (\<lambda>x. a \<le> x \<and> x \<le> end_ip cfg) oldest (htonl a)"
        using None use less.prems(1) by (auto simp: free_in_def)
      ultimately show ?thesis by blast
    next
      case (Some i)
      define older where "older \<longleftrightarrow> (case oldest of None \<Rightarrow> True | Some j \<Rightarrow> expires (?ls ! i) < expires (?ls ! j))"
      let ?old = "if older \<and> sta (lease_mac (?ls ! i)) = - 1 then Some i else oldest"
      have "\<forall>j. ?old = Some j \<longrightarrow> j < length ?ls" using less.prems(2) find_nip_Some [OF Some] by auto
      from cont [OF this] obtain r where r: "(if a + 1 \<noteq> end_ip cfg + 1 then free_loop sta cfg now m (end_ip cfg + 1) (a + 1) ?old s
         else (case ?old of None \<Rightarrow> Some (s, 0) | Some i \<Rightarrow> do { l \<leftarrow> rd (g_leases s) i; Some (s, lease_nip l) })) = Some (s, r)"
        "free_in sta cfg ?ls ?R ?old r" by blast
      have "free_loop sta cfg now m (end_ip cfg + 1) a oldest s = Some (s, r)"
        using step less.prems(2) use Some r(1) unfolding older_def by (subst free_loop.simps) simp
      then show ?thesis using free_in_leased [OF r(2) use Some older_def] unfolding R by blast
    qed
  qed
qed

lemma find_free_spec:
  assumes "start_ip cfg \<le> end_ip cfg"
  shows "\<exists>r. find_free_or_expired_nip sta cfg now m s = Some (s, r) \<and>
    free_in sta cfg (g_leases s) (\<lambda>x. start_ip cfg \<le> x \<and> x \<le> end_ip cfg) None r"
  using free_loop_spec [OF assms, of None s sta now m] by (simp add: find_free_or_expired_nip_def)

section \<open>A store of bindings\<close>

text \<open>A sequence of fallible operations, and the value the last operation with a key binds it to.\<close>

fun puts :: "('p \<Rightarrow> 's \<Rightarrow> 's option) \<Rightarrow> 'p list \<Rightarrow> 's \<Rightarrow> 's option" where
  "puts put [] s = Some s"
| "puts put (p # ps) s = Option.bind (put p s) (puts put ps)"

fun bound :: "('p \<Rightarrow> 'k) \<Rightarrow> ('p \<Rightarrow> 'v) \<Rightarrow> 'p list \<Rightarrow> 'k \<Rightarrow> 'v option \<Rightarrow> 'v option" where
  "bound key val [] k v = v"
| "bound key val (p # ps) k v = bound key val ps k (if key p = k then Some (val p) else v)"

lemma bound_cases: "bound key val ps k v = v \<or> (\<forall>w. bound key val ps k w = bound key val ps k v)"
  by (induction ps arbitrary: v) auto

text \<open>
  What the server relies on: a store that binds keys to values, in which an operation binds its key to its
  value or drops it, changes no other binding except by dropping it, and lets no two keys share a value.
\<close>

locale lease_store =
  fixes inv :: "'s \<Rightarrow> bool" and owner :: "'s \<Rightarrow> 'k \<Rightarrow> 'v option" and put :: "'p \<Rightarrow> 's \<Rightarrow> 's option"
    and good :: "'p \<Rightarrow> bool" and key :: "'p \<Rightarrow> 'k" and val :: "'p \<Rightarrow> 'v" and real :: "'v \<Rightarrow> bool"
  assumes put_inv: "inv s \<Longrightarrow> good p \<Longrightarrow> put p s = Some s' \<Longrightarrow> inv s'"
    and put_owner: "inv s \<Longrightarrow> good p \<Longrightarrow> put p s = Some s' \<Longrightarrow> owner s' (key p) = Some v \<Longrightarrow> v = val p"
    and put_other: "inv s \<Longrightarrow> good p \<Longrightarrow> put p s = Some s' \<Longrightarrow> k \<noteq> key p \<Longrightarrow> owner s' k = Some v \<Longrightarrow> owner s k = Some v"
    and exclusive: "inv s \<Longrightarrow> real v \<Longrightarrow> owner s k = Some v \<Longrightarrow> owner s k' = Some v \<Longrightarrow> k = k'"
begin

lemma puts_inv: "inv s \<Longrightarrow> list_all good ps \<Longrightarrow> puts put ps s = Some s' \<Longrightarrow> inv s'"
  by (induction ps arbitrary: s) (auto split: bind_splits intro: put_inv)

lemma puts_provenance:
  "inv s \<Longrightarrow> list_all good ps \<Longrightarrow> puts put ps s = Some s' \<Longrightarrow> owner s' k = Some v \<Longrightarrow> bound key val ps k (owner s k) = Some v"
proof (induction ps arbitrary: s)
  case (Cons p ps)
  then obtain s1 where s1: "put p s = Some s1" "puts put ps s1 = Some s'" by (auto split: bind_splits)
  have i: "inv s1" using Cons.prems s1 put_inv by auto
  have IH: "bound key val ps k (owner s1 k) = Some v" using Cons.IH [OF i _ s1(2)] Cons.prems by simp
  show ?case
  proof (cases "bound key val ps k (owner s1 k) = owner s1 k")
    case True
    with IH have o1: "owner s1 k = Some v" by simp
    have "(if key p = k then Some (val p) else owner s k) = Some v"
      using Cons.prems s1(1) o1 put_owner [of s p s1 v] put_other [of s p s1 k v] by auto
    with IH o1 show ?thesis by simp
  next
    case False
    with bound_cases [of key val ps k "owner s1 k"] have "bound key val ps k w = bound key val ps k (owner s1 k)" for w by blast
    with IH show ?thesis by simp
  qed
qed simp

lemma puts_exclusive:
  "inv s \<Longrightarrow> list_all good ps \<Longrightarrow> puts put ps s = Some s' \<Longrightarrow> real v \<Longrightarrow> owner s' k = Some v \<Longrightarrow> owner s' k' = Some v \<Longrightarrow> k = k'"
  using puts_inv exclusive by blast

end

text \<open>A request to the table: the time, the address of the client, its IP, the lease time and the host name.\<close>

type_synonym lease_req = "u32 \<times> bytes \<times> u32 \<times> u32 \<times> bytes option \<times> int"

definition put_lease :: "lease_req \<Rightarrow> lease_table \<Rightarrow> lease_table option" where
  "put_lease = (\<lambda>(now, m, nip, t, name, len) s. map_option fst (add_lease now (Some m) nip t name len s))"

definition lease_owner :: "lease_table \<Rightarrow> bytes \<Rightarrow> u32 option" where
  "lease_owner s m = (if length m = 6 \<and> m \<noteq> zero_mac
     then map_option (\<lambda>i. lease_nip (g_leases s ! i)) (find_lease_by_mac (g_leases s) m) else None)"

definition good_req :: "lease_req \<Rightarrow> bool" where
  "good_req = (\<lambda>(now, m, nip, t, name, len). length m = 6 \<and> m \<noteq> zero_mac \<and> nip \<noteq> 0)"

definition req_mac :: "lease_req \<Rightarrow> bytes" where "req_mac = (\<lambda>(now, m, nip, t, name, len). m)"
definition req_nip :: "lease_req \<Rightarrow> u32" where "req_nip = (\<lambda>(now, m, nip, t, name, len). nip)"

lemma find_mac_Some: "find_lease_by_mac ls m = Some i \<Longrightarrow> i < length ls \<and> lease_mac (ls ! i) = take 6 m"
  by (simp add: find_lease_by_mac_def find_index_Some)

lemma lease_owner_iff:
  assumes "leases_ok (g_leases s)"
  shows "lease_owner s m = Some nip \<longleftrightarrow>
    length m = 6 \<and> m \<noteq> zero_mac \<and> (\<exists>l\<in>set (g_leases s). lease_mac l = m \<and> lease_nip l = nip)"
proof -
  have "(\<exists>i. find_lease_by_mac (g_leases s) m = Some i \<and> lease_nip (g_leases s ! i) = nip) \<longleftrightarrow>
      (\<exists>l\<in>set (g_leases s). lease_mac l = m \<and> lease_nip l = nip)" if "length m = 6" "m \<noteq> zero_mac"
  proof
    assume "\<exists>i. find_lease_by_mac (g_leases s) m = Some i \<and> lease_nip (g_leases s ! i) = nip"
    then obtain i where i: "find_lease_by_mac (g_leases s) m = Some i" "lease_nip (g_leases s ! i) = nip" by blast
    show "\<exists>l\<in>set (g_leases s). lease_mac l = m \<and> lease_nip l = nip"
      using find_mac_Some [OF i(1)] i(2) that by (intro bexI [of _ "g_leases s ! i"]) auto
  next
    assume "\<exists>l\<in>set (g_leases s). lease_mac l = m \<and> lease_nip l = nip"
    then obtain j where "j < length (g_leases s)" "lease_mac (g_leases s ! j) = m" "lease_nip (g_leases s ! j) = nip"
      by (auto simp: in_set_conv_nth)
    then show "\<exists>i. find_lease_by_mac (g_leases s) m = Some i \<and> lease_nip (g_leases s ! i) = nip"
      using find_by_mac_added [OF assms, of j m] that by (intro exI [of _ j]) simp
  qed
  then show ?thesis by (auto simp: lease_owner_def)
qed

lemma put_lease_entries:
  assumes "put_lease p s = Some s'" "leases_ok (g_leases s)" "good_req p"
  shows "leases_ok (g_leases s')"
    "\<forall>l\<in>set (g_leases s'). lease_mac l = req_mac p \<longrightarrow> lease_nip l = req_nip p"
    "\<forall>l\<in>set (g_leases s'). lease_mac l \<noteq> req_mac p \<longrightarrow> l = zero_lease \<or> l \<in> set (g_leases s)"
proof -
  obtain now m nip t name len where p: "p = (now, m, nip, t, name, len)" by (cases p)
  with assms(3) have m: "length m = 6" "m \<noteq> zero_mac" "take 6 m = m" by (simp_all add: good_req_def)
  obtain r where a: "add_lease now (Some m) nip t name len s = Some (s', r)"
    using assms(1) p by (auto simp: put_lease_def)
  have six: "\<forall>m'. Some m = Some m' \<longrightarrow> 6 \<le> length m'" using m by simp
  let ?ls = "clear_leases (Some m) nip (g_leases s)"
  show "leases_ok (g_leases s')" using add_lease_ok [OF a assms(2) six] by simp
  have c: "x \<in> set ?ls \<Longrightarrow> lease_mac x \<noteq> m \<and> (x = zero_lease \<or> x \<in> set (g_leases s))" for x
    using cleared [of x "Some m" nip "g_leases s"] m by (auto simp: clear_leases_def)
  consider "g_leases s' = ?ls" | i l where "g_leases s' = ?ls[i := l]" "lease_nip l = nip" "lease_mac l = m"
    by (rule add_lease_cases [OF a assms(2) six]) (use m in auto)
  then have "\<forall>x\<in>set (g_leases s'). x \<in> set ?ls \<or> lease_nip x = nip \<and> lease_mac x = m"
  proof cases
    case (2 i l)
    then show ?thesis using set_update_subset_insert [of ?ls i l] by auto
  qed simp
  with c show "\<forall>l\<in>set (g_leases s'). lease_mac l = req_mac p \<longrightarrow> lease_nip l = req_nip p"
    "\<forall>l\<in>set (g_leases s'). lease_mac l \<noteq> req_mac p \<longrightarrow> l = zero_lease \<or> l \<in> set (g_leases s)"
    by (auto simp: p req_mac_def req_nip_def)
qed

interpretation leases: lease_store "\<lambda>s. leases_ok (g_leases s)" lease_owner put_lease good_req req_mac req_nip "\<lambda>v. v \<noteq> 0"
proof (unfold_locales, goal_cases)
  case (1 s p s')
  then show ?case using put_lease_entries by blast
next
  case (2 s p s' v)
  then show ?case using put_lease_entries [OF 2(3,1,2)] lease_owner_iff by metis
next
  case (3 s p s' k v)
  note e = put_lease_entries [OF 3(3,1,2)]
  obtain l where l: "length k = 6" "k \<noteq> zero_mac" "l \<in> set (g_leases s')" "lease_mac l = k" "lease_nip l = v"
    using 3(5) lease_owner_iff [OF e(1)] by blast
  then have "l \<in> set (g_leases s)" using e(3) 3(4) by auto
  then show ?case using lease_owner_iff [OF 3(1)] l by blast
next
  case (4 s v k k')
  then obtain l l' where "l \<in> set (g_leases s)" "l' \<in> set (g_leases s)" "lease_mac l = k" "lease_mac l' = k'"
    "lease_nip l = v" "lease_nip l' = v" by (auto simp: lease_owner_iff)
  then show ?case using 4(1,2) by (auto simp: leases_ok_def unique_on_def in_set_conv_nth)
qed

lemma zero_mac_list: "zero_mac = [0, 0, 0, 0, 0, 0]"
  by (simp add: numeral_eq_Suc)

definition printable :: "u8 \<Rightarrow> u8" where
  "printable b = (if b < 32 \<or> 126 < b then 0x5e else b)"

lemma sanitize_terminated: "0 \<notin> set xs \<Longrightarrow> sanitize (xs @ 0 # r) = Some (map printable xs @ 0 # r)"
  by (induction xs) (auto simp: printable_def)

lemma store_hostname_eq:
  assumes "0 \<notin> set d" "b \<noteq> 0" "length d < 19"
  shows "store_hostname (d @ b # r) (int (length d)) zero_lease =
    Some (zero_lease\<lparr>hostname := map printable (d @ [b]) @ replicate (19 - length d) 0\<rparr>)"
proof -
  have k: "20 - length d = Suc (19 - length d)" using assms(3) by simp
  have n: "nat (if 20 < int (length d) + 1 then 20 else int (length d) + 1) = Suc (length d)" using assms(3) by simp
  have "takeWhile (\<lambda>b. b \<noteq> 0) (d @ [b]) = d @ [b]"
    using assms by (subst takeWhile_eq_all_conv) auto
  then have "c_strncpy (replicate 20 0) (d @ b # r) (Suc (length d)) = Some (d @ [b] @ replicate (19 - length d) 0)"
    using assms(3) by (simp add: c_strncpy_def Let_def blit_def)
  moreover have "replicate (19 - length d) 0 @ replicate 2 0 = 0 # replicate (20 - length d) (0 :: u8)"
    using assms(3) by (simp flip: replicate_add replicate_Suc)
  then have "(d @ [b] @ replicate (19 - length d) 0) @ replicate 2 0 = (d @ [b]) @ 0 # replicate (20 - length d) 0"
    by simp
  then have "sanitize ((d @ [b] @ replicate (19 - length d) 0) @ replicate 2 0) =
      Some (map printable (d @ [b]) @ 0 # replicate (20 - length d) 0)"
    using sanitize_terminated [of "d @ [b]" "replicate (20 - length d) 0"] assms by simp
  moreover have "drop 20 (map printable (d @ [b]) @ 0 # replicate (20 - length d) 0) = replicate 2 0"
    "take 20 (map printable (d @ [b]) @ 0 # replicate (20 - length d) 0) = map printable (d @ [b]) @ replicate (19 - length d) 0"
    using k by (simp_all del: replicate_Suc flip: replicate_Suc)
  ultimately show ?thesis
    using n by (simp add: store_hostname_def zero_lease_def)
qed

section \<open>Properties\<close>

text \<open>The table as the server allocates it.\<close>

definition fresh_table :: "nat \<Rightarrow> lease_table" where
  "fresh_table n = \<lparr>g_leases = replicate n zero_lease, ip_info = []\<rparr>"

lemma fresh_ok: "leases_ok (g_leases (fresh_table n))"
  using unique_on_zero [of lease_nip zero_lease n] unique_on_zero [of lease_mac zero_lease n]
  by (simp add: fresh_table_def leases_ok_def list_all_iff)

lemma fresh_owner: "lease_owner (fresh_table n) m = None"
  using lease_owner_iff [OF fresh_ok, of n m] by (cases "lease_owner (fresh_table n) m") (auto simp: fresh_table_def)

text \<open>
  C3: After any sequence of leases the table is consistent: no address is bound to two clients, and the
  address a client is bound to is the one of the last lease written for it (a lease may have been dropped
  for a newer one, never replaced by another address).
\<close>

theorem lease_bindings:
  assumes "list_all good_req ps" "puts put_lease ps (fresh_table n) = Some s" "lease_owner s m = Some nip"
  shows "bound req_mac req_nip ps m None = Some nip \<and> (\<forall>m'. nip \<noteq> 0 \<and> lease_owner s m' = Some nip \<longrightarrow> m' = m)"
  using leases.puts_provenance [OF fresh_ok assms] leases.puts_exclusive [OF fresh_ok assms(1,2) _ assms(3)]
  by (auto simp: fresh_owner)

lemma lease_bindings_witness:
  "bound req_mac req_nip [(1, [1, 2, 3, 4, 5, 6], 5, 60, None, 0), (2, [1, 2, 3, 4, 5, 7], 6, 60, None, 0)] [1, 2, 3, 4, 5, 6] None = Some 5"
proof -
  let ?ps = "[(1, [1, 2, 3, 4, 5, 6], 5, 60, None, 0), (2, [1, 2, 3, 4, 5, 7], 6, 60, None, 0)] :: lease_req list"
  let ?l = "\<lambda>e nip m. zero_lease\<lparr>expires := e, lease_nip := nip, lease_mac := m\<rparr>"
  let ?s = "\<lparr>g_leases = [?l 61 5 [1, 2, 3, 4, 5, 6], ?l 62 6 [1, 2, 3, 4, 5, 7]],
    ip_info = [([1, 2, 3, 4, 5, 6], 5), ([1, 2, 3, 4, 5, 7], 6)]\<rparr>"
  have s: "puts put_lease ?ps (fresh_table 2) = Some ?s"
    by code_simp
  have o1: "lease_owner ?s [1, 2, 3, 4, 5, 6] = Some 5"
    by code_simp
  have "bound req_mac req_nip ?ps [1, 2, 3, 4, 5, 6] None = Some 5 \<and>
      (\<forall>m'. (5 :: u32) \<noteq> 0 \<and> lease_owner ?s m' = Some 5 \<longrightarrow> m' = [1, 2, 3, 4, 5, 6])"
    by (rule lease_bindings [OF _ s o1]) (simp add: good_req_def zero_mac_list)
  then show ?thesis by blast
qed

text \<open>
  C33: A lease that was stored is found, by client and by address, with its address and its expiry, and
  every unexpired lease of another client for another address is still in the table.
\<close>

theorem add_lease_stores:
  assumes "add_lease now (Some m) nip t name len s = Some (s', Some i)" "leases_ok (g_leases s)"
    "6 \<le> length m" "take 6 m \<noteq> zero_mac" "nip \<noteq> 0"
  shows "find_lease_by_mac (g_leases s') m = Some i \<and> find_lease_by_nip (g_leases s') nip = Some i \<and>
    lease_nip (g_leases s' ! i) = nip \<and> expires (g_leases s' ! i) = now + t \<and>
    (\<forall>l\<in>set (g_leases s). lease_mac l \<noteq> take 6 m \<and> lease_nip l \<noteq> nip \<and> now \<le> expires l \<longrightarrow> l \<in> set (g_leases s'))"
  using add_lease_spec [OF assms] by blast

lemma add_lease_stores_witness:
  "find_lease_by_nip [zero_lease\<lparr>expires := 70, lease_nip := 5, lease_mac := [1, 2, 3, 4, 5, 6]\<rparr>, zero_lease] 5 = Some 0"
proof -
  let ?s = "\<lparr>g_leases = [zero_lease\<lparr>expires := 70, lease_nip := 5, lease_mac := [1, 2, 3, 4, 5, 6]\<rparr>, zero_lease],
    ip_info = [([1, 2, 3, 4, 5, 6], 5)]\<rparr>"
  have a: "add_lease 10 (Some [1, 2, 3, 4, 5, 6]) 5 60 None 0 (fresh_table 2) = Some (?s, Some 0)"
    by code_simp
  show ?thesis using add_lease_stores [OF a fresh_ok] by (simp add: zero_mac_list)
qed

text \<open>
  C29: What \<open>find_free_or_expired_nip\<close> returns: the network-order form of an address of the configured range
  that is usable (its last byte is neither 0 nor 255, it is not the server's own and not reserved) and not
  in the table; or, when every usable address is in the table, the address of the lease that expires
  first among those of stations that are not connected; or 0 when there is no such lease either. The search
  ends for every range, writes nothing and makes no undefined access.
\<close>

theorem free_address:
  assumes "start_ip cfg \<le> end_ip cfg"
  shows "\<exists>r. find_free_or_expired_nip sta cfg now m s = Some (s, r) \<and>
    ((\<exists>x. start_ip cfg \<le> x \<and> x \<le> end_ip cfg \<and> usable cfg x \<and> find_lease_by_nip (g_leases s) (htonl x) = None \<and> r = htonl x) \<or>
     (\<forall>x. start_ip cfg \<le> x \<and> x \<le> end_ip cfg \<and> usable cfg x \<longrightarrow> find_lease_by_nip (g_leases s) (htonl x) \<noteq> None) \<and>
     best (g_leases s) (\<lambda>i. \<exists>x. start_ip cfg \<le> x \<and> x \<le> end_ip cfg \<and> usable cfg x \<and> offline sta (g_leases s) x i) r)"
  using find_free_spec [OF assms, of sta now m s] by (simp add: free_in_def conj_assoc)

definition sample_cfg :: server_config_t where
  "sample_cfg = \<lparr>server_nip = htonl 0xC0A80101, server_mac = [2, 0, 0, 0, 0, 1], cfg_options = [], start_ip = 0xC0A80164,
     end_ip = 0xC0A80165, subnet = 0xFFFFFF00, gw = 0xC0A80101, dns = 0xC0A80101, max_lease_sec = 864000, min_lease_sec = 60,
     max_leases = 2, decline_time = 3600, conflict_time = 3600, offer_time = 60, auto_time = 7200, cfg_siaddr_nip = 0, cfg_sname = None,
     boot_file = None, static_leases = []\<rparr>"

lemma free_address_witness:
  "\<exists>r. find_free_or_expired_nip (\<lambda>m. - 1) sample_cfg 5 [1, 2, 3, 4, 5, 6] (fresh_table 2) = Some (fresh_table 2, r)"
  using free_address [of sample_cfg "\<lambda>m. - 1" 5 "[1, 2, 3, 4, 5, 6]" "fresh_table 2"] by (auto simp: sample_cfg_def)

text \<open>
  The host name that is stored is not the one the client sent: the copy takes one byte more than the
  option holds (it was meant for the terminator that \<open>safe_strncpy\<close> writes, but that name is defined as
  \<open>strncpy\<close>), so the byte behind the option, the code of the next one or the end marker, is stored
  as a last character.
\<close>

lemma hostname_one_byte_long:
  assumes "0 \<notin> set d" "b \<noteq> 0" "length d < 19"
  shows "map_option hostname (store_hostname (d @ b # r) (int (length d)) zero_lease) =
    Some (map printable d @ [printable b] @ replicate (19 - length d) 0)"
  by (simp add: store_hostname_eq [OF assms])

lemma hostname_one_byte_long_witness:
  "map_option hostname (store_hostname [0x74, 0x76, 0xff] 2 zero_lease) = Some ([0x74, 0x76, 0x5e] @ replicate 17 0)"
  using hostname_one_byte_long [of "[0x74, 0x76]" "0xff" "[]"] by (simp add: printable_def)

end
