(* ===== verification/DhcpConfig.thy ===== *)
theory DhcpConfig
  imports DhcpLeases
begin

text \<open>
  The configuration of the DHCP server: \<open>components/net/udhcp/files.c\<close> (\<open>dhcps_set_info_api\<close>,
  \<open>load_config\<close>) and the first part of \<open>udhcpd_run\<close> in \<open>dhcpd.c\<close>, which fixes the lease time, the size of
  the table and the server's addresses. The interface's addresses (\<open>netdev_getipv4info\<close>,
  \<open>netdev_getmacaddr\<close>) are a parameter. The fields of \<open>server_config_t\<close> that only name files, which no
  compiled code reads, are left out.
\<close>

record netif =
  if_ip :: u32
  if_gw :: u32
  if_mask :: u32
  if_mac :: bytes

record dhcps_info =
  i_start_ip :: u32
  i_end_ip :: u32
  i_max_leases :: u32
  i_subnet :: u32
  i_gw :: u32
  i_dns :: u32
  i_auto_time :: u32
  i_decline_time :: u32
  i_conflict_time :: u32
  i_offer_time :: u32
  i_max_lease_sec :: u32
  i_min_lease_sec :: u32

definition DEFAULT_LEASE_TIME :: u32 where "DEFAULT_LEASE_TIME = 60 * 60 * 24 * 10"

definition config_zero :: server_config_t where
  "config_zero = \<lparr>server_nip = 0, server_mac = replicate 6 0, cfg_options = [], start_ip = 0, end_ip = 0, subnet = 0, gw = 0,
     dns = 0, max_lease_sec = 0, min_lease_sec = 0, max_leases = 0, decline_time = 0, conflict_time = 0, offer_time = 0,
     auto_time = 0, cfg_siaddr_nip = 0, cfg_sname = None, boot_file = None, static_leases = []\<rparr>"

text \<open>
  \<open>dhcps_set_info_api\<close>: the result and the new \<open>please_config\<close>. The fields the function does not write are
  those of the allocated block, here zero; \<open>load_config\<close> does not read them. \<open>alloc_ok\<close> tells whether
  \<open>OS_MemAlloc\<close> succeeds.
\<close>

definition dhcps_set_info_api ::
  "netif \<Rightarrow> bool \<Rightarrow> dhcps_info option \<Rightarrow> server_config_t option \<Rightarrow> int \<times> server_config_t option" where
  "dhcps_set_info_api nif alloc_ok info please =
     (case info of None \<Rightarrow> (0, please)
      | Some i \<Rightarrow>
          let softap_ip = htonl (if_ip nif) in
          if i_start_ip i \<le> softap_ip \<and> softap_ip \<le> i_end_ip i then (- 1, please)
          else if drop_bit 8 (i_start_ip i) \<noteq> drop_bit 8 softap_ip \<or> drop_bit 8 (i_end_ip i) \<noteq> drop_bit 8 softap_ip
          then (- 1, please)
          else if i_max_leases i < i_end_ip i - i_start_ip i then (- 1, please)
          else if \<not> alloc_ok then (- 1, None)
          else (0, Some (config_zero\<lparr>start_ip := i_start_ip i, end_ip := i_end_ip i, max_leases := i_max_leases i,
            subnet := i_subnet i, gw := i_gw i, dns := i_dns i, auto_time := i_auto_time i,
            decline_time := i_decline_time i, conflict_time := i_conflict_time i, offer_time := i_offer_time i,
            min_lease_sec := i_min_lease_sec i, max_lease_sec := i_max_lease_sec i\<rparr>)))"

text \<open>\<open>load_config\<close>: the configuration, from \<open>please_config\<close> (which it takes) or from the interface.\<close>

definition default_config :: "netif \<Rightarrow> server_config_t" where
  "default_config nif =
     (let softap_ip = htonl (if_ip nif) AND 0xFFFFFF00;
          local_ip = htonl (if_ip nif) AND 0xFF;
          local_ip = (if 0x80 \<le> local_ip then local_ip - 0x64 else local_ip + 0x64)
      in config_zero\<lparr>max_leases := 10, start_ip := softap_ip OR local_ip, end_ip := softap_ip OR (local_ip + 10 - 1),
        subnet := htonl (if_mask nif), gw := htonl (if_gw nif), dns := htonl (if_ip nif), auto_time := 7200,
        decline_time := 3600, conflict_time := 3600, offer_time := 60, min_lease_sec := 60, cfg_siaddr_nip := 0,
        static_leases := []\<rparr>)"

definition load_config :: "netif \<Rightarrow> server_config_t option \<Rightarrow> server_config_t \<times> server_config_t option" where
  "load_config nif please =
     (case please of None \<Rightarrow> (default_config nif, None)
      | Some c \<Rightarrow> (config_zero\<lparr>start_ip := start_ip c, end_ip := end_ip c, subnet := subnet c, gw := gw c, dns := dns c,
          max_leases := max_leases c, auto_time := auto_time c, decline_time := decline_time c,
          conflict_time := conflict_time c, offer_time := offer_time c, min_lease_sec := min_lease_sec c,
          max_lease_sec := max_lease_sec c\<rparr>, None))"

text \<open>The beginning of \<open>udhcpd_run\<close>: the lease time, the number of leases, the server's addresses.\<close>

definition udhcpd_setup :: "netif \<Rightarrow> server_config_t \<Rightarrow> server_config_t option" where
  "udhcpd_setup nif cfg =
     do {
       opt \<leftarrow> udhcp_find_option (cfg_options cfg) DHCP_LEASE_TIME;
       t \<leftarrow> (case opt of None \<Rightarrow> Some DEFAULT_LEASE_TIME
               | Some d \<Rightarrow> if length d < 6 then None else Some (ntohl (of_le32 (take 4 (drop 2 d)))));
       let num_ips = end_ip cfg - start_ip cfg + 1;
       Some (cfg\<lparr>max_lease_sec := t,
         max_leases := (if num_ips < max_leases cfg then num_ips else max_leases cfg),
         server_nip := (if server_nip cfg = 0 then if_ip nif else server_nip cfg),
         server_mac := if_mac nif\<rparr>) }"

definition lease_array :: "server_config_t \<Rightarrow> lease_table" where
  "lease_array cfg = \<lparr>g_leases = replicate (unat (max_leases cfg)) zero_lease, ip_info = []\<rparr>"

section \<open>The default range\<close>

lemma net_mask: "(0xFFFFFF00 :: u32) = NOT (mask 8)"
  by (simp add: mask_eq_exp_minus_1)

lemma unat_net: "unat (w AND 0xFFFFFF00) = 256 * (unat w div 256)" for w :: u32
proof -
  have "w AND 0xFFFFFF00 = push_bit 8 (drop_bit 8 w)"
    unfolding net_mask by (rule bit_word_eqI) (auto simp: bit_simps)
  then have "unat (w AND 0xFFFFFF00) = take_bit 32 (push_bit 8 (drop_bit 8 (unat w)))"
    using unsigned_less [of w, where ?'a = nat] by (simp only: unsigned_push_bit_eq unsigned_drop_bit_eq) (simp add: take_bit_nat_eq_self)
  also have "\<dots> = (256 * (unat w div 256)) mod 2 ^ 32"
    by (simp add: take_bit_eq_mod push_bit_eq_mult drop_bit_eq_div mult.commute)
  also have "256 * (unat w div 256) < 2 ^ 32"
    using unsigned_less [of w, where ?'a = nat] times_div_less_eq_dividend [of 256 "unat w"] by simp
  ultimately show ?thesis by simp
qed

lemma unat_low: "unat (w AND 0xFF) = unat w mod 256" for w :: u32
  using unat_and_mask [of w 8] by (simp add: mask_eq_exp_minus_1)

text \<open>Joining a network and a host byte is an addition.\<close>

lemma unat_join:
  fixes w k :: u32
  assumes "unat k < 256"
  shows "unat ((w AND 0xFFFFFF00) OR k) = 256 * (unat w div 256) + unat k"
proof -
  have "unat k = unat (k AND mask 8)" using assms by (simp add: unat_and_mask)
  then have k: "k = k AND mask 8" by (simp add: word_unat_eq_iff)
  have "(w AND 0xFFFFFF00) AND (k AND mask 8) = 0"
    unfolding net_mask by (rule bit_word_eqI) (auto simp: bit_simps)
  then have "(w AND 0xFFFFFF00) AND k = 0" using k by simp
  then have "(w AND 0xFFFFFF00) OR k = (w AND 0xFFFFFF00) + k" by (simp add: disjunctive_add_eq_or)
  moreover have "unat w div 256 < 2 ^ 24" using unsigned_less [of w, where ?'a = nat] by (simp add: less_mult_imp_div_less)
  then have "256 * (unat w div 256) + unat k < 2 ^ 32" using assms by simp
  ultimately show ?thesis by (simp add: unat_word_ariths unat_net)
qed

lemma default_range:
  assumes "udhcpd_setup nif (default_config nif) = Some cfg"
  shows "start_ip cfg \<le> end_ip cfg" "unat (end_ip cfg) = unat (start_ip cfg) + 9" "max_leases cfg = 10"
    "server_nip cfg = if_ip nif" "static_leases cfg = []" "max_lease_sec cfg = DEFAULT_LEASE_TIME" "min_lease_sec cfg = 60"
    "start_ip cfg \<le> x \<Longrightarrow> x \<le> end_ip cfg \<Longrightarrow> usable cfg x \<and> x AND 0xFFFFFF00 = htonl (if_ip nif) AND 0xFFFFFF00"
proof -
  let ?w = "htonl (if_ip nif)"
  define l where "l = (if 0x80 \<le> ?w AND 0xFF then (?w AND 0xFF) - 0x64 else (?w AND 0xFF) + 0x64)"
  let ?n = "unat ?w div 256" and ?m = "unat ?w mod 256"
  have low: "unat (?w AND 0xFF) = ?m" by (rule unat_low)
  have m: "?m < 256" by simp
  have l: "unat l = (if 128 \<le> ?m then ?m - 100 else ?m + 100)"
    using low m by (auto simp: l_def word_le_nat_alt unat_sub unat_word_ariths)
  have l9: "unat (l + 10 - 1) = unat l + 9" "unat l + 9 < 255" "0 < unat l"
    using l m by (auto simp: unat_word_ariths)
  have st: "unat (start_ip cfg) = 256 * ?n + unat l" "unat (end_ip cfg) = 256 * ?n + unat l + 9"
    using assms unat_join [of l ?w] unat_join [of "l + 10 - 1" ?w] l9
    by (auto simp: udhcpd_setup_def default_config_def Let_def l_def [symmetric] config_zero_def)
  show c: "server_nip cfg = if_ip nif" "static_leases cfg = []" "max_lease_sec cfg = DEFAULT_LEASE_TIME" "min_lease_sec cfg = 60"
    using assms by (auto simp: udhcpd_setup_def default_config_def Let_def config_zero_def)
  show r: "start_ip cfg \<le> end_ip cfg" "unat (end_ip cfg) = unat (start_ip cfg) + 9"
    using st by (simp_all add: word_le_nat_alt)
  have "unat (end_ip cfg - start_ip cfg) = 9" using r by (simp add: unat_sub)
  then have "end_ip cfg - start_ip cfg = 9" by (simp add: word_unat_eq_iff)
  then show "max_leases cfg = 10"
    using assms by (auto simp: udhcpd_setup_def default_config_def Let_def config_zero_def)
  show "usable cfg x \<and> x AND 0xFFFFFF00 = ?w AND 0xFFFFFF00" if "start_ip cfg \<le> x" "x \<le> end_ip cfg"
  proof -
    have x: "256 * ?n + unat l \<le> unat x" "unat x \<le> 256 * ?n + unat l + 9" using that st by (simp_all add: word_le_nat_alt)
    have d1: "unat x div 256 = ?n" using x l9 by (intro div_nat_eqI) auto
    then have d: "unat x div 256 = ?n" "unat x mod 256 = unat x - 256 * ?n" by (simp_all add: minus_mult_div_eq_mod [symmetric])
    have "htonl x \<noteq> if_ip nif"
    proof
      assume "htonl x = if_ip nif"
      then have "?w = x" by (metis htonl_htonl)
      with x l m show False by (auto split: if_splits)
    qed
    moreover have "x AND 0xFF \<noteq> 0" "x AND 0xFF \<noteq> 0xFF"
      using d x l9 unat_low [of x] by (auto simp: word_unat_eq_iff)
    moreover have "x AND 0xFFFFFF00 = ?w AND 0xFFFFFF00" using d by (simp add: word_unat_eq_iff unat_net)
    ultimately show ?thesis by (simp add: usable_def c)
  qed
qed

section \<open>A configuration set by the application\<close>

lemma load_config_options [simp]: "cfg_options (fst (load_config nif please)) = []"
  by (auto simp: load_config_def default_config_def config_zero_def Let_def split: option.splits)

lemma setup_without_options:
  assumes "cfg_options c = []"
  shows "udhcpd_setup nif c = Some (c\<lparr>max_lease_sec := DEFAULT_LEASE_TIME,
    max_leases := (if end_ip c - start_ip c + 1 < max_leases c then end_ip c - start_ip c + 1 else max_leases c),
    server_nip := (if server_nip c = 0 then if_ip nif else server_nip c), server_mac := if_mac nif\<rparr>)"
  using assms by (simp add: udhcpd_setup_def)

lemma unat_drop_bit: "unat (drop_bit n a) = unat a div 2 ^ n" for a :: u32
  using unsigned_less [of a, where ?'a = nat]
  by (simp only: unsigned_drop_bit_eq) (simp add: take_bit_nat_eq_self drop_bit_eq_div)

lemma drop_bit_mono: "a \<le> b \<Longrightarrow> drop_bit n a \<le> drop_bit n b" for a b :: u32
  by (simp only: word_le_nat_alt unat_drop_bit div_le_mono)

lemma accepted_config:
  assumes "dhcps_set_info_api nif ok (Some i) please = (0, Some c)"
    "udhcpd_setup nif (fst (load_config nif (Some c))) = Some cfg"
  shows "start_ip cfg = i_start_ip i" "end_ip cfg = i_end_ip i" "min_lease_sec cfg = i_min_lease_sec i"
    "max_lease_sec cfg = DEFAULT_LEASE_TIME" "server_nip cfg = if_ip nif"
    "start_ip cfg \<le> x \<Longrightarrow> x \<le> end_ip cfg \<Longrightarrow> htonl x \<noteq> server_nip cfg \<and> drop_bit 8 x = drop_bit 8 (htonl (if_ip nif))"
proof -
  have a: "\<not> (i_start_ip i \<le> htonl (if_ip nif) \<and> htonl (if_ip nif) \<le> i_end_ip i)"
    "drop_bit 8 (i_start_ip i) = drop_bit 8 (htonl (if_ip nif))" "drop_bit 8 (i_end_ip i) = drop_bit 8 (htonl (if_ip nif))"
    "start_ip c = i_start_ip i" "end_ip c = i_end_ip i" "min_lease_sec c = i_min_lease_sec i"
    using assms(1) by (auto simp: dhcps_set_info_api_def Let_def split: if_splits)
  show c: "start_ip cfg = i_start_ip i" "end_ip cfg = i_end_ip i" "min_lease_sec cfg = i_min_lease_sec i"
    "max_lease_sec cfg = DEFAULT_LEASE_TIME" "server_nip cfg = if_ip nif"
    using assms(2) a(4-6) by (auto simp: setup_without_options load_config_def config_zero_def)
  show "htonl x \<noteq> server_nip cfg \<and> drop_bit 8 x = drop_bit 8 (htonl (if_ip nif))" if "start_ip cfg \<le> x" "x \<le> end_ip cfg"
  proof -
    have "drop_bit 8 (i_start_ip i) \<le> drop_bit 8 x" "drop_bit 8 x \<le> drop_bit 8 (i_end_ip i)"
      using that c by (auto intro: drop_bit_mono)
    then have "drop_bit 8 x = drop_bit 8 (htonl (if_ip nif))" using a by simp
    moreover have "htonl x \<noteq> if_ip nif"
    proof
      assume "htonl x = if_ip nif"
      then have "htonl (if_ip nif) = x" by (metis htonl_htonl)
      with a(1) that c show False by simp
    qed
    ultimately show ?thesis by (simp add: c)
  qed
qed

section \<open>Properties\<close>

text \<open>
  With no configuration from the application the server hands out ten addresses next to its own: for
  every address of the interface the range lies in the interface's /24 network, every address in it is
  usable (neither the network nor the broadcast address nor the server's own), the table has a record for
  each of them, and the lease time is ten days.
\<close>

lemma default_config_sound:
  assumes "udhcpd_setup nif (fst (load_config nif None)) = Some cfg"
  shows "unat (end_ip cfg) = unat (start_ip cfg) + 9 \<and> max_leases cfg = 10 \<and> max_lease_sec cfg = DEFAULT_LEASE_TIME \<and>
    (\<forall>x. start_ip cfg \<le> x \<and> x \<le> end_ip cfg \<longrightarrow> usable cfg x \<and> x AND 0xFFFFFF00 = htonl (if_ip nif) AND 0xFFFFFF00)"
  using default_range [of nif cfg] assms by (simp add: load_config_def)

lemma default_config_sound_witness:
  "\<exists>cfg. udhcpd_setup \<lparr>if_ip = htonl 0xC0A81FFE, if_gw = 0, if_mask = 0, if_mac = []\<rparr>
      (fst (load_config \<lparr>if_ip = htonl 0xC0A81FFE, if_gw = 0, if_mask = 0, if_mac = []\<rparr> None)) = Some cfg \<and> max_leases cfg = 10"
proof -
  let ?n = "\<lparr>if_ip = htonl 0xC0A81FFE, if_gw = 0, if_mask = 0, if_mac = []\<rparr>"
  obtain cfg where c: "udhcpd_setup ?n (fst (load_config ?n None)) = Some cfg"
    by (simp add: setup_without_options del: split_paired_Ex)
  with default_config_sound [OF c] show ?thesis by blast
qed

text \<open>
  A configuration the application sets and \<open>dhcps_set_info_api\<close> accepts is the one the server runs
  with, in the interface's /24 network and without the server's own address; except for its maximal
  lease time, which \<open>udhcpd_run\<close> overwrites with the default of ten days.
\<close>

lemma accepted_config_sound:
  assumes "dhcps_set_info_api nif ok (Some i) please = (0, Some c)"
    "udhcpd_setup nif (fst (load_config nif (Some c))) = Some cfg"
  shows "start_ip cfg = i_start_ip i \<and> end_ip cfg = i_end_ip i \<and> min_lease_sec cfg = i_min_lease_sec i \<and>
    max_lease_sec cfg = DEFAULT_LEASE_TIME \<and>
    (\<forall>x. start_ip cfg \<le> x \<and> x \<le> end_ip cfg \<longrightarrow>
      htonl x \<noteq> server_nip cfg \<and> drop_bit 8 x = drop_bit 8 (htonl (if_ip nif)))"
  using accepted_config [OF assms] by blast

definition sample_info :: dhcps_info where
  "sample_info = \<lparr>i_start_ip = 0xC0A81F10, i_end_ip = 0xC0A81F17, i_max_leases = 8, i_subnet = 0, i_gw = 0, i_dns = 0,
     i_auto_time = 7200, i_decline_time = 3600, i_conflict_time = 3600, i_offer_time = 60, i_max_lease_sec = 7200,
     i_min_lease_sec = 60\<rparr>"

lemma accepted_config_sound_witness:
  "\<exists>c cfg. dhcps_set_info_api \<lparr>if_ip = htonl 0xC0A81F01, if_gw = 0, if_mask = 0, if_mac = []\<rparr> True (Some sample_info) None = (0, Some c) \<and>
     udhcpd_setup \<lparr>if_ip = htonl 0xC0A81F01, if_gw = 0, if_mask = 0, if_mac = []\<rparr>
       (fst (load_config \<lparr>if_ip = htonl 0xC0A81F01, if_gw = 0, if_mask = 0, if_mac = []\<rparr> (Some c))) = Some cfg \<and>
     i_max_lease_sec sample_info = 7200 \<and> max_lease_sec cfg = DEFAULT_LEASE_TIME"
proof -
  let ?n = "\<lparr>if_ip = htonl 0xC0A81F01, if_gw = 0, if_mask = 0, if_mac = []\<rparr>"
  obtain c where c: "dhcps_set_info_api ?n True (Some sample_info) None = (0, Some c)"
    by (simp add: dhcps_set_info_api_def sample_info_def Let_def)
  obtain cfg where cfg: "udhcpd_setup ?n (fst (load_config ?n (Some c))) = Some cfg"
    by (simp add: setup_without_options)
  show ?thesis using c cfg accepted_config_sound [OF c cfg] by (auto simp: sample_info_def)
qed

end
