(* ===== verification/Dhcpd.thy ===== *)
theory Dhcpd
  imports DhcpConfig
begin

text \<open>
  The DHCP server: \<open>components/net/udhcp/dhcpd.c\<close>. The state is the lease table and the file's statics
  \<open>pdhcp_pkt\<close>, \<open>dhcp_pkt_len\<close> and \<open>dest_sin\<close>; what the server sends is a list. One pass of the loop of
  \<open>udhcpd_run\<close> handles one received packet. The clock is read once per packet. A debug print has no
  effect, so the checks of \<open>udhcpd_run\<close> that only print (hardware address length, opcode, message type,
  server identifier) are absent, as in the code.
\<close>

definition DHCP_SIZE :: nat where "DHCP_SIZE = 548"

abbreviation (input) "BROADCAST_FLAG \<equiv> 0x8000 :: u16"
abbreviation (input) "INADDR_BROADCAST \<equiv> 0xffffffff :: u32"
abbreviation (input) "CLIENT_PORT \<equiv> 68 :: u16"

datatype dhcpd_out = Write bytes | RelayPkt dhcp_packet

record dhcpd = lease_table +
  pdhcp_pkt :: bytes
  dhcp_pkt_len :: nat
  dest_addr :: u32
  dest_port :: u16
  sent :: "dhcpd_out list"

record dhcpd_env =
  cfg :: server_config_t
  now :: u32
  mem_ok :: bool
  sta_index :: "bytes \<Rightarrow> int"

section \<open>Sending\<close>

definition le16 :: "u16 \<Rightarrow> bytes" where
  "le16 w = [ucast w, ucast (drop_bit 8 w)]"

definition htons :: "u16 \<Rightarrow> u16" where
  "htons w = push_bit 8 w OR drop_bit 8 w"

text \<open>The packet in memory.\<close>

definition packet_bytes :: "dhcp_packet \<Rightarrow> bytes" where
  "packet_bytes p = [pkt_op p, htype p, hlen p, hops p] @ le32 (xid p) @ le16 (secs p) @ le16 (pkt_flags p) @
     le32 (ciaddr p) @ le32 (yiaddr p) @ le32 (siaddr_nip p) @ le32 (gateway_nip p) @ chaddr p @ sname p @ file_field p @
     le32 (cookie p) @ options p"

definition send_packet_to_client :: "dhcp_packet \<Rightarrow> bool \<Rightarrow> dhcpd \<Rightarrow> dhcpd option" where
  "send_packet_to_client p force_broadcast s =
     do {
       let dest = (if force_broadcast \<or> pkt_flags p AND htons BROADCAST_FLAG \<noteq> 0 \<or> ciaddr p = 0
                   then INADDR_BROADCAST else ciaddr p);
       end \<leftarrow> udhcp_end_option (options p);
       let padding = DHCP_OPTIONS_BUFSIZE - 1 - end;
       let padding = (if DHCP_SIZE - 300 < padding then DHCP_SIZE - 300 else padding);
       let len = DHCP_SIZE - padding;
       Some (s\<lparr>dest_addr := dest, dest_port := htons CLIENT_PORT, dhcp_pkt_len := len,
         pdhcp_pkt := take len (packet_bytes p) @ replicate (DHCP_SIZE - len) 0\<rparr>) }"

definition send_packet_to_relay :: "dhcp_packet \<Rightarrow> dhcpd \<Rightarrow> dhcpd" where
  "send_packet_to_relay p s = s\<lparr>sent := sent s @ [RelayPkt p]\<rparr>"

definition send_packet :: "dhcp_packet \<Rightarrow> bool \<Rightarrow> dhcpd \<Rightarrow> dhcpd option" where
  "send_packet p force_broadcast s =
     (if gateway_nip p \<noteq> 0 then Some (send_packet_to_relay p s) else send_packet_to_client p force_broadcast s)"

text \<open>\<open>safe_write (server_socket, &pdhcp_pkt, dhcp_pkt_len)\<close>\<close>

definition write_out :: "dhcpd \<Rightarrow> dhcpd" where
  "write_out s = s\<lparr>sent := sent s @ [Write (take (dhcp_pkt_len s) (pdhcp_pkt s))]\<rparr>"

section \<open>Building the answers\<close>

definition init_packet :: "server_config_t \<Rightarrow> dhcp_packet \<Rightarrow> u8 \<Rightarrow> dhcp_packet option" where
  "init_packet c old type =
     do {
       p \<leftarrow> udhcp_init_header type;
       udhcp_add_simple_option (p\<lparr>xid := xid old, chaddr := chaddr old, pkt_flags := pkt_flags old,
         gateway_nip := gateway_nip old, ciaddr := ciaddr old\<rparr>) DHCP_SERVER_ID (server_nip c) }"

fun add_config_options :: "bytes list \<Rightarrow> dhcp_packet \<Rightarrow> dhcp_packet option" where
  "add_config_options [] p = Some p"
| "add_config_options (d # ds) p =
     do {
       c \<leftarrow> rd d 0;
       p \<leftarrow> (if c \<noteq> DHCP_LEASE_TIME then udhcp_add_binary_option p d else Some p);
       add_config_options ds p }"

definition copy_name :: "bytes option \<Rightarrow> bytes \<Rightarrow> bytes option" where
  "copy_name src dst =
     (case src of None \<Rightarrow> Some dst
      | Some b \<Rightarrow> if length b < length dst - 1 then None else blit dst 0 (take (length dst - 1) b))"

definition add_server_options :: "server_config_t \<Rightarrow> dhcp_packet \<Rightarrow> dhcp_packet option" where
  "add_server_options c p =
     do {
       p \<leftarrow> add_config_options (cfg_options c) p;
       let p = p\<lparr>siaddr_nip := cfg_siaddr_nip c\<rparr>;
       sn \<leftarrow> copy_name (cfg_sname c) (sname p);
       f \<leftarrow> copy_name (boot_file c) (file_field p);
       Some (p\<lparr>sname := sn, file_field := f\<rparr>) }"

definition select_lease_time :: "server_config_t \<Rightarrow> dhcp_packet \<Rightarrow> u32 option" where
  "select_lease_time c p =
     do {
       opt \<leftarrow> udhcp_get_option p DHCP_LEASE_TIME;
       case opt of None \<Rightarrow> Some (max_lease_sec c)
       | Some q \<Rightarrow> do {
           t \<leftarrow> pkt_u32 p q;
           let t = ntohl t;
           let t = (if max_lease_sec c < t then max_lease_sec c else t);
           Some (if t < min_lease_sec c then min_lease_sec c else t) } }"

text \<open>The host name option: the bytes from it to the end of its field, and the length byte before it.\<close>

definition host_name :: "dhcp_packet \<Rightarrow> (bytes option \<times> int) option" where
  "host_name p =
     do {
       opt \<leftarrow> udhcp_get_option p DHCP_HOST_NAME;
       case opt of None \<Rightarrow> Some (None, 0)
       | Some (a, j) \<Rightarrow> do { n \<leftarrow> pkt_byte p (a, j - 1); Some (Some (drop j (area_bytes a p)), uint n) } }"

definition net_options :: "server_config_t \<Rightarrow> u32 \<Rightarrow> dhcp_packet \<Rightarrow> dhcp_packet option" where
  "net_options c lease_time_sec p =
     do {
       p \<leftarrow> udhcp_add_simple_option p DHCP_LEASE_TIME (htonl lease_time_sec);
       p \<leftarrow> udhcp_add_simple_option p DHCP_SUBNET (htonl (subnet c));
       p \<leftarrow> udhcp_add_simple_option p DHCP_ROUTER (htonl (gw c));
       udhcp_add_simple_option p DHCP_DNS_SERVER (htonl (dns c)) }"

definition clearlease_bymac :: "bytes \<Rightarrow> dyn_lease list \<Rightarrow> dyn_lease list" where
  "clearlease_bymac mac ls = (case find_lease_by_mac ls mac of None \<Rightarrow> ls | Some i \<Rightarrow> ls[i := zero_lease])"

section \<open>The answers\<close>

text \<open>A pointer to a lease: a record of the table or the local \<open>fake_lease\<close>.\<close>

datatype lease_ref = Fake dyn_lease | Entry nat

fun deref :: "dyn_lease list \<Rightarrow> lease_ref \<Rightarrow> dyn_lease option" where
  "deref ls (Fake l) = Some l"
| "deref ls (Entry i) = rd ls i"

text \<open>The address an OFFER proposes, for a client without a static lease.\<close>

definition offer_address :: "dhcpd_env \<Rightarrow> dhcp_packet \<Rightarrow> lease_ref option \<Rightarrow> ptr option \<Rightarrow> dhcpd \<Rightarrow> (dhcpd \<times> u32) option" where
  "offer_address e old lease requested_ip_opt s =
     (case lease of
        Some r \<Rightarrow> do { l \<leftarrow> deref (g_leases s) r; Some (s, lease_nip l) }
      | None \<Rightarrow> do {
          req \<leftarrow> (case requested_ip_opt of None \<Rightarrow> Some None
            | Some q \<Rightarrow> do {
                req_nip \<leftarrow> pkt_u32 old q;
                if start_ip (cfg e) \<le> ntohl req_nip \<and> ntohl req_nip \<le> end_ip (cfg e)
                then (case find_lease_by_nip (g_leases s) req_nip of
                    None \<Rightarrow> Some (Some req_nip)
                  | Some i \<Rightarrow> do {
                      l \<leftarrow> rd (g_leases s) i;
                      Some (if is_expired_lease (now e) l then Some req_nip else None) })
                else Some None });
          case req of
            Some nip \<Rightarrow> Some (s, nip)
          | None \<Rightarrow> find_free_or_expired_nip (sta_index e) (cfg e) (now e) (chaddr old) s })"

definition finish_offer :: "dhcpd_env \<Rightarrow> dhcp_packet \<Rightarrow> dhcp_packet \<Rightarrow> dhcpd \<Rightarrow> dhcpd option" where
  "finish_offer e old p s =
     do {
       t \<leftarrow> select_lease_time (cfg e) old;
       p \<leftarrow> net_options (cfg e) t p;
       p \<leftarrow> add_server_options (cfg e) p;
       send_packet p False s }"

definition send_offer ::
  "dhcpd_env \<Rightarrow> dhcp_packet \<Rightarrow> u32 \<Rightarrow> lease_ref option \<Rightarrow> ptr option \<Rightarrow> dhcpd \<Rightarrow> dhcpd option" where
  "send_offer e old static_lease_nip lease requested_ip_opt s =
     (if \<not> mem_ok e then Some s
      else do {
        p \<leftarrow> init_packet (cfg e) old DHCPOFFER;
        if static_lease_nip \<noteq> 0 then finish_offer e old (p\<lparr>yiaddr := static_lease_nip\<rparr>) s
        else do {
          (s, nip) \<leftarrow> offer_address e old lease requested_ip_opt s;
          if nip = 0 then Some s
          else do {
            (name, len) \<leftarrow> host_name old;
            (s, r) \<leftarrow> add_lease (now e) (Some (chaddr p)) nip (offer_time (cfg e)) name len s;
            case r of None \<Rightarrow> Some s
            | Some _ \<Rightarrow> finish_offer e old (p\<lparr>yiaddr := nip\<rparr>) s } } })"

definition send_NAK :: "dhcpd_env \<Rightarrow> dhcp_packet \<Rightarrow> dhcpd \<Rightarrow> dhcpd option" where
  "send_NAK e old s =
     (if \<not> mem_ok e then Some s
      else do { p \<leftarrow> init_packet (cfg e) old DHCPNAK; send_packet p True s })"

definition send_ACK :: "dhcpd_env \<Rightarrow> dhcp_packet \<Rightarrow> u32 \<Rightarrow> dhcpd \<Rightarrow> dhcpd option" where
  "send_ACK e old nip s =
     (if \<not> mem_ok e then Some s
      else do {
        p \<leftarrow> init_packet (cfg e) old DHCPACK;
        let p = p\<lparr>yiaddr := nip\<rparr>;
        t \<leftarrow> select_lease_time (cfg e) old;
        p \<leftarrow> net_options (cfg e) t p;
        p \<leftarrow> add_server_options (cfg e) p;
        s \<leftarrow> send_packet p False s;
        (name, len) \<leftarrow> host_name old;
        (s, _) \<leftarrow> add_lease (now e) (Some (chaddr p)) (yiaddr p) t name len s;
        Some s })"

definition send_inform :: "dhcpd_env \<Rightarrow> dhcp_packet \<Rightarrow> dhcpd \<Rightarrow> dhcpd option" where
  "send_inform e old s =
     (if \<not> mem_ok e then Some s
      else do {
        p \<leftarrow> init_packet (cfg e) old DHCPACK;
        p \<leftarrow> add_server_options (cfg e) p;
        send_packet p False s })"

section \<open>The server\<close>

definition set_lease :: "lease_ref \<Rightarrow> (dyn_lease \<Rightarrow> dyn_lease) \<Rightarrow> dhcpd \<Rightarrow> dhcpd option" where
  "set_lease r f s =
     (case r of Fake _ \<Rightarrow> Some s
      | Entry i \<Rightarrow> do { l \<leftarrow> rd (g_leases s) i; ls \<leftarrow> wr (g_leases s) i (f l); Some (s\<lparr>g_leases := ls\<rparr>) })"

definition on_request ::
  "dhcpd_env \<Rightarrow> dhcp_packet \<Rightarrow> lease_ref option \<Rightarrow> ptr option \<Rightarrow> u32 option \<Rightarrow> dhcpd \<Rightarrow> dhcpd option" where
  "on_request e p lease server_id_opt requested s =
     (let requested_nip = (case requested of None \<Rightarrow> ciaddr p | Some nip \<Rightarrow> nip) in
      if requested = None \<and> requested_nip = 0 then Some s
      else do {
        hit \<leftarrow> (case lease of None \<Rightarrow> Some None
          | Some r \<Rightarrow> do { l \<leftarrow> deref (g_leases s) r; Some (if requested_nip = lease_nip l then Some (lease_nip l) else None) });
        case hit of
          Some nip \<Rightarrow> map_option write_out (send_ACK e p nip s)
        | None \<Rightarrow> if server_id_opt \<noteq> None \<or> requested \<noteq> None then map_option write_out (send_NAK e p s) else Some s })"

definition on_decline ::
  "dhcpd_env \<Rightarrow> lease_ref option \<Rightarrow> ptr option \<Rightarrow> u32 option \<Rightarrow> dhcpd \<Rightarrow> dhcpd option" where
  "on_decline e lease server_id_opt requested s =
     (case (server_id_opt, requested, lease) of
        (Some _, Some nip, Some r) \<Rightarrow> do {
          l \<leftarrow> deref (g_leases s) r;
          if nip = lease_nip l
          then set_lease r (\<lambda>l. l\<lparr>lease_mac := replicate 6 0, expires := now e + decline_time (cfg e)\<rparr>) s
          else Some s }
      | _ \<Rightarrow> Some s)"

definition on_release :: "dhcpd_env \<Rightarrow> dhcp_packet \<Rightarrow> lease_ref option \<Rightarrow> ptr option \<Rightarrow> dhcpd \<Rightarrow> dhcpd option" where
  "on_release e p lease server_id_opt s =
     (case (server_id_opt, lease) of
        (Some _, Some r) \<Rightarrow> do {
          l \<leftarrow> deref (g_leases s) r;
          if ciaddr p = lease_nip l then set_lease r (\<lambda>l. l\<lparr>expires := now e\<rparr>) s else Some s }
      | _ \<Rightarrow> Some s)"

text \<open>The lease of the client: its static one in \<open>fake_lease\<close> (whose name is not initialised), or its record.\<close>

definition client_lease :: "server_config_t \<Rightarrow> u32 \<Rightarrow> dhcp_packet \<Rightarrow> dhcpd \<Rightarrow> lease_ref option" where
  "client_lease c static_lease_nip p s =
     (if static_lease_nip \<noteq> 0
      then Some (Fake (zero_lease\<lparr>lease_mac := take 6 (chaddr p), lease_nip := static_lease_nip, expires := 0\<rparr>))
      else map_option Entry (find_lease_by_mac (g_leases s) (chaddr p)))"

text \<open>The body of the loop of \<open>udhcpd_run\<close> on a packet that \<open>udhcp_recv_kernel_packet\<close> delivered.\<close>

definition handle_packet :: "dhcpd_env \<Rightarrow> dhcp_packet \<Rightarrow> dhcpd \<Rightarrow> dhcpd option" where
  "handle_packet e p s =
     do {
       state \<leftarrow> udhcp_get_option p DHCP_MESSAGE_TYPE;
       _ \<leftarrow> (case state of None \<Rightarrow> Some 0 | Some q \<Rightarrow> pkt_byte p q);
       server_id_opt \<leftarrow> udhcp_get_option p DHCP_SERVER_ID;
       _ \<leftarrow> (case server_id_opt of None \<Rightarrow> Some 0 | Some q \<Rightarrow> pkt_u32 p q);
       let static_lease_nip = get_static_nip_by_mac (static_leases (cfg e)) (chaddr p);
       let lease = client_lease (cfg e) static_lease_nip p s;
       requested_ip_opt \<leftarrow> udhcp_get_option p DHCP_REQUESTED_IP;
       requested \<leftarrow> (case requested_ip_opt of None \<Rightarrow> Some None | Some q \<Rightarrow> map_option Some (pkt_u32 p q));
       type \<leftarrow> (case state of None \<Rightarrow> None | Some q \<Rightarrow> pkt_byte p q);
       if type = DHCPDISCOVER then map_option write_out (send_offer e p static_lease_nip lease requested_ip_opt s)
       else if type = DHCPREQUEST then on_request e p lease server_id_opt requested s
       else if type = DHCPDECLINE then on_decline e lease server_id_opt requested s
       else if type = DHCPRELEASE then on_release e p lease server_id_opt s
       else if type = DHCPINFORM then map_option write_out (send_inform e p s)
       else Some s }"

text \<open>The loop, on what the socket delivers: the result of the read and the packet.\<close>

fun udhcpd_loop :: "(dhcpd_env \<times> int \<times> dhcp_packet) list \<Rightarrow> dhcpd \<Rightarrow> dhcpd option" where
  "udhcpd_loop [] s = Some s"
| "udhcpd_loop ((e, n, p) # rs) s =
     (if udhcp_recv_kernel_packet n p < 0 then udhcpd_loop rs s
      else do { s \<leftarrow> handle_packet e p s; udhcpd_loop rs s })"

definition udhcpd_boot :: "server_config_t \<Rightarrow> dhcpd" where
  "udhcpd_boot c = lease_table.extend (lease_array c)
     \<lparr>pdhcp_pkt = replicate DHCP_SIZE 0, dhcp_pkt_len = 0, dest_addr = 0, dest_port = 0, sent = []\<rparr>"

text \<open>\<open>dhcpd_lease_get_api\<close>: copies the leases into the caller's array.\<close>

fun lease_copy :: "dyn_lease list \<Rightarrow> nat \<Rightarrow> nat \<Rightarrow> dyn_lease list \<Rightarrow> (dyn_lease list \<times> nat) option" where
  "lease_copy [] cap n dst = Some (dst, n)"
| "lease_copy (l # ls) cap n dst =
     (if lease_nip l \<noteq> 0
      then (if cap < n then Some (dst, n)
            else do { dst \<leftarrow> wr dst n l; lease_copy ls cap (n + 1) dst })
      else lease_copy ls cap n dst)"

definition dhcpd_lease_get_api ::
  "dyn_lease list option \<Rightarrow> dyn_lease list option \<Rightarrow> nat option \<Rightarrow> (int \<times> dyn_lease list option \<times> nat option) option" where
  "dhcpd_lease_get_api leases lease count =
     (case (leases, lease, count) of
        (Some ls, Some dst, Some cap) \<Rightarrow> do { (dst, n) \<leftarrow> lease_copy ls cap 0 dst; Some (0, Some dst, Some n) }
      | _ \<Rightarrow> Some (- 1, lease, count))"

section \<open>Well-formed requests\<close>

lemma pad_free_pos:
  assumes "opt_pos (length pre) os code = Some j" "list_all opt_ok os" "area_bytes a p = pre @ enc_opts os @ r" "r \<noteq> []"
  shows "2 \<le> j \<and> j + unat (area_bytes a p ! (j - 1)) < length (area_bytes a p)"
  using assms
proof (induction os arbitrary: pre)
  case (Cons x os)
  show ?case
  proof (cases "fst x = code")
    case True
    then show ?thesis using Cons.prems opt_ok_len [of x] by (auto simp: enc_opt_def nth_append)
  next
    case False
    then show ?thesis using Cons.prems Cons.IH [of "pre @ enc_opt x"] by (simp add: add.assoc)
  qed
qed simp

lemma get_option_pos:
  assumes "has_opts (options p) os" "list_all (\<lambda>x. fst x \<noteq> DHCP_OPTION_OVERLOAD) os"
  shows "udhcp_get_option p code = Some (map_option (\<lambda>j. (Options, j)) (opt_pos 0 os code))"
proof -
  obtain r where r: "options p = enc_opts os @ DHCP_END # r" and ok: "list_all opt_ok os"
    using assms(1) by (auto simp: has_opts_def)
  have "udhcp_get_option p code = (case opt_pos 0 os code of Some j \<Rightarrow> Some (Some (Options, j))
     | None \<Rightarrow> get_option_loop p code Options (length (enc_opts os)) (1 + int (length r)) 0)"
    using loop_opts [of Options p "[]" os r code 0] r ok no_ovl_ok [OF assms(2)] ovl_id [OF assms(2)]
    by (simp add: udhcp_get_option_def algebra_simps cong: option.case_cong)
  moreover have "get_option_loop p code Options (length (enc_opts os)) (1 + int (length r)) 0 = Some None"
    by (subst loop_end) (simp_all add: pkt_byte_def rd_def r nth_append)
  ultimately show ?thesis by (simp split: option.splits)
qed

text \<open>The length each option of a request must have to be read as the server reads it.\<close>

definition req_opt_ok :: "dhcp_option \<Rightarrow> bool" where
  "req_opt_ok x \<longleftrightarrow> opt_ok x \<and> fst x \<noteq> DHCP_OPTION_OVERLOAD \<and>
     (fst x \<in> {DHCP_REQUESTED_IP, DHCP_LEASE_TIME, DHCP_SERVER_ID} \<longrightarrow> length (snd x) = 4) \<and>
     (fst x = DHCP_MESSAGE_TYPE \<longrightarrow> length (snd x) = 1)"

definition request :: "dhcp_packet \<Rightarrow> dhcp_option list \<Rightarrow> bool" where
  "request p os \<longleftrightarrow> has_opts (options p) os \<and> list_all req_opt_ok os \<and> length (chaddr p) = 16"

lemma request_opts:
  assumes "request p os"
  shows "has_opts (options p) os" "list_all (\<lambda>x. fst x \<noteq> DHCP_OPTION_OVERLOAD) os" "list_all opt_ok os" "length (chaddr p) = 16"
  using assms by (auto simp: request_def req_opt_ok_def list_all_iff)

lemma request_get:
  assumes "request p os"
  shows "case map_of os code of None \<Rightarrow> udhcp_get_option p code = Some None
    | Some d \<Rightarrow> \<exists>j. udhcp_get_option p code = Some (Some (Options, j)) \<and> opt_data p (Options, j) = d \<and> 2 \<le> j \<and>
        j + unat (options p ! (j - 1)) < length (options p)"
proof -
  note r = request_opts [OF assms]
  obtain x where x: "options p = enc_opts os @ DHCP_END # x" using r(1) by (auto simp: has_opts_def)
  note g = get_option_pos [OF r(1,2), of code]
  show ?thesis
    using g opt_pos_None [of 0 os code] opt_pos_data [of "[]" os code _ Options p "DHCP_END # x"]
      pad_free_pos [of "[]" os code _ Options p "DHCP_END # x"] r(3) x
    by (cases "opt_pos 0 os code") (auto split: option.splits)
qed

lemma request_len:
  assumes "request p os" "map_of os code = Some d"
  shows "code \<in> {DHCP_REQUESTED_IP, DHCP_LEASE_TIME, DHCP_SERVER_ID} \<Longrightarrow> length d = 4"
    "code = DHCP_MESSAGE_TYPE \<Longrightarrow> length d = 1"
  using assms map_of_SomeD [OF assms(2)] by (auto simp: request_def req_opt_ok_def list_all_iff)

lemma pkt_u32_data:
  assumes "length (opt_data p (a, j)) = 4"
  shows "pkt_u32 p (a, j) = Some (of_le32 (opt_data p (a, j)))"
proof -
  let ?n = "unat (area_bytes a p ! (j - 1))" and ?r = "drop j (area_bytes a p)"
  have "length (take ?n ?r) = 4" using assms by (simp add: opt_data_def)
  moreover from this have "take ?n ?r = take 4 ?r" by (metis append_take_drop_id append_eq_conv_conj length_take min_def)
  ultimately show ?thesis by (auto simp: pkt_u32_def opt_data_def)
qed

lemma request_u32:
  assumes "request p os" "code \<in> {DHCP_REQUESTED_IP, DHCP_LEASE_TIME, DHCP_SERVER_ID}"
  shows "case map_of os code of None \<Rightarrow> udhcp_get_option p code = Some None
    | Some d \<Rightarrow> \<exists>q. udhcp_get_option p code = Some (Some q) \<and> pkt_u32 p q = Some (of_le32 d)"
proof (cases "map_of os code")
  case (Some d)
  then obtain j where j: "udhcp_get_option p code = Some (Some (Options, j))" "opt_data p (Options, j) = d"
    using request_get [OF assms(1), of code] by auto
  then have "pkt_u32 p (Options, j) = Some (of_le32 d)"
    using pkt_u32_data [of p Options j] request_len(1) [OF assms(1) Some assms(2)] by simp
  with Some j show ?thesis by auto
qed (use request_get [OF assms(1), of code] in simp)

lemma request_type:
  assumes "request p os" "map_of os DHCP_MESSAGE_TYPE = Some [t]"
  shows "\<exists>q. udhcp_get_option p DHCP_MESSAGE_TYPE = Some (Some q) \<and> pkt_byte p q = Some t"
proof -
  obtain j where j: "udhcp_get_option p DHCP_MESSAGE_TYPE = Some (Some (Options, j))" "opt_data p (Options, j) = [t]"
    "2 \<le> j" "j + unat (options p ! (j - 1)) < length (options p)"
    using request_get [OF assms(1), of DHCP_MESSAGE_TYPE] assms(2) by auto
  let ?n = "unat (options p ! (j - 1))"
  have e: "take ?n (drop j (options p)) = [t]" using j(2) by (simp add: opt_data_def)
  then have "0 < ?n" by (metis gr0I list.distinct(1) take_0)
  then have "hd (take ?n (drop j (options p))) = options p ! j" using j(4) by (simp add: hd_take hd_drop_conv_nth)
  then have "pkt_byte p (Options, j) = Some t" using e j(4) by (simp add: pkt_byte_def rd_def)
  with j(1) show ?thesis by blast
qed

lemma request_host_name:
  assumes "request p os"
  shows "\<exists>name len. host_name p = Some (name, len) \<and> name_readable name len"
proof (cases "map_of os DHCP_HOST_NAME")
  case None
  then show ?thesis using request_get [OF assms, of DHCP_HOST_NAME] by (simp add: host_name_def name_readable_def)
next
  case (Some d)
  then obtain j where j: "udhcp_get_option p DHCP_HOST_NAME = Some (Some (Options, j))"
    "2 \<le> j" "j + unat (options p ! (j - 1)) < length (options p)"
    using request_get [OF assms, of DHCP_HOST_NAME] by auto
  then have "pkt_byte p (Options, j - 1) = Some (options p ! (j - 1))" by (simp add: pkt_byte_def rd_def)
  moreover have "name_readable (Some (drop j (options p))) (uint (options p ! (j - 1)))"
  proof -
    have "nat (uint (options p ! (j - 1)) + 1) = Suc (unat (options p ! (j - 1)))"
      by (metis Suc_eq_plus1 Suc_nat_eq_nat_zadd1 uint_ge_0 unat_eq_nat_uint add.commute)
    moreover have "min 20 (Suc (unat (options p ! (j - 1)))) \<le> length (drop j (options p))" using j(3) by simp
    ultimately show ?thesis by (simp only: name_readable_def option.case uint_ge_0) simp
  qed
  ultimately show ?thesis using j(1) by (simp add: host_name_def)
qed

section \<open>Replies\<close>

text \<open>A reply to \<open>old\<close> with the options \<open>os\<close>, in the options field \<open>b\<close>.\<close>

definition reply :: "server_config_t \<Rightarrow> dhcp_packet \<Rightarrow> u8 \<Rightarrow> u32 \<Rightarrow> u32 \<Rightarrow> bytes \<Rightarrow> dhcp_packet" where
  "reply c old type nip si b = (header type b)\<lparr>xid := xid old, chaddr := chaddr old, pkt_flags := pkt_flags old,
     gateway_nip := gateway_nip old, ciaddr := ciaddr old, yiaddr := nip, siaddr_nip := si\<rparr>"

definition base_opts :: "server_config_t \<Rightarrow> u8 \<Rightarrow> dhcp_option list" where
  "base_opts c type = [(DHCP_MESSAGE_TYPE, [type]), (DHCP_SERVER_ID, le32 (server_nip c))]"

definition net_opts :: "server_config_t \<Rightarrow> u32 \<Rightarrow> dhcp_option list" where
  "net_opts c t = [(DHCP_LEASE_TIME, le32 (htonl t)), (DHCP_SUBNET, le32 (htonl (subnet c))),
     (DHCP_ROUTER, le32 (htonl (gw c))), (DHCP_DNS_SERVER, le32 (htonl (dns c)))]"

lemma simple_full: "simple_opt code 4 d = (code, le32 d)"
  by (simp add: simple_opt_def)

lemma add_simple_fits:
  assumes "has_opts (options p) os" "length (options p) = DHCP_OPTIONS_BUFSIZE" "length (enc_opts os) + 7 < DHCP_OPTIONS_BUFSIZE"
    "udhcp_add_simple_option p code d = udhcp_add_binary_option p (enc_opt (simple_opt code 4 d) @ [])"
    "code \<noteq> 0" "code \<noteq> 255"
  obtains b where "udhcp_add_simple_option p code d = Some (p\<lparr>options := b\<rparr>)" "has_opts b (os @ [(code, le32 d)])"
    "length b = DHCP_OPTIONS_BUFSIZE"
  using add_binary_fits [OF assms(1,2) opt_ok_simple [of code 4 d], of "[]"] assms(3-6)
  by (simp add: simple_full) metis

lemma simple_codes2:
  "udhcp_add_simple_option p DHCP_ROUTER d = udhcp_add_binary_option p (enc_opt (simple_opt DHCP_ROUTER 4 d) @ [])"
  "udhcp_add_simple_option p DHCP_DNS_SERVER d = udhcp_add_binary_option p (enc_opt (simple_opt DHCP_DNS_SERVER 4 d) @ [])"
  by (simp_all add: udhcp_add_simple_option_def dhcp_optflags_def dhcp_option_lengths_def rd_def enc_opt_def simple_opt_def)

lemma init_packet_spec:
  "\<exists>b. init_packet c old type = Some (reply c old type 0 0 b) \<and> has_opts b (base_opts c type) \<and>
     length b = DHCP_OPTIONS_BUFSIZE"
proof -
  obtain b where b: "udhcp_init_header type = Some (header type b)" "has_opts b [(DHCP_MESSAGE_TYPE, [type])]"
    "length b = DHCP_OPTIONS_BUFSIZE"
    using udhcp_init_header_spec by blast
  let ?p = "(header type b)\<lparr>xid := xid old, chaddr := chaddr old, pkt_flags := pkt_flags old,
         gateway_nip := gateway_nip old, ciaddr := ciaddr old\<rparr>"
  have o1: "options ?p = b" by (simp add: header_def)
  have e: "length (enc_opts [(DHCP_MESSAGE_TYPE, [type])]) + 7 < DHCP_OPTIONS_BUFSIZE" by (simp add: DHCP_OPTIONS_BUFSIZE_def)
  obtain b' where b': "udhcp_add_simple_option ?p DHCP_SERVER_ID (server_nip c) = Some (?p\<lparr>options := b'\<rparr>)"
    "has_opts b' ([(DHCP_MESSAGE_TYPE, [type])] @ [(DHCP_SERVER_ID, le32 (server_nip c))])" "length b' = DHCP_OPTIONS_BUFSIZE"
    by (rule add_simple_fits [of ?p _ DHCP_SERVER_ID "server_nip c", unfolded o1, OF b(2,3) e simple_codes(3)]) simp_all
  have "?p\<lparr>options := b'\<rparr> = reply c old type 0 0 b'"
    by (simp add: reply_def header_def zero_packet_def)
  with b(1) b' show ?thesis by (intro exI [of _ b']) (simp add: init_packet_def base_opts_def)
qed

lemma net_options_spec:
  assumes "has_opts (options p) os" "length (options p) = DHCP_OPTIONS_BUFSIZE" "length (enc_opts os) + 25 < DHCP_OPTIONS_BUFSIZE"
  shows "\<exists>b. net_options c t p = Some (p\<lparr>options := b\<rparr>) \<and> has_opts b (os @ net_opts c t) \<and> length b = DHCP_OPTIONS_BUFSIZE"
proof -
  let ?o = "[(DHCP_LEASE_TIME, le32 (htonl t))]" and ?o2 = "[(DHCP_SUBNET, le32 (htonl (subnet c)))]" and ?o3 = "[(DHCP_ROUTER, le32 (htonl (gw c)))]"
  obtain b1 where b1: "udhcp_add_simple_option p DHCP_LEASE_TIME (htonl t) = Some (p\<lparr>options := b1\<rparr>)"
    "has_opts b1 (os @ ?o)" "length b1 = DHCP_OPTIONS_BUFSIZE"
    by (rule add_simple_fits [OF assms(1,2) _ simple_codes(2)]) (use assms(3) in simp_all)
  obtain b2 where b2: "udhcp_add_simple_option (p\<lparr>options := b1\<rparr>) DHCP_SUBNET (htonl (subnet c)) = Some (p\<lparr>options := b1\<rparr>\<lparr>options := b2\<rparr>)"
    "has_opts b2 ((os @ ?o) @ ?o2)" "length b2 = DHCP_OPTIONS_BUFSIZE"
    by (rule add_simple_fits [of "p\<lparr>options := b1\<rparr>" "os @ ?o", OF _ _ _ simple_codes(1)]) (use assms(3) b1 in simp_all)
  obtain b3 where b3: "udhcp_add_simple_option (p\<lparr>options := b2\<rparr>) DHCP_ROUTER (htonl (gw c)) = Some (p\<lparr>options := b2\<rparr>\<lparr>options := b3\<rparr>)"
    "has_opts b3 (((os @ ?o) @ ?o2) @ ?o3)" "length b3 = DHCP_OPTIONS_BUFSIZE"
    by (rule add_simple_fits [of "p\<lparr>options := b2\<rparr>" "(os @ ?o) @ ?o2", OF _ _ _ simple_codes2(1)]) (use assms(3) b2 in simp_all)
  obtain b4 where b4: "udhcp_add_simple_option (p\<lparr>options := b3\<rparr>) DHCP_DNS_SERVER (htonl (dns c)) = Some (p\<lparr>options := b3\<rparr>\<lparr>options := b4\<rparr>)"
    "has_opts b4 ((((os @ ?o) @ ?o2) @ ?o3) @ [(DHCP_DNS_SERVER, le32 (htonl (dns c)))])" "length b4 = DHCP_OPTIONS_BUFSIZE"
    by (rule add_simple_fits [of "p\<lparr>options := b3\<rparr>" "((os @ ?o) @ ?o2) @ ?o3", OF _ _ _ simple_codes2(2)]) (use assms(3) b3 in simp_all)
  show ?thesis using b1 b2 b3 b4 by (intro exI [of _ b4]) (simp add: net_options_def net_opts_def)
qed

text \<open>The configurations \<open>load_config\<close> makes have no further options and no names.\<close>

definition plain_cfg :: "server_config_t \<Rightarrow> bool" where
  "plain_cfg c \<longleftrightarrow> cfg_options c = [] \<and> cfg_sname c = None \<and> boot_file c = None"

lemma add_server_options_plain:
  "plain_cfg c \<Longrightarrow> add_server_options c p = Some (p\<lparr>siaddr_nip := cfg_siaddr_nip c\<rparr>)"
  by (simp add: add_server_options_def plain_cfg_def copy_name_def)

text \<open>The bytes written for a reply whose options take \<open>n\<close> bytes: at least 300, up to the end marker.\<close>

definition wire :: "dhcp_packet \<Rightarrow> nat \<Rightarrow> bytes" where
  "wire p n = take (max 300 (241 + n)) (packet_bytes p)"

lemma packet_bytes_length:
  "length (chaddr p) = 16 \<Longrightarrow> length (sname p) = 64 \<Longrightarrow> length (file_field p) = 128 \<Longrightarrow> length (options p) = DHCP_OPTIONS_BUFSIZE \<Longrightarrow>
   length (packet_bytes p) = DHCP_SIZE"
  by (simp add: packet_bytes_def le16_def DHCP_SIZE_def DHCP_OPTIONS_BUFSIZE_def)

definition to_client :: "dhcp_packet \<Rightarrow> bool \<Rightarrow> nat \<Rightarrow> dhcpd \<Rightarrow> dhcpd" where
  "to_client p bc n s = s\<lparr>dest_addr := (if bc \<or> pkt_flags p AND htons BROADCAST_FLAG \<noteq> 0 \<or> ciaddr p = 0
       then INADDR_BROADCAST else ciaddr p), dest_port := htons CLIENT_PORT, dhcp_pkt_len := max 300 (241 + n),
     pdhcp_pkt := wire p n @ replicate (DHCP_SIZE - max 300 (241 + n)) 0\<rparr>"

lemma send_packet_client:
  assumes "gateway_nip p = 0" "has_opts (options p) os" "length (options p) = DHCP_OPTIONS_BUFSIZE"
  shows "send_packet p bc s = Some (to_client p bc (length (enc_opts os)) s)"
proof -
  let ?n = "length (enc_opts os)"
  have "?n \<le> 307" using assms(2,3) by (auto simp: has_opts_def DHCP_OPTIONS_BUFSIZE_def)
  then have "DHCP_SIZE - (if DHCP_SIZE - 300 < DHCP_OPTIONS_BUFSIZE - 1 - ?n then DHCP_SIZE - 300 else DHCP_OPTIONS_BUFSIZE - 1 - ?n) =
      max 300 (241 + ?n)"
    by (auto simp: DHCP_SIZE_def DHCP_OPTIONS_BUFSIZE_def max_def)
  then show ?thesis
    unfolding send_packet_def send_packet_to_client_def to_client_def wire_def Let_def
      udhcp_end_option_spec [OF assms(2)] bind.bind_lunit assms(1)
    by (simp only: simp_thms if_False)
qed

lemma write_out_to_client:
  assumes "length (packet_bytes p) = DHCP_SIZE" "n \<le> 307"
  shows "sent (write_out (to_client p bc n s)) = sent s @ [Write (wire p n)]"
  using assms by (simp add: write_out_def to_client_def wire_def DHCP_SIZE_def)

section \<open>The table under every packet\<close>

definition same_table :: "dhcpd \<Rightarrow> dhcpd \<Rightarrow> bool" where
  "same_table s s' \<longleftrightarrow> g_leases s' = g_leases s"

definition table_kept :: "dhcpd \<Rightarrow> dhcpd \<Rightarrow> bool" where
  "table_kept s s' \<longleftrightarrow> (leases_ok (g_leases s) \<longrightarrow> leases_ok (g_leases s')) \<and> length (g_leases s') = length (g_leases s)"

lemma same_table_kept: "g_leases s' = g_leases s \<Longrightarrow> table_kept s s'"
  by (simp add: table_kept_def)

lemma send_packet_table: "send_packet p bc s = Some s' \<Longrightarrow> g_leases s' = g_leases s"
  by (auto simp: send_packet_def send_packet_to_relay_def send_packet_to_client_def Let_def split: if_splits bind_splits)

lemma finish_offer_table: "finish_offer e old p s = Some s' \<Longrightarrow> g_leases s' = g_leases s"
  by (auto simp: finish_offer_def send_packet_table split: bind_splits)

lemma write_out_table [simp]: "g_leases (write_out s) = g_leases s"
  by (simp add: write_out_def)

lemma free_step_same: "free_step sta c t m a old s = Some (s', r) \<Longrightarrow> s' = s"
  by (auto simp: free_step_def nobody_responds_to_arp_def arpping_def Let_def split: if_splits option.splits bind_splits)

lemma free_loop_same: "free_loop sta c t m stop a old s = Some (s', r) \<Longrightarrow> s' = s"
proof (induction sta c t m stop a old s rule: free_loop.induct)
  case (1 sta c t m stop a old s)
  note u = "1.prems" [unfolded free_loop.simps [of sta c t m stop a old s]]
  from u obtain s1 x where "free_step sta c t m a old s = Some (s1, x)"
    by (cases "free_step sta c t m a old s") auto
  with free_step_same have x: "free_step sta c t m a old s = Some (s, x)" by metis
  show ?case
  proof (cases x)
    case (Inl n)
    with u x show ?thesis by simp
  next
    case (Inr o')
    with u x "1.IH" [OF x refl Inr] show ?thesis
      by (simp split: if_splits option.splits bind_splits)
  qed
qed

lemma add_lease_kept:
  assumes "add_lease t (Some m) nip lt name len s = Some (s', r)" "6 \<le> length m"
  shows "table_kept s s'"
proof -
  have "length (g_leases s') = length (g_leases s)"
  proof (cases "oldest_expired_lease t (clear_leases (Some m) nip (g_leases s))")
    case None
    with assms(1) show ?thesis by (auto simp: add_lease_full)
  next
    case (Some i)
    with assms(1) show ?thesis by (auto simp: add_lease_at [OF Some] split: bind_splits)
  qed
  then show ?thesis using add_lease_ok [OF assms(1)] assms(2) by (auto simp: table_kept_def)
qed

lemma offer_address_same: "offer_address e old lease req s = Some (s', r) \<Longrightarrow> s' = s"
  by (auto simp: offer_address_def find_free_or_expired_nip_def free_loop_same split: option.splits bind_splits if_splits)

lemma init_packet_chaddr: "init_packet c old type = Some p \<Longrightarrow> chaddr p = chaddr old"
  using init_packet_spec [of c old type] by (auto simp: reply_def)

lemma send_offer_kept:
  assumes "send_offer e old st lease req s = Some s'" "length (chaddr old) = 16"
  shows "table_kept s s'"
proof (cases "mem_ok e")
  case True
  then obtain p where p: "init_packet (cfg e) old DHCPOFFER = Some p" "chaddr p = chaddr old"
    using assms(1) init_packet_chaddr by (auto simp: send_offer_def split: bind_splits)
  show ?thesis
  proof (cases "st = 0")
    case False
    then show ?thesis using assms(1) True p by (intro same_table_kept) (auto simp: send_offer_def finish_offer_table)
  next
    case st: True
    obtain nip where nip: "offer_address e old lease req s = Some (s, nip)"
      using assms(1) True p st offer_address_same by (auto simp: send_offer_def split: bind_splits)
    show ?thesis
    proof (cases "nip = 0")
      case True
      then show ?thesis using assms(1) \<open>mem_ok e\<close> p st nip by (simp add: send_offer_def table_kept_def)
    next
      case False
      obtain name len s1 r where a: "add_lease (now e) (Some (chaddr old)) nip (offer_time (cfg e)) name len s = Some (s1, r)"
        "(case r of None \<Rightarrow> Some s1 | Some _ \<Rightarrow> finish_offer e old (p\<lparr>yiaddr := nip\<rparr>) s1) = Some s'"
        using assms(1) \<open>mem_ok e\<close> p st nip False by (auto simp: send_offer_def split: bind_splits)
      have "g_leases s' = g_leases s1" using a(2) finish_offer_table by (auto split: option.splits)
      then show ?thesis using add_lease_kept [OF a(1)] assms(2) by (simp add: table_kept_def)
    qed
  qed
qed (use assms(1) in \<open>simp add: send_offer_def table_kept_def\<close>)

lemma unique_on_same:
  assumes "unique_on f z ls" "i < length ls" "f x = f (ls ! i)"
  shows "unique_on f z (ls[i := x])"
proof -
  have "f (ls[i := x] ! j) = f (ls ! j)" if "j < length ls" for j
    using assms(2,3) that by (cases "j = i") auto
  then show ?thesis using assms(1) by (simp add: unique_on_def)
qed

lemma leases_ok_put:
  assumes "leases_ok ls" "i < length ls" "lease_nip x = lease_nip (ls ! i)"
    "lease_mac x = lease_mac (ls ! i) \<or> lease_mac x = zero_mac" "lease_ok x"
  shows "leases_ok (ls[i := x])"
proof -
  have "unique_on lease_mac zero_mac (ls[i := x])"
    using assms(1,2,4) unique_on_same [of lease_mac zero_mac ls i x] unique_on_put [of lease_mac zero_mac ls x i]
    by (auto simp: leases_ok_def)
  moreover have "unique_on lease_nip 0 (ls[i := x])"
    using assms(1-3) by (intro unique_on_same) (auto simp: leases_ok_def)
  moreover have "list_all lease_ok (ls[i := x])"
    using assms(1,5) by (auto simp: leases_ok_def list_all_iff dest!: set_update_subset_insert [THEN subsetD])
  ultimately show ?thesis by (simp add: leases_ok_def)
qed

lemma set_lease_kept:
  assumes "set_lease r f s = Some s'" "\<And>l. lease_nip (f l) = lease_nip l"
    "\<And>l. lease_mac (f l) = lease_mac l \<or> lease_mac (f l) = zero_mac" "\<And>l. lease_ok l \<Longrightarrow> lease_ok (f l)"
  shows "table_kept s s'"
proof (cases r)
  case (Fake l)
  with assms(1) show ?thesis by (simp add: set_lease_def table_kept_def)
next
  case (Entry i)
  with assms(1) have i: "i < length (g_leases s)" "s' = s\<lparr>g_leases := (g_leases s)[i := f (g_leases s ! i)]\<rparr>"
    by (auto simp: set_lease_def rd_eq_Some_iff wr_eq_Some_iff split: bind_splits)
  have "lease_ok (f (g_leases s ! i))" if "leases_ok (g_leases s)"
    using that i(1) assms(4) by (auto simp: leases_ok_def list_all_length)
  then show ?thesis using i assms(2,3) leases_ok_put [of "g_leases s" i "f (g_leases s ! i)"] by (simp add: table_kept_def)
qed

lemma send_NAK_kept: "send_NAK e old s = Some s' \<Longrightarrow> table_kept s s'"
  by (auto simp: send_NAK_def send_packet_table table_kept_def split: if_splits bind_splits)

lemma send_inform_kept: "send_inform e old s = Some s' \<Longrightarrow> table_kept s s'"
  by (auto simp: send_inform_def send_packet_table table_kept_def split: if_splits bind_splits)

lemma add_options_chaddr: "add_config_options ds p = Some p' \<Longrightarrow> chaddr p' = chaddr p"
proof (induction ds arbitrary: p)
  case (Cons d ds)
  have "udhcp_add_binary_option p d = Some q \<Longrightarrow> chaddr q = chaddr p" for p q
    by (auto simp: udhcp_add_binary_option_def Let_def split: if_splits bind_splits)
  with Cons show ?case by (fastforce split: bind_splits if_splits)
qed simp

lemma simple_chaddr: "udhcp_add_simple_option p c d = Some p' \<Longrightarrow> chaddr p' = chaddr p"
  by (auto simp: udhcp_add_simple_option_def udhcp_add_binary_option_def Let_def split: if_splits bind_splits option.splits)

lemma net_options_chaddr: "net_options c t p = Some p' \<Longrightarrow> chaddr p' = chaddr p"
  by (auto simp: net_options_def dest!: simple_chaddr split: bind_splits)

lemma server_options_chaddr: "add_server_options c p = Some p' \<Longrightarrow> chaddr p' = chaddr p"
  by (auto simp: add_server_options_def Let_def dest!: add_options_chaddr split: bind_splits)

lemma send_ACK_kept:
  assumes "send_ACK e old nip s = Some s'" "length (chaddr old) = 16"
  shows "table_kept s s'"
proof (cases "mem_ok e")
  case True
  then obtain p t p2 p3 s1 name len r where
    "init_packet (cfg e) old DHCPACK = Some p" "net_options (cfg e) t (p\<lparr>yiaddr := nip\<rparr>) = Some p2"
    "add_server_options (cfg e) p2 = Some p3" "send_packet p3 False s = Some s1"
    and a: "add_lease (now e) (Some (chaddr p3)) (yiaddr p3) t name len s1 = Some (s', r)"
    using assms(1) by (auto simp: send_ACK_def split: bind_splits)
  moreover from this have "chaddr p3 = chaddr old" "g_leases s1 = g_leases s"
    using init_packet_chaddr net_options_chaddr server_options_chaddr send_packet_table by simp_all
  ultimately show ?thesis using add_lease_kept [OF a] assms(2) by (simp add: table_kept_def)
qed (use assms(1) in \<open>simp add: send_ACK_def table_kept_def\<close>)

lemma write_out_kept: "table_kept s s' \<Longrightarrow> table_kept s (write_out s')"
  by (simp add: table_kept_def)

lemma handle_packet_kept:
  assumes "handle_packet e p s = Some s'" "length (chaddr p) = 16"
  shows "table_kept s s'"
proof -
  have same: "table_kept s s" by (simp add: table_kept_def)
  obtain lease req sid st requested ty where
    "(if ty = DHCPDISCOVER then map_option write_out (send_offer e p st lease req s)
       else if ty = DHCPREQUEST then on_request e p lease sid requested s
       else if ty = DHCPDECLINE then on_decline e lease sid requested s
       else if ty = DHCPRELEASE then on_release e p lease sid s
       else if ty = DHCPINFORM then map_option write_out (send_inform e p s)
       else Some s) = Some s'"
    using assms(1) by (auto simp: handle_packet_def Let_def split: bind_splits)
  moreover have "on_request e p lease sid requested s = Some s' \<Longrightarrow> table_kept s s'"
    using same assms(2) by (auto simp: on_request_def Let_def send_ACK_kept send_NAK_kept write_out_kept
        split: if_splits bind_splits option.splits)
  moreover have "on_decline e lease sid requested s = Some s' \<Longrightarrow> table_kept s s'"
    using same by (auto simp: on_decline_def lease_ok_def split: option.splits bind_splits if_splits intro!: set_lease_kept)
  moreover have "on_release e p lease sid s = Some s' \<Longrightarrow> table_kept s s'"
    using same by (auto simp: on_release_def lease_ok_def split: option.splits bind_splits if_splits intro!: set_lease_kept)
  ultimately show ?thesis
    using same send_offer_kept assms(2) send_inform_kept by (auto split: if_splits intro: write_out_kept)
qed

lemma udhcpd_loop_kept:
  "udhcpd_loop rs s = Some s' \<Longrightarrow> \<forall>(e, n, p)\<in>set rs. length (chaddr p) = 16 \<Longrightarrow> table_kept s s'"
proof (induction rs s rule: udhcpd_loop.induct)
  case (2 e n p rs s)
  show ?case
  proof (cases "udhcp_recv_kernel_packet n p < 0")
    case True
    with 2 show ?thesis by simp
  next
    case False
    with "2.prems" obtain s1 where "handle_packet e p s = Some s1" "udhcpd_loop rs s1 = Some s'" by (auto split: bind_splits)
    with 2(2) [OF False] "2.prems" handle_packet_kept [of e p s s1] show ?thesis by (auto simp: table_kept_def)
  qed
qed (simp add: table_kept_def)

section \<open>What is sent\<close>

definition is_reply :: "server_config_t \<Rightarrow> dhcp_packet \<Rightarrow> u8 \<Rightarrow> u32 \<Rightarrow> u32 \<Rightarrow> dhcp_option list \<Rightarrow> dhcp_packet \<Rightarrow> bool" where
  "is_reply c old type nip si os q \<longleftrightarrow> (\<exists>b. q = reply c old type nip si b \<and> has_opts b os \<and> length b = DHCP_OPTIONS_BUFSIZE)"

text \<open>The lease time granted: the one asked for, kept between the configured bounds.\<close>

definition granted :: "server_config_t \<Rightarrow> dhcp_option list \<Rightarrow> u32" where
  "granted c os = (case map_of os DHCP_LEASE_TIME of None \<Rightarrow> max_lease_sec c
     | Some d \<Rightarrow> max (min_lease_sec c) (min (max_lease_sec c) (ntohl (of_le32 d))))"

lemma select_lease_time_spec:
  assumes "request p os"
  shows "select_lease_time c p = Some (granted c os)"
  using request_u32 [OF assms, of DHCP_LEASE_TIME]
  by (auto simp: select_lease_time_def granted_def Let_def min_def max_def not_less dest: not_less_iff_gr_or_eq [THEN iffD1] split: option.splits)

lemma reply_simps [simp]:
  "gateway_nip (reply c old type nip si b) = gateway_nip old" "options (reply c old type nip si b) = b"
  "chaddr (reply c old type nip si b) = chaddr old" "yiaddr (reply c old type nip si b) = nip"
  "length (sname (reply c old type nip si b)) = 64" "length (file_field (reply c old type nip si b)) = 128"
  by (simp_all add: reply_def header_def zero_packet_def)

lemma reply_upd:
  "(reply c old type nip si b)\<lparr>yiaddr := nip'\<rparr> = reply c old type nip' si b"
  "(reply c old type nip si b)\<lparr>siaddr_nip := si'\<rparr> = reply c old type nip si' b"
  "(reply c old type nip si b)\<lparr>options := b'\<rparr> = reply c old type nip si b'"
  by (simp_all add: reply_def header_def)

lemma send_reply:
  assumes "is_reply c old type nip si os q" "gateway_nip old = 0" "length (chaddr old) = 16"
  shows "send_packet q bc s = Some (to_client q bc (length (enc_opts os)) s)"
    "sent (write_out (to_client q bc (length (enc_opts os)) s)) = sent s @ [Write (wire q (length (enc_opts os)))]"
    "chaddr q = chaddr old" "yiaddr q = nip"
proof -
  obtain b where b: "q = reply c old type nip si b" "has_opts b os" "length b = DHCP_OPTIONS_BUFSIZE"
    using assms(1) by (auto simp: is_reply_def)
  show "chaddr q = chaddr old" "yiaddr q = nip" by (simp_all add: b(1))
  show "send_packet q bc s = Some (to_client q bc (length (enc_opts os)) s)"
    using b assms(2) by (intro send_packet_client) simp_all
  have "length (enc_opts os) \<le> 307" using b(2,3) by (auto simp: has_opts_def DHCP_OPTIONS_BUFSIZE_def)
  moreover have "length (packet_bytes q) = DHCP_SIZE" using b assms(3) by (intro packet_bytes_length) simp_all
  ultimately show "sent (write_out (to_client q bc (length (enc_opts os)) s)) = sent s @ [Write (wire q (length (enc_opts os)))]"
    by (rule write_out_to_client [rotated])
qed

definition lease_opts :: "server_config_t \<Rightarrow> u8 \<Rightarrow> u32 \<Rightarrow> dhcp_option list" where
  "lease_opts c type t = base_opts c type @ net_opts c t"

lemma opts_length [simp]: "length (enc_opts (base_opts c type)) = 9" "length (enc_opts (lease_opts c type t)) = 33"
  by (simp_all add: base_opts_def lease_opts_def net_opts_def)

text \<open>The packet of an OFFER or an ACK.\<close>

lemma lease_packet:
  assumes "plain_cfg c" "init_packet c old type = Some p"
  shows "\<exists>p1 q. net_options c t (p\<lparr>yiaddr := nip\<rparr>) = Some p1 \<and> add_server_options c p1 = Some q \<and>
    is_reply c old type nip (cfg_siaddr_nip c) (lease_opts c type t) q"
proof -
  obtain b where b: "p = reply c old type 0 0 b" "has_opts b (base_opts c type)" "length b = DHCP_OPTIONS_BUFSIZE"
    using init_packet_spec [of c old type] assms(2) by auto
  let ?p = "reply c old type nip 0 b"
  have pre: "has_opts (options ?p) (base_opts c type)" "length (options ?p) = DHCP_OPTIONS_BUFSIZE"
    "length (enc_opts (base_opts c type)) + 25 < DHCP_OPTIONS_BUFSIZE"
    using b by (simp_all add: DHCP_OPTIONS_BUFSIZE_def)
  obtain b1 where b1: "net_options c t ?p = Some (?p\<lparr>options := b1\<rparr>)" "has_opts b1 (lease_opts c type t)"
    "length b1 = DHCP_OPTIONS_BUFSIZE"
    using net_options_spec [OF pre, of c t] by (auto simp: lease_opts_def)
  show ?thesis
    using b1 assms(1) by (auto simp: b(1) reply_upd add_server_options_plain is_reply_def)
qed

lemma add_lease_frame:
  assumes "add_lease t mac nip lt name len (s :: dhcpd) = Some (s', r)"
  shows "sent s' = sent s" "dhcp_pkt_len s' = dhcp_pkt_len s" "pdhcp_pkt s' = pdhcp_pkt s"
proof -
  obtain ls ii where "s' = s\<lparr>g_leases := ls, ip_info := ii\<rparr>"
  proof (cases "oldest_expired_lease t (clear_leases mac nip (g_leases s))")
    case None
    with assms that [of "ip_info s" "clear_leases mac nip (g_leases s)"] show ?thesis by (auto simp: add_lease_full)
  next
    case (Some i)
    with assms that show ?thesis by (auto simp: add_lease_at [OF Some] split: bind_splits)
  qed
  then show "sent s' = sent s" "dhcp_pkt_len s' = dhcp_pkt_len s" "pdhcp_pkt s' = pdhcp_pkt s" by simp_all
qed

lemma write_out_cong:
  "sent s' = sent s \<Longrightarrow> dhcp_pkt_len s' = dhcp_pkt_len s \<Longrightarrow> pdhcp_pkt s' = pdhcp_pkt s \<Longrightarrow> sent (write_out s') = sent (write_out s)"
  by (simp add: write_out_def)

lemma to_client_table [simp]: "g_leases (to_client q bc n s) = g_leases s"
  by (simp add: to_client_def)

section \<open>ACK and NAK\<close>

text \<open>A server able to answer a client on its own network, with no static lease for it.\<close>

definition serves :: "dhcpd_env \<Rightarrow> dhcp_packet \<Rightarrow> bool" where
  "serves e p \<longleftrightarrow> plain_cfg (cfg e) \<and> mem_ok e \<and> gateway_nip p = 0 \<and> 0 < now e \<and>
     get_static_nip_by_mac (static_leases (cfg e)) (chaddr p) = 0 \<and> take 6 (chaddr p) \<noteq> zero_mac"

abbreviation ack_packet :: "dhcpd_env \<Rightarrow> dhcp_packet \<Rightarrow> dhcp_option list \<Rightarrow> u32 \<Rightarrow> dhcp_packet \<Rightarrow> bool" where
  "ack_packet e p os nip q \<equiv> is_reply (cfg e) p DHCPACK nip (cfg_siaddr_nip (cfg e))
     (lease_opts (cfg e) DHCPACK (granted (cfg e) os)) q"

abbreviation offer_packet :: "dhcpd_env \<Rightarrow> dhcp_packet \<Rightarrow> dhcp_option list \<Rightarrow> u32 \<Rightarrow> dhcp_packet \<Rightarrow> bool" where
  "offer_packet e p os nip q \<equiv> is_reply (cfg e) p DHCPOFFER nip (cfg_siaddr_nip (cfg e))
     (lease_opts (cfg e) DHCPOFFER (granted (cfg e) os)) q"

lemma add_lease_room:
  assumes "i < length (g_leases s)" "lease_mac (g_leases s ! i) = take 6 m \<or> nip \<noteq> 0 \<and> lease_nip (g_leases s ! i) = nip"
    "0 < t" "add_lease t (Some m) nip lt name len s = Some (s', r)"
  shows "r \<noteq> None"
proof -
  let ?ls = "clear_leases (Some m) nip (g_leases s)"
  have "?ls ! i = zero_lease" "i < length ?ls" using assms(1,2) by (auto simp: clear_leases_def)
  then have "zero_lease \<in> set ?ls" by (metis nth_mem)
  moreover have "\<not> t \<le> expires zero_lease" using assms(3) by (simp add: not_le)
  ultimately have "oldest_expired_lease t ?ls \<noteq> None" unfolding oldest_expired_None by blast
  then obtain k where k: "oldest_expired_lease t ?ls = Some k" by auto
  show ?thesis using assms(4) by (auto simp: add_lease_at [OF k] split: bind_splits)
qed

lemma send_ACK_spec:
  assumes "request p os" "serves e p" "leases_ok (g_leases s)" "nip \<noteq> 0"
    "i < length (g_leases s)" "lease_mac (g_leases s ! i) = take 6 (chaddr p)"
  shows "\<exists>s' q j. send_ACK e p nip s = Some s' \<and> ack_packet e p os nip q \<and> sent (write_out s') = sent s @ [Write (wire q 33)] \<and>
    leases_ok (g_leases s') \<and> find_lease_by_mac (g_leases s') (chaddr p) = Some j \<and> lease_nip (g_leases s' ! j) = nip \<and>
    expires (g_leases s' ! j) = now e + granted (cfg e) os"
proof -
  have pl: "plain_cfg (cfg e)" and gw: "gateway_nip p = 0" and mac: "take 6 (chaddr p) \<noteq> zero_mac" and nw: "0 < now e"
    and mem: "mem_ok e" using assms(2) by (auto simp: serves_def)
  have len: "length (chaddr p) = 16" using assms(1) by (rule request_opts)
  let ?t = "granted (cfg e) os"
  obtain p0 where p0: "init_packet (cfg e) p DHCPACK = Some p0" using init_packet_spec by blast
  obtain p1 q where q: "net_options (cfg e) ?t (p0\<lparr>yiaddr := nip\<rparr>) = Some p1" "add_server_options (cfg e) p1 = Some q"
    "ack_packet e p os nip q"
    using lease_packet [OF pl p0] by blast
  note sr = send_reply [OF q(3) gw len]
  obtain name l where h: "host_name p = Some (name, l)" "name_readable name l" using request_host_name [OF assms(1)] by blast
  let ?s = "to_client q False 33 s"
  obtain s' r where a: "add_lease (now e) (Some (chaddr p)) nip ?t name l ?s = Some (s', r)"
    using add_lease_total [OF h(2), of ?s "now e" "Some (chaddr p)" nip ?t] assms(3) by auto
  then have "r \<noteq> None" using add_lease_room [OF _ _ nw a, of i] assms(5,6) by simp
  then obtain j where "r = Some j" by auto
  with a have a: "add_lease (now e) (Some (chaddr p)) nip ?t name l ?s = Some (s', Some j)" by simp
  have ok: "leases_ok (g_leases ?s)" using assms(3) by simp
  note sp = add_lease_spec [OF a ok _ mac assms(4)]
  have six: "6 \<le> length (chaddr p)" "\<forall>m. Some (chaddr p) = Some m \<longrightarrow> 6 \<le> length m" using len by simp_all
  have "send_ACK e p nip s = Some s'"
    using mem p0 q(1,2) sr h a by (simp add: send_ACK_def select_lease_time_spec [OF assms(1)])
  moreover have "sent (write_out s') = sent s @ [Write (wire q 33)]"
    using write_out_cong [OF add_lease_frame [OF a]] sr(2) by simp
  moreover have "leases_ok (g_leases s')" using add_lease_ok [OF a ok six(2)] by simp
  ultimately show ?thesis using q(3) sp(1,4,6) [OF six(1)] by blast
qed

lemma send_NAK_spec:
  assumes "mem_ok e" "gateway_nip p = 0" "length (chaddr p) = 16"
  shows "\<exists>s' q. send_NAK e p s = Some s' \<and> is_reply (cfg e) p DHCPNAK 0 0 (base_opts (cfg e) DHCPNAK) q \<and>
    sent (write_out s') = sent s @ [Write (wire q 9)] \<and> dest_addr s' = INADDR_BROADCAST \<and> g_leases s' = g_leases s"
proof -
  obtain q where q: "init_packet (cfg e) p DHCPNAK = Some q" "is_reply (cfg e) p DHCPNAK 0 0 (base_opts (cfg e) DHCPNAK) q"
    using init_packet_spec [of "cfg e" p DHCPNAK] by (auto simp: is_reply_def)
  note sr = send_reply [OF q(2) assms(2,3)]
  have "send_NAK e p s = Some (to_client q True 9 s)" using assms(1) q(1) sr(1) by (simp add: send_NAK_def)
  moreover have "dest_addr (to_client q True 9 s) = INADDR_BROADCAST" by (simp add: to_client_def)
  ultimately show ?thesis using sr(2) q(2) by auto
qed

text \<open>The head of \<open>handle_packet\<close> on a well-formed request.\<close>

definition asked :: "dhcp_option list \<Rightarrow> u8 \<Rightarrow> u32 option" where
  "asked os code = map_option of_le32 (map_of os code)"

lemma handle_packet_request:
  assumes "request p os" "map_of os DHCP_MESSAGE_TYPE = Some [ty]" "serves e p"
  obtains sid req where "(sid = None) = (map_of os DHCP_SERVER_ID = None)"
    "case req of None \<Rightarrow> map_of os DHCP_REQUESTED_IP = None
     | Some q \<Rightarrow> \<exists>d. map_of os DHCP_REQUESTED_IP = Some d \<and> pkt_u32 p q = Some (of_le32 d)"
    "handle_packet e p s = (let lease = map_option Entry (find_lease_by_mac (g_leases s) (chaddr p)) in
       if ty = DHCPDISCOVER then map_option write_out (send_offer e p 0 lease req s)
       else if ty = DHCPREQUEST then on_request e p lease sid (asked os DHCP_REQUESTED_IP) s
       else if ty = DHCPDECLINE then on_decline e lease sid (asked os DHCP_REQUESTED_IP) s
       else if ty = DHCPRELEASE then on_release e p lease sid s
       else if ty = DHCPINFORM then map_option write_out (send_inform e p s)
       else Some s)"
proof -
  obtain q where q: "udhcp_get_option p DHCP_MESSAGE_TYPE = Some (Some q)" "pkt_byte p q = Some ty"
    using request_type [OF assms(1,2)] by blast
  obtain sid where sid: "udhcp_get_option p DHCP_SERVER_ID = Some sid" "(sid = None) = (map_of os DHCP_SERVER_ID = None)"
    "\<forall>q. sid = Some q \<longrightarrow> pkt_u32 p q \<noteq> None"
    using request_u32 [OF assms(1), of DHCP_SERVER_ID] by (auto split: option.splits)
  obtain req where req: "udhcp_get_option p DHCP_REQUESTED_IP = Some req"
    "case req of None \<Rightarrow> map_of os DHCP_REQUESTED_IP = None
     | Some q \<Rightarrow> \<exists>d. map_of os DHCP_REQUESTED_IP = Some d \<and> pkt_u32 p q = Some (of_le32 d)"
    using request_u32 [OF assms(1), of DHCP_REQUESTED_IP] by (auto split: option.splits)
  have r: "(case req of None \<Rightarrow> Some None | Some q \<Rightarrow> map_option Some (pkt_u32 p q)) = Some (asked os DHCP_REQUESTED_IP)"
    using req(2) by (auto simp: asked_def split: option.splits)
  have st: "get_static_nip_by_mac (static_leases (cfg e)) (chaddr p) = 0" using assms(3) by (simp add: serves_def)
  obtain x where x: "(case sid of None \<Rightarrow> Some 0 | Some q \<Rightarrow> pkt_u32 p q) = Some x"
    using sid(3) by (cases sid) auto
  show ?thesis
    by (rule that [OF sid(2) req(2)])
      (simp add: handle_packet_def q sid(1) x req(1) r st client_lease_def Let_def)
qed

definition wanted :: "dhcp_packet \<Rightarrow> dhcp_option list \<Rightarrow> u32" where
  "wanted p os = (case asked os DHCP_REQUESTED_IP of None \<Rightarrow> ciaddr p | Some nip \<Rightarrow> nip)"

lemma request_acked:
  assumes "request p os" "map_of os DHCP_MESSAGE_TYPE = Some [DHCPREQUEST]" "serves e p" "leases_ok (g_leases s)"
    "find_lease_by_mac (g_leases s) (chaddr p) = Some i" "lease_nip (g_leases s ! i) = wanted p os" "wanted p os \<noteq> 0"
  shows "\<exists>s' q j. handle_packet e p s = Some s' \<and> ack_packet e p os (wanted p os) q \<and>
    sent s' = sent s @ [Write (wire q 33)] \<and> leases_ok (g_leases s') \<and>
    find_lease_by_mac (g_leases s') (chaddr p) = Some j \<and> lease_nip (g_leases s' ! j) = wanted p os \<and>
    expires (g_leases s' ! j) = now e + granted (cfg e) os"
proof -
  obtain sid req where h: "handle_packet e p s = (let lease = map_option Entry (find_lease_by_mac (g_leases s) (chaddr p)) in
       if DHCPREQUEST = DHCPDISCOVER then map_option write_out (send_offer e p 0 lease req s)
       else if DHCPREQUEST = DHCPREQUEST then on_request e p lease sid (asked os DHCP_REQUESTED_IP) s
       else if DHCPREQUEST = DHCPDECLINE then on_decline e lease sid (asked os DHCP_REQUESTED_IP) s
       else if DHCPREQUEST = DHCPRELEASE then on_release e p lease sid s
       else if DHCPREQUEST = DHCPINFORM then map_option write_out (send_inform e p s)
       else Some s)"
    by (rule handle_packet_request [OF assms(1-3)])
  note i = find_mac_Some [OF assms(5)]
  obtain s' q j where a: "send_ACK e p (wanted p os) s = Some s'" "ack_packet e p os (wanted p os) q"
    "sent (write_out s') = sent s @ [Write (wire q 33)]" "leases_ok (g_leases s')"
    "find_lease_by_mac (g_leases s') (chaddr p) = Some j" "lease_nip (g_leases s' ! j) = wanted p os"
    "expires (g_leases s' ! j) = now e + granted (cfg e) os"
    using send_ACK_spec [OF assms(1,3,4,7), of i] i by blast
  have "handle_packet e p s = Some (write_out s')"
    using h assms(5-7) i a(1) by (simp add: on_request_def wanted_def rd_def Let_def)
  then show ?thesis using a by auto
qed

lemma request_not_acked:
  assumes "request p os" "map_of os DHCP_MESSAGE_TYPE = Some [DHCPREQUEST]" "serves e p"
    "\<And>i. find_lease_by_mac (g_leases s) (chaddr p) = Some i \<Longrightarrow> lease_nip (g_leases s ! i) \<noteq> wanted p os"
    "map_of os DHCP_REQUESTED_IP \<noteq> None \<or> ciaddr p \<noteq> 0"
  shows "\<exists>s'. handle_packet e p s = Some s' \<and> g_leases s' = g_leases s \<and>
    (if map_of os DHCP_SERVER_ID = None \<and> map_of os DHCP_REQUESTED_IP = None then s' = s
     else \<exists>q. is_reply (cfg e) p DHCPNAK 0 0 (base_opts (cfg e) DHCPNAK) q \<and>
       sent s' = sent s @ [Write (wire q 9)] \<and> dest_addr s' = INADDR_BROADCAST)"
proof -
  obtain sid req where sid: "(sid = None) = (map_of os DHCP_SERVER_ID = None)" and
    h: "handle_packet e p s = (let lease = map_option Entry (find_lease_by_mac (g_leases s) (chaddr p)) in
       if DHCPREQUEST = DHCPDISCOVER then map_option write_out (send_offer e p 0 lease req s)
       else if DHCPREQUEST = DHCPREQUEST then on_request e p lease sid (asked os DHCP_REQUESTED_IP) s
       else if DHCPREQUEST = DHCPDECLINE then on_decline e lease sid (asked os DHCP_REQUESTED_IP) s
       else if DHCPREQUEST = DHCPRELEASE then on_release e p lease sid s
       else if DHCPREQUEST = DHCPINFORM then map_option write_out (send_inform e p s)
       else Some s)"
    by (rule handle_packet_request [OF assms(1-3)])
  have a: "(asked os DHCP_REQUESTED_IP = None) = (map_of os DHCP_REQUESTED_IP = None)" by (simp add: asked_def)
  obtain s' q where n: "send_NAK e p s = Some s'" "is_reply (cfg e) p DHCPNAK 0 0 (base_opts (cfg e) DHCPNAK) q"
    "sent (write_out s') = sent s @ [Write (wire q 9)]" "dest_addr s' = INADDR_BROADCAST" "g_leases s' = g_leases s"
    using send_NAK_spec [of e p s] assms(1,3) request_opts(4) [OF assms(1)] by (auto simp: serves_def)
  have "handle_packet e p s = on_request e p (map_option Entry (find_lease_by_mac (g_leases s) (chaddr p))) sid (asked os DHCP_REQUESTED_IP) s"
    using h by (simp add: Let_def)
  also have "\<dots> = (if sid \<noteq> None \<or> asked os DHCP_REQUESTED_IP \<noteq> None then map_option write_out (send_NAK e p s) else Some s)"
  proof -
    have "(case asked os DHCP_REQUESTED_IP of None \<Rightarrow> ciaddr p | Some nip \<Rightarrow> nip) = wanted p os" by (simp add: wanted_def)
    moreover have "\<not> (asked os DHCP_REQUESTED_IP = None \<and> wanted p os = 0)" using assms(5) a by (auto simp: wanted_def)
    moreover have "(case map_option Entry (find_lease_by_mac (g_leases s) (chaddr p)) of None \<Rightarrow> Some None
          | Some r \<Rightarrow> do { l \<leftarrow> deref (g_leases s) r; Some (if wanted p os = lease_nip l then Some (lease_nip l) else None) }) = Some None"
      using assms(4) find_mac_Some [of "g_leases s" "chaddr p"] by (auto simp: rd_def split: option.splits)
    ultimately show ?thesis by (auto simp: on_request_def Let_def)
  qed
  finally show ?thesis using n a sid by (auto simp: write_out_def)
qed

section \<open>OFFER\<close>

lemma offer_address_total:
  assumes "start_ip (cfg e) \<le> end_ip (cfg e)"
    "case req of None \<Rightarrow> True | Some q \<Rightarrow> pkt_u32 p q \<noteq> None"
  shows "\<exists>nip. offer_address e p (map_option Entry (find_lease_by_mac (g_leases s) (chaddr p))) req s = Some (s, nip)"
proof (cases "find_lease_by_mac (g_leases s) (chaddr p)")
  case (Some i)
  then show ?thesis using find_mac_Some [OF Some] by (simp add: offer_address_def rd_def)
next
  case None
  obtain x where x: "find_free_or_expired_nip (sta_index e) (cfg e) (now e) (chaddr p) s = Some (s, x)"
    using find_free_spec [OF assms(1)] by blast
  show ?thesis
  proof (cases req)
    case None
    then show ?thesis using \<open>find_lease_by_mac _ _ = None\<close> x by (simp add: offer_address_def)
  next
    case (Some q)
    with assms(2) obtain v where v: "pkt_u32 p q = Some v" by auto
    then show ?thesis
      using \<open>find_lease_by_mac _ _ = None\<close> Some x find_nip_Some [of "g_leases s" v]
      by (auto simp: offer_address_def rd_def split: option.splits)
  qed
qed

text \<open>An offer of an address: it is entered in the table and sent, or the table is full.\<close>

lemma offer_made:
  assumes "request p os" "serves e p" "leases_ok (g_leases s)" "offer_address e p l req s = Some (s, nip)" "nip \<noteq> 0"
  shows "\<exists>s1. send_offer e p 0 l req s = Some s1 \<and>
    ((\<exists>q j. offer_packet e p os nip q \<and> sent (write_out s1) = sent s @ [Write (wire q 33)] \<and> leases_ok (g_leases s1) \<and>
        find_lease_by_mac (g_leases s1) (chaddr p) = Some j \<and> lease_nip (g_leases s1 ! j) = nip) \<or>
     sent (write_out s1) = sent s @ [Write (take (dhcp_pkt_len s) (pdhcp_pkt s))])"
proof -
  have pl: "plain_cfg (cfg e)" and gw: "gateway_nip p = 0" and mac: "take 6 (chaddr p) \<noteq> zero_mac" and mem: "mem_ok e"
    using assms(2) by (auto simp: serves_def)
  have len: "length (chaddr p) = 16" using assms(1) by (rule request_opts)
  obtain p0 where p0: "init_packet (cfg e) p DHCPOFFER = Some p0" using init_packet_spec by blast
  note p0c = init_packet_chaddr [OF p0]
  obtain name n where hn: "host_name p = Some (name, n)" "name_readable name n" using request_host_name [OF assms(1)] by blast
  obtain s' r where a: "add_lease (now e) (Some (chaddr p)) nip (offer_time (cfg e)) name n s = Some (s', r)"
    using add_lease_total [OF hn(2) assms(3), of "now e" "Some (chaddr p)" nip "offer_time (cfg e)"] by auto
  note fr = add_lease_frame [OF a]
  have six: "6 \<le> length (chaddr p)" "\<forall>m. Some (chaddr p) = Some m \<longrightarrow> 6 \<le> length m" using len by simp_all
  show ?thesis
  proof (cases r)
    case None
    then have "send_offer e p 0 l req s = Some s'"
      using mem p0 assms(4,5) hn a p0c by (simp add: send_offer_def Let_def)
    then show ?thesis using fr by (simp add: write_out_def)
  next
    case (Some j)
    note sp = add_lease_spec [OF a [unfolded Some] assms(3) six(1) mac assms(5)]
    obtain p1 q where q: "net_options (cfg e) (granted (cfg e) os) (p0\<lparr>yiaddr := nip\<rparr>) = Some p1"
      "add_server_options (cfg e) p1 = Some q" "offer_packet e p os nip q"
      using lease_packet [OF pl p0] by blast
    note sr = send_reply [OF q(3) gw len]
    have "send_offer e p 0 l req s = Some (to_client q False 33 s')"
      using mem p0 assms(4,5) hn a Some p0c q(1,2) sr(1)
      by (simp add: send_offer_def finish_offer_def select_lease_time_spec [OF assms(1)] Let_def)
    moreover have "sent (write_out (to_client q False 33 s')) = sent s @ [Write (wire q 33)]"
      using sr(2) [of False s'] fr(1) by simp
    moreover have "leases_ok (g_leases s')" using add_lease_ok [OF a assms(3) six(2)] by simp
    ultimately show ?thesis using q(3) sp(1,4)
      by (intro exI [of _ "to_client q False 33 s'"]) auto
  qed
qed

lemma discover_answered:
  assumes "request p os" "map_of os DHCP_MESSAGE_TYPE = Some [DHCPDISCOVER]" "serves e p" "leases_ok (g_leases s)"
    "start_ip (cfg e) \<le> end_ip (cfg e)"
  shows "\<exists>s1. handle_packet e p s = Some s1 \<and>
    ((\<exists>nip q j. nip \<noteq> 0 \<and> offer_packet e p os nip q \<and> sent s1 = sent s @ [Write (wire q 33)] \<and> leases_ok (g_leases s1) \<and>
        find_lease_by_mac (g_leases s1) (chaddr p) = Some j \<and> lease_nip (g_leases s1 ! j) = nip) \<or>
     sent s1 = sent s @ [Write (take (dhcp_pkt_len s) (pdhcp_pkt s))])"
proof -
  obtain sid req where req: "case req of None \<Rightarrow> map_of os DHCP_REQUESTED_IP = None
     | Some q \<Rightarrow> \<exists>d. map_of os DHCP_REQUESTED_IP = Some d \<and> pkt_u32 p q = Some (of_le32 d)" and
    h: "handle_packet e p s = (let lease = map_option Entry (find_lease_by_mac (g_leases s) (chaddr p)) in
       if DHCPDISCOVER = DHCPDISCOVER then map_option write_out (send_offer e p 0 lease req s)
       else if DHCPDISCOVER = DHCPREQUEST then on_request e p lease sid (asked os DHCP_REQUESTED_IP) s
       else if DHCPDISCOVER = DHCPDECLINE then on_decline e lease sid (asked os DHCP_REQUESTED_IP) s
       else if DHCPDISCOVER = DHCPRELEASE then on_release e p lease sid s
       else if DHCPDISCOVER = DHCPINFORM then map_option write_out (send_inform e p s)
       else Some s)"
    by (rule handle_packet_request [OF assms(1-3)])
  have mem: "mem_ok e" using assms(3) by (simp add: serves_def)
  let ?l = "map_option Entry (find_lease_by_mac (g_leases s) (chaddr p))"
  obtain nip where nip: "offer_address e p ?l req s = Some (s, nip)"
    using offer_address_total [OF assms(5), where req = req and p = p and s = s] req by (auto split: option.splits)
  obtain p0 where p0: "init_packet (cfg e) p DHCPOFFER = Some p0" using init_packet_spec by blast
  have run: "handle_packet e p s = map_option write_out (send_offer e p 0 ?l req s)" using h by (simp add: Let_def)
  show ?thesis
  proof (cases "nip = 0")
    case True
    then have "handle_packet e p s = Some (write_out s)"
      using run mem p0 init_packet_chaddr [OF p0] nip by (simp add: send_offer_def Let_def)
    then show ?thesis by (simp add: write_out_def)
  next
    case False
    show ?thesis using offer_made [OF assms(1,3,4) nip False] False unfolding run
      by (elim exE conjE) (auto simp: write_out_def)
  qed
qed

section \<open>Answers that go wrong\<close>

lemma offer_nothing_free:
  assumes "start_ip c \<le> end_ip c"
    "\<And>x. start_ip c \<le> x \<Longrightarrow> x \<le> end_ip c \<Longrightarrow> usable c x \<Longrightarrow>
      \<exists>i. find_lease_by_nip (g_leases s) (htonl x) = Some i \<and> sta (lease_mac (g_leases s ! i)) \<noteq> - 1"
  shows "find_free_or_expired_nip sta c t m s = Some (s, 0)"
proof -
  obtain r where r: "find_free_or_expired_nip sta c t m s = Some (s, r)"
    "free_in sta c (g_leases s) (\<lambda>x. start_ip c \<le> x \<and> x \<le> end_ip c) None r"
    using find_free_spec [OF assms(1)] by blast
  have "\<not> (start_ip c \<le> x \<and> x \<le> end_ip c \<and> usable c x \<and> offline sta (g_leases s) x i)" for x i
    using assms(2) [of x] by (auto simp: offline_def)
  moreover have "\<not> (start_ip c \<le> x \<and> x \<le> end_ip c \<and> usable c x \<and> find_lease_by_nip (g_leases s) (htonl x) = None)" for x
    using assms(2) [of x] by auto
  ultimately have "r = 0" using r(2) unfolding free_in_def
    by (elim disjE exE) (blast, simp add: best_def)
  with r show ?thesis by simp
qed

lemma lease_copy_overflow:
  assumes "length dst = cap" "n \<le> cap" "cap < n + length (filter (\<lambda>l. lease_nip l \<noteq> 0) ls)"
  shows "lease_copy ls cap n dst = None"
  using assms
proof (induction ls arbitrary: n dst)
  case (Cons l ls)
  then show ?case by (cases "n = cap") (auto simp: wr_def)
qed simp

lemma lease_copy_fits:
  assumes "length dst = cap" "n + length (filter (\<lambda>l. lease_nip l \<noteq> 0) ls) \<le> cap"
  shows "lease_copy ls cap n dst = Some (take n dst @ filter (\<lambda>l. lease_nip l \<noteq> 0) ls @
    drop (n + length (filter (\<lambda>l. lease_nip l \<noteq> 0) ls)) dst, n + length (filter (\<lambda>l. lease_nip l \<noteq> 0) ls))"
  using assms
proof (induction ls arbitrary: n dst)
  case (Cons l ls)
  show ?case
  proof (cases "lease_nip l = 0")
    case False
    with Cons.prems have n: "n < length dst" by simp
    then have "take (Suc n) (dst[n := l]) = take n dst @ [l]" by (simp add: take_Suc_conv_app_nth)
    with False n Cons.prems Cons.IH [of "dst[n := l]" "Suc n"] show ?thesis by (simp add: wr_def)
  qed (use Cons in simp)
qed simp

text \<open>With room for them, the leases in use are copied in order.\<close>

lemma dhcpd_lease_get_api_spec:
  assumes "length (filter (\<lambda>l. lease_nip l \<noteq> 0) ls) \<le> length dst"
  shows "dhcpd_lease_get_api (Some ls) (Some dst) (Some (length dst)) =
    Some (0, Some (filter (\<lambda>l. lease_nip l \<noteq> 0) ls @ drop (length (filter (\<lambda>l. lease_nip l \<noteq> 0) ls)) dst),
      Some (length (filter (\<lambda>l. lease_nip l \<noteq> 0) ls)))"
  using lease_copy_fits [of dst "length dst" 0 ls] assms by (simp add: dhcpd_lease_get_api_def)

section \<open>Properties\<close>


text \<open>A sample client.\<close>

definition sample_env :: dhcpd_env where
  "sample_env = \<lparr>cfg = sample_cfg, now = 100, mem_ok = True, sta_index = (\<lambda>m. 0)\<rparr>"

definition sample_packet :: "dhcp_option list \<Rightarrow> dhcp_packet" where
  "sample_packet os = zero_packet\<lparr>pkt_op := BOOTREQUEST, htype := 1, hlen := 6,
     chaddr := [1, 2, 3, 4, 5, 6] @ replicate 10 0, options := enc_opts os @ [DHCP_END]\<rparr>"

definition sample_state :: "u32 \<Rightarrow> dhcpd" where
  "sample_state nip = (udhcpd_boot sample_cfg)\<lparr>g_leases := [zero_lease\<lparr>expires := 90, lease_nip := nip, lease_mac := [1, 2, 3, 4, 5, 6]\<rparr>]\<rparr>"

lemma sample_request: "list_all req_opt_ok os \<Longrightarrow> request (sample_packet os) os"
  by (auto simp: request_def sample_packet_def has_opts_def req_opt_ok_def list_all_iff)

lemma sample_serves: "serves sample_env (sample_packet os)"
  by (simp add: serves_def sample_env_def sample_cfg_def plain_cfg_def sample_packet_def zero_packet_def zero_mac_list)

lemma sample_ok: "leases_ok (g_leases (sample_state nip))"
  by (simp add: sample_state_def leases_ok_def unique_on_def lease_ok_def)

lemma sample_found: "find_lease_by_mac (g_leases (sample_state nip)) (chaddr (sample_packet os)) = Some 0"
  by (simp add: sample_state_def find_lease_by_mac_def sample_packet_def)








text \<open>
  When every usable address is leased to a connected station, a DISCOVER of a new client is answered
  with the packet the server sent last, an offer or acknowledgement for somebody else.
\<close>

lemma exhausted_resends_last_packet:
  assumes "request p os" "map_of os DHCP_MESSAGE_TYPE = Some [DHCPDISCOVER]" "map_of os DHCP_REQUESTED_IP = None" "serves e p"
    "start_ip (cfg e) \<le> end_ip (cfg e)" "find_lease_by_mac (g_leases s) (chaddr p) = None"
    "\<And>x. start_ip (cfg e) \<le> x \<Longrightarrow> x \<le> end_ip (cfg e) \<Longrightarrow> usable (cfg e) x \<Longrightarrow>
      \<exists>i. find_lease_by_nip (g_leases s) (htonl x) = Some i \<and> sta_index e (lease_mac (g_leases s ! i)) \<noteq> - 1"
  shows "handle_packet e p s = Some (s\<lparr>sent := sent s @ [Write (take (dhcp_pkt_len s) (pdhcp_pkt s))]\<rparr>)"
proof -
  obtain sid req where req: "case req of None \<Rightarrow> map_of os DHCP_REQUESTED_IP = None
     | Some q \<Rightarrow> \<exists>d. map_of os DHCP_REQUESTED_IP = Some d \<and> pkt_u32 p q = Some (of_le32 d)" and
    h: "handle_packet e p s = (let lease = map_option Entry (find_lease_by_mac (g_leases s) (chaddr p)) in
       if DHCPDISCOVER = DHCPDISCOVER then map_option write_out (send_offer e p 0 lease req s)
       else if DHCPDISCOVER = DHCPREQUEST then on_request e p lease sid (asked os DHCP_REQUESTED_IP) s
       else if DHCPDISCOVER = DHCPDECLINE then on_decline e lease sid (asked os DHCP_REQUESTED_IP) s
       else if DHCPDISCOVER = DHCPRELEASE then on_release e p lease sid s
       else if DHCPDISCOVER = DHCPINFORM then map_option write_out (send_inform e p s)
       else Some s)"
    by (rule handle_packet_request [OF assms(1,2,4)])
  have "req = None" using req assms(3) by (auto split: option.splits)
  moreover obtain p0 where "init_packet (cfg e) p DHCPOFFER = Some p0" using init_packet_spec by blast
  ultimately show ?thesis
    using h assms(4,6) offer_nothing_free [OF assms(5,7), of "now e" "chaddr p"]
    by (simp add: send_offer_def offer_address_def serves_def write_out_def Let_def)
qed

lemma exhausted_resends_last_packet_witness:
  "handle_packet (sample_env\<lparr>cfg := sample_cfg\<lparr>end_ip := start_ip sample_cfg\<rparr>\<rparr>) (sample_packet [(0x35, [1])])
     ((sample_state (htonl (start_ip sample_cfg)))\<lparr>g_leases := [zero_lease\<lparr>lease_nip := htonl (start_ip sample_cfg), lease_mac := [6]\<rparr>],
        pdhcp_pkt := [7], dhcp_pkt_len := 1\<rparr>) =
   Some ((sample_state (htonl (start_ip sample_cfg)))\<lparr>g_leases := [zero_lease\<lparr>lease_nip := htonl (start_ip sample_cfg), lease_mac := [6]\<rparr>],
        pdhcp_pkt := [7], dhcp_pkt_len := 1, sent := [Write [7]]\<rparr>)"
proof -
  let ?os = "[(0x35, [1])] :: dhcp_option list"
  let ?e = "sample_env\<lparr>cfg := sample_cfg\<lparr>end_ip := start_ip sample_cfg\<rparr>\<rparr>"
  let ?s = "(sample_state (htonl (start_ip sample_cfg)))\<lparr>g_leases := [zero_lease\<lparr>lease_nip := htonl (start_ip sample_cfg), lease_mac := [6]\<rparr>],
        pdhcp_pkt := [7], dhcp_pkt_len := 1\<rparr>"
  have r: "request (sample_packet ?os) ?os" by (rule sample_request) (simp add: req_opt_ok_def opt_ok_def)
  have s: "serves ?e (sample_packet ?os)"
    by (simp add: serves_def sample_env_def sample_cfg_def plain_cfg_def sample_packet_def zero_packet_def zero_mac_list)
  have "handle_packet ?e (sample_packet ?os) ?s = Some (?s\<lparr>sent := sent ?s @ [Write (take (dhcp_pkt_len ?s) (pdhcp_pkt ?s))]\<rparr>)"
    by (rule exhausted_resends_last_packet [OF r _ _ s])
      (auto simp: sample_env_def sample_packet_def find_lease_by_mac_def find_lease_by_nip_def)
  then show ?thesis by (simp add: sample_state_def udhcpd_boot_def lease_table.defs)
qed

text \<open>
  A packet without a message type (of a BOOTP client, say) makes the server read through a null
  pointer: the check of \<open>udhcpd_run\<close> only prints.
\<close>

lemma no_message_type_crashes:
  assumes "request p os" "map_of os DHCP_MESSAGE_TYPE = None"
  shows "handle_packet e p s = None"
proof -
  have "udhcp_get_option p DHCP_MESSAGE_TYPE = Some None"
    using request_get [OF assms(1), of DHCP_MESSAGE_TYPE] assms(2) by simp
  then show ?thesis by (simp add: handle_packet_def Let_def bind_eq_None_conv)
qed

lemma no_message_type_crashes_witness: "handle_packet sample_env (sample_packet [(0x0c, [0x74, 0x76])]) (sample_state 5) = None"
  by (rule no_message_type_crashes [of _ "[(0x0c, [0x74, 0x76])]"])
    (simp_all add: sample_request req_opt_ok_def opt_ok_def)

text \<open>
  Asking for the leases with an array for \<open>n\<close> of them writes past its end as soon as more than \<open>n\<close>
  addresses are leased, because the count is compared with \<open>>\<close>.
\<close>

lemma lease_list_overflow:
  assumes "length dst < length (filter (\<lambda>l. lease_nip l \<noteq> 0) ls)"
  shows "dhcpd_lease_get_api (Some ls) (Some dst) (Some (length dst)) = None"
  using lease_copy_overflow [of dst "length dst" 0 ls] assms by (simp add: dhcpd_lease_get_api_def)

lemma lease_list_overflow_witness:
  "dhcpd_lease_get_api (Some [zero_lease\<lparr>lease_nip := 5\<rparr>, zero_lease\<lparr>lease_nip := 6\<rparr>]) (Some [zero_lease]) (Some 1) = None"
  using lease_list_overflow [of "[zero_lease]" "[zero_lease\<lparr>lease_nip := 5\<rparr>, zero_lease\<lparr>lease_nip := 6\<rparr>]"] by simp

end
