(* ===== verification/DhcpdTask.thy ===== *)
theory DhcpdTask
  imports Prelude
begin

text \<open>
  The life of the DHCP server in \<open>components/net/udhcp/dhcpd.c\<close>: the task \<open>udhcpd_start_task\<close> with the
  set-up and the end of \<open>udhcpd_run\<close>, and the calls \<open>udhcpd_init\<close>, \<open>udhcpd_start\<close>, \<open>udhcpd_stop\<close> and
  \<open>udhcpd_exit\<close> of the thread that controls it. The two run interleaved: a step is one pass of a waiting
  loop of the caller, or the code of the task between two accesses to the shared flags. What a packet
  does while the server runs is the subject of \<open>Dhcpd\<close>.

  The kernel answers every request for memory, queues, tasks and sockets as the event says. A
  message queue is first in, first out and refuses a message when it is full; a handle that is
  null or deleted must not be used.
\<close>

section \<open>State\<close>

text \<open>The pointer \<open>g_leases\<close>: null, to a table, or to memory that has been freed.\<close>

datatype (plugins only: code size) pointer = Null | Live | Freed

datatype (plugins only: code size) call_id = Udhcpd_init | Udhcpd_start | Udhcpd_stop | Udhcpd_exit

text \<open>Where the task is; the number is its copy \<open>mbox\<close> of the queue handle.\<close>

datatype (plugins only: code size) server_pc =
    Boot | Waiting nat | Starting nat | Setup nat | Serving nat | Ending nat | Cleanup | Gone

text \<open>Where the caller is; the number is the variable \<open>times\<close>.\<close>

datatype (plugins only: code size) api_pc =
    Idle | Init_end | Start_alloc nat | Start_wait nat | Stop_wait call_id nat | Exit_alloc nat
  | Exit_wait nat | Exit_check

record life =
  dhcpd_start :: bool
  dhcpd_run :: bool
  dhcpd_end :: bool
  qevt :: "nat option"
  queues :: "nat \<Rightarrow> int list option"
  next_queue :: nat
  dest_sin_mem :: bool
  lease_mem :: pointer
  sockets :: nat
  packets :: nat
  messages :: nat
  tasks :: "server_pc list"
  api :: api_pc
  results :: "(call_id \<times> int) list"

definition life_boot :: life where
  "life_boot = \<lparr>dhcpd_start = False, dhcpd_run = False, dhcpd_end = False, qevt = None, queues = (\<lambda>_. None),
     next_queue = 0, dest_sin_mem = False, lease_mem = Null, sockets = 0, packets = 0, messages = 0, tasks = [],
     api = Idle, results = []\<rparr>"

definition QLENGTH :: nat where "QLENGTH = 4"

text \<open>\<open>OS_MsgQEnqueue\<close>, whose result the code ignores.\<close>

definition enqueue :: "int \<Rightarrow> life \<Rightarrow> life option" where
  "enqueue m s = do {
     q \<leftarrow> qevt s;
     ms \<leftarrow> queues s q;
     Some (if length ms < QLENGTH then s\<lparr>queues := (queues s)(q := Some (ms @ [m]))\<rparr> else s) }"

section \<open>The task\<close>

text \<open>What the kernel answers during the set-up of \<open>udhcpd_run\<close>.\<close>

record setup_answers =
  leases_ok :: bool
  socket_ok :: bool
  packet_ok :: bool

text \<open>
  \<open>udhcpd_run\<close> up to its loop. \<open>udhcp_read_interface\<close> always returns 0. When there is no memory for the packet the
  function frees the table and returns: the pointer to it and the socket stay.
\<close>

definition run_setup :: "setup_answers \<Rightarrow> nat \<Rightarrow> life \<Rightarrow> server_pc \<times> life" where
  "run_setup a q s =
     (if \<not> leases_ok a then (Ending q, s\<lparr>lease_mem := Null\<rparr>)
      else if \<not> socket_ok a then (Ending q, s\<lparr>lease_mem := Null\<rparr>)
      else let s = s\<lparr>lease_mem := Live, sockets := Suc (sockets s)\<rparr> in
        if \<not> packet_ok a then (Ending q, s\<lparr>lease_mem := Freed\<rparr>)
        else (Serving q, s\<lparr>packets := Suc (packets s)\<rparr>))"

text \<open>The end of \<open>udhcpd_run\<close> after the loop.\<close>

definition run_end :: "nat \<Rightarrow> life \<Rightarrow> (server_pc \<times> life) option" where
  "run_end q s =
     (if lease_mem s = Freed then None
      else Some (Ending q, s\<lparr>packets := packets s - 1, lease_mem := Null, sockets := sockets s - 1\<rparr>))"

fun udhcpd_start_task :: "setup_answers \<Rightarrow> server_pc \<Rightarrow> life \<Rightarrow> (server_pc \<times> life) option" where
  "udhcpd_start_task a Boot s = do { q \<leftarrow> qevt s; Some (Waiting q, s) }"
| "udhcpd_start_task a (Waiting q) s = do {
     ms \<leftarrow> queues s q;
     (case ms of
        [] \<Rightarrow> Some (Waiting q, s)
      | m # ms \<Rightarrow>
          let s = s\<lparr>queues := (queues s)(q := Some ms)\<rparr> in
          Some (if m = 1 then (Starting q, s\<lparr>messages := messages s - 1\<rparr>)
                else if m = - 1 \<and> \<not> dhcpd_start s then (Cleanup, s\<lparr>messages := messages s - 1\<rparr>)
                else (Waiting q, s))) }"
| "udhcpd_start_task a (Starting q) s = Some (Setup q, s\<lparr>dhcpd_start := True\<rparr>)"
| "udhcpd_start_task a (Setup q) s = Some (run_setup a q s)"
| "udhcpd_start_task a (Serving q) s = (if dhcpd_run s then Some (Serving q, s) else run_end q s)"
| "udhcpd_start_task a (Ending q) s = Some (Waiting q, s\<lparr>dhcpd_start := False\<rparr>)"
| "udhcpd_start_task a Cleanup s =
     (let s = s\<lparr>dest_sin_mem := False\<rparr> in
      case qevt s of
        None \<Rightarrow> Some (Gone, s)
      | Some q \<Rightarrow> (case queues s q of None \<Rightarrow> None | Some _ \<Rightarrow> Some (Gone, s\<lparr>queues := (queues s)(q := None)\<rparr>)))"
| "udhcpd_start_task a Gone s = Some (Gone, s)"

text \<open>One step of the \<open>i\<close>-th task. At \<open>Gone\<close> it sets \<open>dhcpd_end\<close> and deletes itself.\<close>

definition task_step :: "nat \<Rightarrow> setup_answers \<Rightarrow> life \<Rightarrow> life option" where
  "task_step i a s =
     (if i < length (tasks s)
      then if tasks s ! i = Gone
        then Some (s\<lparr>dhcpd_end := True, tasks := take i (tasks s) @ drop (Suc i) (tasks s)\<rparr>)
        else do { (pc, s) \<leftarrow> udhcpd_start_task a (tasks s ! i) s; Some (s\<lparr>tasks := (tasks s)[i := pc]\<rparr>) }
      else Some s)"

section \<open>The calls\<close>

definition return :: "call_id \<Rightarrow> int \<Rightarrow> life \<Rightarrow> life" where
  "return c r s = s\<lparr>api := Idle, results := results s @ [(c, r)]\<rparr>"

record init_answers =
  dest_ok :: bool
  queue_ok :: bool
  task_ok :: bool

definition udhcpd_init :: "init_answers \<Rightarrow> life \<Rightarrow> life" where
  "udhcpd_init a s =
     (let s = (if \<not> dest_sin_mem s then s\<lparr>dest_sin_mem := dest_ok a\<rparr> else s) in
      if \<not> dest_sin_mem s then return Udhcpd_init (- 1) s
      else if \<not> queue_ok a then return Udhcpd_init (- 1) s
      else let s = s\<lparr>qevt := Some (next_queue s), queues := (queues s)(next_queue s := Some []), next_queue := Suc (next_queue s)\<rparr> in
        if \<not> task_ok a then return Udhcpd_init (- 1) s
        else s\<lparr>tasks := tasks s @ [Boot], api := Init_end\<rparr>)"

definition udhcpd_start :: "life \<Rightarrow> life" where
  "udhcpd_start s =
     (if \<not> dhcpd_start s then s\<lparr>dhcpd_run := True, api := Start_alloc 10\<rparr> else return Udhcpd_start 0 s)"

definition udhcpd_stop :: "call_id \<Rightarrow> life \<Rightarrow> life" where
  "udhcpd_stop c s = s\<lparr>dhcpd_run := False, api := Stop_wait c 100\<rparr>"

definition udhcpd_exit :: "life \<Rightarrow> life" where
  "udhcpd_exit s = (if dhcpd_start s then udhcpd_stop Udhcpd_exit s else s\<lparr>api := Exit_alloc 10\<rparr>)"

definition api_call :: "call_id \<Rightarrow> init_answers \<Rightarrow> life \<Rightarrow> life" where
  "api_call c a s = (case c of
      Udhcpd_init \<Rightarrow> udhcpd_init a s
    | Udhcpd_start \<Rightarrow> udhcpd_start s
    | Udhcpd_stop \<Rightarrow> if dhcpd_start s then udhcpd_stop Udhcpd_stop s else return Udhcpd_stop 0 s
    | Udhcpd_exit \<Rightarrow> udhcpd_exit s)"

text \<open>A step of the caller inside a call; \<open>ok\<close> answers a request for the memory of a message.\<close>

fun api_step :: "bool \<Rightarrow> api_pc \<Rightarrow> life \<Rightarrow> life option" where
  "api_step ok Idle s = Some s"
| "api_step ok Init_end s = Some (return Udhcpd_init 0 (s\<lparr>dhcpd_end := False\<rparr>))"
| "api_step ok (Start_alloc n) s =
     (if ok then do { s \<leftarrow> enqueue 1 (s\<lparr>messages := Suc (messages s)\<rparr>); Some (s\<lparr>api := Start_wait 100\<rparr>) }
      else if n \<le> 1 then Some (return Udhcpd_start (- 1) (s\<lparr>dhcpd_run := False\<rparr>))
      else Some (s\<lparr>api := Start_alloc (n - 1)\<rparr>))"
| "api_step ok (Start_wait n) s =
     Some (if dhcpd_start s then return Udhcpd_start 0 s
       else if n \<le> 1 then return Udhcpd_start (- 2) (s\<lparr>dhcpd_run := False\<rparr>)
       else s\<lparr>api := Start_wait (n - 1)\<rparr>)"
| "api_step ok (Stop_wait c n) s =
     Some (if \<not> dhcpd_start s then (if c = Udhcpd_exit then s\<lparr>api := Exit_alloc 10\<rparr> else return c 0 s)
       else if n \<le> 1 then return c (- 1) s
       else s\<lparr>api := Stop_wait c (n - 1)\<rparr>)"
| "api_step ok (Exit_alloc n) s =
     (if ok then do { s \<leftarrow> enqueue (- 1) (s\<lparr>messages := Suc (messages s)\<rparr>); Some (s\<lparr>api := Exit_wait 50\<rparr>) }
      else if n \<le> 1 then Some (return Udhcpd_exit (- 1) (s\<lparr>dhcpd_run := False\<rparr>))
      else Some (s\<lparr>api := Exit_alloc (n - 1)\<rparr>))"
| "api_step ok (Exit_wait n) s =
     Some (if dhcpd_end s then return Udhcpd_exit 0 (s\<lparr>qevt := None\<rparr>)
       else if n \<le> 1 then s\<lparr>api := Exit_check\<rparr>
       else s\<lparr>api := Exit_wait (n - 1)\<rparr>)"
| "api_step ok Exit_check s =
     Some (if dhcpd_end s then return Udhcpd_exit 0 (s\<lparr>qevt := None\<rparr>) else return Udhcpd_exit (- 1) s)"

section \<open>Runs\<close>

datatype (plugins only: code size) life_event = Call call_id init_answers | Api bool | Task nat setup_answers

text \<open>\<open>None\<close> is the use of a null or deleted queue, or of freed memory.\<close>

fun life_step :: "life_event \<Rightarrow> life \<Rightarrow> life option" where
  "life_step (Call c a) s = Some (if api s = Idle then api_call c a s else s)"
| "life_step (Api ok) s = api_step ok (api s) s"
| "life_step (Task i a) s = task_step i a s"

fun life_run :: "life_event list \<Rightarrow> life \<Rightarrow> life option" where
  "life_run [] s = Some s"
| "life_run (ev # evs) s = do { s \<leftarrow> life_step ev s; life_run evs s }"

section \<open>Disciplined callers\<close>

text \<open>What the results of the calls tell the caller: whether there is a server task. After an
  exit that failed nothing more may be called.\<close>

datatype (plugins only: code size) phase = Down | Up | Broken

definition after_result :: "phase \<Rightarrow> call_id \<times> int \<Rightarrow> phase" where
  "after_result p r =
     (if r = (Udhcpd_init, 0) then Up else if fst r = Udhcpd_exit then (if snd r = 0 then Down else Broken) else p)"

definition phase_of :: "life \<Rightarrow> phase" where
  "phase_of s = foldl after_result Down (results s)"

definition allowed :: "(setup_answers \<Rightarrow> bool) \<Rightarrow> life_event \<Rightarrow> life \<Rightarrow> bool" where
  "allowed A ev s = (case ev of
      Call c a \<Rightarrow> if c = Udhcpd_init then phase_of s = Down else phase_of s = Up
    | Api ok \<Rightarrow> True
    | Task i a \<Rightarrow> A a)"

text \<open>The states that disciplined callers reach when the answers during the set-up satisfy \<open>A\<close>.\<close>

inductive reach :: "(setup_answers \<Rightarrow> bool) \<Rightarrow> life \<Rightarrow> bool" for A where
  boot: "reach A life_boot"
| step: "reach A s \<Longrightarrow> allowed A ev s \<Longrightarrow> life_step ev s = Some s' \<Longrightarrow> reach A s'"

section \<open>The invariant\<close>

fun busy :: "server_pc \<Rightarrow> bool" where
  "busy (Setup q) = True"
| "busy (Serving q) = True"
| "busy (Ending q) = True"
| "busy t = False"

fun on_queue :: "nat \<Rightarrow> server_pc \<Rightarrow> bool" where
  "on_queue q Boot = True"
| "on_queue q (Waiting p) = (p = q)"
| "on_queue q (Starting p) = (p = q)"
| "on_queue q (Setup p) = (p = q)"
| "on_queue q (Serving p) = (p = q)"
| "on_queue q (Ending p) = (p = q)"
| "on_queue q t = False"

text \<open>There is one task, on the current queue, with messages of \<open>M\<close>, and \<open>dhcpd_start\<close> tells
  whether it is inside \<open>udhcpd_run\<close>.\<close>

definition served :: "int set \<Rightarrow> life \<Rightarrow> bool" where
  "served M s \<longleftrightarrow> (\<exists>t q ms. tasks s = [t] \<and> qevt s = Some q \<and> queues s q = Some ms \<and> on_queue q t \<and> set ms \<subseteq> M \<and>
     dhcpd_start s = busy t \<and> (t = Serving q \<longrightarrow> lease_mem s = Live))"

text \<open>The task has been told to end, and may have done so.\<close>

definition ended :: "life \<Rightarrow> bool" where
  "ended s \<longleftrightarrow> tasks s = [] \<and> dhcpd_end s \<and> \<not> dhcpd_start s \<and> \<not> dest_sin_mem s \<and>
     (\<exists>q. qevt s = Some q \<and> queues s q = None)"

definition leaving :: "life \<Rightarrow> bool" where
  "leaving s \<longleftrightarrow> ended s \<or> \<not> dhcpd_end s \<and> (served {1, - 1} s \<or> \<not> dhcpd_start s \<and>
     (\<exists>q. qevt s = Some q \<and> (tasks s = [Cleanup] \<and> queues s q \<noteq> None \<or>
        tasks s = [Gone] \<and> queues s q = None \<and> \<not> dest_sin_mem s)))"

definition up :: "life \<Rightarrow> bool" where
  "up s \<longleftrightarrow> served {1} s \<and> \<not> dhcpd_end s"

definition life_inv :: "life \<Rightarrow> bool" where
  "life_inv s = (case api s of
      Idle \<Rightarrow> (case phase_of s of Down \<Rightarrow> tasks s = [] \<and> \<not> dhcpd_start s | Up \<Rightarrow> up s | Broken \<Rightarrow> leaving s)
    | Init_end \<Rightarrow> phase_of s = Down \<and> served {1} s
    | Stop_wait c n \<Rightarrow> phase_of s = Up \<and> up s \<and> c \<in> {Udhcpd_stop, Udhcpd_exit}
    | Exit_wait n \<Rightarrow> phase_of s = Up \<and> leaving s
    | Exit_check \<Rightarrow> phase_of s = Up \<and> leaving s
    | _ \<Rightarrow> phase_of s = Up \<and> up s)"

text \<open>What a step of the task leaves alone.\<close>

definition same_caller :: "life \<Rightarrow> life \<Rightarrow> bool" where
  "same_caller s s' \<longleftrightarrow> api s' = api s \<and> results s' = results s"

lemma same_caller_phase: "same_caller s s' \<Longrightarrow> phase_of s' = phase_of s"
  by (simp add: same_caller_def phase_of_def)

lemma served_mono: "served M s \<Longrightarrow> M \<subseteq> N \<Longrightarrow> served N s"
  unfolding served_def by blast

lemma served_task:
  assumes "served M s" "M \<subseteq> {1, - 1}"
  shows "\<exists>s'. task_step i a s = Some s' \<and> same_caller s s' \<and> dhcpd_end s' = dhcpd_end s \<and>
    (served M s' \<or> - 1 \<in> M \<and> \<not> dhcpd_start s' \<and> tasks s' = [Cleanup] \<and> (\<exists>q. qevt s' = Some q \<and> queues s' q \<noteq> None))"
proof -
  obtain t q ms where s: "tasks s = [t]" "qevt s = Some q" "queues s q = Some ms" "on_queue q t" "set ms \<subseteq> M"
    "dhcpd_start s = busy t" "t = Serving q \<longrightarrow> lease_mem s = Live"
    using assms(1) unfolding served_def by blast
  show ?thesis
  proof (cases "i = 0")
    case False
    with s(1) assms(1) show ?thesis by (simp add: task_step_def same_caller_def)
  next
    case True
    show ?thesis
    proof (cases t)
      case (Waiting p)
      show ?thesis
        using s assms(2) unfolding True
        by (cases ms) (auto simp: Waiting task_step_def same_caller_def served_def)
    next
      case (Setup p)
      then show ?thesis
        using s unfolding True by (auto simp: task_step_def same_caller_def served_def run_setup_def Let_def)
    qed (use s True in \<open>auto simp: task_step_def same_caller_def served_def run_end_def\<close>)
  qed
qed

lemma up_task:
  assumes "up s"
  shows "\<exists>s'. task_step i a s = Some s' \<and> same_caller s s' \<and> up s'"
  using served_task [of "{1}" s i a] assms unfolding up_def by fastforce

lemma leaving_task:
  assumes "leaving s"
  shows "\<exists>s'. task_step i a s = Some s' \<and> same_caller s s' \<and> leaving s'"
proof -
  consider "ended s" | "\<not> dhcpd_end s" "served {1, - 1} s"
    | q where "\<not> dhcpd_start s" "\<not> dhcpd_end s" "qevt s = Some q" "tasks s = [Cleanup]" "queues s q \<noteq> None"
    | q where "\<not> dhcpd_start s" "\<not> dhcpd_end s" "qevt s = Some q" "tasks s = [Gone]" "queues s q = None" "\<not> dest_sin_mem s"
    using assms unfolding leaving_def by blast
  then show ?thesis
  proof cases
    case 1
    then show ?thesis by (auto simp: ended_def task_step_def same_caller_def leaving_def)
  next
    case 2
    from served_task [OF 2(2), of i a] 2 show ?thesis
      unfolding leaving_def by (metis insertI1 insert_commute subset_refl)
  next
    case 3
    then show ?thesis by (cases i) (auto simp: task_step_def same_caller_def leaving_def)
  next
    case 4
    then show ?thesis by (cases i) (auto simp: task_step_def same_caller_def leaving_def ended_def)
  qed
qed

lemma enqueue_served:
  assumes "served M s" "m \<in> N" "M \<subseteq> N"
  shows "\<exists>s'. enqueue m s = Some s' \<and> served N s' \<and> api s' = api s \<and> results s' = results s \<and> dhcpd_end s' = dhcpd_end s"
proof -
  obtain t q ms where s: "tasks s = [t]" "qevt s = Some q" "queues s q = Some ms" "on_queue q t" "set ms \<subseteq> M"
    "dhcpd_start s = busy t" "t = Serving q \<longrightarrow> lease_mem s = Live"
    using assms(1) unfolding served_def by blast
  then show ?thesis using assms(2,3) by (auto simp: enqueue_def served_def)
qed

lemma served_upd [simp]:
  "served M (s\<lparr>api := x\<rparr>) = served M s" "served M (s\<lparr>results := r\<rparr>) = served M s"
  "served M (s\<lparr>dhcpd_run := b\<rparr>) = served M s" "served M (s\<lparr>dhcpd_end := b\<rparr>) = served M s"
  "served M (s\<lparr>messages := n\<rparr>) = served M s"
  by (simp_all add: served_def)

lemma up_upd [simp]:
  "up (s\<lparr>api := x\<rparr>) = up s" "up (s\<lparr>results := r\<rparr>) = up s" "up (s\<lparr>dhcpd_run := b\<rparr>) = up s"
  by (simp_all add: up_def)

lemma leaving_upd [simp]:
  "leaving (s\<lparr>api := x\<rparr>) = leaving s" "leaving (s\<lparr>results := r\<rparr>) = leaving s" "leaving (s\<lparr>dhcpd_run := b\<rparr>) = leaving s"
  by (simp_all add: leaving_def ended_def)

lemma phase_return [simp]: "phase_of (return c r s) = after_result (phase_of s) (c, r)"
  by (simp add: phase_of_def return_def)

lemma phase_upd [simp]:
  "phase_of (s\<lparr>api := x\<rparr>) = phase_of s" "phase_of (s\<lparr>dhcpd_run := b\<rparr>) = phase_of s"
  "phase_of (s\<lparr>dhcpd_end := b\<rparr>) = phase_of s" "phase_of (s\<lparr>qevt := h\<rparr>) = phase_of s"
  by (simp_all add: phase_of_def)

lemma return_sel [simp]:
  "api (return c r s) = Idle" "tasks (return c r s) = tasks s" "dhcpd_end (return c r s) = dhcpd_end s" "dhcpd_start (return c r s) = dhcpd_start s"
  "up (return c r s) = up s" "leaving (return c r s) = leaving s" "served M (return c r s) = served M s"
  by (simp_all add: return_def)

lemma up_leaving: "up s \<Longrightarrow> leaving s"
  unfolding up_def leaving_def using served_mono [of "{1}" s "{1, - 1}"] by blast

lemma leaving_ended: "leaving s \<Longrightarrow> dhcpd_end s \<Longrightarrow> ended s"
  unfolding leaving_def by blast

lemma life_inv_caller:
  assumes "life_inv s"
  shows "\<exists>s'. api_step ok (api s) s = Some s' \<and> life_inv s'"
proof (cases "api s")
  case Idle
  with assms show ?thesis by simp
next
  case Init_end
  with assms show ?thesis by (simp add: life_inv_def after_result_def up_def)
next
  case (Start_alloc n)
  with assms have u: "phase_of s = Up" "served {1} (s\<lparr>messages := Suc (messages s)\<rparr>)" "\<not> dhcpd_end s"
    by (simp_all add: life_inv_def up_def)
  show ?thesis
  proof (cases ok)
    case True
    from enqueue_served [OF u(2), of 1 "{1}"] obtain s' where
      "enqueue 1 (s\<lparr>messages := Suc (messages s)\<rparr>) = Some s'" "served {1} s'" "results s' = results s" "\<not> dhcpd_end s'"
      using u(3) by auto
    then show ?thesis using u(1) by (simp add: Start_alloc True life_inv_def up_def phase_of_def)
  next
    case False
    then show ?thesis using assms Start_alloc by (simp add: life_inv_def after_result_def)
  qed
next
  case (Start_wait n)
  with assms show ?thesis by (simp add: life_inv_def after_result_def)
next
  case (Stop_wait c n)
  with assms show ?thesis by (auto simp: life_inv_def after_result_def dest: up_leaving)
next
  case (Exit_alloc n)
  with assms have u: "phase_of s = Up" "served {1} (s\<lparr>messages := Suc (messages s)\<rparr>)" "\<not> dhcpd_end s" "up s"
    by (simp_all add: life_inv_def up_def)
  show ?thesis
  proof (cases ok)
    case True
    from enqueue_served [OF u(2), of "- 1" "{1, - 1}"] obtain s' where
      "enqueue (- 1) (s\<lparr>messages := Suc (messages s)\<rparr>) = Some s'" "served {1, - 1} s'" "results s' = results s" "\<not> dhcpd_end s'"
      using u(3) by auto
    then show ?thesis using u(1) by (simp add: Exit_alloc True life_inv_def leaving_def phase_of_def)
  next
    case False
    then show ?thesis using assms Exit_alloc by (simp add: life_inv_def after_result_def up_leaving)
  qed
next
  case (Exit_wait n)
  with assms show ?thesis by (auto simp: life_inv_def after_result_def ended_def dest: leaving_ended)
next
  case Exit_check
  with assms show ?thesis by (auto simp: life_inv_def after_result_def ended_def dest: leaving_ended)
qed

lemma life_inv_call:
  assumes "life_inv s" "allowed A (Call c a) s" "api s = Idle"
  shows "life_inv (api_call c a s)"
proof (cases "c = Udhcpd_init")
  case True
  with assms have "phase_of s = Down" "tasks s = []" "\<not> dhcpd_start s" by (simp_all add: allowed_def life_inv_def)
  then show ?thesis
    by (auto simp: True api_call_def udhcpd_init_def Let_def life_inv_def after_result_def served_def phase_of_def return_def)
next
  case False
  with assms have "phase_of s = Up" "up s" by (simp_all add: allowed_def life_inv_def)
  then show ?thesis
    using False by (cases c) (auto simp: api_call_def udhcpd_start_def udhcpd_stop_def udhcpd_exit_def life_inv_def after_result_def)
qed

lemma life_inv_task:
  assumes "life_inv s"
  shows "\<exists>s'. task_step i a s = Some s' \<and> life_inv s'"
proof -
  have down: "tasks s = [] \<Longrightarrow> task_step i a s = Some s" by (simp add: task_step_def)
  have inv: "same_caller s s' \<Longrightarrow> (up s \<Longrightarrow> up s') \<Longrightarrow> (leaving s \<Longrightarrow> leaving s') \<Longrightarrow>
      (served {1} s \<Longrightarrow> served {1} s') \<Longrightarrow> tasks s \<noteq> [] \<or> s' = s \<Longrightarrow> life_inv s'" for s'
    using assms same_caller_phase [of s s'] unfolding life_inv_def same_caller_def
    by (auto split: api_pc.splits phase.splits)
  consider "tasks s = []" | "served {1} s" "tasks s \<noteq> []" | "leaving s" "\<not> up s" "tasks s \<noteq> []" "\<not> served {1} s"
    using assms unfolding life_inv_def up_def by (auto split: api_pc.splits phase.splits)
  then show ?thesis
  proof cases
    case 1
    with down assms show ?thesis by simp
  next
    case 2
    from served_task [OF 2(1), of i a] obtain s' where s': "task_step i a s = Some s'" "same_caller s s'"
      "dhcpd_end s' = dhcpd_end s" "served {1} s'" by auto
    have "up s \<Longrightarrow> up s'" using s' by (simp add: up_def)
    moreover have "leaving s \<Longrightarrow> leaving s'" using leaving_task [of s i a] s'(1) by auto
    ultimately show ?thesis using s' 2(2) inv by blast
  next
    case 3
    then show ?thesis using leaving_task [OF 3(1), of i a] inv by blast
  qed
qed

lemma life_inv_step:
  assumes "life_inv s" "allowed A ev s"
  shows "\<exists>s'. life_step ev s = Some s' \<and> life_inv s'"
  using assms life_inv_call [OF assms(1)] life_inv_caller life_inv_task by (cases ev) auto

lemma reach_inv: "reach A s \<Longrightarrow> life_inv s"
proof (induction rule: reach.induct)
  case boot
  show ?case by (simp add: life_inv_def life_boot_def phase_of_def)
next
  case (step s ev s')
  with life_inv_step show ?case by fastforce
qed

section \<open>Resources\<close>

definition held :: "life \<Rightarrow> pointer \<times> nat \<times> nat" where
  "held s = (lease_mem s, sockets s, packets s)"

definition serving :: "life \<Rightarrow> bool" where
  "serving s \<longleftrightarrow> (\<exists>q. tasks s = [Serving q])"

definition res_ok :: "life \<Rightarrow> bool" where
  "res_ok s \<longleftrightarrow> held s = (if serving s then (Live, 1, 1) else (Null, 0, 0))"

lemma inv_tasks: "life_inv s \<Longrightarrow> length (tasks s) \<le> 1"
  by (auto simp: life_inv_def up_def served_def leaving_def ended_def split: api_pc.splits phase.splits)

lemma one_task: "length xs \<le> 1 \<Longrightarrow> xs = [] \<or> (\<exists>t. xs = [t])"
  by (cases xs) auto

lemma res_task:
  assumes "length (tasks s) \<le> 1" "res_ok s" "packet_ok a" "task_step i a s = Some s'"
  shows "res_ok s'"
proof (cases "i < length (tasks s)")
  case False
  with assms show ?thesis by (simp add: task_step_def)
next
  case True
  then obtain t where t: "tasks s = [t]" "i = 0" using one_task [OF assms(1)] by auto
  show ?thesis
    using assms(2-4)
    by (cases t) (auto simp: t task_step_def res_ok_def held_def serving_def run_setup_def run_end_def Let_def
      split: bind_splits list.splits option.splits if_splits)
qed

text \<open>The caller does not touch what the server holds.\<close>

lemma held_upd [simp]:
  "held (s\<lparr>api := x\<rparr>) = held s" "held (s\<lparr>dhcpd_run := b\<rparr>) = held s" "held (s\<lparr>dhcpd_end := b\<rparr>) = held s"
  "held (s\<lparr>qevt := h\<rparr>) = held s" "held (s\<lparr>messages := n\<rparr>) = held s" "held (return c r s) = held s"
  by (simp_all add: held_def return_def)

lemma enqueue_caller: "enqueue m s = Some s' \<Longrightarrow> held s' = held s \<and> tasks s' = tasks s \<and> dhcpd_start s' = dhcpd_start s \<and> results s' = results s"
  by (auto simp: enqueue_def held_def split: bind_splits if_splits)

lemma caller_holds:
  "api_step ok pc s = Some s' \<Longrightarrow> held s' = held s \<and> tasks s' = tasks s \<and> dhcpd_start s' = dhcpd_start s"
  by (cases pc) (auto split: if_splits bind_splits dest!: enqueue_caller)

lemma call_holds:
  "held (api_call c a s) = held s \<and> (tasks (api_call c a s) = tasks s \<or> c = Udhcpd_init \<and> tasks (api_call c a s) = tasks s @ [Boot])"
  by (cases c) (auto simp: api_call_def udhcpd_init_def udhcpd_start_def udhcpd_stop_def udhcpd_exit_def Let_def held_def return_def)

lemma reach_res: "reach packet_ok s \<Longrightarrow> res_ok s"
proof (induction rule: reach.induct)
  case boot
  show ?case by (simp add: res_ok_def held_def serving_def life_boot_def)
next
  case (step s ev s')
  have n: "length (tasks s) \<le> 1" using reach_inv [OF step(1)] by (rule inv_tasks)
  show ?case
  proof (cases ev)
    case (Call c a)
    show ?thesis
    proof (cases "api s = Idle")
      case True
      have "c = Udhcpd_init \<Longrightarrow> tasks s = []"
        using reach_inv [OF step(1)] step(2) True by (simp add: Call life_inv_def allowed_def)
      then show ?thesis using step(3,4) call_holds [of c a s] True
        by (elim conjE disjE) (simp_all add: Call res_ok_def serving_def)
    next
      case False
      with step(3,4) show ?thesis by (simp add: Call)
    qed
  next
    case (Api ok)
    with step(3) have "api_step ok (api s) s = Some s'" by simp
    from caller_holds [OF this] step(4) show ?thesis by (simp only: res_ok_def serving_def)
  next
    case (Task i a)
    with step(2,3,4) res_task [OF n] show ?thesis by (simp add: allowed_def)
  qed
qed

section \<open>Calls return\<close>

text \<open>How many steps of its own the caller needs at most.\<close>

fun steps_left :: "api_pc \<Rightarrow> nat" where
  "steps_left Idle = 0"
| "steps_left Init_end = 1"
| "steps_left (Start_alloc n) = max 1 n + 100"
| "steps_left (Start_wait n) = max 1 n"
| "steps_left (Stop_wait c n) = max 1 n + 62"
| "steps_left (Exit_alloc n) = max 1 n + 51"
| "steps_left (Exit_wait n) = max 1 n + 1"
| "steps_left Exit_check = 1"

lemma enqueue_api: "enqueue m s = Some s' \<Longrightarrow> api s' = api s"
  by (auto simp: enqueue_def split: bind_splits if_splits)

lemma api_step_less:
  "api_step ok (api s) s = Some s' \<Longrightarrow> api s \<noteq> Idle \<Longrightarrow> steps_left (api s') < steps_left (api s)"
  by (cases "api s") (auto split: if_splits bind_splits dest!: enqueue_api)

lemma task_same_caller: "task_step i a s = Some s' \<Longrightarrow> same_caller s s'"
proof -
  have "udhcpd_start_task a pc s = Some (pc', s') \<Longrightarrow> same_caller s s'" for pc pc' s'
    by (cases pc) (auto simp: same_caller_def run_setup_def run_end_def Let_def split: bind_splits list.splits option.splits if_splits)
  then show "task_step i a s = Some s' \<Longrightarrow> same_caller s s'"
    by (auto simp: task_step_def same_caller_def split: if_splits bind_splits)
qed

lemmas task_step_api = task_same_caller [unfolded same_caller_def, THEN conjunct1]
lemmas task_results = task_same_caller [unfolded same_caller_def, THEN conjunct2]

fun is_api :: "life_event \<Rightarrow> bool" where
  "is_api (Api ok) = True"
| "is_api ev = False"

fun is_call :: "life_event \<Rightarrow> bool" where
  "is_call (Call c a) = True"
| "is_call ev = False"

lemma run_returns:
  "life_run evs s = Some s' \<Longrightarrow> list_all (Not \<circ> is_call) evs \<Longrightarrow>
   steps_left (api s') + length (filter is_api evs) \<le> steps_left (api s) \<or> api s' = Idle"
proof (induction evs arbitrary: s)
  case (Cons ev evs)
  then obtain u where u: "life_step ev s = Some u" "life_run evs u = Some s'" by (auto split: bind_splits)
  have IH: "steps_left (api s') + length (filter is_api evs) \<le> steps_left (api u) \<or> api s' = Idle"
    using Cons.IH [OF u(2)] Cons.prems(2) by simp
  show ?case
  proof (cases ev)
    case (Call c a)
    with Cons.prems(2) show ?thesis by simp
  next
    case (Api ok)
    show ?thesis
    proof (cases "api s = Idle")
      case True
      with u(1) Api have "u = s" by simp
      with IH True show ?thesis by (cases "api s'") auto
    next
      case False
      with u(1) Api have "steps_left (api u) < steps_left (api s)" by (simp add: api_step_less)
      with IH Api show ?thesis by auto
    qed
  next
    case (Task i a)
    with u(1) IH show ?thesis by (simp add: task_step_api)
  qed
qed simp

section \<open>Properties\<close>


abbreviation all_ok :: setup_answers where "all_ok \<equiv> \<lparr>leases_ok = True, socket_ok = True, packet_ok = True\<rparr>"

abbreviation init_ok :: init_answers where "init_ok \<equiv> \<lparr>dest_ok = True, queue_ok = True, task_ok = True\<rparr>"

fun allowed_run :: "(setup_answers \<Rightarrow> bool) \<Rightarrow> life_event list \<Rightarrow> life \<Rightarrow> bool" where
  "allowed_run A [] s = True"
| "allowed_run A (ev # evs) s = (allowed A ev s \<and> (case life_step ev s of None \<Rightarrow> False | Some s' \<Rightarrow> allowed_run A evs s'))"

lemma reach_run: "reach A s \<Longrightarrow> allowed_run A evs s \<Longrightarrow> \<exists>s'. life_run evs s = Some s' \<and> reach A s'"
  by (induction evs arbitrary: s) (auto split: option.splits intro: reach.step)

lemmas life_eval = life_boot_def allowed_def phase_of_def after_result_def api_call_def udhcpd_init_def
  udhcpd_start_def udhcpd_stop_def udhcpd_exit_def return_def task_step_def run_setup_def run_end_def
  enqueue_def QLENGTH_def Let_def




text \<open>
  C30: If the memory for the packet is never refused, the server holds its table, socket and packet
  exactly while it serves, and the pointer to the table is null otherwise.
\<close>

theorem server_holds_resources:
  assumes "reach packet_ok s"
  shows "(lease_mem s, sockets s, packets s) = (if \<exists>q. tasks s = [Serving q] then (Live, 1, 1) else (Null, 0, 0))"
  using reach_res [OF assms] by (simp only: res_ok_def held_def serving_def)

lemma server_holds_resources_witness:
  "\<exists>s. life_run ([Call Udhcpd_init init_ok, Api True, Call Udhcpd_start init_ok, Api True] @ replicate 4 (Task 0 all_ok)) life_boot = Some s \<and>
     lease_mem s = Live \<and> sockets s = 1"
proof -
  let ?evs = "[Call Udhcpd_init init_ok, Api True, Call Udhcpd_start init_ok, Api True] @ replicate 4 (Task 0 all_ok)"
  have "allowed_run packet_ok ?evs life_boot" by (simp add: life_eval numeral_eq_Suc)
  from reach_run [OF reach.boot this] obtain s where s: "life_run ?evs life_boot = Some s" "reach packet_ok s" by blast
  from s(1) have "tasks s = [Serving 0]" by (auto simp: life_eval numeral_eq_Suc)
  with server_holds_resources [OF s(2)] s(1) show ?thesis by simp
qed

text \<open>
  When that memory is refused once, the pointer to the freed table and the open socket stay, and a
  query of the leases reads freed memory.
\<close>

lemma failed_setup_dangles:
  "\<exists>s. life_run ([Call Udhcpd_init init_ok, Api True, Call Udhcpd_start init_ok, Api True] @ replicate 3 (Task 0 all_ok) @
      [Task 0 (all_ok\<lparr>packet_ok := False\<rparr>)]) life_boot = Some s \<and> lease_mem s = Freed \<and> sockets s = 1"
  by (simp add: life_eval numeral_eq_Suc)

text \<open>
  C31: Every call returns, whatever the task does meanwhile and the kernel answers: after 163 passes of its waiting
  loops at most.
\<close>

theorem calls_return:
  assumes "life_run (Call c a # evs) s = Some s'" "api s = Idle" "list_all (Not \<circ> is_call) evs"
    "163 \<le> length (filter is_api evs)"
  shows "api s' = Idle"
proof -
  have "steps_left (api (api_call c a s)) \<le> 162"
    using assms(2) by (cases c) (auto simp: api_call_def udhcpd_init_def udhcpd_start_def udhcpd_stop_def udhcpd_exit_def
      return_def Let_def)
  moreover from assms(1,2) have "life_run evs (api_call c a s) = Some s'" by simp
  ultimately show ?thesis using run_returns [OF _ assms(3)] assms(4) by fastforce
qed

lemma life_run_append: "life_run (xs @ ys) s = Option.bind (life_run xs s) (life_run ys)"
  by (induction xs arbitrary: s) (simp_all split: bind_split)

lemma calls_return_witness:
  "\<exists>s'. life_run (Call Udhcpd_start init_ok # replicate 163 (Api False)) life_boot = Some s' \<and> api s' = Idle"
proof -
  have idle: "api s = Idle \<Longrightarrow> life_run (replicate n (Api False)) s = Some s" for n s
    by (induction n) simp_all
  have alloc: "api s = Start_alloc (Suc n) \<Longrightarrow> \<exists>s'. life_run (replicate (Suc n) (Api False)) s = Some s' \<and> api s' = Idle" for n s
    by (induction n arbitrary: s) (simp_all add: return_def)
  have "replicate 163 (Api False) = replicate (Suc 9) (Api False) @ replicate 153 (Api False)"
    unfolding replicate_add [symmetric] by simp
  moreover obtain u where "life_run (replicate (Suc 9) (Api False)) (udhcpd_start life_boot) = Some u" "api u = Idle"
    using alloc [of "udhcpd_start life_boot" 9] by (auto simp: udhcpd_start_def life_boot_def)
  ultimately have r: "life_run (Call Udhcpd_start init_ok # replicate 163 (Api False)) life_boot = Some u"
    using idle [of u 153] by (simp add: api_call_def life_run_append life_boot_def del: replicate.simps)
  from calls_return [OF r] \<open>api u = Idle\<close> have "api u = Idle"
    by (simp add: life_boot_def list_all_iff)
  with r show ?thesis by blast
qed



text \<open>
  When an exit has timed out and the task ends later, the handle of the deleted queue stays, and
  the next start sends its message to it.
\<close>

lemma exit_timeout_breaks_start:
  assumes "reach A s" "api s = Idle" "phase_of s = Broken" "tasks s = []"
  shows "life_run [Call Udhcpd_start b, Api True] s = None"
proof -
  have "leaving s" using reach_inv [OF assms(1)] assms(2,3) by (simp add: life_inv_def)
  then have "ended s" using assms(4) by (auto simp: leaving_def served_def)
  then obtain q where "\<not> dhcpd_start s" "qevt s = Some q" "queues s q = None" by (auto simp: ended_def)
  then show ?thesis using assms(2) by (simp add: api_call_def udhcpd_start_def enqueue_def)
qed

lemma reach_polls: "reach A s \<Longrightarrow> life_run (replicate n (Api ok)) s = Some s' \<Longrightarrow> reach A s'"
proof (induction n arbitrary: s)
  case (Suc n)
  then obtain u where u: "life_step (Api ok) s = Some u" "life_run (replicate n (Api ok)) u = Some s'"
    by (auto split: bind_splits)
  have "reach A u" by (rule reach.step [OF Suc.prems(1) _ u(1)]) (simp add: allowed_def)
  from Suc.IH [OF this u(2)] show ?case .
qed simp

lemma exit_polls:
  "api s = Exit_wait (Suc n) \<Longrightarrow> \<not> dhcpd_end s \<Longrightarrow>
   life_run (replicate (Suc (Suc n)) (Api ok)) s = Some (return Udhcpd_exit (- 1) s)"
  by (induction n arbitrary: s) (simp_all add: return_def)

text \<open>Fifty polls without a step of the task, and its four steps after them.\<close>

lemma exit_timeout_breaks_start_witness:
  "\<exists>s. life_run ([Call Udhcpd_init init_ok, Api True, Call Udhcpd_exit init_ok, Api True] @ replicate 51 (Api True) @
      replicate 4 (Task 0 all_ok)) life_boot = Some s \<and> last (results s) = (Udhcpd_exit, - 1) \<and>
    life_run [Call Udhcpd_start init_ok, Api True] s = None"
proof -
  let ?pre = "[Call Udhcpd_init init_ok, Api True, Call Udhcpd_exit init_ok, Api True]" and ?post = "replicate 4 (Task 0 all_ok)"
  have "allowed_run (\<lambda>_. True) ?pre life_boot" by (simp add: life_eval)
  from reach_run [OF reach.boot this] obtain s1 where s1: "life_run ?pre life_boot = Some s1" "reach (\<lambda>_. True) s1" by blast
  then have f: "api s1 = Exit_wait (Suc 49)" "\<not> dhcpd_end s1" by (auto simp: life_eval)
  have p: "life_run (replicate (Suc (Suc 49)) (Api True)) s1 = Some (return Udhcpd_exit (- 1) s1)"
    by (rule exit_polls [OF f])
  from reach_polls [OF s1(2) this] have r: "reach (\<lambda>_. True) (return Udhcpd_exit (- 1) s1)" .
  have "allowed_run (\<lambda>_. True) ?post (return Udhcpd_exit (- 1) s1)"
    using s1(1) by (auto simp: life_eval numeral_eq_Suc)
  from reach_run [OF r this] obtain s where s: "life_run ?post (return Udhcpd_exit (- 1) s1) = Some s" "reach (\<lambda>_. True) s" by blast
  have e: "api s = Idle" "phase_of s = Broken" "tasks s = []" "last (results s) = (Udhcpd_exit, - 1)"
    using s(1) s1(1) by (auto simp: life_eval numeral_eq_Suc)
  have "life_run (?pre @ replicate 51 (Api True) @ ?post) life_boot = Some s"
    unfolding life_run_append s1(1) using p s(1) by (simp add: life_run_append del: replicate.simps)
  with exit_timeout_breaks_start [OF s(2) e(1-3)] e(4) show ?thesis by blast
qed

end
