(* ===== verification/DomainCodec.thy ===== *)
theory DomainCodec
  imports Prelude
begin

text \<open>
  The compression of domain names in the DHCP search option, \<open>components/net/udhcp/domain_codec.c\<close>. A
  message is a list of bytes: a name is a sequence of labels, each with its length before it, that
  ends with a zero byte or with a pointer of two bytes to an earlier position. Offsets stand for
  pointers into an object; \<open>None\<close> is an access outside of one, or a null pointer that memory was
  refused for, and the value \<open>Some None\<close> the null pointer that the functions return on errors. The
  memory allocator is a parameter: \<open>heap n\<close> is a block of \<open>n\<close> bytes.
\<close>

type_synonym bytes = "u8 list"

definition NS_MAXDNAME :: nat where "NS_MAXDNAME = 1025"
definition NS_MAXCDNAME :: nat where "NS_MAXCDNAME = 255"
definition NS_MAXLABEL :: nat where "NS_MAXLABEL = 63"
definition NS_MAXDNSRCH :: nat where "NS_MAXDNSRCH = 6"
definition NS_CMPRSFLGS :: u8 where "NS_CMPRSFLGS = 0xc0"

definition flagged :: "u8 \<Rightarrow> bool" where
  "flagged c \<longleftrightarrow> c AND NS_CMPRSFLGS = NS_CMPRSFLGS"

text \<open>The target of the pointer whose two bytes are \<open>a\<close> and \<open>b\<close>.\<close>

definition target :: "u8 \<Rightarrow> u8 \<Rightarrow> nat" where
  "target a b = 256 * unat (a AND 0x3f) + unat b"

definition bytes_at :: "bytes \<Rightarrow> nat \<Rightarrow> nat \<Rightarrow> bytes option" where
  "bytes_at m i n = (if i + n \<le> length m then Some (take n (drop i m)) else None)"

section \<open>Decoding\<close>

text \<open>The variables of \<open>dname_dec\<close>. In the first pass \<open>dst\<close> is null, in the second it points into the object
  \<open>ret\<close>, behind the \<open>plen\<close> bytes of the prefix.\<close>

record dec_state =
  crtpos :: nat
  retpos :: nat
  depth :: nat
  len :: nat
  dst :: "bytes option"

definition put_label :: "nat \<Rightarrow> bytes \<Rightarrow> bytes option \<Rightarrow> bytes option option" where
  "put_label i bs d = (case d of None \<Rightarrow> Some None | Some b \<Rightarrow> do { b \<leftarrow> blit b i bs; Some (Some b) })"

text \<open>The assignment to \<open>dst[l - 1]\<close>.\<close>

definition put_last :: "nat \<Rightarrow> nat \<Rightarrow> u8 \<Rightarrow> bytes option \<Rightarrow> bytes option option" where
  "put_last plen l v d = (case d of None \<Rightarrow> Some None
     | Some b \<Rightarrow> if plen + l = 0 then None else do { b \<leftarrow> wr b (plen + l - 1) v; Some (Some b) })"

definition too_much :: "dec_state \<Rightarrow> bool" where
  "too_much s \<longleftrightarrow> NS_MAXDNSRCH < depth s \<or> NS_MAXDNAME * NS_MAXDNSRCH < len s"

text \<open>One pass of the inner loop; \<open>Some None\<close> returns a null pointer.\<close>

definition dec_step :: "bytes \<Rightarrow> nat \<Rightarrow> nat \<Rightarrow> dec_state \<Rightarrow> dec_state option option" where
  "dec_step msg clen plen s =
     do {
       c \<leftarrow> rd msg (crtpos s);
       r \<leftarrow> (if flagged c
         then if clen < crtpos s + 2 then Some None
           else do {
             c1 \<leftarrow> rd msg (crtpos s + 1);
             Some (Some (s\<lparr>retpos := if retpos s = 0 then crtpos s + 2 else retpos s, depth := depth s + 1,
               crtpos := target c c1\<rparr>)) }
         else if c \<noteq> 0
         then if clen < crtpos s + unat c + 1 then Some None
           else do {
             bs \<leftarrow> bytes_at msg (crtpos s + 1) (unat c);
             d \<leftarrow> put_label (plen + len s) bs (dst s);
             d \<leftarrow> put_last plen (len s + unat c + 1) 0x2e d;
             Some (Some (s\<lparr>len := len s + unat c + 1, crtpos := crtpos s + unat c + 1, dst := d\<rparr>)) }
         else do {
           d \<leftarrow> put_last plen (len s) 0x20 (dst s);
           Some (Some (if retpos s = 0 then s\<lparr>crtpos := crtpos s + 1, dst := d\<rparr>
             else s\<lparr>crtpos := retpos s, retpos := 0, depth := 0, dst := d\<rparr>)) });
       Some (case r of None \<Rightarrow> None | Some s \<Rightarrow> if too_much s then None else Some s) }"

text \<open>Where the loop is, or will be after it returns from a pointer, among the bytes at top level.\<close>

definition top_pos :: "dec_state \<Rightarrow> nat" where
  "top_pos s = (if retpos s = 0 then crtpos s else retpos s)"

definition dec_measure :: "nat \<Rightarrow> (dec_state \<times> dec_state) set" where
  "dec_measure clen = measures [\<lambda>s. clen - top_pos s, \<lambda>s. retpos s, \<lambda>s. 7 - depth s, \<lambda>s. 6151 - len s]"

lemma dec_step_decreases:
  assumes "dec_step msg clen plen s = Some (Some s')" "crtpos s < clen"
  shows "(s', s) \<in> dec_measure clen"
  using assms unfolding dec_step_def dec_measure_def top_pos_def too_much_def NS_MAXDNSRCH_def NS_MAXDNAME_def
  by (auto split: if_splits option.splits bind_splits simp: unat_eq_0)

function dec_loop :: "bytes \<Rightarrow> nat \<Rightarrow> nat \<Rightarrow> dec_state \<Rightarrow> dec_state option option" where
  "dec_loop msg clen plen s =
     (if crtpos s < clen
      then case dec_step msg clen plen s of
          None \<Rightarrow> None
        | Some None \<Rightarrow> Some None
        | Some (Some s') \<Rightarrow> dec_loop msg clen plen s'
      else Some (Some s))"
  by pat_completeness auto
termination
  by (relation "measures [\<lambda>(msg, clen, plen, s). clen - top_pos s, \<lambda>(msg, clen, plen, s). retpos s,
      \<lambda>(msg, clen, plen, s). 7 - depth s, \<lambda>(msg, clen, plen, s). 6151 - len s]")
    (use dec_step_decreases in \<open>auto simp: dec_measure_def\<close>)

definition dec_start :: "bytes option \<Rightarrow> dec_state" where
  "dec_start d = \<lparr>crtpos = 0, retpos = 0, depth = 0, len = 0, dst = d\<rparr>"

definition dname_dec :: "(nat \<Rightarrow> bytes option) \<Rightarrow> bytes \<Rightarrow> nat \<Rightarrow> bytes \<Rightarrow> bytes option option" where
  "dname_dec heap msg clen pre =
     do {
       r \<leftarrow> dec_loop msg clen 0 (dec_start None);
       (case r of None \<Rightarrow> Some None
        | Some s \<Rightarrow> if len s = 0 then Some None else do {
            ret \<leftarrow> heap (length pre + len s);
            ret \<leftarrow> blit ret 0 pre;
            r \<leftarrow> dec_loop msg clen (length pre) (dec_start (Some ret));
            (case r of None \<Rightarrow> Some None
             | Some s \<Rightarrow> if len s = 0 then Some None else put_last (length pre) (len s) 0 (dst s)) }) }"

section \<open>Encoding\<close>

text \<open>The loop of \<open>convert_dname\<close> over the rest of the text: \<open>lenptr\<close> and \<open>d\<close> are offsets into \<open>res\<close>.\<close>

fun convert_loop :: "bytes \<Rightarrow> nat \<Rightarrow> nat \<Rightarrow> bytes \<Rightarrow> (nat \<times> bytes) option option" where
  "convert_loop [] lenptr d res = None"
| "convert_loop (c # src) lenptr d res =
     (if c = 0x2e \<or> c = 0
      then let n = d - lenptr - 1 in
        if NS_MAXLABEL < n \<or> n = 0 then Some None
        else do {
          next \<leftarrow> (if c = 0x2e then rd src 0 else Some 0);
          if next = 0x2e then Some None
          else do {
            res \<leftarrow> wr res lenptr (of_nat n);
            if next = 0 then Some (Some (d, res)) else convert_loop src d (d + 1) res } }
      else do {
        res \<leftarrow> wr res d (if 0x41 \<le> c \<and> c \<le> 0x5a then c + 0x20 else c);
        convert_loop src lenptr (d + 1) res })"

definition convert_dname :: "(nat \<Rightarrow> bytes option) \<Rightarrow> bytes \<Rightarrow> bytes option option" where
  "convert_dname heap src =
     do {
       res \<leftarrow> heap (length src + 2);
       r \<leftarrow> convert_loop (src @ [0]) 0 1 res;
       (case r of None \<Rightarrow> Some None
        | Some (d, res) \<Rightarrow> if NS_MAXCDNAME \<le> d then Some None else do { res \<leftarrow> wr res d 0; Some (Some res) }) }"

text \<open>\<open>memcmp (xs, ys, n) == 0\<close>, which stops at the first difference.\<close>

fun same_bytes :: "bytes \<Rightarrow> bytes \<Rightarrow> nat \<Rightarrow> bool option" where
  "same_bytes xs ys 0 = Some True"
| "same_bytes (x # xs) (y # ys) (Suc n) = (if x = y then same_bytes xs ys n else Some False)"
| "same_bytes xs ys (Suc n) = None"

lemma same_bytes_length: "same_bytes xs ys n = Some True \<Longrightarrow> n \<le> length ys"
  by (induction xs ys n rule: same_bytes.induct) (auto split: if_splits)

text \<open>The inner loop of \<open>find_offset\<close>: \<open>d\<close> is the rest of the name.\<close>

function match_name :: "bytes \<Rightarrow> nat \<Rightarrow> bytes \<Rightarrow> bool option" where
  "match_name msg c d =
     do {
       x \<leftarrow> rd msg c;
       let len1 = unat x + 1;
       m \<leftarrow> same_bytes (drop c msg) d len1;
       if \<not> m then Some False
       else if len1 = 1 then Some True
       else do {
         y \<leftarrow> rd msg (c + len1);
         c \<leftarrow> (if flagged y then do { z \<leftarrow> rd msg (c + len1 + 1); Some (target y z) } else Some (c + len1));
         match_name msg c (drop len1 d) } }"
  by pat_completeness auto
termination
  by (relation "measure (\<lambda>(msg, c, d). length d)") (auto dest: same_bytes_length)

function find_offset :: "bytes \<Rightarrow> nat \<Rightarrow> bytes \<Rightarrow> nat \<Rightarrow> nat option option" where
  "find_offset msg clen dname off =
     (if off < clen then do {
        x \<leftarrow> rd msg off;
        if flagged x then find_offset msg clen dname (off + 2)
        else if x \<noteq> 0 then do {
          m \<leftarrow> match_name msg off dname;
          if m then Some (Some off) else find_offset msg clen dname (off + unat x + 1) }
        else find_offset msg clen dname (off + 1) }
      else Some None)"
  by pat_completeness auto
termination
  by (relation "measure (\<lambda>(msg, clen, dname, off). clen - off)") auto

text \<open>The loop of \<open>dname_enc\<close>, at offset \<open>d\<close> of \<open>dname\<close>; the result has the value for \<open>retlen\<close>. \<open>msg\<close> may be null.\<close>

function enc_loop :: "bytes option \<Rightarrow> nat \<Rightarrow> bytes \<Rightarrow> nat \<Rightarrow> (bytes \<times> nat) option" where
  "enc_loop msg clen dname d =
     do {
       x \<leftarrow> rd dname d;
       if x = 0 then Some (dname, d + 1)
       else do {
         off \<leftarrow> (case msg of None \<Rightarrow> Some None | Some m \<Rightarrow> find_offset m clen (drop d dname) 0);
         (case off of
            Some off \<Rightarrow> do {
              dname \<leftarrow> wr dname d (NS_CMPRSFLGS OR of_nat (off div 256));
              dname \<leftarrow> wr dname (d + 1) (of_nat off);
              Some (dname, d + 2) }
          | None \<Rightarrow> enc_loop msg clen dname (d + unat x + 1)) } }"
  by pat_completeness auto
termination
  by (relation "measure (\<lambda>(msg, clen, dname, d). length dname - d)") (auto simp: rd_eq_Some_iff)

definition dname_enc :: "(nat \<Rightarrow> bytes option) \<Rightarrow> bytes option \<Rightarrow> nat \<Rightarrow> bytes \<Rightarrow> (bytes \<times> nat) option option" where
  "dname_enc heap msg clen src =
     do {
       r \<leftarrow> convert_dname heap src;
       (case r of None \<Rightarrow> Some None | Some dname \<Rightarrow> do { r \<leftarrow> enc_loop msg clen dname 0; Some (Some r) }) }"

declare dec_loop.simps [simp del] match_name.simps [simp del] find_offset.simps [simp del] enc_loop.simps [simp del]

section \<open>Names in a message\<close>

text \<open>The name at a position, with the number of pointers that are followed to read it.\<close>

inductive name_at :: "bytes \<Rightarrow> nat \<Rightarrow> nat \<Rightarrow> bytes list \<Rightarrow> bool" for m where
  stop: "i < length m \<Longrightarrow> m ! i = 0 \<Longrightarrow> name_at m 0 i []"
| label: "i + unat (m ! i) < length m \<Longrightarrow> m ! i \<noteq> 0 \<Longrightarrow> \<not> flagged (m ! i) \<Longrightarrow> name_at m j (i + unat (m ! i) + 1) ls \<Longrightarrow>
    name_at m j i (take (unat (m ! i)) (drop (i + 1) m) # ls)"
| jump: "i + 1 < length m \<Longrightarrow> flagged (m ! i) \<Longrightarrow> name_at m j (target (m ! i) (m ! (i + 1))) ls \<Longrightarrow> name_at m (Suc j) i ls"

text \<open>A name at top level, with the position behind it.\<close>

inductive top_name :: "bytes \<Rightarrow> nat \<Rightarrow> nat \<Rightarrow> bytes list \<Rightarrow> nat \<Rightarrow> bool" for m where
  top_stop: "i < length m \<Longrightarrow> m ! i = 0 \<Longrightarrow> top_name m 0 i [] (i + 1)"
| top_label: "i + unat (m ! i) < length m \<Longrightarrow> m ! i \<noteq> 0 \<Longrightarrow> \<not> flagged (m ! i) \<Longrightarrow> top_name m j (i + unat (m ! i) + 1) ls k \<Longrightarrow>
    top_name m j i (take (unat (m ! i)) (drop (i + 1) m) # ls) k"
| top_jump: "i + 1 < length m \<Longrightarrow> flagged (m ! i) \<Longrightarrow> name_at m j (target (m ! i) (m ! (i + 1))) ls \<Longrightarrow>
    top_name m (Suc j) i ls (i + 2)"

text \<open>The names from a position to the end of the message, none of which needs more than \<open>J\<close> pointers.\<close>

inductive names_at :: "bytes \<Rightarrow> nat \<Rightarrow> nat \<Rightarrow> bytes list list \<Rightarrow> bool" for m J where
  none: "names_at m J (length m) []"
| more: "top_name m j i ls k \<Longrightarrow> j \<le> J \<Longrightarrow> ls \<noteq> [] \<Longrightarrow> names_at m J k nss \<Longrightarrow> names_at m J i (ls # nss)"

lemma top_name_at: "top_name m j i ls k \<Longrightarrow> name_at m j i ls"
  by (induction rule: top_name.induct) (blast intro: name_at.intros)+

text \<open>The text of a name: each label with a dot, the last one with a space.\<close>

definition dots :: "bytes list \<Rightarrow> bytes" where
  "dots ls = concat (map (\<lambda>l. l @ [0x2e]) ls)"

definition name_text :: "bytes list \<Rightarrow> bytes" where
  "name_text ls = butlast (dots ls) @ [0x20]"

lemma dots_simps [simp]: "dots [] = []" "dots (l # ls) = l @ 0x2e # dots ls" "dots (ks @ ls) = dots ks @ dots ls"
  by (simp_all add: dots_def)

section \<open>What the decoder writes\<close>

definition fits :: "nat \<Rightarrow> bytes option \<Rightarrow> bool" where
  "fits n d \<longleftrightarrow> (case d of None \<Rightarrow> True | Some b \<Rightarrow> n \<le> length b)"

definition overlay :: "nat \<Rightarrow> bytes \<Rightarrow> bytes option \<Rightarrow> bytes option" where
  "overlay i bs d = map_option (\<lambda>b. take i b @ bs @ drop (i + length bs) b) d"

definition set_last :: "nat \<Rightarrow> u8 \<Rightarrow> bytes option \<Rightarrow> bytes option" where
  "set_last n v d = map_option (\<lambda>b. b[n - 1 := v]) d"

lemma fits_overlay [simp]: "fits (i + length bs) d \<Longrightarrow> fits n (overlay i bs d) \<longleftrightarrow> fits n d"
  by (cases d) (auto simp: fits_def overlay_def)

lemma fits_set_last [simp]: "fits n (set_last i v d) \<longleftrightarrow> fits n d"
  by (cases d) (auto simp: fits_def set_last_def)

lemma fits_mono: "fits n d \<Longrightarrow> k \<le> n \<Longrightarrow> fits k d"
  by (cases d) (auto simp: fits_def)

lemma overlay_overlay:
  "fits (i + length xs + length ys) d \<Longrightarrow> overlay (i + length xs) ys (overlay i xs d) = overlay i (xs @ ys) d"
  by (cases d) (auto simp: fits_def overlay_def ac_simps)

lemma put_label_eq: "fits (i + length bs) d \<Longrightarrow> put_label i bs d = Some (overlay i bs d)"
  by (cases d) (auto simp: fits_def overlay_def put_label_def blit_def)

lemma put_last_eq: "fits (plen + l) d \<Longrightarrow> 0 < plen + l \<Longrightarrow> put_last plen l v d = Some (set_last (plen + l) v d)"
  by (cases d) (auto simp: fits_def set_last_def put_last_def wr_def)

lemma overlay_dot:
  "fits (i + Suc (length l)) d \<Longrightarrow> set_last (i + Suc (length l)) v (overlay i l d) = overlay i (l @ [v]) d"
  by (cases d) (auto simp: fits_def overlay_def set_last_def list_update_append Cons_nth_drop_Suc [symmetric])

lemma dec_step_label:
  assumes "i + unat (m ! i) < length m" "m ! i \<noteq> 0" "\<not> flagged (m ! i)"
    and "fits (plen + L + unat (m ! i) + 1) d" "q \<le> 6" "L + unat (m ! i) + 1 \<le> 6150"
  shows "dec_step m (length m) plen \<lparr>crtpos = i, retpos = r, depth = q, len = L, dst = d\<rparr> =
    Some (Some \<lparr>crtpos = i + unat (m ! i) + 1, retpos = r, depth = q, len = L + unat (m ! i) + 1,
      dst = overlay (plen + L) (take (unat (m ! i)) (drop (i + 1) m) @ [0x2e]) d\<rparr>)"
proof -
  let ?n = "unat (m ! i)" and ?l = "take (unat (m ! i)) (drop (i + 1) m)"
  have l: "length ?l = ?n" using assms(1) by simp
  have "put_label (plen + L) ?l d = Some (overlay (plen + L) ?l d)"
    using l by (intro put_label_eq) (auto intro: fits_mono [OF assms(4)])
  moreover have "put_last plen (L + ?n + 1) 0x2e (overlay (plen + L) ?l d) = Some (overlay (plen + L) (?l @ [0x2e]) d)"
    using put_last_eq [of plen "L + ?n + 1" "overlay (plen + L) ?l d" "0x2e"] overlay_dot [of "plen + L" ?l d "0x2e"] l assms(4)
    by (simp add: ac_simps fits_mono)
  ultimately show ?thesis using assms l
    by (simp add: dec_step_def rd_def bytes_at_def too_much_def NS_MAXDNSRCH_def NS_MAXDNAME_def)
qed

lemma dec_step_stop:
  assumes "i < length m" "m ! i = 0" "fits (plen + L) d" "0 < plen + L" "q \<le> 6" "L \<le> 6150"
  shows "dec_step m (length m) plen \<lparr>crtpos = i, retpos = r, depth = q, len = L, dst = d\<rparr> =
    Some (Some \<lparr>crtpos = if r = 0 then i + 1 else r, retpos = 0, depth = if r = 0 then q else 0, len = L,
      dst = set_last (plen + L) 0x20 d\<rparr>)"
  using assms put_last_eq [of plen L d "0x20"]
  by (simp add: dec_step_def rd_def flagged_def NS_CMPRSFLGS_def too_much_def NS_MAXDNSRCH_def NS_MAXDNAME_def)

lemma dec_step_jump:
  assumes "i + 1 < length m" "flagged (m ! i)" "q < 6" "L \<le> 6150"
  shows "dec_step m (length m) plen \<lparr>crtpos = i, retpos = r, depth = q, len = L, dst = d\<rparr> =
    Some (Some \<lparr>crtpos = target (m ! i) (m ! (i + 1)), retpos = if r = 0 then i + 2 else r, depth = q + 1, len = L, dst = d\<rparr>)"
  using assms by (simp add: dec_step_def rd_def too_much_def NS_MAXDNSRCH_def NS_MAXDNAME_def)

lemma dec_loop_step:
  "dec_step m n plen s = Some (Some s') \<Longrightarrow> crtpos s < n \<Longrightarrow> dec_loop m n plen s = dec_loop m n plen s'"
  by (simp add: dec_loop.simps [of m n plen s])

lemma overlay_Nil [simp]: "overlay i [] d = d"
  by (cases d) (simp_all add: overlay_def)

text \<open>What is left after a name of labels \<open>ls\<close> has been read; \<open>k\<close> is the position the loop goes on at.\<close>

abbreviation after_name :: "nat \<Rightarrow> nat \<Rightarrow> nat \<Rightarrow> bytes list \<Rightarrow> bytes option \<Rightarrow> dec_state" where
  "after_name plen k L ls d \<equiv> \<lparr>crtpos = k, retpos = 0, depth = 0, len = L + length (dots ls),
     dst = set_last (plen + L + length (dots ls)) 0x20 (overlay (plen + L) (dots ls) d)\<rparr>"

lemma dec_label:
  fixes m i plen L d
  defines "l \<equiv> take (unat (m ! i)) (drop (i + 1) m)"
  defines "L' \<equiv> L + unat (m ! i) + 1" and "d' \<equiv> overlay (plen + L) (l @ [0x2e]) d"
  assumes c: "i + unat (m ! i) < length m" "m ! i \<noteq> 0" "\<not> flagged (m ! i)" "q \<le> 6"
    and "L + length (dots (l # ls)) \<le> 6150" and d: "fits (plen + L + length (dots (l # ls))) d"
    and rest: "L' + length (dots ls) \<le> 6150 \<Longrightarrow> fits (plen + L' + length (dots ls)) d' \<Longrightarrow>
      dec_loop m (length m) plen \<lparr>crtpos = i + unat (m ! i) + 1, retpos = r, depth = q, len = L', dst = d'\<rparr> =
      dec_loop m (length m) plen (after_name plen k L' ls d')"
  shows "dec_loop m (length m) plen \<lparr>crtpos = i, retpos = r, depth = q, len = L, dst = d\<rparr> =
    dec_loop m (length m) plen (after_name plen k L (l # ls) d)"
proof -
  have l: "length l = unat (m ! i)" using c(1) by (simp add: l_def)
  have "fits (plen + L + length (l @ [0x2e])) d" using d l by (auto intro: fits_mono)
  then have f: "fits n d' \<longleftrightarrow> fits n d" for n unfolding d'_def by (rule fits_overlay)
  have "dec_loop m (length m) plen \<lparr>crtpos = i, retpos = r, depth = q, len = L, dst = d\<rparr> =
      dec_loop m (length m) plen \<lparr>crtpos = i + unat (m ! i) + 1, retpos = r, depth = q, len = L', dst = d'\<rparr>"
    using assms(4-9) l unfolding L'_def d'_def l_def by (intro dec_loop_step dec_step_label) (auto intro: fits_mono)
  also have "\<dots> = dec_loop m (length m) plen (after_name plen k L' ls d')"
    using assms(8) d l by (intro rest) (simp_all add: f L'_def ac_simps)
  also have "overlay (plen + L') (dots ls) d' = overlay (plen + L) (dots (l # ls)) d"
    using overlay_overlay [of "plen + L" "l @ [0x2e]" "dots ls" d] d l by (simp add: ac_simps L'_def d'_def)
  finally show ?thesis using l by (simp add: ac_simps L'_def)
qed

text \<open>Reading a name behind a pointer, and one at top level.\<close>

lemma name_dec:
  assumes "name_at m j i ls" "r \<noteq> 0" "q + j \<le> 6" "L + length (dots ls) \<le> 6150" "fits (plen + L + length (dots ls)) d"
    "0 < plen + L + length (dots ls)"
  shows "dec_loop m (length m) plen \<lparr>crtpos = i, retpos = r, depth = q, len = L, dst = d\<rparr> =
    dec_loop m (length m) plen \<lparr>crtpos = r, retpos = 0, depth = 0, len = L + length (dots ls),
      dst = set_last (plen + L + length (dots ls)) 0x20 (overlay (plen + L) (dots ls) d)\<rparr>"
  using assms
proof (induction arbitrary: q L d rule: name_at.induct)
  case (stop i)
  then show ?case using dec_loop_step [OF dec_step_stop [of i m plen L d q r]] by simp
next
  case (label i j ls)
  then show ?case by (intro dec_label ) auto
next
  case (jump i j ls)
  have "dec_loop m (length m) plen \<lparr>crtpos = i, retpos = r, depth = q, len = L, dst = d\<rparr> =
      dec_loop m (length m) plen \<lparr>crtpos = target (m ! i) (m ! (i + 1)), retpos = r, depth = q + 1, len = L, dst = d\<rparr>"
    using dec_loop_step [OF dec_step_jump [of i m q L plen r d]] jump.hyps(1,2) jump.prems by simp
  also have "\<dots> = dec_loop m (length m) plen \<lparr>crtpos = r, retpos = 0, depth = 0, len = L + length (dots ls),
      dst = set_last (plen + L + length (dots ls)) 0x20 (overlay (plen + L) (dots ls) d)\<rparr>"
    using jump.prems by (intro jump.IH) simp_all
  finally show ?case .
qed

lemma top_dec:
  assumes "top_name m j i ls k" "j \<le> 6" "L + length (dots ls) \<le> 6150" "fits (plen + L + length (dots ls)) d"
    "0 < plen + L + length (dots ls)"
  shows "dec_loop m (length m) plen \<lparr>crtpos = i, retpos = 0, depth = 0, len = L, dst = d\<rparr> =
    dec_loop m (length m) plen \<lparr>crtpos = k, retpos = 0, depth = 0, len = L + length (dots ls),
      dst = set_last (plen + L + length (dots ls)) 0x20 (overlay (plen + L) (dots ls) d)\<rparr>"
  using assms
proof (induction arbitrary: L d rule: top_name.induct)
  case (top_stop i)
  then show ?case using dec_loop_step [OF dec_step_stop [of i m plen L d 0 0]] by simp
next
  case (top_label i j ls k)
  then show ?case by (intro dec_label ) auto
next
  case (top_jump i j ls)
  have "dec_loop m (length m) plen \<lparr>crtpos = i, retpos = 0, depth = 0, len = L, dst = d\<rparr> =
      dec_loop m (length m) plen \<lparr>crtpos = target (m ! i) (m ! (i + 1)), retpos = i + 2, depth = 1, len = L, dst = d\<rparr>"
    using dec_loop_step [OF dec_step_jump [of i m 0 L plen 0 d]] top_jump.hyps(1,2) top_jump.prems by simp
  also have "\<dots> = dec_loop m (length m) plen \<lparr>crtpos = i + 2, retpos = 0, depth = 0, len = L + length (dots ls),
      dst = set_last (plen + L + length (dots ls)) 0x20 (overlay (plen + L) (dots ls) d)\<rparr>"
    using top_jump.prems by (intro name_dec [OF top_jump.hyps(3)]) simp_all
  finally show ?case .
qed

definition texts :: "bytes list list \<Rightarrow> bytes" where
  "texts nss = concat (map name_text nss)"

lemma texts_simps [simp]: "texts [] = []" "texts (ls # nss) = name_text ls @ texts nss" "texts (xs @ ys) = texts xs @ texts ys"
  by (simp_all add: texts_def)

lemma dots_not_Nil: "ls \<noteq> [] \<Longrightarrow> dots ls \<noteq> []"
  by (cases ls) simp_all

lemma length_name_text: "ls \<noteq> [] \<Longrightarrow> length (name_text ls) = length (dots ls)"
  using dots_not_Nil [of ls] by (simp add: name_text_def)

lemma set_last_overlay:
  assumes "fits (i + length bs) d" "bs \<noteq> []"
  shows "set_last (i + length bs) v (overlay i bs d) = overlay i (butlast bs @ [v]) d"
proof -
  obtain ys y where "bs = ys @ [y]" using assms(2) by (cases bs rule: rev_cases) auto
  then show ?thesis using assms(1)
    by (cases d) (auto simp: set_last_def overlay_def fits_def list_update_append)
qed

lemma names_dec:
  assumes "names_at m J i nss" "J \<le> 6" "L + length (texts nss) \<le> 6150" "fits (plen + L + length (texts nss)) d"
  shows "dec_loop m (length m) plen \<lparr>crtpos = i, retpos = 0, depth = 0, len = L, dst = d\<rparr> =
    Some (Some \<lparr>crtpos = length m, retpos = 0, depth = 0, len = L + length (texts nss), dst = overlay (plen + L) (texts nss) d\<rparr>)"
  using assms
proof (induction arbitrary: L d rule: names_at.induct)
  case none
  then show ?case by (simp add: dec_loop.simps)
next
  case (more j i ls k nss)
  note n = length_name_text [OF more.hyps(3)]
  have f: "fits (plen + L + length (dots ls)) d" using more.prems n by (auto intro: fits_mono)
  let ?d = "overlay (plen + L) (name_text ls) d"
  have "dec_loop m (length m) plen \<lparr>crtpos = i, retpos = 0, depth = 0, len = L, dst = d\<rparr> =
      dec_loop m (length m) plen (after_name plen k L ls d)"
    using more.hyps more.prems n f dots_not_Nil [of ls] by (intro top_dec [OF more.hyps(1)]) auto
  also have "set_last (plen + L + length (dots ls)) 0x20 (overlay (plen + L) (dots ls) d) = ?d"
    using set_last_overlay [OF f] more.hyps(3) by (simp add: dots_not_Nil name_text_def)
  also have "dec_loop m (length m) plen \<lparr>crtpos = k, retpos = 0, depth = 0, len = L + length (dots ls), dst = ?d\<rparr> =
      Some (Some \<lparr>crtpos = length m, retpos = 0, depth = 0, len = L + length (dots ls) + length (texts nss),
        dst = overlay (plen + (L + length (dots ls))) (texts nss) ?d\<rparr>)"
    using more.prems n f by (intro more.IH) (simp_all add: ac_simps)
  also have "overlay (plen + (L + length (dots ls))) (texts nss) ?d = overlay (plen + L) (texts (ls # nss)) d"
    using overlay_overlay [of "plen + L" "name_text ls" "texts nss" d] more.prems n by (simp add: ac_simps)
  finally show ?case using n by (simp add: ac_simps)
qed

text \<open>Decoding a whole message.\<close>

lemma dname_dec_eq:
  assumes "names_at m J 0 nss" "J \<le> 6" "nss \<noteq> []" "length (texts nss) \<le> 6150"
    and "heap (length pre + length (texts nss)) = Some b" "length b = length pre + length (texts nss)"
  shows "dname_dec heap m (length m) pre = Some (Some (pre @ butlast (texts nss) @ [0]))"
proof -
  have p: "texts nss \<noteq> []" using assms(3) by (cases nss) (simp_all add: name_text_def)
  have first: "dec_loop m (length m) 0 (dec_start None) =
      Some (Some \<lparr>crtpos = length m, retpos = 0, depth = 0, len = length (texts nss), dst = None\<rparr>)"
    using names_dec [OF assms(1,2), of 0 0 None] assms(4) by (simp add: dec_start_def fits_def overlay_def)
  let ?b = "pre @ drop (length pre) b"
  have second: "dec_loop m (length m) (length pre) (dec_start (Some ?b)) =
      Some (Some \<lparr>crtpos = length m, retpos = 0, depth = 0, len = length (texts nss), dst = Some (pre @ texts nss)\<rparr>)"
    using names_dec [OF assms(1,2), of 0 "length pre" "Some ?b"] assms(4,6) by (simp add: dec_start_def fits_def overlay_def)
  have "wr (pre @ texts nss) (length pre + length (texts nss) - 1) 0 = Some (pre @ butlast (texts nss) @ [0])"
    using p set_last_overlay [of "length pre" "texts nss" "Some (pre @ texts nss)" 0]
    by (simp add: wr_def set_last_def overlay_def fits_def)
  then show ?thesis using p assms(5,6) first second
    by (simp add: dname_dec_def blit_def put_last_def)
qed

section \<open>What the encoder writes\<close>

definition lower :: "u8 \<Rightarrow> u8" where
  "lower c = (if 0x41 \<le> c \<and> c \<le> 0x5a then c + 0x20 else c)"

definition label_ok :: "bytes \<Rightarrow> bool" where
  "label_ok l \<longleftrightarrow> 0 < length l \<and> length l \<le> 63 \<and> 0x2e \<notin> set l \<and> 0 \<notin> set l"

definition short_label :: "bytes \<Rightarrow> bool" where
  "short_label l \<longleftrightarrow> 0 < length l \<and> length l \<le> 63"

definition enc_labels :: "bytes list \<Rightarrow> bytes" where
  "enc_labels ls = concat (map (\<lambda>l. of_nat (length l) # l) ls)"

abbreviation enc_name :: "bytes list \<Rightarrow> bytes" where "enc_name ls \<equiv> enc_labels ls @ [0]"

lemma enc_labels_simps [simp]:
  "enc_labels [] = []" "enc_labels (l # ls) = of_nat (length l) # l @ enc_labels ls"
  "enc_labels (ks @ ls) = enc_labels ks @ enc_labels ls"
  by (simp_all add: enc_labels_def)

lemma length_enc_labels: "length (enc_labels ls) = length (dots ls)"
  by (induction ls) simp_all

lemma convert_chars:
  "0x2e \<notin> set l \<Longrightarrow> 0 \<notin> set l \<Longrightarrow> d + length l \<le> length res \<Longrightarrow>
   convert_loop (l @ rest) lenptr d res =
   convert_loop rest lenptr (d + length l) (take d res @ map lower l @ drop (d + length l) res)"
proof (induction l arbitrary: d res)
  case (Cons c l)
  have "convert_loop ((c # l) @ rest) lenptr d res = convert_loop (l @ rest) lenptr (d + 1) (res[d := lower c])"
    using Cons.prems by (auto simp: wr_def lower_def)
  also have "\<dots> = convert_loop rest lenptr (d + 1 + length l)
      (take (d + 1) (res[d := lower c]) @ map lower l @ drop (d + 1 + length l) (res[d := lower c]))"
    using Cons.prems by (intro Cons.IH) auto
  also have "take (d + 1) (res[d := lower c]) = take d res @ [lower c]"
    using Cons.prems by (simp add: take_Suc_conv_app_nth)
  finally show ?case using Cons.prems by simp
qed simp

lemma convert_dot:
  "rd src 0 = Some c \<Longrightarrow> c \<noteq> 0x2e \<Longrightarrow> c \<noteq> 0 \<Longrightarrow> 0 < n \<Longrightarrow> n \<le> 63 \<Longrightarrow> lenptr < length res \<Longrightarrow>
   convert_loop (0x2e # src) lenptr (lenptr + 1 + n) res =
   convert_loop src (lenptr + 1 + n) (lenptr + 1 + n + 1) (res[lenptr := of_nat n])"
  by (simp add: NS_MAXLABEL_def wr_def Let_def)

lemma convert_labels:
  assumes "ls \<noteq> []" "list_all label_ok ls" "lenptr + length (dots ls) \<le> length res"
  shows "convert_loop (butlast (dots ls) @ [0]) lenptr (lenptr + 1) res = Some (Some (lenptr + length (dots ls),
    take lenptr res @ enc_labels (map (map lower) ls) @ drop (lenptr + length (dots ls)) res))"
  using assms
proof (induction ls arbitrary: lenptr res)
  case (Cons l ls)
  have l: "0 < length l" "length l \<le> 63" "0x2e \<notin> set l" "0 \<notin> set l" using Cons.prems(2) by (auto simp: label_ok_def)
  have fit: "lenptr + 1 + length l \<le> length res" using Cons.prems(3) by simp
  let ?res = "take (lenptr + 1) res @ map lower l @ drop (lenptr + 1 + length l) res"
  have u: "?res[lenptr := v] = take lenptr res @ (v # map lower l) @ drop (lenptr + 1 + length l) res" for v
    using fit by (simp add: list_update_append take_Suc_conv_app_nth)
  show ?case
  proof (cases ls)
    case Nil
    then show ?thesis using convert_chars [OF l(3,4) fit, of "[0]" lenptr] l(1,2) fit u
      by (simp add: NS_MAXLABEL_def wr_def Let_def)
  next
    case (Cons k ks)
    then have k: "label_ok k" "ls \<noteq> []" "list_all label_ok ls" using Cons.prems(2) by auto
    obtain c cs where c: "butlast (dots ls) = c # cs" "c \<noteq> 0x2e" "c \<noteq> 0"
      using k(1) Cons by (cases k) (auto simp: label_ok_def butlast_append)
    have b: "butlast (dots (l # ls)) = l @ 0x2e # butlast (dots ls)"
      using dots_not_Nil [OF k(2)] by (simp add: butlast_append)
    have "convert_loop (butlast (dots (l # ls)) @ [0]) lenptr (lenptr + 1) res =
        convert_loop (butlast (dots ls) @ [0]) (lenptr + 1 + length l) (lenptr + 1 + length l + 1) (?res[lenptr := of_nat (length l)])"
      unfolding b append_assoc append_Cons convert_chars [OF l(3,4) fit]
      using convert_dot [of "butlast (dots ls) @ [0]" c "length l" lenptr ?res] l(1,2) fit c by (simp add: rd_def)
    also have "\<dots> = Some (Some (lenptr + 1 + length l + length (dots ls),
        take (lenptr + 1 + length l) (?res[lenptr := of_nat (length l)]) @ enc_labels (map (map lower) ls) @
        drop (lenptr + 1 + length l + length (dots ls)) (?res[lenptr := of_nat (length l)])))"
      using k Cons.prems(3) by (intro Cons.IH) simp_all
    also have "take (lenptr + 1 + length l) (?res[lenptr := of_nat (length l)]) = take lenptr res @ of_nat (length l) # map lower l"
      unfolding u using fit by simp
    also have "drop (lenptr + 1 + length l + length (dots ls)) (?res[lenptr := of_nat (length l)]) =
        drop (lenptr + length (dots (l # ls))) res"
      unfolding u using fit by (simp add: ac_simps)
    finally show ?thesis by (simp add: ac_simps)
  qed
qed simp

definition alloc_ok :: "(nat \<Rightarrow> bytes option) \<Rightarrow> bool" where
  "alloc_ok heap \<longleftrightarrow> (\<forall>n. \<exists>b. heap n = Some b \<and> length b = n)"

text \<open>The text of a name becomes its encoding in lower case.\<close>

lemma convert_dname_eq:
  assumes "alloc_ok heap" "ls \<noteq> []" "list_all label_ok ls" "length (dots ls) < 255"
  shows "convert_dname heap (butlast (dots ls)) = Some (Some (enc_name (map (map lower) ls)))"
proof -
  have n: "0 < length (dots ls)" using dots_not_Nil [OF assms(2)] by simp
  then have s: "length (butlast (dots ls)) + 2 = length (dots ls) + 1" by simp
  obtain b where b: "heap (length (dots ls) + 1) = Some b" "length b = length (dots ls) + 1"
    using assms(1) unfolding alloc_ok_def by blast
  have e: "length (enc_labels (map (map lower) ls)) = length (dots ls)"
    unfolding length_enc_labels dots_def by (induction ls) simp_all
  have "drop (length (dots ls)) b = [last b]"
    using b(2) by (metis append_butlast_last_id append_eq_conv_conj diff_add_inverse2 length_0_conv length_butlast add_is_0 one_neq_zero)
  then show ?thesis
    using convert_labels [OF assms(2,3), of 0 b] b e assms(4) unfolding convert_dname_def s
    by (simp add: NS_MAXCDNAME_def wr_def list_update_append)
qed

section \<open>What the search finds\<close>

lemma name_at_less: "name_at m j i ls \<Longrightarrow> i < length m"
  by (induction rule: name_at.induct) simp_all

lemma same_bytes_eq: "n \<le> length xs \<Longrightarrow> n \<le> length ys \<Longrightarrow> same_bytes xs ys n = Some (take n xs = take n ys)"
  by (induction xs ys n rule: same_bytes.induct) auto

lemma same_bytes_first:
  "c < length m \<Longrightarrow> same_bytes (drop c m) (y # ys) (Suc n) = (if m ! c = y then same_bytes (drop (Suc c) m) ys n else Some False)"
  by (simp add: Cons_nth_drop_Suc [symmetric])

lemma flagged_bit: "flagged c \<Longrightarrow> bit c 7"
proof -
  assume "flagged c"
  then have "bit (c AND 0xc0) 7 = bit (0xc0 :: u8) 7" by (simp add: flagged_def NS_CMPRSFLGS_def)
  then show ?thesis by (simp add: bit_and_iff)
qed

lemma small_not_flagged:
  assumes "unat c < 128"
  shows "\<not> flagged c"
proof
  assume "flagged c"
  then have "bit (unat c) 7" using flagged_bit by (simp add: bit_unsigned_iff)
  then have "2 ^ 7 \<le> unat c" by (metis bit_take_bit_iff less_irrefl linorder_not_less take_bit_nat_eq_self)
  with assms show False by simp
qed

lemma length_byte: "short_label l \<Longrightarrow> unat (of_nat (length l) :: u8) = length l"
  unfolding short_label_def by (simp add: unsigned_of_nat take_bit_nat_eq_self)

text \<open>Where the name at \<open>c\<close> is readable, the comparison is defined, and it holds only if the names are equal.\<close>

lemma match_first: "c < length m \<Longrightarrow> m ! c \<noteq> y \<Longrightarrow> match_name m c (y # ys) = Some False"
  by (subst match_name.simps) (simp add: rd_def same_bytes_first Let_def)

lemma match_stop: "c < length m \<Longrightarrow> m ! c = 0 \<Longrightarrow> match_name m c (0 # ys) = Some True"
  by (subst match_name.simps) (simp add: rd_def same_bytes_first Let_def)

lemma match_label:
  assumes "c < length m" "unat (m ! c) = n" "0 < n" "same_bytes (drop c m) (y # ys) (Suc n) = Some b"
    and "b \<Longrightarrow> c + n + 1 < length m \<and> (flagged (m ! (c + n + 1)) \<longrightarrow> c + n + 2 < length m)"
  shows "match_name m c (y # ys) = (if b then match_name m (let p = m ! (c + n + 1) in
      if flagged p then target p (m ! (c + n + 2)) else c + n + 1) (drop n ys) else Some False)"
  using assms by (subst match_name.simps) (auto simp: rd_def Let_def)

text \<open>The comparison follows a pointer at once; the rest of a name starts where it leads.\<close>

lemma name_at_led:
  assumes "name_at m j i ls" "n = i + 1"
  shows "\<exists>j'. name_at m j' (if flagged (m ! i) then target (m ! i) (m ! n) else i) ls \<and> (flagged (m ! i) \<longrightarrow> n < length m)"
proof (cases "flagged (m ! i)")
  case True
  with assms show ?thesis by (cases rule: name_at.cases) (auto simp: flagged_def NS_CMPRSFLGS_def)
next
  case False
  with assms show ?thesis by auto
qed

lemma match_name_correct:
  assumes "list_all short_label ks" "name_at m j c ls"
  shows "\<exists>b. match_name m c (enc_name ks) = Some b \<and> (b \<longrightarrow> ls = ks)"
  using assms
proof (induction ks arbitrary: c j ls)
  case Nil
  note less = name_at_less [OF Nil.prems(2)]
  show ?case
  proof (cases "m ! c = 0")
    case True
    with Nil.prems(2) have "ls = []" by (cases rule: name_at.cases) (auto simp: flagged_def NS_CMPRSFLGS_def)
    with True less show ?thesis by (intro exI [of _ True]) (simp add: match_stop)
  next
    case False
    with less show ?thesis by (intro exI [of _ False]) (simp add: match_first)
  qed
next
  case (Cons k ks)
  note less = name_at_less [OF Cons.prems(2)]
  have k: "short_label k" "list_all short_label ks" using Cons.prems(1) by simp_all
  note n = length_byte [OF k(1)]
  have pos: "0 < length k" "length k \<le> 63" using k(1) by (simp_all add: short_label_def)
  show ?case
  proof (cases "m ! c = of_nat (length k)")
    case False
    then show ?thesis using less by (intro exI [of _ False]) (simp add: match_first)
  next
    case True
    have nz: "m ! c \<noteq> 0" and nf: "\<not> flagged (m ! c)" and len: "unat (m ! c) = length k"
      using True n pos small_not_flagged [of "m ! c"] by auto
    from Cons.prems(2) nz nf obtain ls' where ls: "ls = take (length k) (drop (c + 1) m) # ls'"
      and in_m: "c + length k < length m" and rest: "name_at m j (c + length k + 1) ls'"
      by (cases rule: name_at.cases) (auto simp: len)
    have r: "c + length k + 1 < length m" using name_at_less [OF rest] .
    have cmp: "same_bytes (drop c m) (enc_name (k # ks)) (Suc (length k)) = Some (take (length k) (drop (Suc c) m) = k)"
      unfolding enc_labels_simps append_Cons same_bytes_first [OF less] using True in_m by (simp add: same_bytes_eq)
    define p where "p = m ! (c + length k + 1)"
    obtain j' where j': "name_at m j' (if flagged p then target p (m ! (c + length k + 2)) else c + length k + 1) ls'"
      and f: "flagged p \<longrightarrow> c + length k + 2 < length m" using name_at_led [OF rest, of "c + length k + 2", folded p_def] by auto
    from Cons.IH [OF k(2) j'] obtain b where b: "match_name m (if flagged p then target p (m ! (c + length k + 2)) else c + length k + 1)
        (enc_name ks) = Some b" "b \<longrightarrow> ls' = ks" by blast
    have "match_name m c (enc_name (k # ks)) = (if take (length k) (drop (Suc c) m) = k then Some b else Some False)"
      using match_label [OF less len pos(1) cmp [unfolded enc_labels_simps append_Cons]] r f b(1)
      by (auto simp: Let_def p_def split: if_splits)
    with b(2) show ?thesis unfolding ls by (intro exI [of _ "take (length k) (drop (Suc c) m) = k \<and> b"]) auto
  qed
qed

text \<open>A position that the search visits: a label of a name at top level, or the end.\<close>

definition inside :: "bytes \<Rightarrow> nat \<Rightarrow> nat \<Rightarrow> bool" where
  "inside m J i \<longleftrightarrow> i = length m \<or> (\<exists>j ls k nss. top_name m j i ls k \<and> j \<le> J \<and> names_at m J k nss)"

lemma names_inside: "names_at m J i nss \<Longrightarrow> inside m J i"
  by (cases rule: names_at.cases) (auto simp: inside_def)

lemma inside_next:
  assumes "inside m J i" "i < length m"
  shows "inside m J (if flagged (m ! i) then i + 2 else if m ! i \<noteq> 0 then i + unat (m ! i) + 1 else i + 1)"
proof -
  obtain j ls k nss where "top_name m j i ls k" "j \<le> J" "names_at m J k nss"
    using assms unfolding inside_def by blast
  then show ?thesis
    by (cases rule: top_name.cases) (auto simp: flagged_def NS_CMPRSFLGS_def names_inside, auto simp: inside_def)
qed

lemma inside_name: "inside m J i \<Longrightarrow> i < length m \<Longrightarrow> \<exists>j \<le> J. \<exists>ls. name_at m j i ls"
  unfolding inside_def using top_name_at by blast

text \<open>The search is defined, and finds only positions where the name is.\<close>

lemma find_offset_correct:
  assumes "list_all short_label ks" "inside m J i"
  shows "\<exists>r. find_offset m (length m) (enc_name ks) i = Some r \<and>
    (\<forall>off. r = Some off \<longrightarrow> (\<exists>j \<le> J. name_at m j off ks))"
  using assms(2)
proof (induction i rule: measure_induct_rule [of "\<lambda>i. length m - i"])
  case (less i)
  show ?case
  proof (cases "i < length m")
    case False
    then show ?thesis by (simp add: find_offset.simps [of m "length m" "enc_name ks" i])
  next
    case True
    let ?i = "if flagged (m ! i) then i + 2 else if m ! i \<noteq> 0 then i + unat (m ! i) + 1 else i + 1"
    have rec: "\<exists>r. find_offset m (length m) (enc_name ks) ?i = Some r \<and> (\<forall>off. r = Some off \<longrightarrow> (\<exists>j \<le> J. name_at m j off ks))"
      using True by (intro less.IH inside_next [OF less.prems True]) auto
    from inside_name [OF less.prems True] obtain j ls where j: "j \<le> J" "name_at m j i ls" by blast
    from match_name_correct [OF assms(1) j(2)] obtain b where b: "match_name m i (enc_name ks) = Some b" "b \<longrightarrow> ls = ks" by blast
    have "find_offset m (length m) (enc_name ks) i =
        (if \<not> flagged (m ! i) \<and> m ! i \<noteq> 0 \<and> b then Some (Some i) else find_offset m (length m) (enc_name ks) ?i)"
      using True b(1) by (subst find_offset.simps) (simp add: rd_def)
    with rec b(2) j show ?thesis by auto
  qed
qed

section \<open>Appending a name\<close>

lemma name_at_append: "name_at m j i ls \<Longrightarrow> name_at (m @ x) j i ls"
proof (induction rule: name_at.induct)
  case (label i j ls)
  have "name_at (m @ x) j i (take (unat ((m @ x) ! i)) (drop (i + 1) (m @ x)) # ls)"
    using label by (intro name_at.label) (auto simp: nth_append)
  then show ?case using label.hyps(1) by (simp add: nth_append)
qed (auto intro!: name_at.intros simp: nth_append)

lemma top_name_append: "top_name m j i ls k \<Longrightarrow> top_name (m @ x) j i ls k"
proof (induction rule: top_name.induct)
  case (top_label i j ls k)
  have "top_name (m @ x) j i (take (unat ((m @ x) ! i)) (drop (i + 1) (m @ x)) # ls) k"
    using top_label by (intro top_name.top_label) (auto simp: nth_append)
  then show ?case using top_label.hyps(1) by (simp add: nth_append)
qed (auto intro!: top_name.top_stop [simplified] top_name.top_jump [simplified] name_at_append simp: nth_append)

lemma names_at_append:
  assumes "names_at m J i nss" "J \<le> J'" "top_name (m @ x) j (length m) ls (length (m @ x))" "j \<le> J'" "ls \<noteq> []"
  shows "names_at (m @ x) J' i (nss @ [ls])"
  using assms
proof (induction rule: names_at.induct)
  case none
  then show ?case using names_at.more [OF none(2,3,4) names_at.none] by simp
next
  case (more j i ls k nss)
  then show ?case by (auto intro: names_at.more [OF top_name_append])
qed

lemma top_labels:
  "list_all short_label ps \<Longrightarrow> top_name (a @ enc_labels ps @ b) j (length (a @ enc_labels ps)) qs k \<Longrightarrow>
   top_name (a @ enc_labels ps @ b) j (length a) (ps @ qs) k"
proof (induction ps arbitrary: a)
  case (Cons p ps)
  have p: "short_label p" "0 < length p" "length p \<le> 63" using Cons.prems(1) by (simp_all add: short_label_def)
  note n = length_byte [OF p(1)]
  let ?m = "a @ enc_labels (p # ps) @ b"
  have m: "?m ! length a = of_nat (length p)" by (simp add: nth_append)
  have "top_name ((a @ of_nat (length p) # p) @ enc_labels ps @ b) j (length (a @ of_nat (length p) # p)) (ps @ qs) k"
    using Cons.prems by (intro Cons.IH) simp_all
  then have t: "top_name ?m j (length a + length p + 1) (ps @ qs) k" by simp
  have "top_name ?m j (length a) (take (unat (?m ! length a)) (drop (length a + 1) ?m) # (ps @ qs)) k"
  proof (rule top_name.top_label)
    show "length a + unat (?m ! length a) < length ?m" using n unfolding m by simp
    show "?m ! length a \<noteq> 0" using n p(2) unfolding m by (metis unsigned_0 less_irrefl)
    show "\<not> flagged (?m ! length a)" using n p(3) small_not_flagged unfolding m by simp
    show "top_name ?m j (length a + unat (?m ! length a) + 1) (ps @ qs) k" using t n unfolding m by simp
  qed
  then show ?case using n unfolding m by simp
qed simp

definition pointer_to :: "nat \<Rightarrow> bytes" where
  "pointer_to off = [NS_CMPRSFLGS OR of_nat (off div 256), of_nat off]"

lemma pointer_bits: "a < 0x40 \<Longrightarrow> flagged (NS_CMPRSFLGS OR a) \<and> (NS_CMPRSFLGS OR a) AND 0x3f = a"
proof -
  assume "a < 0x40"
  then have "unat a < 2 ^ 6" by (simp add: word_less_nat_alt)
  then have "take_bit 6 a = a" by (simp add: word_unat_eq_iff unsigned_take_bit_eq take_bit_nat_eq_self)
  moreover have "(0x3f :: u8) = mask 6" by (simp add: mask_eq_exp_minus_1)
  ultimately have a: "a AND 0x3f = a" by (simp add: take_bit_eq_mask)
  have "(0xc0 OR a) AND 0x3f = (0xc0 AND 0x3f) OR (a AND 0x3f)" by (rule bit.conj_disj_distrib2)
  also have "(0xc0 AND 0x3f :: u8) = 0" by simp
  finally have "(0xc0 OR a) AND 0x3f = a" using a by simp
  moreover have "(0xc0 OR a) AND 0xc0 = 0xc0" by (rule bit_eqI) (auto simp only: bit_and_iff bit_or_iff)
  ultimately show ?thesis by (simp add: flagged_def NS_CMPRSFLGS_def)
qed

lemma pointer_target:
  assumes "off < 0x4000"
  shows "flagged (hd (pointer_to off))" "target (hd (pointer_to off)) (last (pointer_to off)) = off"
proof -
  have "off div 256 < 64" using assms by auto
  then have n: "unat (of_nat (off div 256) :: u8) = off div 256" by (simp add: unsigned_of_nat take_bit_nat_eq_self)
  then have "(of_nat (off div 256) :: u8) < 0x40" using \<open>off div 256 < 64\<close> by (simp add: word_less_nat_alt)
  note b = pointer_bits [OF this]
  show "flagged (hd (pointer_to off))" using b by (simp add: pointer_to_def)
  have "unat (of_nat off :: u8) = off mod 256" by (simp add: unsigned_of_nat take_bit_eq_mod)
  then show "target (hd (pointer_to off)) (last (pointer_to off)) = off" using b n by (simp add: pointer_to_def target_def)
qed

lemma enc_loop_correct:
  assumes "list_all short_label (ks @ ls)" "inside m J 0"
  shows "\<exists>obj n. enc_loop (Some m) (length m) (enc_labels ks @ enc_name ls) (length (enc_labels ks)) = Some (obj, n) \<and> n \<le> length obj \<and>
    (take n obj = enc_name (ks @ ls) \<or>
     (\<exists>ps qs off. ls = ps @ qs \<and> take n obj = enc_labels (ks @ ps) @ pointer_to off \<and> (\<exists>j \<le> J. name_at m j off qs)))"
  using assms(1)
proof (induction ls arbitrary: ks)
  case Nil
  then show ?case by (simp add: enc_loop.simps rd_def nth_append)
next
  case (Cons l ls)
  let ?a = "enc_labels ks" and ?dn = "enc_labels ks @ enc_name (l # ls)"
  have l: "short_label l" "0 < length l" "length l \<le> 63" using Cons.prems by (simp_all add: short_label_def)
  note n = length_byte [OF l(1)]
  have nz: "(of_nat (length l) :: u8) \<noteq> 0" using n l(2) by (metis unsigned_0 less_irrefl)
  obtain r where r: "find_offset m (length m) (enc_name (l # ls)) 0 = Some r" "\<forall>off. r = Some off \<longrightarrow> (\<exists>j \<le> J. name_at m j off (l # ls))"
    using find_offset_correct [OF _ assms(2), of "l # ls"] Cons.prems by auto
  show ?case
  proof (cases r)
    case None
    have "enc_loop (Some m) (length m) ?dn (length ?a) = enc_loop (Some m) (length m) ?dn (length ?a + length l + 1)"
      using r(1) None nz n by (subst enc_loop.simps) (simp add: rd_def nth_append)
    also have "\<dots> = enc_loop (Some m) (length m) (enc_labels (ks @ [l]) @ enc_name ls) (length (enc_labels (ks @ [l])))" by simp
    finally show ?thesis using Cons.IH [of "ks @ [l]"] Cons.prems by (auto 4 4 intro: exI [of _ "l # _"])
  next
    case (Some off)
    let ?obj = "?dn[length ?a := NS_CMPRSFLGS OR of_nat (off div 256), Suc (length ?a) := of_nat off]"
    obtain x xs where x: "l = x # xs" using l(2) by (cases l) auto
    have "enc_loop (Some m) (length m) ?dn (length ?a) = Some (?obj, length ?a + 2)"
      using r(1) Some nz n by (subst enc_loop.simps) (simp add: rd_def nth_append wr_def x)
    moreover have "take (length ?a + 2) ?obj = ?a @ pointer_to off"
      by (simp add: list_update_append pointer_to_def x)
    moreover have "length ?a + 2 \<le> length ?obj" by (simp add: x)
    ultimately show ?thesis using r(2) Some by (metis append_Nil append_Nil2)
  qed
qed

text \<open>What the encoder returns is a name at the end of the message it was given.\<close>

lemma encoded_top_name:
  assumes "list_all short_label ls" "length m \<le> 0x4000"
    and "e = enc_name ls \<or>
      (\<exists>ps qs off. ls = ps @ qs \<and> e = enc_labels ps @ pointer_to off \<and> (\<exists>j \<le> J. name_at m j off qs))"
  shows "\<exists>j \<le> Suc J. top_name (m @ e) j (length m) ls (length (m @ e))"
  using assms(3)
proof (elim disjE exE conjE)
  assume e: "e = enc_name ls"
  have "top_name (m @ enc_labels ls @ [0]) 0 (length (m @ enc_labels ls)) [] (length (m @ enc_labels ls) + 1)"
    by (rule top_name.top_stop) (simp_all add: nth_append)
  from top_labels [OF assms(1) this] show ?thesis unfolding e by auto
next
  fix ps qs off j assume q: "ls = ps @ qs" "e = enc_labels ps @ pointer_to off" "j \<le> J" "name_at m j off qs"
  have off: "off < 0x4000" using name_at_less [OF q(4)] assms(2) by simp
  let ?m = "m @ enc_labels ps @ pointer_to off" and ?i = "length (m @ enc_labels ps)"
  have p: "?m ! ?i = hd (pointer_to off)" "?m ! (?i + 1) = last (pointer_to off)"
    by (simp_all add: nth_append pointer_to_def)
  have "top_name ?m (Suc j) ?i qs (?i + 2)"
  proof (rule top_name.top_jump)
    show "?i + 1 < length ?m" by (simp add: pointer_to_def)
    show "flagged (?m ! ?i)" unfolding p by (rule pointer_target(1) [OF off])
    show "name_at ?m j (target (?m ! ?i) (?m ! (?i + 1))) qs"
      unfolding p pointer_target(2) [OF off] by (rule name_at_append [OF q(4)])
  qed
  from top_labels [OF _ this] assms(1) q(1) have "top_name ?m (Suc j) (length m) ls (?i + 2)" by auto
  with q(2,3) show ?thesis by (auto simp: pointer_to_def)
qed

lemma short_lower: "list_all label_ok ls \<Longrightarrow> list_all short_label (map (map lower) ls)"
  by (induction ls) (auto simp: label_ok_def short_label_def)

lemma dname_enc_eq:
  assumes "alloc_ok heap" "names_at m J 0 nss" "length m \<le> 0x4000" "ls \<noteq> []" "list_all label_ok ls" "length (dots ls) < 255"
  shows "\<exists>obj n. dname_enc heap (Some m) (length m) (butlast (dots ls)) = Some (Some (obj, n)) \<and> n \<le> length obj \<and>
    names_at (m @ take n obj) (Suc J) 0 (nss @ [map (map lower) ls])"
proof -
  let ?ls = "map (map lower) ls"
  note short = short_lower [OF assms(5)]
  have "\<exists>obj n. enc_loop (Some m) (length m) (enc_name ?ls) 0 = Some (obj, n) \<and> n \<le> length obj \<and>
      (take n obj = enc_name ?ls \<or> (\<exists>ps qs off. ?ls = ps @ qs \<and> take n obj = enc_labels ps @ pointer_to off \<and>
        (\<exists>j \<le> J. name_at m j off qs)))"
    using enc_loop_correct [of "[]" ?ls m J] short names_inside [OF assms(2)] by simp
  then obtain obj n where e: "enc_loop (Some m) (length m) (enc_name ?ls) 0 = Some (obj, n)" "n \<le> length obj"
    and o: "take n obj = enc_name ?ls \<or> (\<exists>ps qs off. ?ls = ps @ qs \<and> take n obj = enc_labels ps @ pointer_to off \<and>
      (\<exists>j \<le> J. name_at m j off qs))"
    by blast
  obtain j where j: "j \<le> Suc J" "top_name (m @ take n obj) j (length m) ?ls (length (m @ take n obj))"
    using encoded_top_name [OF short assms(3) o] by blast
  have "names_at (m @ take n obj) (Suc J) 0 (nss @ [?ls])"
    using assms(4) by (intro names_at_append [OF assms(2) _ j(2,1)]) simp_all
  then show ?thesis using e convert_dname_eq [OF assms(1,4,5,6)] by (auto simp: dname_enc_def)
qed

section \<open>Safety of the decoder\<close>

lemma dec_step_first:
  assumes "crtpos s < length m" "dst s = None"
  shows "\<exists>r. dec_step m (length m) plen s = Some r \<and> (\<forall>s'. r = Some s' \<longrightarrow> dst s' = None \<and> len s \<le> len s')"
  using assms by (auto simp: dec_step_def rd_def bytes_at_def put_label_def put_last_def)

lemma dec_step_second:
  assumes "dec_step m n p (s\<lparr>dst := None\<rparr>) = Some (Some s')" "plen + len s' \<le> length b" "0 < plen"
  shows "\<exists>b'. dec_step m n plen (s\<lparr>dst := Some b\<rparr>) = Some (Some (s'\<lparr>dst := Some b'\<rparr>)) \<and> length b' = length b"
proof -
  from assms(1) obtain c where c: "rd m (crtpos s) = Some c" by (auto simp: dec_step_def split: bind_splits)
  consider "flagged c" | "\<not> flagged c" "c \<noteq> 0" | "\<not> flagged c" "c = 0" by blast
  then show ?thesis
  proof cases
    case 1
    then show ?thesis using assms c by (auto simp: dec_step_def too_much_def split: bind_splits if_splits intro!: exI [of _ b])
  next
    case 2
    then obtain bs where bs: "bytes_at m (crtpos s + 1) (unat c) = Some bs" "length bs = unat c"
      using assms(1) c by (auto simp: dec_step_def bytes_at_def split: bind_splits if_splits)
    then have s': "s' = s\<lparr>len := len s + unat c + 1, crtpos := crtpos s + unat c + 1, dst := None\<rparr>" "\<not> too_much s'"
        "\<not> n < crtpos s + unat c + 1"
      using assms(1) c 2 by (auto simp: dec_step_def put_label_def put_last_def split: if_splits)
    obtain d where d: "put_label (plen + len s) bs (Some b) = Some (Some d)" "length d = length b"
      using assms(2) bs(2) s'(1) by (auto simp: put_label_def blit_def)
    have "put_last plen (len s + unat c + 1) 0x2e (Some d) = Some (Some (d[plen + len s + unat c := 0x2e]))"
      using assms(2) d(2) s'(1) by (simp add: put_last_def wr_def add.assoc)
    with d bs c 2 s' show ?thesis by (auto simp: dec_step_def too_much_def)
  next
    case 3
    then have l: "len s' = len s" using assms(1) c by (auto simp: dec_step_def put_last_def split: if_splits)
    have "put_last plen (len s) 0x20 (Some b) = Some (Some (b[plen + len s - 1 := 0x20]))"
      using assms(2,3) l by (simp add: put_last_def wr_def)
    then show ?thesis using assms(1) c 3 by (auto simp: dec_step_def put_last_def too_much_def split: if_splits)
  qed
qed

lemma dec_loop_len: "dec_loop m n plen s = Some (Some s') \<Longrightarrow> len s \<le> len s'"
proof (induction m n plen s rule: dec_loop.induct)
  case (1 m n plen s)
  have "dec_step m n plen s = Some (Some u) \<Longrightarrow> len s \<le> len u" for u
    by (auto simp: dec_step_def split: bind_splits if_splits option.splits)
  with 1 show ?case by (subst (asm) (2) dec_loop.simps) (force split: if_splits option.splits)
qed

text \<open>The first pass is always defined.\<close>

lemma dec_loop_first:
  "dst s = None \<Longrightarrow> \<exists>r. dec_loop m (length m) plen s = Some r"
proof (induction m "length m" plen s rule: dec_loop.induct)
  case (1 m plen s)
  show ?case
  proof (cases "crtpos s < length m")
    case True
    from dec_step_first [OF this 1(2)] obtain r where
      r: "dec_step m (length m) plen s = Some r" "\<forall>s'. r = Some s' \<longrightarrow> dst s' = None" by blast
    then show ?thesis using 1(1) [OF True r(1)] True by (cases r) (auto simp: dec_loop.simps [of m "length m" plen s])
  qed (simp add: dec_loop.simps)
qed

text \<open>The second pass follows the first, with a buffer of the size that the first has found.\<close>

lemma dec_loop_second:
  "dec_loop m n p s = Some (Some s') \<Longrightarrow> dst s = None \<Longrightarrow> n = length m \<Longrightarrow> plen + len s' \<le> length b \<Longrightarrow> 0 < plen \<Longrightarrow>
   \<exists>b'. dec_loop m n plen (s\<lparr>dst := Some b\<rparr>) = Some (Some (s'\<lparr>dst := Some b'\<rparr>)) \<and> length b' = length b"
proof (induction m n p s arbitrary: b rule: dec_loop.induct)
  case (1 m n p s)
  have s: "s\<lparr>dst := None\<rparr> = s" using 1(3) by simp
  show ?case
  proof (cases "crtpos s < n")
    case True
    from 1(2) True obtain u where u: "dec_step m n p s = Some (Some u)" "dec_loop m n p u = Some (Some s')"
      by (subst (asm) dec_loop.simps) (auto split: option.splits)
    have "dst u = None" using dec_step_first [of s m p] True 1(3,4) u(1) by auto
    moreover have "plen + len u \<le> length b" using dec_loop_len [OF u(2)] 1(5) by simp
    moreover from dec_step_second [of m n p s u plen b, unfolded s, OF u(1) this 1(6)] obtain b'
      where b': "dec_step m n plen (s\<lparr>dst := Some b\<rparr>) = Some (Some (u\<lparr>dst := Some b'\<rparr>))" "length b' = length b" by blast
    ultimately obtain b'' where "dec_loop m n plen (u\<lparr>dst := Some b'\<rparr>) = Some (Some (s'\<lparr>dst := Some b''\<rparr>))" "length b'' = length b"
      using 1(1) [OF True u(1) refl u(2)] 1(4-6) by metis
    with b' True show ?thesis by (auto simp: dec_loop.simps [of m n plen "s\<lparr>dst := Some b\<rparr>"])
  next
    case False
    with 1(2) show ?thesis by (auto simp: dec_loop.simps)
  qed
qed

lemma dname_dec_defined:
  assumes "alloc_ok heap" "pre \<noteq> []"
  shows "\<exists>r. dname_dec heap m (length m) pre = Some r"
proof -
  obtain r where r: "dec_loop m (length m) 0 (dec_start None) = Some r"
    using dec_loop_first [of "dec_start None"] by (auto simp: dec_start_def)
  show ?thesis
  proof (cases r)
    case None
    with r show ?thesis by (simp add: dname_dec_def)
  next
    case (Some s)
    obtain b where b: "heap (length pre + len s) = Some b" "length b = length pre + len s"
      using assms(1) unfolding alloc_ok_def by blast
    let ?b = "pre @ drop (length pre) b"
    have "(dec_start None)\<lparr>dst := Some ?b\<rparr> = dec_start (Some ?b)" by (simp add: dec_start_def)
    then obtain b' where "dec_loop m (length m) (length pre) (dec_start (Some ?b)) = Some (Some (s\<lparr>dst := Some b'\<rparr>))"
      "length b' = length pre + len s"
      using dec_loop_second [OF r [unfolded Some] _ refl, of "length pre" ?b] assms(2) b(2) by (auto simp: dec_start_def)
    with r Some b show ?thesis by (auto simp: dname_dec_def blit_def put_last_def wr_def)
  qed
qed

section \<open>Properties\<close>

text \<open>
  C12: A domain name that is encoded for a message of at most 16384 bytes, compressed against its
  names, is decoded from the end of the message after the other names, in lower case, if these need at most five
  pointers.
\<close>

theorem encoded_name_decodes:
  assumes "alloc_ok heap" "names_at m J 0 nss" "J \<le> 5" "length m \<le> 0x4000"
    and "ls \<noteq> []" "list_all label_ok ls" "length (dots ls) < 255" "length (texts nss) + length (dots ls) \<le> 6150"
  shows "\<exists>obj n. dname_enc heap (Some m) (length m) (butlast (dots ls)) = Some (Some (obj, n)) \<and> n \<le> length obj \<and>
    dname_dec heap (m @ take n obj) (length m + n) pre =
      Some (Some (pre @ butlast (texts (nss @ [map (map lower) ls])) @ [0]))"
proof -
  let ?ls = "map (map lower) ls"
  obtain obj n where e: "dname_enc heap (Some m) (length m) (butlast (dots ls)) = Some (Some (obj, n))" "n \<le> length obj"
    and n: "names_at (m @ take n obj) (Suc J) 0 (nss @ [?ls])"
    using dname_enc_eq [OF assms(1,2,4-7)] by blast
  have "length (dots ?ls) = length (dots ls)" unfolding dots_def by (induction ls) simp_all
  then have t: "length (texts (nss @ [?ls])) = length (texts nss) + length (dots ls)"
    using assms(5) by (simp add: length_name_text)
  obtain b where b: "heap (length pre + length (texts (nss @ [?ls]))) = Some b" "length b = length pre + length (texts (nss @ [?ls]))"
    using assms(1) unfolding alloc_ok_def by blast
  have "Suc J \<le> 6" "nss @ [?ls] \<noteq> []" "length (texts (nss @ [?ls])) \<le> 6150" using assms(3,8) t by simp_all
  from dname_dec_eq [where heap = heap and pre = pre, OF n this b] e(2)
  have "dname_dec heap (m @ take n obj) (length m + n) pre = Some (Some (pre @ butlast (texts (nss @ [?ls])) @ [0]))" by simp
  with e show ?thesis by blast
qed

text \<open>The allocator of the examples.\<close>

definition zero_heap :: "nat \<Rightarrow> bytes option" where "zero_heap n = Some (replicate n 0)"

lemma zero_heap_ok: "alloc_ok zero_heap"
  by (simp add: alloc_ok_def zero_heap_def)

text \<open>The name \<open>a.B\<close> appended to a message that holds \<open>b\<close>: \<open>B\<close> becomes a pointer to it, and both are read.\<close>

lemma encoded_name_decodes_witness:
  "\<exists>obj n. dname_enc zero_heap (Some [1, 0x62, 0]) 3 [0x61, 0x2e, 0x42] = Some (Some (obj, n)) \<and>
    dname_dec zero_heap ([1, 0x62, 0] @ take n obj) (3 + n) [] = Some (Some [0x62, 0x20, 0x61, 0x2e, 0x62, 0])"
proof -
  let ?m = "[1, 0x62, 0] :: bytes"
  have "top_name ?m 0 0 (take (unat (?m ! 0)) (drop (0 + 1) ?m) # []) 3"
  proof (rule top_name.top_label)
    have two: "0 + unat (?m ! 0) + 1 = 2" "2 + 1 = (3 :: nat)" by simp_all
    have "2 < length ?m" "?m ! 2 = 0" by simp_all
    from top_name.top_stop [OF this] show "top_name ?m 0 (0 + unat (?m ! 0) + 1) [] 3" unfolding two .
  qed (simp_all add: flagged_def NS_CMPRSFLGS_def)
  then have "top_name ?m 0 0 [[0x62]] (length ?m)" by (simp add: numeral_3_eq_3)
  from names_at.more [OF this _ _ names_at.none] have n: "names_at ?m 0 0 [[[0x62]]]" by simp
  have l: "length ?m = 3" by simp
  have t: "butlast (dots [[0x61], [0x42]]) = [0x61, 0x2e, 0x42]" "butlast (texts ([[[0x62]]] @ [map (map lower) [[0x61], [0x42]]])) =
      [0x62, 0x20, 0x61, 0x2e, 0x62]"
    by (simp_all add: name_text_def lower_def)
  from encoded_name_decodes [OF zero_heap_ok n, of "[[0x61], [0x42]]" "[]"] show ?thesis
    unfolding l t by (auto simp: label_ok_def name_text_def)
qed

text \<open>
  C27: Whatever bytes the message has, loops of pointers included, the decoder ends and makes no access outside of the
  message and its buffer, if the prefix is not empty.
\<close>

theorem decoder_safe:
  assumes "alloc_ok heap" "pre \<noteq> []"
  shows "\<exists>r. dname_dec heap m (length m) pre = Some r"
  using assms by (rule dname_dec_defined)

text \<open>A pointer to itself.\<close>

lemma decoder_safe_witness: "\<exists>r. dname_dec zero_heap [0xc0, 0] 2 [0x3d] = Some r"
  using decoder_safe [OF zero_heap_ok, of "[0x3d]" "[0xc0, 0]"] by (simp add: numeral_2_eq_2)

text \<open>With an empty prefix, a message that begins with an empty name makes the decoder write in front of its buffer.\<close>

lemma leading_zero_underrun: "dname_dec zero_heap [0, 1, 0x61, 0] 4 [] = None"
  by code_simp

end
