(* ===== verification/SocketList.thy ===== *)
theory SocketList
  imports Prelude "HOL-Library.Multiset"
begin

text \<open>
  The socket tables of the TCP/IP commands (\<open>projects/mac_atcmd/src/cli/atcmd_tcpip.c\<close>): the
  circular doubly linked lists \<open>list_q_*\<close> and the functions that insert, look up, mark and
  remove the sockets in them.

  The lists are modelled at the level of pointers. A state maps a pointer to the fields of the
  structure it points to; the two heads are the globals \<open>g_listen_socket\<close> and
  \<open>g_normal_socket\<close>, a \<open>Node\<close> is a block from \<open>malloc\<close> and is \<open>live\<close> until it is freed. Reading
  or writing a null pointer or a freed node is \<open>None\<close>. A head is a \<open>struct list_q\<close>, and the code
  reads it as a \<open>struct socket_q\<close>: \<open>socket_of\<close> and \<open>info_of\<close> of a head are the memory behind the
  global, of which nothing is assumed. The result of \<open>malloc\<close> is an argument, \<open>None\<close> for NULL.

  The abstraction of a table is the list of its entries, \<open>entries\<close>; \<open>dll\<close> says that the pointers
  form a ring in both directions, and the lemmas \<open>*_refines\<close> relate each operation to the
  operation on the list of entries.
\<close>

section \<open>State\<close>

datatype ptr = Null | Listen_head | Normal_head | Node nat

text \<open>Where \<open>recv_task\<close> is: \<open>Top\<close> is the start of the body of its loop, \<open>Selecting\<close> the wait in
  \<open>select\<close> with the descriptor bound and the descriptors it was given.\<close>

datatype task_pc = No_task | Created | Top | Selecting int "u8 list"

datatype cmd_pc = Ready | In_delay | Waiting_term

record socks =
  next_of :: "ptr \<Rightarrow> ptr"
  prev_of :: "ptr \<Rightarrow> ptr"
  qlen_of :: "ptr \<Rightarrow> u32"
  socket_of :: "ptr \<Rightarrow> int"
  info_of :: "ptr \<Rightarrow> int"
  live :: "nat \<Rightarrow> bool"
  listhead_is_inited :: bool
  g_r_set :: "u8 list"
  g_clr_set :: "u8 list"
  max_sd :: int
  recv_task_st :: int
  recv_task_inst :: bool
  closed :: "int list"
  task_pc :: task_pc
  cmd_pc :: cmd_pc

definition TASK_ST_Term :: int where "TASK_ST_Term = - 1"
definition TASK_ST_Stop :: int where "TASK_ST_Stop = 0"
definition TASK_ST_Running :: int where "TASK_ST_Running = 1"

section \<open>Accesses\<close>

definition valid_ptr :: "socks \<Rightarrow> ptr \<Rightarrow> bool" where
  "valid_ptr s p = (case p of Null \<Rightarrow> False | Node a \<Rightarrow> live s a | _ \<Rightarrow> True)"

definition get_next :: "socks \<Rightarrow> ptr \<Rightarrow> ptr option" where
  "get_next s p = (if valid_ptr s p then Some (next_of s p) else None)"

definition get_prev :: "socks \<Rightarrow> ptr \<Rightarrow> ptr option" where
  "get_prev s p = (if valid_ptr s p then Some (prev_of s p) else None)"

definition get_socket :: "socks \<Rightarrow> ptr \<Rightarrow> int option" where
  "get_socket s p = (if valid_ptr s p then Some (socket_of s p) else None)"

definition get_info :: "socks \<Rightarrow> ptr \<Rightarrow> int option" where
  "get_info s p = (if valid_ptr s p then Some (info_of s p) else None)"

definition set_next :: "ptr \<Rightarrow> ptr \<Rightarrow> socks \<Rightarrow> socks option" where
  "set_next p q s = (if valid_ptr s p then Some (s\<lparr>next_of := (next_of s)(p := q)\<rparr>) else None)"

definition set_prev :: "ptr \<Rightarrow> ptr \<Rightarrow> socks \<Rightarrow> socks option" where
  "set_prev p q s = (if valid_ptr s p then Some (s\<lparr>prev_of := (prev_of s)(p := q)\<rparr>) else None)"

definition c_free :: "ptr \<Rightarrow> socks \<Rightarrow> socks option" where
  "c_free p s = (case p of Node a \<Rightarrow> if live s a then Some (s\<lparr>live := (live s)(a := False)\<rparr>) else None
                 | _ \<Rightarrow> None)"

text \<open>\<open>malloc\<close> of a table entry and the stores of its two fields.\<close>

definition new_node :: "nat \<Rightarrow> int \<Rightarrow> int \<Rightarrow> socks \<Rightarrow> socks" where
  "new_node a k i s = s\<lparr>live := (live s)(a := True),
     socket_of := (socket_of s)(Node a := k), info_of := (info_of s)(Node a := i)\<rparr>"

text \<open>
  The descriptor sets of lwip: \<open>FD_SETSIZE\<close> is \<open>MEMP_NUM_NETCONN\<close> (8), so a set is one byte.
  The macros compute the byte with the truncating division of C and the bit with a mask, so the
  bit of a negative descriptor is that of its residue.
\<close>

definition MEMP_NUM_NETCONN :: nat where "MEMP_NUM_NETCONN = 8"

definition fd_zero :: "u8 list" where "fd_zero = replicate ((MEMP_NUM_NETCONN + 7) div 8) 0"

definition fd_index :: "int \<Rightarrow> int" where
  "fd_index n = (if n < 0 then - (- n div 8) else n div 8)"

definition fd_bit :: "int \<Rightarrow> u8" where "fd_bit n = push_bit (nat (n mod 8)) 1"

definition fd_byte :: "int \<Rightarrow> u8 list \<Rightarrow> u8 option" where
  "fd_byte n f = (if fd_index n < 0 then None else rd f (nat (fd_index n)))"

definition FD_SET :: "int \<Rightarrow> u8 list \<Rightarrow> u8 list option" where
  "FD_SET n f = do { b \<leftarrow> fd_byte n f; wr f (nat (fd_index n)) (b OR fd_bit n) }"

definition FD_CLR :: "int \<Rightarrow> u8 list \<Rightarrow> u8 list option" where
  "FD_CLR n f = do { b \<leftarrow> fd_byte n f; wr f (nat (fd_index n)) (b AND NOT (fd_bit n)) }"

definition FD_ISSET :: "int \<Rightarrow> u8 list \<Rightarrow> bool option" where
  "FD_ISSET n f = do { b \<leftarrow> fd_byte n f; Some (b AND fd_bit n \<noteq> 0) }"

section \<open>The list operations\<close>

definition list_q_init :: "ptr \<Rightarrow> socks \<Rightarrow> socks option" where
  "list_q_init qhd s = do {
     s \<leftarrow> set_prev qhd qhd s;
     s \<leftarrow> set_next qhd qhd s;
     Some (s\<lparr>qlen_of := (qlen_of s)(qhd := 0)\<rparr>) }"

definition list_q_qtail :: "ptr \<Rightarrow> ptr \<Rightarrow> socks \<Rightarrow> socks option" where
  "list_q_qtail qhd newq s = do {
     prev \<leftarrow> get_prev s qhd;
     s \<leftarrow> set_next newq qhd s;
     s \<leftarrow> set_prev newq prev s;
     s \<leftarrow> set_prev qhd newq s;
     s \<leftarrow> set_next prev newq s;
     Some (s\<lparr>qlen_of := (qlen_of s)(qhd := qlen_of s qhd + 1)\<rparr>) }"

definition list_q_insert :: "ptr \<Rightarrow> ptr \<Rightarrow> ptr \<Rightarrow> socks \<Rightarrow> socks option" where
  "list_q_insert qhd prev newq s = do {
     nx \<leftarrow> get_next s prev;
     s \<leftarrow> set_next newq nx s;
     s \<leftarrow> set_prev newq prev s;
     s \<leftarrow> set_prev nx newq s;
     s \<leftarrow> set_next prev newq s;
     Some (s\<lparr>qlen_of := (qlen_of s)(qhd := qlen_of s qhd + 1)\<rparr>) }"

definition list_q_remove :: "ptr \<Rightarrow> ptr \<Rightarrow> socks \<Rightarrow> socks option" where
  "list_q_remove qhd curt s = do {
     nx \<leftarrow> get_next s curt;
     prev \<leftarrow> get_prev s curt;
     s \<leftarrow> set_next prev nx s;
     s \<leftarrow> set_prev nx prev s;
     Some (s\<lparr>qlen_of := (qlen_of s)(qhd := qlen_of s qhd - 1)\<rparr>) }"

text \<open>The search loops: from \<open>it\<close> along \<open>next\<close> until the head or an entry whose field fails the
  test. Going round for ever is also \<open>None\<close>.\<close>

partial_function (option) list_walk ::
  "(socks \<Rightarrow> ptr \<Rightarrow> int option) \<Rightarrow> (int \<Rightarrow> bool) \<Rightarrow> ptr \<Rightarrow> socks \<Rightarrow> ptr \<Rightarrow> ptr option" where
  [code]: "list_walk field go qhd s it =
     (if it = qhd then Some it
      else do { v \<leftarrow> field s it;
                if go v then do { nx \<leftarrow> get_next s it; list_walk field go qhd s nx } else Some it })"

definition mark_rm_listen_sd_by_port :: "int \<Rightarrow> socks \<Rightarrow> (int \<times> socks) option" where
  "mark_rm_listen_sd_by_port port s =
     (if qlen_of s Listen_head = 0 then Some (- 1, s)
      else do {
        it \<leftarrow> get_next s Listen_head;
        it \<leftarrow> list_walk get_info (\<lambda>p. p \<noteq> port) Listen_head s it;
        p \<leftarrow> get_info s it;
        if p = port then do {
          k \<leftarrow> get_socket s it;
          f \<leftarrow> FD_SET k (g_clr_set s);
          Some (k, s\<lparr>g_clr_set := f\<rparr>) }
        else Some (- 1, s) })"

definition mark_rm_sd :: "int \<Rightarrow> socks \<Rightarrow> (int \<times> socks) option" where
  "mark_rm_sd sd s =
     (if qlen_of s Normal_head = 0 then Some (- 1, s)
      else do {
        it \<leftarrow> get_next s Normal_head;
        it \<leftarrow> list_walk get_socket (\<lambda>k. k \<noteq> sd) Normal_head s it;
        if it = Normal_head then Some (- 1, s)
        else do { f \<leftarrow> FD_SET sd (g_clr_set s); Some (sd, s\<lparr>g_clr_set := f\<rparr>) } })"

definition rm_from :: "ptr \<Rightarrow> int \<Rightarrow> socks \<Rightarrow> (int \<times> socks) option" where
  "rm_from qhd sd s =
     (if qlen_of s qhd = 0 then Some (- 1, s)
      else do {
        it \<leftarrow> get_next s qhd;
        it \<leftarrow> list_walk get_socket (\<lambda>k. k \<noteq> sd) qhd s it;
        if it = qhd then Some (- 1, s)
        else do { s \<leftarrow> list_q_remove qhd it s; s \<leftarrow> c_free it s; Some (sd, s) } })"

definition rm_sd :: "int \<Rightarrow> socks \<Rightarrow> (int \<times> socks) option" where
  "rm_sd = rm_from Normal_head"

definition rm_listen_sd :: "int \<Rightarrow> socks \<Rightarrow> (int \<times> socks) option" where
  "rm_listen_sd = rm_from Listen_head"

text \<open>The body \<open>update_new_listen_sd\<close> and \<open>update_new_sd\<close> share: the new entry goes behind the last
  entry with a smaller or equal descriptor. When the search reaches the head, the code reads the
  descriptor of the head.\<close>

definition insert_sd :: "ptr \<Rightarrow> nat option \<Rightarrow> int \<Rightarrow> int \<Rightarrow> socks \<Rightarrow> (int \<times> socks) option" where
  "insert_sd qhd addr k i s = do {
     it \<leftarrow> get_next s qhd;
     case addr of None \<Rightarrow> Some (- 1, s)
     | Some a \<Rightarrow> do {
         let s = new_node a k i s;
         if qlen_of s qhd = 0 then do { s \<leftarrow> list_q_qtail qhd (Node a) s; Some (0, s) }
         else do {
           it \<leftarrow> list_walk get_socket (\<lambda>v. v < k) qhd s it;
           v \<leftarrow> get_socket s it;
           it \<leftarrow> (if k < v then get_prev s it else Some it);
           s \<leftarrow> list_q_insert qhd it (Node a) s;
           Some (0, s) } } }"

definition update_new_listen_sd :: "nat option \<Rightarrow> int \<Rightarrow> int \<Rightarrow> socks \<Rightarrow> (int \<times> socks) option" where
  "update_new_listen_sd = insert_sd Listen_head"

definition update_new_sd :: "nat option \<Rightarrow> int \<Rightarrow> int \<Rightarrow> socks \<Rightarrow> (int \<times> socks) option" where
  "update_new_sd = insert_sd Normal_head"

definition max_with :: "ptr \<Rightarrow> socks \<Rightarrow> socks option" where
  "max_with qhd s =
     (if qlen_of s qhd \<noteq> 0 then do {
        it \<leftarrow> get_prev s qhd;
        k \<leftarrow> get_socket s it;
        Some (if max_sd s < k then s\<lparr>max_sd := k\<rparr> else s) }
      else Some s)"

definition update_max_sd :: "socks \<Rightarrow> socks option" where
  "update_max_sd s = do { s \<leftarrow> max_with Normal_head s; max_with Listen_head s }"

section \<open>Rings of pointers\<close>

text \<open>The C assignments of the list operations, in pairs: \<open>p\<close> before \<open>q\<close>.\<close>

definition link :: "ptr \<Rightarrow> ptr \<Rightarrow> socks \<Rightarrow> socks" where
  "link p q s = s\<lparr>next_of := (next_of s)(p := q), prev_of := (prev_of s)(q := p)\<rparr>"

definition set_qlen :: "ptr \<Rightarrow> u32 \<Rightarrow> socks \<Rightarrow> socks" where
  "set_qlen p n s = s\<lparr>qlen_of := (qlen_of s)(p := n)\<rparr>"

fun chain :: "socks \<Rightarrow> ptr list \<Rightarrow> bool" where
  "chain s (p # q # ps) \<longleftrightarrow> next_of s p = q \<and> prev_of s q = p \<and> chain s (q # ps)"
| "chain s _ \<longleftrightarrow> True"

definition dll :: "socks \<Rightarrow> ptr \<Rightarrow> ptr list \<Rightarrow> bool" where
  "dll s qhd xs \<longleftrightarrow> chain s (qhd # xs @ [qhd]) \<and> distinct xs \<and> length xs < 2 ^ 32
     \<and> qlen_of s qhd = of_nat (length xs) \<and> (\<forall>x\<in>set xs. \<exists>a. x = Node a)"

fun nodes_from :: "socks \<Rightarrow> nat \<Rightarrow> ptr \<Rightarrow> ptr list" where
  "nodes_from s 0 p = []"
| "nodes_from s (Suc n) p = p # nodes_from s n (next_of s p)"

definition nodes :: "socks \<Rightarrow> ptr \<Rightarrow> ptr list" where
  "nodes s qhd = nodes_from s (unat (qlen_of s qhd)) (next_of s qhd)"

definition entry :: "socks \<Rightarrow> ptr \<Rightarrow> int \<times> int" where
  "entry s p = (socket_of s p, info_of s p)"

definition entries :: "socks \<Rightarrow> ptr \<Rightarrow> (int \<times> int) list" where
  "entries s qhd = map (entry s) (nodes s qhd)"

definition is_head :: "ptr \<Rightarrow> bool" where "is_head p \<longleftrightarrow> p = Listen_head \<or> p = Normal_head"

definition other :: "ptr \<Rightarrow> ptr" where
  "other p = (if p = Listen_head then Normal_head else Listen_head)"

text \<open>The tables hold exactly the nodes that are live: nothing is leaked and nothing freed is
  still linked.\<close>

definition tables :: "socks \<Rightarrow> ptr \<Rightarrow> ptr list \<Rightarrow> ptr list \<Rightarrow> bool" where
  "tables s qhd xs ys \<longleftrightarrow> is_head qhd \<and> dll s qhd xs \<and> dll s (other qhd) ys
     \<and> set xs \<inter> set ys = {} \<and> (\<forall>a. live s a \<longleftrightarrow> Node a \<in> set xs \<union> set ys)"

definition well_linked :: "socks \<Rightarrow> bool" where
  "well_linked s \<longleftrightarrow> tables s Listen_head (nodes s Listen_head) (nodes s Normal_head)"

lemma is_head_simps [simp]:
  "is_head Listen_head" "is_head Normal_head" "\<not> is_head (Node a)" "\<not> is_head Null"
  "other Listen_head = Normal_head" "other Normal_head = Listen_head"
  by (auto simp: is_head_def other_def)

lemma other_facts [simp]: "is_head (other p)" "is_head p \<Longrightarrow> other (other p) = p" "other p \<noteq> p"
  by (auto simp: is_head_def other_def)

lemma valid_head [simp]: "is_head p \<Longrightarrow> valid_ptr s p"
  by (auto simp: is_head_def valid_ptr_def)

lemma valid_Node [simp]: "valid_ptr s (Node a) = live s a"
  by (simp add: valid_ptr_def)

lemma valid_ptr_simps [simp]:
  "valid_ptr (s\<lparr>next_of := f\<rparr>) = valid_ptr s" "valid_ptr (s\<lparr>prev_of := f\<rparr>) = valid_ptr s"
  "valid_ptr (s\<lparr>qlen_of := l\<rparr>) = valid_ptr s"
  by (simp_all add: valid_ptr_def fun_eq_iff split: ptr.split)

lemma link_simps [simp]:
  "valid_ptr (link p q s) = valid_ptr s" "live (link p q s) = live s"
  "socket_of (link p q s) = socket_of s" "info_of (link p q s) = info_of s"
  "qlen_of (link p q s) = qlen_of s"
  by (simp_all add: link_def valid_ptr_def fun_eq_iff split: ptr.split)

lemma set_qlen_simps [simp]:
  "valid_ptr (set_qlen p n s) = valid_ptr s" "live (set_qlen p n s) = live s"
  "socket_of (set_qlen p n s) = socket_of s" "info_of (set_qlen p n s) = info_of s"
  "next_of (set_qlen p n s) = next_of s" "prev_of (set_qlen p n s) = prev_of s"
  "qlen_of (set_qlen p n s) = (qlen_of s)(p := n)"
  by (simp_all add: set_qlen_def valid_ptr_def fun_eq_iff split: ptr.split)

lemma chain_cong:
  "(\<And>p. p \<in> set (butlast ps) \<Longrightarrow> next_of s p = next_of t p) \<Longrightarrow>
   (\<And>p. p \<in> set (tl ps) \<Longrightarrow> prev_of s p = prev_of t p) \<Longrightarrow> chain s ps = chain t ps"
proof (induction s ps rule: chain.induct)
  case (1 s p q ps)
  have "chain s (q # ps) = chain t (q # ps)" if "ps \<noteq> []"
    using 1 that by (cases ps) auto
  moreover have "chain s (q # ps) = chain t (q # ps)" if "ps = []" using that by simp
  moreover have "next_of s p = next_of t p" "prev_of s q = prev_of t q" using "1.prems" by auto
  ultimately show ?case by (cases "ps = []") auto
qed auto

lemma chain_append: "chain s (ps @ q # qs) \<longleftrightarrow> chain s (ps @ [q]) \<and> chain s (q # qs)"
  by (induction s ps rule: chain.induct) (cases qs; auto)+

lemma chain_link:
  "p \<notin> set (butlast ps) \<Longrightarrow> q \<notin> set (tl ps) \<Longrightarrow> chain (link p q s) ps = chain s ps"
  by (rule chain_cong) (auto simp: link_def)

lemma chain_mid:
  assumes "us \<noteq> []" "vs \<noteq> []"
  shows "chain s (us @ vs) \<longleftrightarrow> chain s us \<and> chain s vs
     \<and> next_of s (last us) = hd vs \<and> prev_of s (hd vs) = last us"
proof -
  obtain u p where u: "us = u @ [p]" using assms(1) by (cases us rule: rev_cases) auto
  obtain m v where v: "vs = m # v" using assms(2) by (cases vs) auto
  show ?thesis
    using chain_append [of s u p "m # v"] by (auto simp: u v)
qed

lemma nodes_from_chain:
  "chain s (p # xs @ [q]) \<Longrightarrow> nodes_from s (length xs) (next_of s p) = xs"
  by (induction xs arbitrary: p) auto

lemma nodes_dll: "dll s qhd xs \<Longrightarrow> nodes s qhd = xs"
  unfolding dll_def nodes_def by (auto simp: nodes_from_chain unsigned_of_nat take_bit_nat_eq_self)

lemma tables_nodes: "tables s qhd xs ys \<Longrightarrow> nodes s qhd = xs \<and> nodes s (other qhd) = ys"
  by (auto simp: tables_def nodes_dll)

lemma tables_other: "is_head qhd \<Longrightarrow> tables s (other qhd) ys xs \<longleftrightarrow> tables s qhd xs ys"
  by (auto simp: tables_def)

lemma tables_Normal: "tables s Normal_head ns ls \<longleftrightarrow> tables s Listen_head ls ns"
  using tables_other [of Listen_head s ns ls] by simp

lemma well_linkedI: "tables s Listen_head ls ns \<Longrightarrow> well_linked s"
  using tables_nodes [of s Listen_head ls ns] by (simp add: well_linked_def)

lemma dll_ends:
  assumes "dll s qhd (us @ vs)" "is_head qhd"
  shows "next_of s (last (qhd # us)) = hd (vs @ [qhd])" "prev_of s (hd (vs @ [qhd])) = last (qhd # us)"
  using assms chain_mid [of "qhd # us" "vs @ [qhd]" s] by (auto simp: dll_def)

lemma dll_cong:
  assumes "is_head qhd" "\<And>p. p \<in> insert qhd (set xs) \<Longrightarrow> next_of s p = next_of t p"
    "\<And>p. p \<in> insert qhd (set xs) \<Longrightarrow> prev_of s p = prev_of t p" "qlen_of s qhd = qlen_of t qhd"
  shows "dll s qhd xs = dll t qhd xs"
proof -
  have "chain s (qhd # xs @ [qhd]) = chain t (qhd # xs @ [qhd])"
    by (rule chain_cong) (use assms in \<open>auto simp: butlast_append split: if_splits\<close>)
  then show ?thesis by (simp add: dll_def assms(4))
qed

lemma head_not_node: "is_head qhd \<Longrightarrow> dll s qhd' xs \<Longrightarrow> qhd \<notin> set xs"
  by (auto simp: dll_def is_head_def)

lemma dll_insert:
  assumes d: "dll s qhd (us @ vs)" and h: "is_head qhd" and a: "Node a \<notin> set us \<union> set vs"
    and len: "Suc (length (us @ vs)) < 2 ^ 32"
    and p: "p = last (qhd # us)" and m: "m = hd (vs @ [qhd])"
  shows "dll (set_qlen qhd (qlen_of s qhd + 1) (link p (Node a) (link (Node a) m s)))
             qhd (us @ Node a # vs)" (is "dll ?t _ _")
proof -
  have nin: "qhd \<notin> set us" "qhd \<notin> set vs" and q: "qhd \<noteq> Node a"
    using head_not_node [OF h d] h by auto
  have dist: "distinct (us @ vs)" using d by (simp add: dll_def)
  have c: "chain s (qhd # us)" "chain s (vs @ [qhd])"
    using d chain_mid [of "qhd # us" "vs @ [qhd]" s] by (auto simp: dll_def)
  have pin: "p \<in> insert qhd (set us)" using last_in_set [of "qhd # us"] unfolding p by simp
  have min: "m \<in> insert qhd (set vs)" unfolding m by (cases vs) auto
  have pb: "p \<notin> set (butlast (qhd # us))"
    unfolding p using nin dist by (cases us rule: rev_cases) auto
  have mt: "m \<notin> set (tl (vs @ [qhd]))"
    unfolding m using nin dist by (cases vs) auto
  have t1: "chain ?t (qhd # us)"
  proof -
    have "chain ?t (qhd # us) = chain s (qhd # us)"
    proof (rule chain_cong)
      fix x assume "x \<in> set (butlast (qhd # us))"
      then have "x \<noteq> p" "x \<noteq> Node a" using pb a q by (auto dest: in_set_butlastD split: if_splits)
      then show "next_of ?t x = next_of s x" by (simp add: link_def)
    next
      fix x assume x: "x \<in> set (tl (qhd # us))"
      then have "x \<noteq> m" "x \<noteq> Node a" using min a dist nin by auto
      then show "prev_of ?t x = prev_of s x" by (simp add: link_def)
    qed
    with c show ?thesis by simp
  qed
  have t2: "chain ?t (vs @ [qhd])"
  proof -
    have "chain ?t (vs @ [qhd]) = chain s (vs @ [qhd])"
    proof (rule chain_cong)
      fix x assume "x \<in> set (butlast (vs @ [qhd]))"
      then have "x \<noteq> p" "x \<noteq> Node a" using pin a dist nin by auto
      then show "next_of ?t x = next_of s x" by (simp add: link_def)
    next
      fix x assume x: "x \<in> set (tl (vs @ [qhd]))"
      then have "x \<noteq> Node a" using a q by (cases vs) auto
      then show "prev_of ?t x = prev_of s x" using mt x by (auto simp: link_def)
    qed
    with c show ?thesis by simp
  qed
  have pa: "p \<noteq> Node a" and ma: "m \<noteq> Node a" using pin min a q by auto
  then have links: "next_of ?t p = Node a" "prev_of ?t (Node a) = p" "next_of ?t (Node a) = m"
    "prev_of ?t m = Node a" by (auto simp: link_def)
  have "chain ?t ((qhd # us) @ [Node a] @ vs @ [qhd])"
    using t1 t2 links p m chain_mid [of "qhd # us" "Node a # vs @ [qhd]" ?t]
      chain_mid [of "[Node a]" "vs @ [qhd]" ?t] by (simp only: append_Cons append_Nil) simp
  then show ?thesis
    using d len dist a by (auto simp: dll_def)
qed

lemma dll_remove:
  assumes d: "dll s qhd (us @ x # vs)" and h: "is_head qhd"
    and p: "p = last (qhd # us)" and m: "m = hd (vs @ [qhd])"
  shows "dll (set_qlen qhd (qlen_of s qhd - 1) (link p m s)) qhd (us @ vs)" (is "dll ?t _ _")
proof -
  have nin: "qhd \<notin> set us" "qhd \<notin> set vs" using head_not_node [OF h d] by auto
  have dist: "distinct (us @ vs)" using d by (simp add: dll_def)
  have "chain s ((qhd # us) @ x # vs @ [qhd])" using d by (simp add: dll_def)
  then have c: "chain s (qhd # us)" "chain s (x # vs @ [qhd])"
    using chain_mid [of "qhd # us" "x # vs @ [qhd]" s] by auto
  then have c2: "chain s (vs @ [qhd])" by (cases vs) auto
  have pin: "p \<in> insert qhd (set us)" using last_in_set [of "qhd # us"] unfolding p by simp
  have min: "m \<in> insert qhd (set vs)" unfolding m by (cases vs) auto
  have pb: "p \<notin> set (butlast (qhd # us))"
    unfolding p using nin dist by (cases us rule: rev_cases) auto
  have mt: "m \<notin> set (tl (vs @ [qhd]))"
    unfolding m using nin dist by (cases vs) auto
  have q: "chain (set_qlen qhd n u) ps = chain u ps" for n u ps by (rule chain_cong) auto
  have "m \<notin> set us" "p \<notin> set vs" using min pin nin dist by auto
  then have "chain ?t (qhd # us)" "chain ?t (vs @ [qhd])"
    using pb mt c c2 by (simp_all only: q, subst chain_link, auto simp: butlast_append)
       (subst chain_link, auto simp: butlast_append)
  then have "chain ?t ((qhd # us) @ vs @ [qhd])"
    using p m by (subst chain_mid) (auto simp: link_def)
  then show ?thesis using d by (auto simp: dll_def)
qed

section \<open>The operations on rings\<close>

text \<open>What the list operations leave alone: the memory behind the heads and the control state.\<close>

definition frame :: "socks \<Rightarrow> socks \<Rightarrow> bool" where
  "frame s t \<longleftrightarrow> socket_of t Listen_head = socket_of s Listen_head
     \<and> info_of t Listen_head = info_of s Listen_head
     \<and> socket_of t Normal_head = socket_of s Normal_head
     \<and> info_of t Normal_head = info_of s Normal_head
     \<and> listhead_is_inited t = listhead_is_inited s \<and> g_r_set t = g_r_set s \<and> g_clr_set t = g_clr_set s
     \<and> max_sd t = max_sd s \<and> recv_task_st t = recv_task_st s \<and> recv_task_inst t = recv_task_inst s
     \<and> closed t = closed s \<and> task_pc t = task_pc s \<and> cmd_pc t = cmd_pc s"

lemma frame_refl [simp]: "frame s s"
  by (simp add: frame_def)

lemma frame_trans: "frame s t \<Longrightarrow> frame t u \<Longrightarrow> frame s u"
  by (auto simp: frame_def)

lemma frame_heads: "frame s t \<Longrightarrow> is_head h \<Longrightarrow> socket_of t h = socket_of s h \<and> info_of t h = info_of s h"
  by (auto simp: frame_def is_head_def)

lemma frame_simps [simp]:
  "frame s (link p q t) = frame s t" "frame s (set_qlen p n t) = frame s t"
  "frame s (new_node a k i t) = frame s t" "frame s (t\<lparr>live := l\<rparr>) = frame s t"
  by (auto simp: frame_def link_def set_qlen_def new_node_def)

lemma new_node_simps [simp]:
  "next_of (new_node a k i s) = next_of s" "prev_of (new_node a k i s) = prev_of s"
  "qlen_of (new_node a k i s) = qlen_of s" "live (new_node a k i s) = (live s)(a := True)"
  "socket_of (new_node a k i s) = (socket_of s)(Node a := k)"
  "info_of (new_node a k i s) = (info_of s)(Node a := i)"
  by (simp_all add: new_node_def)

lemma valid_new_node: "valid_ptr s q \<Longrightarrow> valid_ptr (new_node a k i s) q"
  by (cases q) (auto simp: valid_ptr_def)

lemma list_q_insert_eq:
  assumes "valid_ptr s p" "valid_ptr s n" "valid_ptr s (next_of s p)" "n \<noteq> next_of s p"
  shows "list_q_insert qhd p n s
    = Some (set_qlen qhd (qlen_of s qhd + 1) (link p n (link n (next_of s p) s)))"
  using assms by (simp add: list_q_insert_def get_next_def set_next_def set_prev_def
      link_def set_qlen_def fun_upd_twist)

lemma list_q_qtail_eq:
  assumes "valid_ptr s qhd" "valid_ptr s n" "valid_ptr s (prev_of s qhd)" "n \<noteq> qhd"
  shows "list_q_qtail qhd n s
    = Some (set_qlen qhd (qlen_of s qhd + 1) (link (prev_of s qhd) n (link n qhd s)))"
  using assms by (simp add: list_q_qtail_def get_prev_def set_next_def set_prev_def
      link_def set_qlen_def fun_upd_twist)

lemma list_q_remove_eq:
  assumes "valid_ptr s x" "valid_ptr s (prev_of s x)" "valid_ptr s (next_of s x)"
  shows "list_q_remove qhd x s
    = Some (set_qlen qhd (qlen_of s qhd - 1) (link (prev_of s x) (next_of s x) s))"
  using assms by (simp add: list_q_remove_def get_next_def get_prev_def set_next_def set_prev_def
      link_def set_qlen_def)

text \<open>The search loop is a search in the list of pointers.\<close>

lemma list_walk_chain:
  assumes "chain s (p # xs @ [qhd])" "\<And>x. x \<in> set xs \<Longrightarrow> field s x = Some (f x)"
    "\<And>x. x \<in> set xs \<Longrightarrow> valid_ptr s x" "qhd \<notin> set xs"
  shows "list_walk field go qhd s (next_of s p) = Some (hd (dropWhile (\<lambda>x. go (f x)) xs @ [qhd]))"
  using assms
proof (induction xs arbitrary: p)
  case Nil
  then show ?case by (simp add: list_walk.simps)
next
  case (Cons x xs)
  have n: "next_of s p = x" "x \<noteq> qhd" "field s x = Some (f x)" "valid_ptr s x"
    using Cons.prems by auto
  have IH: "list_walk field go qhd s (next_of s x) = Some (hd (dropWhile (\<lambda>x. go (f x)) xs @ [qhd]))"
    using Cons.prems by (intro Cons.IH) auto
  show ?case
    using n IH by (subst list_walk.simps) (simp add: get_next_def)
qed

lemma tables_valid:
  "tables s qhd xs ys \<Longrightarrow> x \<in> set xs \<Longrightarrow> valid_ptr s x"
  "tables s qhd xs ys \<Longrightarrow> is_head qhd"
  "tables s qhd xs ys \<Longrightarrow> qhd \<notin> set xs"
  by (auto simp: tables_def dll_def is_head_def)

lemma tables_walk:
  assumes "tables s qhd xs ys"
  shows "list_walk get_socket go qhd s (next_of s qhd)
           = Some (hd (dropWhile (\<lambda>x. go (socket_of s x)) xs @ [qhd]))"
    and "list_walk get_info go qhd s (next_of s qhd)
           = Some (hd (dropWhile (\<lambda>x. go (info_of s x)) xs @ [qhd]))"
proof -
  have c: "chain s (qhd # xs @ [qhd])" using assms by (simp add: tables_def dll_def)
  note v = tables_valid [OF assms]
  show "list_walk get_socket go qhd s (next_of s qhd)
           = Some (hd (dropWhile (\<lambda>x. go (socket_of s x)) xs @ [qhd]))"
    by (rule list_walk_chain [OF c]) (use v in \<open>auto simp: get_socket_def\<close>)
  show "list_walk get_info go qhd s (next_of s qhd)
           = Some (hd (dropWhile (\<lambda>x. go (info_of s x)) xs @ [qhd]))"
    by (rule list_walk_chain [OF c]) (use v in \<open>auto simp: get_info_def\<close>)
qed

lemma dll_qlen: "dll s qhd xs \<Longrightarrow> unat (qlen_of s qhd) = length xs"
  by (simp add: dll_def unsigned_of_nat take_bit_nat_eq_self)

lemma tables_qlen: "tables s qhd xs ys \<Longrightarrow> qlen_of s qhd = 0 \<longleftrightarrow> xs = []"
  using dll_qlen [of s qhd xs] by (auto simp: tables_def unat_eq_zero simp flip: unat_eq_zero)

lemma dll_frame:
  assumes "dll s qhd ys" "is_head qhd" "p \<notin> insert qhd (set ys)" "m \<notin> insert qhd (set ys)"
    "qhd' \<noteq> qhd"
  shows "dll (set_qlen qhd' n (link p m s)) qhd ys"
proof -
  have "dll (set_qlen qhd' n (link p m s)) qhd ys = dll s qhd ys"
    by (rule dll_cong) (use assms in \<open>auto simp: link_def\<close>)
  with assms(1) show ?thesis by simp
qed

lemma dll_frame2:
  assumes "dll s qhd ys" "is_head qhd" "p \<notin> insert qhd (set ys)" "m \<notin> insert qhd (set ys)"
    "n \<notin> insert qhd (set ys)" "qhd' \<noteq> qhd"
  shows "dll (set_qlen qhd' l (link p n (link n m s))) qhd ys"
proof -
  have "dll (set_qlen qhd' l (link p n (link n m s))) qhd ys = dll s qhd ys"
    by (rule dll_cong) (use assms in \<open>auto simp: link_def\<close>)
  with assms(1) show ?thesis by simp
qed

lemma dll_new_node [simp]: "dll (new_node a k i s) qhd xs = dll s qhd xs"
proof -
  have "chain (new_node a k i s) ps = chain s ps" for ps by (rule chain_cong) auto
  then show ?thesis by (simp add: dll_def)
qed

lemma tables_ends:
  assumes t: "tables s qhd (us @ vs) ys"
  shows "last (qhd # us) \<notin> insert (other qhd) (set ys)" "hd (vs @ [qhd]) \<notin> insert (other qhd) (set ys)"
    "valid_ptr s (last (qhd # us))" "valid_ptr s (hd (vs @ [qhd]))"
proof -
  have 1: "last (qhd # us) \<in> insert qhd (set us)" using last_in_set [of "qhd # us"] by simp
  have 2: "hd (vs @ [qhd]) \<in> insert qhd (set vs)" by (cases vs) auto
  have h: "is_head qhd" and d: "dll s (other qhd) ys" and d': "dll s qhd (us @ vs)"
    and dj: "(set us \<union> set vs) \<inter> set ys = {}"
    using t by (auto simp: tables_def)
  have n: "qhd \<notin> set ys" by (rule head_not_node [OF h d])
  have n': "other qhd \<notin> set us" "other qhd \<notin> set vs"
    using head_not_node [OF other_facts(1) d'] by auto
  show "last (qhd # us) \<notin> insert (other qhd) (set ys)"
    "hd (vs @ [qhd]) \<notin> insert (other qhd) (set ys)"
    using 1 2 n n' dj other_facts(3) [of qhd] by (auto simp del: other_facts)
  show "valid_ptr s (last (qhd # us))" "valid_ptr s (hd (vs @ [qhd]))"
    using 1 2 tables_valid [OF t] by auto
qed

lemma tables_insert:
  assumes t: "tables s qhd (us @ vs) ys" and a: "\<not> live s a"
    and len: "Suc (length (us @ vs)) < 2 ^ 32"
    and p: "p = last (qhd # us)" and m: "m = hd (vs @ [qhd])"
  shows "tables (set_qlen qhd (qlen_of s qhd + 1) (link p (Node a) (link (Node a) m (new_node a k i s))))
           qhd (us @ Node a # vs) ys" (is "tables ?t _ _ _")
proof -
  have h: "is_head qhd" and d: "dll s qhd (us @ vs)" and d': "dll s (other qhd) ys"
    using t by (auto simp: tables_def)
  have nin: "Node a \<notin> set us \<union> set vs \<union> set ys" using t a by (auto simp: tables_def)
  have "dll ?t qhd (us @ Node a # vs)"
    using dll_insert [of "new_node a k i s" qhd us vs a p m] d h nin len p m by simp
  moreover have "dll ?t (other qhd) ys"
  proof (rule dll_frame2)
    show "dll (new_node a k i s) (other qhd) ys" using d' by simp
    show "p \<notin> insert (other qhd) (set ys)" "m \<notin> insert (other qhd) (set ys)"
      using tables_ends [OF t] p m by auto
    show "Node a \<notin> insert (other qhd) (set ys)" using nin by (auto simp: other_def)
    show "qhd \<noteq> other qhd" using other_facts(3) [of qhd] by metis
  qed simp
  ultimately show ?thesis using t nin h by (auto simp: tables_def)
qed

lemma tables_remove:
  assumes t: "tables s qhd (us @ Node a # vs) ys"
    and p: "p = last (qhd # us)" and m: "m = hd (vs @ [qhd])"
  shows "tables ((set_qlen qhd (qlen_of s qhd - 1) (link p m s))\<lparr>live := (live s)(a := False)\<rparr>)
           qhd (us @ vs) ys" (is "tables ?t _ _ _")
proof -
  let ?u = "set_qlen qhd (qlen_of s qhd - 1) (link p m s)"
  have h: "is_head qhd" and d: "dll s qhd (us @ Node a # vs)" and d': "dll s (other qhd) ys"
    using t by (auto simp: tables_def)
  have dist: "Node a \<notin> set us \<union> set vs \<union> set ys" using t by (auto simp: tables_def dll_def)
  have t2: "tables s qhd ((us @ [Node a]) @ vs) ys" using t by simp
  have eq: "dll ?t q zs = dll ?u q zs" if "is_head q" for q zs by (rule dll_cong) (use that in auto)
  have "dll ?u qhd (us @ vs)" by (rule dll_remove [OF d h p m])
  moreover have "dll ?u (other qhd) ys"
    by (rule dll_frame [OF d'])
       (use tables_ends [OF t] tables_ends [OF t2] p m other_facts(3) [of qhd] in \<open>simp_all, metis?\<close>)
  ultimately show ?thesis using t h dist by (auto simp: tables_def eq)
qed

section \<open>Refinement\<close>

text \<open>The abstract insertion: \<open>behind\<close> is what the code reads behind the head.\<close>

definition insert_entry :: "int \<Rightarrow> int \<Rightarrow> int \<Rightarrow> (int \<times> int) list \<Rightarrow> (int \<times> int) list" where
  "insert_entry behind k i es =
     (let lo = takeWhile (\<lambda>e. fst e < k) es in
      case dropWhile (\<lambda>e. fst e < k) es of
        [] \<Rightarrow> if es = [] \<or> k < behind then es @ [(k, i)] else (k, i) # es
      | e # r \<Rightarrow> if k < fst e then lo @ (k, i) # e # r else lo @ e # (k, i) # r)"

lemma map_entry_link [simp]: "map (entry (set_qlen q n (link p m s))) xs = map (entry s) xs"
  by (auto simp: entry_def)

lemma map_entry_free [simp]: "entry (s\<lparr>live := l\<rparr>) = entry s"
  by (auto simp: entry_def)

lemma insert_entry_end:
  assumes "\<forall>e\<in>set es. fst e < k"
  shows "insert_entry b k i es = (if es = [] \<or> k < b then es @ [(k, i)] else (k, i) # es)"
proof -
  have "dropWhile (\<lambda>e. fst e < k) es = []" using assms dropWhile_eq_Nil_conv by blast
  then show ?thesis by (simp only: insert_entry_def Let_def list.case)
qed

lemma insert_entry_mid:
  assumes "\<forall>e\<in>set lo. fst e < k" "\<not> fst x < k"
  shows "insert_entry b k i (lo @ x # r)
    = (if k < fst x then lo @ (k, i) # x # r else lo @ x # (k, i) # r)"
proof -
  have "dropWhile (\<lambda>e. fst e < k) (lo @ x # r) = x # r" "takeWhile (\<lambda>e. fst e < k) (lo @ x # r) = lo"
    using assms by simp_all
  then show ?thesis by (simp only: insert_entry_def Let_def list.case)
qed

text \<open>Insertion behind the entries \<open>us\<close>, however the code found the place.\<close>

lemma list_q_insert_tables:
  assumes t: "tables s qhd (us @ vs) ys" and a: "\<not> live s a"
    and len: "Suc (length (us @ vs)) < 2 ^ 32"
  shows "\<exists>s'. list_q_insert qhd (last (qhd # us)) (Node a) (new_node a k i s) = Some s'
     \<and> tables s' qhd (us @ Node a # vs) ys \<and> frame s s'
     \<and> map (entry s') (us @ Node a # vs) = map (entry s) us @ (k, i) # map (entry s) vs
     \<and> map (entry s') ys = map (entry s) ys"
proof -
  define p where "p = last (qhd # us)"
  define m where "m = hd (vs @ [qhd])"
  have d: "dll s qhd (us @ vs)" and h: "is_head qhd" using t by (auto simp: tables_def)
  have nx: "next_of s p = m" using dll_ends [OF d h] p_def m_def by simp
  have na: "Node a \<notin> set us \<union> set vs \<union> set ys" using t a by (auto simp: tables_def)
  have ne: "Node a \<noteq> m" using na h unfolding m_def by (cases vs) auto
  have v: "valid_ptr s p" "valid_ptr s m" using tables_ends [OF t] p_def m_def by auto
  note v' = valid_new_node
  have "list_q_insert qhd p (Node a) (new_node a k i s)
      = Some (set_qlen qhd (qlen_of s qhd + 1) (link p (Node a) (link (Node a) m (new_node a k i s))))"
    using list_q_insert_eq [of "new_node a k i s" p "Node a" qhd] v' v ne nx by simp
  moreover note tables_insert [OF t a len p_def m_def, of k i]
  ultimately show ?thesis
    using na p_def by (auto simp: entry_def)
qed

lemma list_q_qtail_tables:
  assumes t: "tables s qhd us ys" and a: "\<not> live s a" and len: "Suc (length us) < 2 ^ 32"
  shows "\<exists>s'. list_q_qtail qhd (Node a) (new_node a k i s) = Some s'
     \<and> tables s' qhd (us @ [Node a]) ys \<and> frame s s'
     \<and> map (entry s') (us @ [Node a]) = map (entry s) us @ [(k, i)]
     \<and> map (entry s') ys = map (entry s) ys"
proof -
  have t': "tables s qhd (us @ []) ys" and len': "Suc (length (us @ [])) < 2 ^ 32"
    using t len by auto
  have d: "dll s qhd (us @ [])" and h: "is_head qhd" using t by (auto simp: tables_def)
  have pv: "prev_of s qhd = last (qhd # us)" and nx: "next_of s (last (qhd # us)) = qhd"
    using dll_ends [OF d h] by auto
  have v: "valid_ptr s (last (qhd # us))" using tables_ends [OF t'] by auto
  note v' = valid_new_node
  have ne: "Node a \<noteq> qhd" using h by auto
  have "list_q_qtail qhd (Node a) (new_node a k i s)
      = list_q_insert qhd (last (qhd # us)) (Node a) (new_node a k i s)"
    using list_q_insert_eq [of "new_node a k i s" "last (qhd # us)" "Node a" qhd]
      list_q_qtail_eq [of "new_node a k i s" qhd "Node a"] v v' h ne nx pv by simp
  with list_q_insert_tables [OF t' a len', of k i] show ?thesis by simp
qed

lemma hd_append_head: "hd (xs @ [q]) = (case xs of [] \<Rightarrow> q | x # _ \<Rightarrow> x)"
  by (cases xs) auto

text \<open>The walk of \<open>insert_sd\<close>, and the place it inserts at, from where the walk stopped.\<close>

lemma insert_sd_walk:
  assumes t: "tables s qhd xs ys" and a: "\<not> live s a"
  shows "list_walk get_socket (\<lambda>v. v < k) qhd (new_node a k i s) (next_of s qhd)
    = Some (hd (dropWhile (\<lambda>x. socket_of s x < k) xs @ [qhd]))"
proof -
  let ?n = "new_node a k i s"
  have d: "dll s qhd xs" and na: "Node a \<notin> set xs" "Node a \<noteq> qhd" using t a by (auto simp: tables_def)
  have c: "chain ?n (qhd # xs @ [qhd])"
    using d chain_cong [of "qhd # xs @ [qhd]" ?n s] by (simp add: dll_def)
  have "dropWhile (\<lambda>x. socket_of ?n x < k) xs = dropWhile (\<lambda>x. socket_of s x < k) xs"
    by (rule dropWhile_cong) (use na in auto)
  moreover have "list_walk get_socket (\<lambda>v. v < k) qhd ?n (next_of ?n qhd)
      = Some (hd (dropWhile (\<lambda>x. socket_of ?n x < k) xs @ [qhd]))"
    by (rule list_walk_chain [OF c])
       (use tables_valid [OF t] na in \<open>simp_all add: get_socket_def valid_new_node\<close>)
  ultimately show ?thesis using na(2) by simp
qed

lemma insert_place_mid:
  assumes t: "tables s qhd (lo @ x # r) ys" and a: "\<not> live s a"
    and lo: "\<forall>y\<in>set lo. socket_of s y < k" and x: "\<not> socket_of s x < k"
  shows "\<exists>us vs v. lo @ x # r = us @ vs \<and> get_socket (new_node a k i s) x = Some v
     \<and> (if k < v then get_prev (new_node a k i s) x else Some x) = Some (last (qhd # us))
     \<and> map (entry s) us @ (k, i) # map (entry s) vs = insert_entry b k i (map (entry s) (lo @ x # r))"
proof -
  let ?n = "new_node a k i s"
  have h: "is_head qhd" and d: "dll s qhd (lo @ x # r)" and na: "x \<noteq> Node a" using t a by (auto simp: tables_def)
  have "valid_ptr ?n x" using tables_valid(1) [OF t, of x] by (simp add: valid_new_node)
  then have g: "get_socket ?n x = Some (socket_of s x)" "get_prev ?n x = Some (last (qhd # lo))"
    using na dll_ends(2) [of s qhd lo "x # r"] d h by (auto simp: get_socket_def get_prev_def)
  have mid: "insert_entry b k i (map (entry s) lo @ entry s x # map (entry s) r) =
      (if k < socket_of s x then map (entry s) lo @ (k, i) # map (entry s) (x # r)
       else map (entry s) lo @ entry s x # (k, i) # map (entry s) r)"
    using insert_entry_mid [of "map (entry s) lo" k "entry s x"] lo x by (simp add: entry_def)
  show ?thesis
  proof (cases "k < socket_of s x")
    case True
    with g show ?thesis by - (rule exI [of _ lo], rule exI [of _ "x # r"], simp add: mid)
  next
    case False
    with g show ?thesis by - (rule exI [of _ "lo @ [x]"], rule exI [of _ r], simp add: mid)
  qed
qed

lemma insert_place_end:
  assumes t: "tables s qhd xs ys" and a: "\<not> live s a" and xs: "xs \<noteq> []" "\<forall>y\<in>set xs. socket_of s y < k"
  shows "\<exists>us vs v. xs = us @ vs \<and> get_socket (new_node a k i s) qhd = Some v
     \<and> (if k < v then get_prev (new_node a k i s) qhd else Some qhd) = Some (last (qhd # us))
     \<and> map (entry s) us @ (k, i) # map (entry s) vs = insert_entry (socket_of s qhd) k i (map (entry s) xs)"
proof -
  let ?n = "new_node a k i s"
  have h: "is_head qhd" and d: "dll s qhd xs" and na: "Node a \<noteq> qhd" using t a by (auto simp: tables_def)
  have g: "get_socket ?n qhd = Some (socket_of s qhd)" "get_prev ?n qhd = Some (last (qhd # xs))"
    using h na dll_ends(2) [of s qhd xs "[]"] d by (auto simp: get_socket_def get_prev_def)
  have nil: "\<forall>e\<in>set (map (entry s) xs). fst e < k" using xs(2) by (simp add: entry_def)
  show ?thesis
  proof (cases "k < socket_of s qhd")
    case True
    with g xs(1) show ?thesis
      by - (rule exI [of _ xs], rule exI [of _ "[]"], simp add: insert_entry_end [OF nil])
  next
    case False
    with g xs(1) show ?thesis
      by - (rule exI [of _ "[]"], rule exI [of _ xs], simp add: insert_entry_end [OF nil])
  qed
qed

lemma insert_place:
  assumes t: "tables s qhd xs ys" and a: "\<not> live s a" and ne: "xs \<noteq> []"
    and it: "it = hd (dropWhile (\<lambda>x. socket_of s x < k) xs @ [qhd])"
  shows "\<exists>us vs v. xs = us @ vs \<and> get_socket (new_node a k i s) it = Some v
     \<and> (if k < v then get_prev (new_node a k i s) it else Some it) = Some (last (qhd # us))
     \<and> map (entry s) us @ (k, i) # map (entry s) vs = insert_entry (socket_of s qhd) k i (map (entry s) xs)"
proof (cases "dropWhile (\<lambda>x. socket_of s x < k) xs")
  case Nil
  then have "\<forall>y\<in>set xs. socket_of s y < k" by simp
  moreover have "it = qhd" using it Nil by simp
  ultimately show ?thesis using insert_place_end [OF t a ne] by blast
next
  case (Cons x r)
  let ?lo = "takeWhile (\<lambda>x. socket_of s x < k) xs"
  have xs: "xs = ?lo @ x # r" using Cons by (metis takeWhile_dropWhile_id)
  have "\<not> socket_of s x < k" using Cons hd_dropWhile [of "\<lambda>x. socket_of s x < k" xs] by simp
  moreover have "\<forall>y\<in>set ?lo. socket_of s y < k" by (auto dest: set_takeWhileD)
  moreover have "it = x" using it Cons by simp
  ultimately show ?thesis using insert_place_mid [of s qhd ?lo x r ys a k] t a xs by metis
qed

lemma insert_sd_refines:
  assumes t: "tables s qhd xs ys" and a: "\<not> live s a" and len: "Suc (length xs) < 2 ^ 32"
  shows "\<exists>s' xs'. insert_sd qhd (Some a) k i s = Some (0, s') \<and> tables s' qhd xs' ys \<and> frame s s'
     \<and> set xs' = insert (Node a) (set xs) \<and> map (entry s') xs' = insert_entry (socket_of s qhd) k i (map (entry s) xs)
     \<and> map (entry s') ys = map (entry s) ys"
proof -
  let ?n = "new_node a k i s"
  have nx: "get_next s qhd = Some (next_of s qhd)" using t by (simp add: tables_def get_next_def)
  have q0: "qlen_of s qhd = 0 \<longleftrightarrow> xs = []" by (rule tables_qlen [OF t])
  show ?thesis
  proof (cases "xs = []")
    case True
    from list_q_qtail_tables [OF t a, of k i] len True obtain s' where
      s': "list_q_qtail qhd (Node a) ?n = Some s'" "tables s' qhd [Node a] ys" "frame s s'"
      "map (entry s') [Node a] = [(k, i)]" "map (entry s') ys = map (entry s) ys" by auto
    have "insert_sd qhd (Some a) k i s = Some (0, s')"
      using nx q0 True s'(1) by (simp add: insert_sd_def Let_def)
    with s' show ?thesis using True
      by (intro exI [of _ s'] exI [of _ "[Node a]"]) (simp add: insert_entry_def)
  next
    case False
    define it where "it = hd (dropWhile (\<lambda>x. socket_of s x < k) xs @ [qhd])"
    obtain us vs v where p: "xs = us @ vs" "get_socket ?n it = Some v"
      "(if k < v then get_prev ?n it else Some it) = Some (last (qhd # us))"
      "map (entry s) us @ (k, i) # map (entry s) vs = insert_entry (socket_of s qhd) k i (map (entry s) xs)"
      using insert_place [OF t a False it_def, of i] by blast
    from list_q_insert_tables [of s qhd us vs ys a k i] t a len p(1) obtain s' where
      s': "list_q_insert qhd (last (qhd # us)) (Node a) ?n = Some s'"
      "tables s' qhd (us @ Node a # vs) ys" "frame s s'"
      "map (entry s') (us @ Node a # vs) = map (entry s) us @ (k, i) # map (entry s) vs"
      "map (entry s') ys = map (entry s) ys" by auto
    have "insert_sd qhd (Some a) k i s = Some (0, s')"
      using nx q0 False insert_sd_walk [OF t a, of k i, folded it_def] p(2,3) s'(1) by (simp add: insert_sd_def Let_def)
    with s' p(1,4) show ?thesis
      by (intro exI [of _ s'] exI [of _ "us @ Node a # vs"]) simp
  qed
qed

text \<open>Unlinking and freeing an entry.\<close>

lemma list_q_remove_tables:
  assumes t: "tables s qhd (us @ x # vs) ys"
  shows "\<exists>s1 s'. list_q_remove qhd x s = Some s1 \<and> frame s s1 \<and> socket_of s1 = socket_of s
     \<and> valid_ptr s1 = valid_ptr s \<and> (\<forall>c. c_free x (s1\<lparr>closed := c\<rparr>) = Some (s'\<lparr>closed := c\<rparr>))
     \<and> c_free x s1 = Some s' \<and> tables s' qhd (us @ vs) ys \<and> frame s s' \<and> entry s' = entry s"
proof -
  obtain a where x: "x = Node a" using t by (auto simp: tables_def dll_def)
  define p where "p = last (qhd # us)"
  define m where "m = hd (vs @ [qhd])"
  have d: "dll s qhd (us @ x # vs)" and h: "is_head qhd" using t by (auto simp: tables_def)
  have nx: "next_of s x = m" "prev_of s x = p"
    using dll_ends [of s qhd "us @ [x]" vs] dll_ends [of s qhd us "x # vs"] d h p_def m_def by auto
  have v: "valid_ptr s p" "valid_ptr s m" "valid_ptr s x"
    using tables_ends(3) [OF t] tables_ends(4) [of s qhd "us @ [x]" vs ys] tables_valid(1) [OF t, of x]
      t p_def m_def by auto
  let ?u = "set_qlen qhd (qlen_of s qhd - 1) (link p m s)"
  let ?t = "?u\<lparr>live := (live s)(a := False)\<rparr>"
  have "list_q_remove qhd x s = Some ?u" using list_q_remove_eq v nx by simp
  moreover have "tables ?t qhd (us @ vs) ys"
    using tables_remove [of s qhd us a vs ys p m] t x p_def m_def by simp
  moreover have "c_free x (?u\<lparr>closed := c\<rparr>) = Some (?t\<lparr>closed := c\<rparr>)" for c
    using v x by (simp add: c_free_def set_qlen_def link_def)
  moreover have "c_free x ?u = Some ?t"
    using v x by (simp add: c_free_def set_qlen_def link_def)
  ultimately show ?thesis
    by - (rule exI [of _ ?u], rule exI [of _ ?t], simp add: entry_def fun_eq_iff)
qed

text \<open>The first entry for which the search stops.\<close>

lemma dropWhile_split:
  "dropWhile P xs = x # r \<Longrightarrow> \<exists>us. xs = us @ x # r \<and> (\<forall>u\<in>set us. P u) \<and> \<not> P x"
  by (rule exI [of _ "takeWhile P xs"])
     (metis hd_dropWhile list.distinct(1) list.sel(1) set_takeWhileD takeWhile_dropWhile_id)

lemma rm_from_refines:
  assumes t: "tables s qhd xs ys"
  shows "\<exists>r s' xs'. rm_from qhd sd s = Some (r, s') \<and> tables s' qhd xs' ys \<and> frame s s'
     \<and> entry s' = entry s
     \<and> (if sd \<in> socket_of s ` set xs then r = sd \<and> (\<exists>us x vs. xs = us @ x # vs \<and> xs' = us @ vs
             \<and> socket_of s x = sd \<and> sd \<notin> socket_of s ` set us)
        else r = - 1 \<and> xs' = xs)"
proof -
  have h: "is_head qhd" "qhd \<notin> set xs" using tables_valid(2,3) [OF t] by auto
  have q0: "qlen_of s qhd = 0 \<longleftrightarrow> xs = []" by (rule tables_qlen [OF t])
  have nx: "get_next s qhd = Some (next_of s qhd)" using h by (simp add: get_next_def)
  note walk = tables_walk(1) [OF t, of "\<lambda>k. k \<noteq> sd"]
  show ?thesis
  proof (cases "dropWhile (\<lambda>x. socket_of s x \<noteq> sd) xs")
    case Nil
    then have "sd \<notin> socket_of s ` set xs" by auto
    moreover have "rm_from qhd sd s = Some (- 1, s)"
      using q0 nx walk Nil by (simp add: rm_from_def)
    ultimately show ?thesis using t by auto
  next
    case (Cons x vs)
    obtain us where us: "xs = us @ x # vs" "\<forall>u\<in>set us. socket_of s u \<noteq> sd" "socket_of s x = sd"
      using dropWhile_split [OF Cons] by auto
    obtain s1 s' where s': "list_q_remove qhd x s = Some s1" "c_free x s1 = Some s'"
      "tables s' qhd (us @ vs) ys" "frame s s'" "entry s' = entry s"
      using list_q_remove_tables [of s qhd us x vs ys] t us(1) by auto
    have "x \<noteq> qhd" using h us by auto
    then have "rm_from qhd sd s = Some (sd, s')"
      using q0 nx walk Cons s'(1,2) us by (simp add: rm_from_def)
    moreover have "sd \<in> socket_of s ` set xs" "sd \<notin> socket_of s ` set us" using us by auto
    ultimately show ?thesis using s' us by auto
  qed
qed

section \<open>Descriptor sets\<close>

text \<open>The members of a descriptor set, for descriptors the set has room for.\<close>

definition fd_has :: "u8 list \<Rightarrow> int \<Rightarrow> bool" where
  "fd_has f k \<longleftrightarrow> FD_ISSET k f = Some True"

definition fd_ok :: "u8 list \<Rightarrow> bool" where
  "fd_ok f \<longleftrightarrow> length f = length fd_zero"

definition sd_ok :: "int \<Rightarrow> bool" where
  "sd_ok k \<longleftrightarrow> 0 \<le> k \<and> k < 8"

lemma fd_ok_zero [simp]: "fd_ok fd_zero"
  by (simp add: fd_ok_def)

lemma fd_ok_single: "fd_ok f \<longleftrightarrow> (\<exists>b. f = [b])"
  by (simp add: fd_ok_def fd_zero_def MEMP_NUM_NETCONN_def length_Suc_conv)

lemma fd_zero_eq: "fd_zero = [0]"
  by (simp add: fd_zero_def MEMP_NUM_NETCONN_def)

lemma fd_byte_single: "- 8 < k \<Longrightarrow> k < 8 \<Longrightarrow> fd_index k = 0 \<and> fd_byte k [b] = Some b"
  by (simp add: fd_byte_def fd_index_def rd_def)

lemma and_fd_bit: "b AND fd_bit k \<noteq> 0 \<longleftrightarrow> bit b (nat (k mod 8))"
  by (simp add: fd_bit_def bit_iff_and_push_bit_not_eq_0)

lemma FD_ISSET_ok: "- 8 < k \<Longrightarrow> k < 8 \<Longrightarrow> FD_ISSET k [b] = Some (bit b (nat (k mod 8)))"
  using and_fd_bit [of b k] by (simp add: FD_ISSET_def fd_byte_single)

lemma FD_SET_single: "- 8 < k \<Longrightarrow> k < 8 \<Longrightarrow> FD_SET k [b] = Some [b OR fd_bit k]"
  by (simp add: FD_SET_def fd_byte_single wr_def)

lemma FD_CLR_single: "- 8 < k \<Longrightarrow> k < 8 \<Longrightarrow> FD_CLR k [b] = Some [b AND NOT (fd_bit k)]"
  by (simp add: FD_CLR_def fd_byte_single wr_def)

lemma fd_has_single: "sd_ok k \<Longrightarrow> fd_has [b] k \<longleftrightarrow> bit b (nat k)"
  by (simp add: fd_has_def sd_ok_def FD_ISSET_ok)

lemma FD_ISSET_has: "fd_ok f \<Longrightarrow> sd_ok k \<Longrightarrow> FD_ISSET k f = Some (fd_has f k)"
  by (auto simp: fd_ok_single fd_has_single FD_ISSET_ok sd_ok_def)

lemma fd_bit_bit: "sd_ok k \<Longrightarrow> sd_ok m \<Longrightarrow> bit (fd_bit k) (nat m) \<longleftrightarrow> m = k"
  by (auto simp: fd_bit_def sd_ok_def bit_simps)

lemma FD_SET_has:
  assumes "fd_ok f" "sd_ok k"
  shows "\<exists>g. FD_SET k f = Some g \<and> fd_ok g \<and> (\<forall>m. sd_ok m \<longrightarrow> fd_has g m = (m = k \<or> fd_has f m))"
proof -
  obtain b where f: "f = [b]" using assms(1) by (auto simp: fd_ok_single)
  with assms(2) show ?thesis
    by (auto simp: FD_SET_single sd_ok_def fd_ok_single fd_has_single bit_simps fd_bit_bit)
qed

lemma FD_CLR_has:
  assumes "fd_ok f" "sd_ok k"
  shows "\<exists>g. FD_CLR k f = Some g \<and> fd_ok g \<and> (\<forall>m. sd_ok m \<longrightarrow> fd_has g m = (m \<noteq> k \<and> fd_has f m))"
proof -
  obtain b where f: "f = [b]" using assms(1) by (auto simp: fd_ok_single)
  have "bit (NOT (fd_bit k)) (nat m) \<longleftrightarrow> m \<noteq> k" if "sd_ok m" for m
    using that assms(2) by (simp add: bit_simps fd_bit_bit) (auto simp: sd_ok_def nat_less_iff)
  with assms(2) f show ?thesis
    by (auto simp: FD_CLR_single sd_ok_def fd_ok_single fd_has_single bit_simps)
qed

lemma fd_zero_empty [simp]: "\<not> fd_has fd_zero k \<or> \<not> sd_ok k"
  by (auto simp: fd_zero_eq fd_has_single)

lemma fd_zero_iff: "fd_ok f \<Longrightarrow> f = fd_zero \<longleftrightarrow> (\<forall>k. sd_ok k \<longrightarrow> \<not> fd_has f k)"
proof
  assume ok: "fd_ok f" and e: "\<forall>k. sd_ok k \<longrightarrow> \<not> fd_has f k"
  from ok obtain b where f: "f = [b]" by (auto simp: fd_ok_single)
  have "\<not> bit b n" if "n < 8" for n
    using e that fd_has_single [of "int n" b] unfolding f by (auto simp: sd_ok_def)
  then have "b = 0" by (auto simp: bit_eq_iff dest: bit_imp_le_length)
  with f show "f = fd_zero" by (simp add: fd_zero_eq)
qed (auto simp: fd_zero_eq fd_has_single)

section \<open>The control fields do not touch the tables\<close>

lemma valid_ptr_ctl [simp]:
  "valid_ptr (s\<lparr>listhead_is_inited := v0\<rparr>) = valid_ptr s"
  "valid_ptr (s\<lparr>g_r_set := v1\<rparr>) = valid_ptr s"
  "valid_ptr (s\<lparr>g_clr_set := v2\<rparr>) = valid_ptr s"
  "valid_ptr (s\<lparr>max_sd := v3\<rparr>) = valid_ptr s"
  "valid_ptr (s\<lparr>recv_task_st := v4\<rparr>) = valid_ptr s"
  "valid_ptr (s\<lparr>recv_task_inst := v5\<rparr>) = valid_ptr s"
  "valid_ptr (s\<lparr>closed := v6\<rparr>) = valid_ptr s"
  "valid_ptr (s\<lparr>task_pc := v7\<rparr>) = valid_ptr s"
  "valid_ptr (s\<lparr>cmd_pc := v8\<rparr>) = valid_ptr s"
  by (auto simp: valid_ptr_def fun_eq_iff split: ptr.split)

lemma entry_ctl [simp]:
  "entry (s\<lparr>listhead_is_inited := v0\<rparr>) = entry s"
  "entry (s\<lparr>g_r_set := v1\<rparr>) = entry s"
  "entry (s\<lparr>g_clr_set := v2\<rparr>) = entry s"
  "entry (s\<lparr>max_sd := v3\<rparr>) = entry s"
  "entry (s\<lparr>recv_task_st := v4\<rparr>) = entry s"
  "entry (s\<lparr>recv_task_inst := v5\<rparr>) = entry s"
  "entry (s\<lparr>closed := v6\<rparr>) = entry s"
  "entry (s\<lparr>task_pc := v7\<rparr>) = entry s"
  "entry (s\<lparr>cmd_pc := v8\<rparr>) = entry s"
  by (auto simp: entry_def fun_eq_iff)

lemma chain_ctl [simp]:
  "chain (s\<lparr>listhead_is_inited := v0\<rparr>) = chain s"
  "chain (s\<lparr>g_r_set := v1\<rparr>) = chain s"
  "chain (s\<lparr>g_clr_set := v2\<rparr>) = chain s"
  "chain (s\<lparr>max_sd := v3\<rparr>) = chain s"
  "chain (s\<lparr>recv_task_st := v4\<rparr>) = chain s"
  "chain (s\<lparr>recv_task_inst := v5\<rparr>) = chain s"
  "chain (s\<lparr>closed := v6\<rparr>) = chain s"
  "chain (s\<lparr>task_pc := v7\<rparr>) = chain s"
  "chain (s\<lparr>cmd_pc := v8\<rparr>) = chain s"
  by (rule ext, rule chain_cong, simp, simp)+

lemma dll_ctl [simp]:
  "dll (s\<lparr>listhead_is_inited := v0\<rparr>) = dll s"
  "dll (s\<lparr>g_r_set := v1\<rparr>) = dll s"
  "dll (s\<lparr>g_clr_set := v2\<rparr>) = dll s"
  "dll (s\<lparr>max_sd := v3\<rparr>) = dll s"
  "dll (s\<lparr>recv_task_st := v4\<rparr>) = dll s"
  "dll (s\<lparr>recv_task_inst := v5\<rparr>) = dll s"
  "dll (s\<lparr>closed := v6\<rparr>) = dll s"
  "dll (s\<lparr>task_pc := v7\<rparr>) = dll s"
  "dll (s\<lparr>cmd_pc := v8\<rparr>) = dll s"
  by (auto simp: dll_def fun_eq_iff)

lemma tables_ctl [simp]:
  "tables (s\<lparr>listhead_is_inited := v0\<rparr>) = tables s"
  "tables (s\<lparr>g_r_set := v1\<rparr>) = tables s"
  "tables (s\<lparr>g_clr_set := v2\<rparr>) = tables s"
  "tables (s\<lparr>max_sd := v3\<rparr>) = tables s"
  "tables (s\<lparr>recv_task_st := v4\<rparr>) = tables s"
  "tables (s\<lparr>recv_task_inst := v5\<rparr>) = tables s"
  "tables (s\<lparr>closed := v6\<rparr>) = tables s"
  "tables (s\<lparr>task_pc := v7\<rparr>) = tables s"
  "tables (s\<lparr>cmd_pc := v8\<rparr>) = tables s"
  by (auto simp: tables_def fun_eq_iff)

text \<open>Marking an entry for removal.\<close>

lemma mark_rm_sd_refines:
  assumes t: "tables s Normal_head ns ls" and f: "fd_ok (g_clr_set s)"
    and ok: "\<And>x. x \<in> set ns \<Longrightarrow> sd_ok (socket_of s x)"
  shows "\<exists>r g. mark_rm_sd sd s = Some (r, s\<lparr>g_clr_set := g\<rparr>) \<and> fd_ok g
     \<and> (if sd \<in> socket_of s ` set ns
        then r = sd \<and> (\<forall>m. sd_ok m \<longrightarrow> fd_has g m = (m = sd \<or> fd_has (g_clr_set s) m))
        else r = - 1 \<and> g = g_clr_set s)"
proof -
  have h: "Normal_head \<notin> set ns" using tables_valid(3) [OF t] by auto
  have q0: "qlen_of s Normal_head = 0 \<longleftrightarrow> ns = []" by (rule tables_qlen [OF t])
  have nx: "get_next s Normal_head = Some (next_of s Normal_head)" by (simp add: get_next_def)
  note walk = tables_walk(1) [OF t, of "\<lambda>k. k \<noteq> sd"]
  show ?thesis
  proof (cases "dropWhile (\<lambda>x. socket_of s x \<noteq> sd) ns")
    case Nil
    then have "sd \<notin> socket_of s ` set ns" by auto
    moreover have "mark_rm_sd sd s = Some (- 1, s\<lparr>g_clr_set := g_clr_set s\<rparr>)"
      using q0 nx walk Nil by (simp add: mark_rm_sd_def)
    ultimately show ?thesis using f by auto
  next
    case (Cons x vs)
    obtain us where us: "ns = us @ x # vs" "socket_of s x = sd"
      using dropWhile_split [OF Cons] by auto
    have "sd_ok sd" using ok us by auto
    then obtain g where g: "FD_SET sd (g_clr_set s) = Some g" "fd_ok g"
      "\<forall>m. sd_ok m \<longrightarrow> fd_has g m = (m = sd \<or> fd_has (g_clr_set s) m)"
      using FD_SET_has [OF f] by blast
    have "x \<noteq> Normal_head" using h us by auto
    then have "mark_rm_sd sd s = Some (sd, s\<lparr>g_clr_set := g\<rparr>)"
      using q0 nx walk Cons g(1) us by (simp add: mark_rm_sd_def)
    moreover have "sd \<in> socket_of s ` set ns" using us by auto
    ultimately show ?thesis using g by auto
  qed
qed

lemma mark_rm_listen_refines:
  assumes t: "tables s Listen_head ls ns" and f: "fd_ok (g_clr_set s)"
    and ok: "\<And>x. x \<in> set ls \<Longrightarrow> sd_ok (socket_of s x)"
    and behind: "info_of s Listen_head \<noteq> port"
  shows "\<exists>r g. mark_rm_listen_sd_by_port port s = Some (r, s\<lparr>g_clr_set := g\<rparr>) \<and> fd_ok g
     \<and> (if port \<in> info_of s ` set ls
        then sd_ok r \<and> (r, port) \<in> entry s ` set ls
           \<and> (\<forall>m. sd_ok m \<longrightarrow> fd_has g m = (m = r \<or> fd_has (g_clr_set s) m))
        else r = - 1 \<and> g = g_clr_set s)"
proof -
  have h: "Listen_head \<notin> set ls" using tables_valid(3) [OF t] by auto
  have q0: "qlen_of s Listen_head = 0 \<longleftrightarrow> ls = []" by (rule tables_qlen [OF t])
  have nx: "get_next s Listen_head = Some (next_of s Listen_head)" by (simp add: get_next_def)
  note walk = tables_walk(2) [OF t, of "\<lambda>p. p \<noteq> port"]
  show ?thesis
  proof (cases "dropWhile (\<lambda>x. info_of s x \<noteq> port) ls")
    case Nil
    then have "port \<notin> info_of s ` set ls" by auto
    moreover have "mark_rm_listen_sd_by_port port s = Some (- 1, s\<lparr>g_clr_set := g_clr_set s\<rparr>)"
      using q0 nx walk Nil behind by (simp add: mark_rm_listen_sd_by_port_def get_info_def)
    ultimately show ?thesis using f by auto
  next
    case (Cons x vs)
    obtain us where us: "ls = us @ x # vs" "info_of s x = port"
      using dropWhile_split [OF Cons] by auto
    have x: "sd_ok (socket_of s x)" "valid_ptr s x" "ls \<noteq> []"
      using ok us tables_valid(1) [OF t, of x] by auto
    then obtain g where g: "FD_SET (socket_of s x) (g_clr_set s) = Some g" "fd_ok g"
      "\<forall>m. sd_ok m \<longrightarrow> fd_has g m = (m = socket_of s x \<or> fd_has (g_clr_set s) m)"
      using FD_SET_has [OF f] by blast
    have "mark_rm_listen_sd_by_port port s = Some (socket_of s x, s\<lparr>g_clr_set := g\<rparr>)"
      using q0 nx walk Cons g(1) us(2) x by (simp add: mark_rm_listen_sd_by_port_def get_info_def get_socket_def)
    moreover have "port \<in> info_of s ` set ls" "(socket_of s x, port) \<in> entry s ` set ls"
      using us by (auto simp: entry_def)
    ultimately show ?thesis using g x by auto
  qed
qed

text \<open>The last entry of each table, not the largest descriptor, goes into the bound of \<open>select\<close>.\<close>

lemma max_with_refines:
  assumes t: "tables s qhd xs ys"
  shows "max_with qhd s = Some (s\<lparr>max_sd :=
    (if xs = [] then max_sd s else max (max_sd s) (socket_of s (last xs)))\<rparr>)"
proof (cases "xs = []")
  case False
  have d: "dll s qhd (xs @ [])" and h: "is_head qhd" using t by (auto simp: tables_def)
  have "prev_of s qhd = last xs" using dll_ends(2) [OF d h] False by simp
  moreover have "valid_ptr s (last xs)" using tables_valid(1) [OF t] False by simp
  ultimately show ?thesis
    using tables_qlen [OF t] h False by (simp add: max_with_def get_prev_def get_socket_def max_def)
qed (use tables_qlen [OF t] in \<open>simp add: max_with_def\<close>)

end
