(* ===== verification/CLib.thy ===== *)
theory CLib
  imports Prelude
begin

text \<open>
  What the handlers of the AT commands use of the C library: \<open>atoi\<close>, \<open>strtoul\<close>, \<open>strtok\<close> and
  \<open>strcmp\<close> on argument strings (without their terminators).
\<close>

abbreviation code :: "char \<Rightarrow> int" where "code c \<equiv> of_char c"

section \<open>Decimal numbers\<close>

text \<open>White space, a sign, decimal digits; \<open>str_atoi\<close> is the number written, of any size.\<close>

fun digits_value :: "int \<Rightarrow> string \<Rightarrow> int" where
  "digits_value n [] = n"
| "digits_value n (c # cs) =
     (if 48 \<le> code c \<and> code c \<le> 57 then digits_value (n * 10 + (code c - 48)) cs else n)"

definition is_space :: "char \<Rightarrow> bool" where
  "is_space c \<longleftrightarrow> code c = 32 \<or> (9 \<le> code c \<and> code c \<le> 13)"

definition str_atoi :: "string \<Rightarrow> int" where
  "str_atoi t = (case dropWhile is_space t of
      [] \<Rightarrow> 0
    | c # cs \<Rightarrow> if c = CHR ''-'' then - digits_value 0 cs
                else if c = CHR ''+'' then digits_value 0 cs else digits_value 0 (c # cs))"

text \<open>
  \<open>atoi\<close> returns an \<open>int\<close>. Numbers it cannot hold are undefined in the C standard; the C library of
  the tool chain computes \<open>(int) strtol (s, NULL, 10)\<close>, which saturates.
\<close>

definition INT_MIN :: int where "INT_MIN = - 2147483648"
definition INT_MAX :: int where "INT_MAX = 2147483647"

definition atoi :: "string \<Rightarrow> int" where
  "atoi t = max INT_MIN (min INT_MAX (str_atoi t))"

section \<open>Numbers to a base\<close>

definition digit_of :: "char \<Rightarrow> nat" where
  "digit_of c = (let n = of_char c in
     if 48 \<le> n \<and> n \<le> 57 then n - 48
     else if 97 \<le> n \<and> n \<le> 122 then n - 87
     else if 65 \<le> n \<and> n \<le> 90 then n - 55 else 99)"

fun radix_value :: "nat \<Rightarrow> nat \<Rightarrow> string \<Rightarrow> nat" where
  "radix_value b n [] = n"
| "radix_value b n (c # cs) = (if digit_of c < b then radix_value b (n * b + digit_of c) cs else n)"

text \<open>With base 16 an optional \<open>0x\<close> is skipped when a digit follows.\<close>

definition skip_0x :: "nat \<Rightarrow> string \<Rightarrow> string" where
  "skip_0x b t = (case t of
      c # x # d # r \<Rightarrow> if b = 16 \<and> c = CHR ''0'' \<and> (x = CHR ''x'' \<or> x = CHR ''X'') \<and> digit_of d < 16
        then d # r else t
    | _ \<Rightarrow> t)"

text \<open>\<open>unsigned long\<close> has 32 bits; larger numbers give its maximum, a minus sign negates.\<close>

definition ulong_of :: "bool \<Rightarrow> nat \<Rightarrow> u32" where
  "ulong_of neg n = (if 2 ^ 32 \<le> n then - 1 else if neg then - of_nat n else of_nat n)"

definition strtoul :: "string \<Rightarrow> nat \<Rightarrow> u32" where
  "strtoul t b = (case dropWhile is_space t of
      [] \<Rightarrow> 0
    | c # cs \<Rightarrow> ulong_of (c = CHR ''-'')
        (radix_value b 0 (skip_0x b (if c = CHR ''-'' \<or> c = CHR ''+'' then cs else c # cs))))"

section \<open>Tokens\<close>

text \<open>The results of \<open>strtok (s, delims)\<close> and of the calls with \<open>NULL\<close> that follow, up to the first
  null pointer: the maximal pieces without a delimiter.\<close>

function strtok :: "string \<Rightarrow> string \<Rightarrow> string list" where
  "strtok delims s =
     (case dropWhile (\<lambda>c. c \<in> set delims) s of
        [] \<Rightarrow> []
      | c # cs \<Rightarrow> takeWhile (\<lambda>c. c \<notin> set delims) (c # cs) #
                   strtok delims (dropWhile (\<lambda>c. c \<notin> set delims) (c # cs)))"
  by pat_completeness auto
termination
proof (relation "measure (\<lambda>(d, s). length s)", goal_cases)
  case (2 d s c cs)
  have "length (dropWhile (\<lambda>x. x \<notin> set d) cs) < Suc (length cs)"
    by (meson length_dropWhile_le less_Suc_eq_le)
  moreover have "c \<notin> set d" using hd_dropWhile [of "\<lambda>c. c \<in> set d" s] 2 by auto
  moreover have "Suc (length cs) \<le> length s"
    using length_dropWhile_le [of "\<lambda>c. c \<in> set d" s] 2 by simp
  ultimately show ?case by simp
qed simp

declare strtok.simps [simp del]

lemma strtok_Nil [simp]: "strtok d [] = []"
  by (subst strtok.simps) simp

lemma strtok_unfold:
  assumes "s \<noteq> []" "dropWhile (\<lambda>c. c \<in> set d) s = s"
  shows "strtok d s = takeWhile (\<lambda>c. c \<notin> set d) s # strtok d (dropWhile (\<lambda>c. c \<notin> set d) s)"
proof -
  obtain c cs where s: "s = c # cs" using assms(1) by (cases s) auto
  show ?thesis by (subst strtok.simps, subst assms(2), subst (1) s) (simp only: list.case s)
qed

lemma strtok_word:
  assumes "w \<noteq> []" "set w \<inter> set d = {}" "c \<in> set d"
  shows "strtok d (w @ c # s) = w # strtok d (c # s)"
proof -
  have dw: "dropWhile (\<lambda>c. c \<in> set d) (w @ c # s) = w @ c # s"
    using assms(1,2) by (cases w) auto
  have "takeWhile (\<lambda>c. c \<notin> set d) (w @ c # s) = w" "dropWhile (\<lambda>c. c \<notin> set d) (w @ c # s) = c # s"
    using assms(2,3) by (subst takeWhile_append2 dropWhile_append2; auto)+
  with strtok_unfold [OF _ dw] show ?thesis by simp
qed

lemma strtok_skip: "c \<in> set d \<Longrightarrow> strtok d (c # s) = strtok d s"
  by (subst (1 2) strtok.simps) simp

lemma strtok_last:
  assumes "w \<noteq> []" "set w \<inter> set d = {}"
  shows "strtok d w = [w]"
proof -
  have dw: "dropWhile (\<lambda>c. c \<in> set d) w = w" using assms by (cases w) auto
  have "takeWhile (\<lambda>c. c \<notin> set d) w = w" "dropWhile (\<lambda>c. c \<notin> set d) w = []"
    using assms(2) by (auto simp: takeWhile_eq_all_conv)
  with strtok_unfold [OF assms(1) dw] show ?thesis by simp
qed

text \<open>A joined list of words is taken apart again.\<close>

fun join :: "char \<Rightarrow> string list \<Rightarrow> string" where
  "join c [] = []"
| "join c [w] = w"
| "join c (w # ws) = w @ c # join c ws"

lemma strtok_join:
  "c \<in> set d \<Longrightarrow> \<forall>w \<in> set ws. w \<noteq> [] \<and> set w \<inter> set d = {} \<Longrightarrow> strtok d (join c ws) = ws"
  by (induction c ws rule: join.induct) (simp_all add: strtok_last strtok_word strtok_skip)

lemma set_join: "set (join c ws) \<subseteq> insert c (\<Union> (set ` set ws))"
  by (induction c ws rule: join.induct) auto

lemma join_not_Nil: "ws \<noteq> [] \<Longrightarrow> hd ws \<noteq> [] \<Longrightarrow> join c ws \<noteq> []"
  by (cases "(c, ws)" rule: join.cases) auto

section \<open>Conversions of typed numbers\<close>

lemma is_space_digit: "48 \<le> code c \<Longrightarrow> \<not> is_space c"
  by (auto simp: is_space_def)

lemma atoi_int: "INT_MIN \<le> str_atoi t \<Longrightarrow> str_atoi t \<le> INT_MAX \<Longrightarrow> atoi t = str_atoi t"
  by (simp add: atoi_def)

lemma atoi_range: "INT_MIN \<le> atoi t \<and> atoi t \<le> INT_MAX"
  by (auto simp: atoi_def INT_MIN_def INT_MAX_def)

end
