(* ===== verification/Sockets.thy ===== *)
theory Sockets
  imports SocketList AtCmd CLib
begin

text \<open>
  The socket commands and the receive task of \<open>projects/mac_atcmd/src/cli/atcmd_tcpip.c\<close> over
  the tables of \<open>SocketList\<close>.

  The console task runs one AT command at a time; \<open>recv_task\<close> waits in \<open>select\<close> and works through
  the two tables when it returns. A state transition is one command, one part of a command
  between its waits (\<open>OS_MsDelay\<close>, the polling of \<open>chk_socket_task\<close>), or one part of the task
  between two returns to the start of its loop or to \<open>select\<close>. What lwip and the operating
  system answer (\<open>socket\<close>, \<open>connect\<close>, \<open>bind\<close>, \<open>listen\<close>, \<open>accept\<close>, \<open>recv\<close>, \<open>send\<close>, \<open>malloc\<close>,
  \<open>OS_TaskCreate\<close>) are arguments. The descriptors given to \<open>close\<close> are collected in \<open>closed\<close>.
\<close>

definition ERROR_TCP_CONNECTION :: int where "ERROR_TCP_CONNECTION = - 8"
definition ERROR_UDP_CONNECTION :: int where "ERROR_UDP_CONNECTION = - 9"

section \<open>The receive task\<close>

text \<open>\<open>list_q_remove\<close>, \<open>close\<close> and \<open>free\<close> of one entry.\<close>

definition drop_item :: "ptr \<Rightarrow> ptr \<Rightarrow> socks \<Rightarrow> socks option" where
  "drop_item qhd it s = do {
     k \<leftarrow> get_socket s it;
     s \<leftarrow> list_q_remove qhd it s;
     c_free it (s\<lparr>closed := closed s @ [k]\<rparr>) }"

text \<open>\<open>select\<close> timed out: close what the commands have marked.\<close>

partial_function (option) expire_loop :: "ptr \<Rightarrow> socks \<Rightarrow> ptr \<Rightarrow> socks option" where
  [code]: "expire_loop qhd s it =
     (if it = qhd then Some s
      else do {
        nx \<leftarrow> get_next s it;
        k \<leftarrow> get_socket s it;
        b \<leftarrow> FD_ISSET k (g_clr_set s);
        s \<leftarrow> (if b then drop_item qhd it s else Some s);
        expire_loop qhd s nx })"

definition flush_item :: "ptr \<Rightarrow> ptr option \<Rightarrow> socks \<Rightarrow> socks option" where
  "flush_item qhd closeitem s = (case closeitem of None \<Rightarrow> Some s | Some it \<Rightarrow> drop_item qhd it s)"

text \<open>A ready listening socket: \<open>accept\<close> gives the new descriptor (or \<open>-1\<close>); the second part of
  the answer is the block \<open>malloc\<close> returns.\<close>

definition accept_on :: "(int \<Rightarrow> int \<times> nat option) \<Rightarrow> int \<Rightarrow> socks \<Rightarrow> socks option" where
  "accept_on acc k s = (case acc k of (fork, addr) \<Rightarrow>
     if fork \<noteq> - 1 then do {
       (r, s) \<leftarrow> update_new_sd addr fork k s;
       if r = 0 then do { f \<leftarrow> FD_SET fork (g_r_set s); Some (s\<lparr>g_r_set := f\<rparr>) } else Some s }
     else Some s)"

text \<open>The loop over the listening sockets; an entry to be closed is removed in the next round.\<close>

partial_function (option) listen_loop ::
  "u8 list \<Rightarrow> (int \<Rightarrow> int \<times> nat option) \<Rightarrow> socks \<Rightarrow> ptr option \<Rightarrow> ptr \<Rightarrow> socks option" where
  [code]: "listen_loop r_set acc s closeitem it =
     (if it = Listen_head then flush_item Listen_head closeitem s
      else do {
        k \<leftarrow> get_socket s it;
        s \<leftarrow> flush_item Listen_head closeitem s;
        b \<leftarrow> FD_ISSET k (g_clr_set s);
        s \<leftarrow> (if b then Some s
              else do { r \<leftarrow> FD_ISSET k r_set; if r then accept_on acc k s else Some s });
        nx \<leftarrow> get_next s it;
        listen_loop r_set acc s (if b then Some it else None) nx })"

text \<open>\<open>recv\<close> until the answer is short, not positive, or there is no further answer (0). The
  connection is dead when the last answer is not positive and \<open>errno\<close> says so.\<close>

fun recv_all :: "int list \<Rightarrow> int" where
  "recv_all [] = 0"
| "recv_all (r # rs) = (if r > 0 then if r < 256 then r else recv_all rs else r)"

definition ENOTCONN :: int where "ENOTCONN = 107"
definition ECONNRESET :: int where "ECONNRESET = 104"
definition ECONNABORTED :: int where "ECONNABORTED = 103"

definition conn_dead :: "int list \<times> int \<Rightarrow> bool" where
  "conn_dead ans = (case ans of (lens, errno) \<Rightarrow>
     recv_all lens \<le> 0 \<and> (errno = ENOTCONN \<or> errno = ECONNRESET \<or> errno = ECONNABORTED))"

partial_function (option) normal_loop ::
  "u8 list \<Rightarrow> (int \<Rightarrow> int list \<times> int) \<Rightarrow> socks \<Rightarrow> ptr option \<Rightarrow> ptr \<Rightarrow> socks option" where
  [code]: "normal_loop r_set rcv s closeitem it =
     (if it = Normal_head then flush_item Normal_head closeitem s
      else do {
        k \<leftarrow> get_socket s it;
        s \<leftarrow> flush_item Normal_head closeitem s;
        b \<leftarrow> FD_ISSET k (g_clr_set s);
        (s, closeitem) \<leftarrow> (if b then Some (s, Some it)
          else do {
            r \<leftarrow> FD_ISSET k r_set;
            if r \<and> conn_dead (rcv k) then do {
              f \<leftarrow> FD_CLR k (g_r_set s); Some (s\<lparr>g_r_set := f\<rparr>, Some it) }
            else Some (s, None) });
        nx \<leftarrow> get_next s it;
        normal_loop r_set rcv s closeitem nx })"

text \<open>The end of the task.\<close>

partial_function (option) drain :: "ptr \<Rightarrow> socks \<Rightarrow> socks option" where
  [code]: "drain qhd s =
     (if qlen_of s qhd = 0 then Some s
      else do {
        it \<leftarrow> get_next s qhd;
        s \<leftarrow> list_q_remove qhd it s;
        k \<leftarrow> get_socket s it;
        s \<leftarrow> c_free it (s\<lparr>closed := closed s @ [k]\<rparr>);
        drain qhd s })"

definition terminate :: "socks \<Rightarrow> socks option" where
  "terminate s = do {
     s \<leftarrow> drain Normal_head s;
     s \<leftarrow> drain Listen_head s;
     Some (s\<lparr>g_r_set := fd_zero, recv_task_st := TASK_ST_Term, recv_task_inst := False,
             task_pc := No_task\<rparr>) }"

definition task_start :: "socks \<Rightarrow> socks option" where
  "task_start s = Some (s\<lparr>recv_task_st := TASK_ST_Running, task_pc := Top\<rparr>)"

text \<open>The loop condition and the part before \<open>select\<close>.\<close>

definition task_top :: "socks \<Rightarrow> socks option" where
  "task_top s =
     (if recv_task_st s = TASK_ST_Running then do {
        s \<leftarrow> update_max_sd (s\<lparr>g_clr_set := fd_zero\<rparr>);
        Some (s\<lparr>task_pc := Selecting (max_sd s + 1) (g_r_set s)\<rparr>) }
      else terminate s)"

definition task_timeout :: "socks \<Rightarrow> socks option" where
  "task_timeout s = do {
     s \<leftarrow> (if g_clr_set s \<noteq> fd_zero then do {
             it \<leftarrow> get_next s Listen_head;
             s \<leftarrow> expire_loop Listen_head s it;
             it \<leftarrow> get_next s Normal_head;
             expire_loop Normal_head s it }
           else Some s);
     if recv_task_st s \<noteq> TASK_ST_Running then terminate s else Some (s\<lparr>task_pc := Top\<rparr>) }"

definition task_ready ::
  "u8 list \<Rightarrow> (int \<Rightarrow> int \<times> nat option) \<Rightarrow> (int \<Rightarrow> int list \<times> int) \<Rightarrow> socks \<Rightarrow> socks option" where
  "task_ready r_set acc rcv s = do {
     it \<leftarrow> get_next s Listen_head;
     s \<leftarrow> listen_loop r_set acc s None it;
     it \<leftarrow> get_next s Normal_head;
     s \<leftarrow> normal_loop r_set rcv s None it;
     Some (s\<lparr>task_pc := Top\<rparr>) }"

text \<open>\<open>chk_socket_task\<close>: when no descriptor is left it asks the task to stop and polls until it
  has; \<open>chk_poll\<close> is one round of the polling.\<close>

definition chk_socket_task :: "socks \<Rightarrow> socks option" where
  "chk_socket_task s =
     (if g_r_set s = fd_zero
      then Some ((if recv_task_st s = TASK_ST_Running then s\<lparr>recv_task_st := TASK_ST_Stop\<rparr> else s)
                   \<lparr>cmd_pc := Waiting_term\<rparr>)
      else Some (s\<lparr>cmd_pc := Ready\<rparr>))"

definition chk_poll :: "socks \<Rightarrow> socks option" where
  "chk_poll s =
     (if recv_task_st s = TASK_ST_Term then Some (s\<lparr>recv_task_st := TASK_ST_Stop, cmd_pc := Ready\<rparr>)
      else Some s)"

section \<open>The commands\<close>

text \<open>\<open>atoi\<close> of the C library, as \<open>str_atoi\<close> of \<open>CLib\<close>: numbers outside \<open>int\<close> are not
  distinguished. The conversion to \<open>u16\<close> takes the residue.\<close>

definition port_arg :: "string \<Rightarrow> int" where
  "port_arg t = str_atoi t mod 65536"

text \<open>What the socket interface and the system answer to one command.\<close>

record api =
  ap_socket :: int
  ap_connect :: bool
  ap_bind :: bool
  ap_listen :: bool
  ap_malloc :: "nat option"
  ap_task :: bool
  ap_send :: int

definition close_sd :: "int \<Rightarrow> socks \<Rightarrow> socks" where
  "close_sd k s = s\<lparr>closed := closed s @ [k]\<rparr>"

definition init_lists :: "socks \<Rightarrow> socks option" where
  "init_lists s =
     (if listhead_is_inited s then Some s
      else do {
        s \<leftarrow> list_q_init Listen_head s;
        s \<leftarrow> list_q_init Normal_head s;
        Some (s\<lparr>listhead_is_inited := True\<rparr>) })"

text \<open>The common end of the commands that open a socket: the table entry, the descriptor set
  and the task. The first components are the table's \<open>update_new\<close> and \<open>rm\<close> functions and the
  error code.\<close>

definition register_sd ::
  "(socks \<Rightarrow> (int \<times> socks) option) \<Rightarrow> (int \<Rightarrow> socks \<Rightarrow> (int \<times> socks) option) \<Rightarrow> int \<Rightarrow> int \<Rightarrow> api \<Rightarrow> socks
     \<Rightarrow> (int \<times> socks) option" where
  "register_sd upd rm err k api s = do {
     s \<leftarrow> init_lists s;
     (r, s) \<leftarrow> upd s;
     if r \<noteq> 0 then Some (err, close_sd k s)
     else do {
       f \<leftarrow> FD_SET k (g_r_set s);
       let s = s\<lparr>g_r_set := f\<rparr>;
       if \<not> recv_task_inst s \<and> \<not> ap_task api then do {
         f \<leftarrow> FD_CLR k (g_r_set s);
         (r, s) \<leftarrow> rm k (close_sd k (s\<lparr>g_r_set := f\<rparr>));
         Some (err, s) }
       else Some (ERROR_SUCCESS,
              if recv_task_inst s then s else s\<lparr>recv_task_inst := True, task_pc := Created\<rparr>) } }"

definition At_TCPConnect :: "string list \<Rightarrow> api \<Rightarrow> socks \<Rightarrow> (int \<times> socks) option" where
  "At_TCPConnect argv api s =
     (if length argv < 2 then Some (ERROR_INVALID_PARAMETER, s)
      else if port_arg (argv ! 1) = 0 then Some (ERROR_INVALID_PARAMETER, s)
      else let k = ap_socket api in
        if k < 0 then Some (ERROR_INVALID_PARAMETER, s)
        else if \<not> ap_connect api then Some (ERROR_INVALID_PARAMETER, close_sd k s)
        else register_sd (update_new_sd (ap_malloc api) k (- 1)) rm_sd ERROR_TCP_CONNECTION k api s)"

definition At_TCPListen :: "string list \<Rightarrow> api \<Rightarrow> socks \<Rightarrow> (int \<times> socks) option" where
  "At_TCPListen argv api s =
     (if length argv < 1 then Some (ERROR_INVALID_PARAMETER, s)
      else let listenport = port_arg (argv ! 0) in
        if listenport = 0 then Some (ERROR_INVALID_PARAMETER, s)
        else let conn = ap_socket api in
          if conn < 0 then Some (ERROR_TCP_CONNECTION, s)
          else if \<not> ap_bind api then Some (ERROR_TCP_CONNECTION, close_sd conn s)
          else if \<not> ap_listen api then Some (ERROR_TCP_CONNECTION, close_sd conn s)
          else register_sd (update_new_listen_sd (ap_malloc api) conn listenport) rm_listen_sd
                 ERROR_TCP_CONNECTION conn api s)"

definition At_UDPCreate :: "string list \<Rightarrow> api \<Rightarrow> socks \<Rightarrow> (int \<times> socks) option" where
  "At_UDPCreate argv api s =
     (if length argv < 1 then Some (ERROR_INVALID_PARAMETER, s)
      else if port_arg (argv ! 0) = 0 then Some (ERROR_INVALID_PARAMETER, s)
      else let k = ap_socket api in
        if k < 0 then Some (ERROR_INVALID_PARAMETER, s)
        else if \<not> ap_bind api then Some (ERROR_UDP_CONNECTION, close_sd k s)
        else register_sd (update_new_sd (ap_malloc api) k (- 1)) rm_sd ERROR_UDP_CONNECTION k api s)"

text \<open>\<open>At_TCPDisconnect\<close> and \<open>At_UDPClose\<close> up to the delay of two seconds.\<close>

definition close_command :: "string list \<Rightarrow> socks \<Rightarrow> (int \<times> socks) option" where
  "close_command argv s =
     (if length argv < 1 then Some (ERROR_INVALID_PARAMETER, s)
      else do {
        let conn = str_atoi (argv ! 0);
        b \<leftarrow> FD_ISSET conn (g_r_set s);
        if \<not> b then Some (ERROR_INVALID_PARAMETER, s)
        else do {
          f \<leftarrow> FD_CLR conn (g_r_set s);
          (r, s) \<leftarrow> mark_rm_sd conn (s\<lparr>g_r_set := f\<rparr>);
          Some (ERROR_SUCCESS, s\<lparr>cmd_pc := In_delay\<rparr>) } })"

definition At_TCPDisconnect :: "string list \<Rightarrow> socks \<Rightarrow> (int \<times> socks) option" where
  "At_TCPDisconnect = close_command"

definition At_UDPClose :: "string list \<Rightarrow> socks \<Rightarrow> (int \<times> socks) option" where
  "At_UDPClose = close_command"

definition At_TCPUnlisten :: "string list \<Rightarrow> socks \<Rightarrow> (int \<times> socks) option" where
  "At_TCPUnlisten argv s =
     (if length argv < 1 then Some (ERROR_INVALID_PARAMETER, s)
      else let listenport = port_arg (argv ! 0) in
        if listenport = 0 then Some (ERROR_INVALID_PARAMETER, s)
        else do {
          (k, s) \<leftarrow> mark_rm_listen_sd_by_port listenport s;
          if k = - 1 then Some (ERROR_INVALID_PARAMETER, s)
          else do {
            f \<leftarrow> FD_CLR k (g_r_set s);
            Some (ERROR_SUCCESS, s\<lparr>g_r_set := f, cmd_pc := In_delay\<rparr>) } })"

definition At_TCPSend :: "string list \<Rightarrow> api \<Rightarrow> socks \<Rightarrow> (int \<times> socks) option" where
  "At_TCPSend argv api s =
     (if length argv < 2 then Some (ERROR_INVALID_PARAMETER, s)
      else do {
        b \<leftarrow> FD_ISSET (str_atoi (argv ! 0)) (g_r_set s);
        Some (if \<not> b then ERROR_INVALID_PARAMETER
              else if ap_send api > 0 then ERROR_SUCCESS else ERROR_TCP_CONNECTION, s) })"

definition At_UDPSend :: "string list \<Rightarrow> api \<Rightarrow> socks \<Rightarrow> (int \<times> socks) option" where
  "At_UDPSend argv api s =
     (if length argv < 4 then Some (ERROR_INVALID_PARAMETER, s)
      else do {
        b \<leftarrow> FD_ISSET (str_atoi (argv ! 0)) (g_r_set s);
        Some (if \<not> b then ERROR_INVALID_PARAMETER
              else if ap_send api < 0 then ERROR_UDP_CONNECTION else ERROR_SUCCESS, s) })"

section \<open>Runs of the system\<close>

datatype event =
    Connect "string list" api | Listen "string list" api | Udp_create "string list" api
  | Disconnect "string list" | Udp_close "string list" | Unlisten "string list"
  | Tcp_send "string list" api | Udp_send "string list" api
  | Delay_over | Poll
  | Start | Loop_top | Select_error | Timeout
  | Ready_sds "u8 list" "int \<Rightarrow> int \<times> nat option" "int \<Rightarrow> int list \<times> int"

fun sock_step :: "event \<Rightarrow> socks \<Rightarrow> socks option" where
  "sock_step (Connect argv api) s = map_option snd (At_TCPConnect argv api s)"
| "sock_step (Listen argv api) s = map_option snd (At_TCPListen argv api s)"
| "sock_step (Udp_create argv api) s = map_option snd (At_UDPCreate argv api s)"
| "sock_step (Disconnect argv) s = map_option snd (At_TCPDisconnect argv s)"
| "sock_step (Udp_close argv) s = map_option snd (At_UDPClose argv s)"
| "sock_step (Unlisten argv) s = map_option snd (At_TCPUnlisten argv s)"
| "sock_step (Tcp_send argv api) s = map_option snd (At_TCPSend argv api s)"
| "sock_step (Udp_send argv api) s = map_option snd (At_UDPSend argv api s)"
| "sock_step Delay_over s = chk_socket_task s"
| "sock_step Poll s = chk_poll s"
| "sock_step Start s = task_start s"
| "sock_step Loop_top s = task_top s"
| "sock_step Select_error s = terminate s"
| "sock_step Timeout s = task_timeout s"
| "sock_step (Ready_sds r acc rcv) s = task_ready r acc rcv s"

fun sock_run :: "event list \<Rightarrow> socks \<Rightarrow> socks option" where
  "sock_run [] s = Some s"
| "sock_run (e # es) s = do { s \<leftarrow> sock_step e s; sock_run es s }"

text \<open>Start-up: zeroed globals, of the memory behind the two heads nothing is known.\<close>

definition sock_boot :: "(ptr \<Rightarrow> int) \<Rightarrow> (ptr \<Rightarrow> int) \<Rightarrow> socks" where
  "sock_boot behind behind2 = \<lparr>next_of = (\<lambda>_. Null), prev_of = (\<lambda>_. Null), qlen_of = (\<lambda>_. 0),
     socket_of = behind, info_of = behind2, live = (\<lambda>_. False), listhead_is_inited = False,
     g_r_set = fd_zero, g_clr_set = fd_zero, max_sd = - 1, recv_task_st = TASK_ST_Stop,
     recv_task_inst = False, closed = [], task_pc = No_task, cmd_pc = Ready\<rparr>"

definition listed :: "socks \<Rightarrow> int list" where
  "listed s = map fst (entries s Listen_head) @ map fst (entries s Normal_head)"

text \<open>
  What is assumed of the environment: the stages of commands and task are taken in order;
  \<open>socket\<close> gives a descriptor below \<open>FD_SETSIZE\<close> that is not in use and \<open>malloc\<close> a free block,
  likewise all \<open>accept\<close> answers of one pass; a descriptor the user types is above \<open>-8\<close> and
  below 8 (anything else is looked up outside the descriptor set); the halfword behind the head
  of the listening table is not the port to be removed; the task has started when a command's
  delay of two seconds is over.
\<close>

definition fresh_answer :: "socks \<Rightarrow> int set \<Rightarrow> int \<times> nat option \<Rightarrow> bool" where
  "fresh_answer s used ans \<longleftrightarrow> (case ans of (f, a) \<Rightarrow>
     sd_ok f \<and> f \<notin> used \<and> (case a of None \<Rightarrow> True | Some b \<Rightarrow> \<not> live s b))"

definition api_ok :: "socks \<Rightarrow> api \<Rightarrow> bool" where
  "api_ok s api \<longleftrightarrow> ap_socket api < 0 \<or> fresh_answer s (set (listed s)) (ap_socket api, ap_malloc api)"

definition answers :: "(int \<Rightarrow> int \<times> nat option) \<Rightarrow> int list \<Rightarrow> (int \<times> nat option) list" where
  "answers acc ks = filter (\<lambda>ans. fst ans \<noteq> - 1) (map acc ks)"

definition blocks :: "(int \<times> nat option) list \<Rightarrow> nat list" where
  "blocks as = concat (map (\<lambda>ans. case snd ans of None \<Rightarrow> [] | Some b \<Rightarrow> [b]) as)"

definition accepts_ok :: "socks \<Rightarrow> int set \<Rightarrow> (int \<Rightarrow> int \<times> nat option) \<Rightarrow> int list \<Rightarrow> bool" where
  "accepts_ok s used acc ks \<longleftrightarrow> distinct (map fst (answers acc ks)) \<and> distinct (blocks (answers acc ks))
     \<and> list_all (fresh_answer s used) (answers acc ks)"

definition sd_arg_ok :: "string list \<Rightarrow> bool" where
  "sd_arg_ok argv \<longleftrightarrow> (case argv of [] \<Rightarrow> True | t # _ \<Rightarrow> - 8 < str_atoi t \<and> str_atoi t < 8)"

definition selecting :: "socks \<Rightarrow> bool" where
  "selecting s \<longleftrightarrow> (case task_pc s of Selecting _ _ \<Rightarrow> True | _ \<Rightarrow> False)"

fun sock_enabled :: "event \<Rightarrow> socks \<Rightarrow> bool" where
  "sock_enabled (Connect argv api) s \<longleftrightarrow> cmd_pc s = Ready \<and> api_ok s api"
| "sock_enabled (Listen argv api) s \<longleftrightarrow> cmd_pc s = Ready \<and> api_ok s api"
| "sock_enabled (Udp_create argv api) s \<longleftrightarrow> cmd_pc s = Ready \<and> api_ok s api"
| "sock_enabled (Disconnect argv) s \<longleftrightarrow> cmd_pc s = Ready \<and> sd_arg_ok argv"
| "sock_enabled (Udp_close argv) s \<longleftrightarrow> cmd_pc s = Ready \<and> sd_arg_ok argv"
| "sock_enabled (Unlisten argv) s \<longleftrightarrow> cmd_pc s = Ready
     \<and> (argv = [] \<or> info_of s Listen_head \<noteq> port_arg (hd argv))"
| "sock_enabled (Tcp_send argv api) s \<longleftrightarrow> cmd_pc s = Ready \<and> sd_arg_ok argv"
| "sock_enabled (Udp_send argv api) s \<longleftrightarrow> cmd_pc s = Ready \<and> sd_arg_ok argv"
| "sock_enabled Delay_over s \<longleftrightarrow> cmd_pc s = In_delay \<and> task_pc s \<noteq> Created"
| "sock_enabled Poll s \<longleftrightarrow> cmd_pc s = Waiting_term"
| "sock_enabled Start s \<longleftrightarrow> task_pc s = Created"
| "sock_enabled Loop_top s \<longleftrightarrow> task_pc s = Top"
| "sock_enabled Select_error s \<longleftrightarrow> selecting s"
| "sock_enabled Timeout s \<longleftrightarrow> selecting s"
| "sock_enabled (Ready_sds r acc rcv) s \<longleftrightarrow> selecting s \<and> length r = length fd_zero
     \<and> accepts_ok s (set (listed s)) acc (map fst (entries s Listen_head))"

fun sock_runnable :: "event list \<Rightarrow> socks \<Rightarrow> bool" where
  "sock_runnable [] s \<longleftrightarrow> True"
| "sock_runnable (e # es) s \<longleftrightarrow> sock_enabled e s
     \<and> (case sock_step e s of None \<Rightarrow> True | Some t \<Rightarrow> sock_runnable es t)"

section \<open>Passes over the tables\<close>

text \<open>What a pass leaves alone; \<open>cs\<close> are the descriptors it closes.\<close>

definition closing :: "socks \<Rightarrow> socks \<Rightarrow> int list \<Rightarrow> bool" where
  "closing s t cs \<longleftrightarrow> frame s (t\<lparr>closed := closed s\<rparr>) \<and> closed t = closed s @ cs"

lemma closing_refl [simp]: "closing s s []"
  by (simp add: closing_def)

lemma closing_trans: "closing s t cs \<Longrightarrow> closing t u ds \<Longrightarrow> closing s u (cs @ ds)"
  by (auto simp: closing_def frame_def)

lemma closing_fields:
  "closing s t cs \<Longrightarrow> g_clr_set t = g_clr_set s \<and> g_r_set t = g_r_set s
     \<and> listhead_is_inited t = listhead_is_inited s \<and> max_sd t = max_sd s
     \<and> recv_task_st t = recv_task_st s \<and> recv_task_inst t = recv_task_inst s
     \<and> task_pc t = task_pc s \<and> cmd_pc t = cmd_pc s \<and> closed t = closed s @ cs"
  by (simp add: closing_def frame_def)

lemma tables_next:
  assumes t: "tables s qhd (pre @ x # r) ys"
  shows "get_next s x = Some (hd (r @ [qhd])) \<and> get_socket s x = Some (socket_of s x) \<and> x \<noteq> qhd"
proof -
  have "dll s qhd ((pre @ [x]) @ r)" "is_head qhd" using t by (auto simp: tables_def)
  from dll_ends(1) [OF this] show ?thesis
    using tables_valid(1) [OF t, of x] tables_valid(3) [OF t] by (auto simp: get_next_def get_socket_def)
qed

lemma tables_first: "tables s qhd xs ys \<Longrightarrow> get_next s qhd = Some (hd (xs @ [qhd]))"
  using dll_ends(1) [of s qhd "[]" xs] by (auto simp: tables_def get_next_def)

lemma drop_item_tables:
  assumes t: "tables s qhd (us @ x # vs) ys"
  shows "\<exists>s'. drop_item qhd x s = Some s' \<and> tables s' qhd (us @ vs) ys \<and> entry s' = entry s
     \<and> closing s s' [socket_of s x]"
proof -
  obtain s1 s' where s': "list_q_remove qhd x s = Some s1" "frame s s1"
    "\<forall>c. c_free x (s1\<lparr>closed := c\<rparr>) = Some (s'\<lparr>closed := c\<rparr>)"
    "tables s' qhd (us @ vs) ys" "frame s s'" "entry s' = entry s"
    using list_q_remove_tables [OF t] by auto
  let ?t = "s'\<lparr>closed := closed s @ [socket_of s x]\<rparr>"
  have "closed s1 = closed s" using s'(2) by (simp add: frame_def)
  then have "drop_item qhd x s = Some ?t"
    using s'(1,3) tables_next [OF t] by (simp add: drop_item_def)
  moreover have "closing s ?t [socket_of s x]" using s'(5) by (simp add: closing_def frame_def)
  ultimately show ?thesis using s'(4,6) by auto
qed

lemma entry_socket: "entry s = entry t \<Longrightarrow> socket_of s = socket_of t"
  by (metis entry_def ext prod.inject)

lemma expire_loop_tables:
  assumes "tables s qhd (pre @ rest) ys" "fd_ok (g_clr_set s)"
    "\<And>x. x \<in> set rest \<Longrightarrow> sd_ok (socket_of s x)"
  shows "\<exists>s'. expire_loop qhd s (hd (rest @ [qhd])) = Some s' \<and> entry s' = entry s
     \<and> tables s' qhd (pre @ filter (\<lambda>x. \<not> fd_has (g_clr_set s) (socket_of s x)) rest) ys
     \<and> closing s s' (map (socket_of s) (filter (\<lambda>x. fd_has (g_clr_set s) (socket_of s x)) rest))"
  using assms
proof (induction rest arbitrary: pre s)
  case Nil
  then show ?case by (auto simp: expire_loop.simps)
next
  case (Cons x rest)
  note tn = tables_next [OF Cons.prems(1)]
  have ok: "sd_ok (socket_of s x)" using Cons.prems(3) by simp
  note isset = FD_ISSET_has [OF Cons.prems(2) ok]
  show ?case
  proof (cases "fd_has (g_clr_set s) (socket_of s x)")
    case True
    obtain s1 where s1: "drop_item qhd x s = Some s1" "tables s1 qhd (pre @ rest) ys"
      "entry s1 = entry s" "closing s s1 [socket_of s x]"
      using drop_item_tables [OF Cons.prems(1)] by auto
    note same = entry_socket [OF s1(3)] closing_fields [OF s1(4)]
    obtain s' where s': "expire_loop qhd s1 (hd (rest @ [qhd])) = Some s'" "entry s' = entry s1"
      "tables s' qhd (pre @ filter (\<lambda>x. \<not> fd_has (g_clr_set s) (socket_of s x)) rest) ys"
      "closing s1 s' (map (socket_of s) (filter (\<lambda>x. fd_has (g_clr_set s) (socket_of s x)) rest))"
      using Cons.IH [OF s1(2)] Cons.prems same by auto
    show ?thesis
      using s' s1 tn isset True closing_trans [OF s1(4) s'(4)] by (simp add: expire_loop.simps [of _ _ x])
  next
    case False
    obtain s' where s': "expire_loop qhd s (hd (rest @ [qhd])) = Some s'" "entry s' = entry s"
      "tables s' qhd ((pre @ [x]) @ filter (\<lambda>x. \<not> fd_has (g_clr_set s) (socket_of s x)) rest) ys"
      "closing s s' (map (socket_of s) (filter (\<lambda>x. fd_has (g_clr_set s) (socket_of s x)) rest))"
      using Cons.IH [of s "pre @ [x]"] Cons.prems by auto
    show ?thesis
      using s' tn isset False by (simp add: expire_loop.simps [of _ _ x])
  qed
qed

lemma drain_tables:
  assumes "tables s qhd xs ys"
  shows "\<exists>s'. drain qhd s = Some s' \<and> tables s' qhd [] ys \<and> entry s' = entry s
     \<and> closing s s' (map (socket_of s) xs)"
  using assms
proof (induction xs arbitrary: s)
  case Nil
  then show ?case using tables_qlen [OF Nil] by (auto simp: drain.simps)
next
  case (Cons x xs)
  have t: "tables s qhd ([] @ x # xs) ys" using Cons.prems by simp
  obtain s1 s' where s': "list_q_remove qhd x s = Some s1" "frame s s1" "socket_of s1 = socket_of s"
    "valid_ptr s1 = valid_ptr s" "\<forall>c. c_free x (s1\<lparr>closed := c\<rparr>) = Some (s'\<lparr>closed := c\<rparr>)"
    "tables s' qhd xs ys" "frame s s'" "entry s' = entry s"
    using list_q_remove_tables [OF t] by auto
  let ?t = "s'\<lparr>closed := closed s @ [socket_of s x]\<rparr>"
  have "closed s1 = closed s" using s'(2) by (simp add: frame_def)
  moreover have "get_socket s1 x = Some (socket_of s x)"
    using s'(3,4) tables_valid(1) [OF t, of x] by (simp add: get_socket_def)
  ultimately have "drain qhd s = drain qhd ?t"
    using s'(1,5) tables_first [OF t] tables_qlen [OF t] by (subst drain.simps) simp
  moreover have "closing s ?t [socket_of s x]" using s'(7) by (simp add: closing_def frame_def)
  moreover have "tables ?t qhd xs ys" "entry ?t = entry s" using s'(6,8) by auto
  ultimately show ?case
    using Cons.IH [of ?t] entry_socket [of ?t s] closing_trans [of s ?t "[socket_of s x]"] by auto
qed

subsection \<open>The pass over the connections\<close>

definition dead_sd :: "u8 list \<Rightarrow> u8 list \<Rightarrow> (int \<Rightarrow> int list \<times> int) \<Rightarrow> int \<Rightarrow> bool" where
  "dead_sd clr r rcv k \<longleftrightarrow> \<not> fd_has clr k \<and> fd_has r k \<and> conn_dead (rcv k)"

definition gone_sd :: "u8 list \<Rightarrow> u8 list \<Rightarrow> (int \<Rightarrow> int list \<times> int) \<Rightarrow> int \<Rightarrow> bool" where
  "gone_sd clr r rcv k \<longleftrightarrow> fd_has clr k \<or> dead_sd clr r rcv k"

definition pending :: "ptr option \<Rightarrow> ptr list" where
  "pending c = (case c of None \<Rightarrow> [] | Some p \<Rightarrow> [p])"

lemma pending_simps [simp]: "pending None = []" "pending (Some p) = [p]"
  by (simp_all add: pending_def)

lemma flush_item_tables:
  assumes "tables s qhd (pre @ pending c @ rest) ys"
  shows "\<exists>s'. flush_item qhd c s = Some s' \<and> tables s' qhd (pre @ rest) ys \<and> entry s' = entry s
     \<and> closing s s' (map (socket_of s) (pending c))"
  using assms drop_item_tables [of s qhd pre _ rest ys]
  by (cases c) (auto simp: flush_item_def)

definition passing :: "socks \<Rightarrow> socks \<Rightarrow> int list \<Rightarrow> bool" where
  "passing s t cs \<longleftrightarrow> closing s (t\<lparr>g_r_set := g_r_set s\<rparr>) cs"

lemma passing_trans: "passing s t cs \<Longrightarrow> passing t u ds \<Longrightarrow> passing s u (cs @ ds)"
  by (auto simp: passing_def closing_def frame_def)

lemma passing_fields:
  "passing s t cs \<Longrightarrow> g_clr_set t = g_clr_set s
     \<and> listhead_is_inited t = listhead_is_inited s \<and> max_sd t = max_sd s
     \<and> recv_task_st t = recv_task_st s \<and> recv_task_inst t = recv_task_inst s
     \<and> task_pc t = task_pc s \<and> cmd_pc t = cmd_pc s \<and> closed t = closed s @ cs
     \<and> socket_of t Normal_head = socket_of s Normal_head \<and> info_of t Listen_head = info_of s Listen_head
     \<and> socket_of t Listen_head = socket_of s Listen_head \<and> info_of t Normal_head = info_of s Normal_head"
  by (simp add: passing_def closing_def frame_def)

lemma closing_passing: "closing s t cs \<Longrightarrow> passing s (t\<lparr>g_r_set := f\<rparr>) cs"
  by (simp add: passing_def closing_def frame_def)

lemma closing_passing': "closing s t cs \<Longrightarrow> passing s t cs"
  by (simp add: passing_def closing_def frame_def)

text \<open>One round, then all of them.\<close>

lemma normal_round:
  assumes t: "tables s Normal_head (pre @ pending c @ x # rest) ys"
    and fd: "fd_ok (g_clr_set s)" "fd_ok (g_r_set s)" "fd_ok r" and ok: "sd_ok (socket_of s x)"
  shows "\<exists>s1 c'. normal_loop r rcv s c x = normal_loop r rcv s1 c' (hd (rest @ [Normal_head]))
     \<and> pending c' = (if gone_sd (g_clr_set s) r rcv (socket_of s x) then [x] else [])
     \<and> tables s1 Normal_head (pre @ x # rest) ys \<and> entry s1 = entry s
     \<and> passing s s1 (map (socket_of s) (pending c)) \<and> fd_ok (g_r_set s1)
     \<and> (\<forall>m. sd_ok m \<longrightarrow> fd_has (g_r_set s1) m = (fd_has (g_r_set s) m
            \<and> (socket_of s x = m \<longrightarrow> \<not> dead_sd (g_clr_set s) r rcv m)))"
proof -
  let ?k = "socket_of s x"
  have sx: "get_socket s x = Some ?k" "x \<noteq> Normal_head"
    using tables_next [of s Normal_head "pre @ pending c" x rest ys] t by auto
  obtain s1 where s1: "flush_item Normal_head c s = Some s1" "tables s1 Normal_head (pre @ x # rest) ys"
    "entry s1 = entry s" "closing s s1 (map (socket_of s) (pending c))"
    using flush_item_tables [OF t] by auto
  note cf = closing_fields [OF s1(4)]
  have isset: "FD_ISSET ?k (g_clr_set s) = Some (fd_has (g_clr_set s) ?k)"
    "FD_ISSET ?k r = Some (fd_has r ?k)"
    using FD_ISSET_has ok fd by auto
  obtain f where f: "FD_CLR ?k (g_r_set s) = Some f" "fd_ok f"
    "\<forall>m. sd_ok m \<longrightarrow> fd_has f m = (m \<noteq> ?k \<and> fd_has (g_r_set s) m)"
    using FD_CLR_has [OF fd(2) ok] by blast
  have nx: "get_next s1 x = Some (hd (rest @ [Normal_head]))" using tables_next [OF s1(2)] by simp
  then have nx': "get_next (s1\<lparr>g_r_set := f\<rparr>) x = Some (hd (rest @ [Normal_head]))"
    by (simp add: get_next_def split: if_splits)
  have step: "normal_loop r rcv s c x = (do {
      (s, closeitem) \<leftarrow> (if fd_has (g_clr_set s) ?k then Some (s1, Some x)
          else if fd_has r ?k \<and> conn_dead (rcv ?k) then Some (s1\<lparr>g_r_set := f\<rparr>, Some x)
            else Some (s1, None));
      nx \<leftarrow> get_next s x;
      normal_loop r rcv s closeitem nx })"
    using sx s1(1) cf isset f(1) by (subst normal_loop.simps) simp
  consider (marked) "fd_has (g_clr_set s) ?k"
    | (dead) "dead_sd (g_clr_set s) r rcv ?k" "\<not> fd_has (g_clr_set s) ?k" "fd_has r ?k \<and> conn_dead (rcv ?k)"
    | (keep) "\<not> fd_has (g_clr_set s) ?k" "\<not> (fd_has r ?k \<and> conn_dead (rcv ?k))"
    unfolding dead_sd_def by blast
  then show ?thesis
  proof cases
    case marked
    then show ?thesis using step nx s1 cf fd closing_passing' [OF s1(4)]
      by (intro exI [of _ s1] exI [of _ "Some x"]) (auto simp: gone_sd_def dead_sd_def)
  next
    case dead
    then show ?thesis using step nx' s1 f closing_passing [OF s1(4), of f]
      by (intro exI [of _ "s1\<lparr>g_r_set := f\<rparr>"] exI [of _ "Some x"]) (auto simp: gone_sd_def)
  next
    case keep
    then show ?thesis using step nx s1 cf fd closing_passing' [OF s1(4)]
      by (intro exI [of _ s1] exI [of _ "None :: ptr option"])
         (auto simp: gone_sd_def dead_sd_def simp del: de_Morgan_conj)
  qed
qed

lemma normal_loop_tables:
  assumes "tables s Normal_head (pre @ pending c @ rest) ys"
    "fd_ok (g_clr_set s)" "fd_ok (g_r_set s)" "fd_ok r"
    "\<And>x. x \<in> set rest \<Longrightarrow> sd_ok (socket_of s x)"
  shows "\<exists>s'. normal_loop r rcv s c (hd (rest @ [Normal_head])) = Some s' \<and> entry s' = entry s
     \<and> tables s' Normal_head (pre @ filter (\<lambda>x. \<not> gone_sd (g_clr_set s) r rcv (socket_of s x)) rest) ys
     \<and> passing s s' (map (socket_of s) (pending c @ filter (\<lambda>x. gone_sd (g_clr_set s) r rcv (socket_of s x)) rest))
     \<and> fd_ok (g_r_set s')
     \<and> (\<forall>m. sd_ok m \<longrightarrow> fd_has (g_r_set s') m = (fd_has (g_r_set s) m
            \<and> (\<forall>x\<in>set rest. socket_of s x = m \<longrightarrow> \<not> dead_sd (g_clr_set s) r rcv m)))"
  using assms
proof (induction rest arbitrary: pre c s)
  case Nil
  obtain s' where "flush_item Normal_head c s = Some s'" "tables s' Normal_head pre ys"
    "entry s' = entry s" "closing s s' (map (socket_of s) (pending c))"
    using flush_item_tables [OF Nil.prems(1)] by auto
  then show ?case using Nil.prems closing_fields [of s s'] by (auto simp: normal_loop.simps closing_passing')
next
  case (Cons x rest)
  let ?gone = "\<lambda>x. gone_sd (g_clr_set s) r rcv (socket_of s x)"
  obtain s1 c' where s1: "normal_loop r rcv s c x = normal_loop r rcv s1 c' (hd (rest @ [Normal_head]))"
    "pending c' = (if ?gone x then [x] else [])"
    "tables s1 Normal_head (pre @ x # rest) ys" "entry s1 = entry s"
    "passing s s1 (map (socket_of s) (pending c))" "fd_ok (g_r_set s1)"
    "\<forall>m. sd_ok m \<longrightarrow> fd_has (g_r_set s1) m = (fd_has (g_r_set s) m
            \<and> (socket_of s x = m \<longrightarrow> \<not> dead_sd (g_clr_set s) r rcv m))"
    using normal_round [OF Cons.prems(1-4), of rcv] Cons.prems(5) by auto
  note so = entry_socket [OF s1(4)] and cf = passing_fields [OF s1(5)]
  have "tables s1 Normal_head ((if ?gone x then pre else pre @ [x]) @ pending c' @ rest) ys"
    using s1(2,3) by simp
  then obtain s' where s': "normal_loop r rcv s1 c' (hd (rest @ [Normal_head])) = Some s'" "entry s' = entry s1"
    "tables s' Normal_head ((if ?gone x then pre else pre @ [x]) @ filter (\<lambda>x. \<not> ?gone x) rest) ys"
    "passing s1 s' (map (socket_of s) (pending c' @ filter ?gone rest))" "fd_ok (g_r_set s')"
    "\<forall>m. sd_ok m \<longrightarrow> fd_has (g_r_set s') m = (fd_has (g_r_set s1) m
            \<and> (\<forall>x\<in>set rest. socket_of s x = m \<longrightarrow> \<not> dead_sd (g_clr_set s) r rcv m))"
    using Cons.IH [of s1 "if ?gone x then pre else pre @ [x]" c'] Cons.prems s1(6) so cf by auto
  have "passing s s' (map (socket_of s) (pending c @ filter ?gone (x # rest)))"
    using passing_trans [OF s1(5) s'(4)] s1(2) by (simp split: if_splits)
  moreover have "tables s' Normal_head (pre @ filter (\<lambda>x. \<not> ?gone x) (x # rest)) ys"
    using s'(3) by (simp split: if_splits)
  ultimately show ?case using s' s1(1,4,7) by auto
qed

subsection \<open>The pass over the listening sockets\<close>

text \<open>The invariant of the tables: descriptors in range, no two alike, and in order when the word
  behind the head is not a smaller number.\<close>

definition lists_ok :: "socks \<Rightarrow> ptr list \<Rightarrow> ptr list \<Rightarrow> bool" where
  "lists_ok s ls ns \<longleftrightarrow> tables s Listen_head ls ns \<and> distinct (map (socket_of s) (ls @ ns))
     \<and> (\<forall>x\<in>set (ls @ ns). sd_ok (socket_of s x))
     \<and> (8 \<le> socket_of s Listen_head \<longrightarrow> sorted (map (socket_of s) ls))
     \<and> (8 \<le> socket_of s Normal_head \<longrightarrow> sorted (map (socket_of s) ns))"

lemma lists_ok_tables: "lists_ok s ls ns \<Longrightarrow> tables s Listen_head ls ns \<and> tables s Normal_head ns ls"
  by (simp add: lists_ok_def tables_Normal)

lemma lists_ok_length:
  assumes "lists_ok s ls ns"
  shows "length ls + length ns \<le> 8"
proof -
  have "set (map (socket_of s) (ls @ ns)) \<subseteq> {0..<8}"
    using assms by (auto simp: lists_ok_def sd_ok_def)
  then have "card (set (map (socket_of s) (ls @ ns))) \<le> card {0..<8::int}"
    by (intro card_mono) auto
  moreover have "card (set (map (socket_of s) (ls @ ns))) = length (map (socket_of s) (ls @ ns))"
    using assms by (intro distinct_card) (simp add: lists_ok_def)
  ultimately show ?thesis by simp
qed

text \<open>The invariant speaks about the entries only.\<close>

definition entries_ok :: "(int \<times> int) list \<Rightarrow> (int \<times> int) list \<Rightarrow> bool" where
  "entries_ok es fs \<longleftrightarrow> distinct (map fst es @ map fst fs) \<and> (\<forall>k\<in>fst ` set es \<union> fst ` set fs. sd_ok k)"

lemma fst_entry [simp]: "fst (entry s x) = socket_of s x" "fst \<circ> entry s = socket_of s"
  by (auto simp: entry_def)

lemma lists_ok_entries:
  "lists_ok s ls ns \<longleftrightarrow> tables s Listen_head ls ns \<and> entries_ok (map (entry s) ls) (map (entry s) ns)
     \<and> (8 \<le> socket_of s Listen_head \<longrightarrow> sorted (map fst (map (entry s) ls)))
     \<and> (8 \<le> socket_of s Normal_head \<longrightarrow> sorted (map fst (map (entry s) ns)))"
  by (auto simp: lists_ok_def entries_ok_def image_image)

lemma mset_insert_entry: "mset (insert_entry b k i es) = add_mset (k, i) (mset es)"
proof (cases "\<forall>e\<in>set es. fst e < k")
  case True
  then show ?thesis by (simp add: insert_entry_end)
next
  case False
  then obtain x r where "dropWhile (\<lambda>e. fst e < k) es = x # r"
    by (cases "dropWhile (\<lambda>e. fst e < k) es") (auto simp del: dropWhile_eq_Cons_conv)
  then obtain lo where lo: "es = lo @ x # r" "\<forall>e\<in>set lo. fst e < k" "\<not> fst x < k"
    using dropWhile_split by fast
  show ?thesis
    unfolding lo(1) using insert_entry_mid [of lo k x b i r] lo(2,3) by simp
qed

lemma set_insert_entry: "set (insert_entry b k i es) = insert (k, i) (set es)"
  using mset_insert_entry [of b k i es] by (metis set_mset_add_mset_insert set_mset_mset)

lemma distinct_insert_entry:
  "distinct (map fst (insert_entry b k i es)) \<longleftrightarrow> distinct (map fst es) \<and> k \<notin> fst ` set es"
proof -
  have "mset (map fst (insert_entry b k i es)) = mset (k # map fst es)"
    using mset_insert_entry [of b k i es] by simp
  then have "distinct (map fst (insert_entry b k i es)) = distinct (k # map fst es)"
    by (rule mset_eq_imp_distinct_iff)
  then show ?thesis by auto
qed

lemma entries_ok_insert:
  "entries_ok es (insert_entry b k i fs) \<longleftrightarrow> entries_ok es fs \<and> sd_ok k \<and> k \<notin> fst ` set es \<union> fst ` set fs"
  "entries_ok (insert_entry b k i es) fs \<longleftrightarrow> entries_ok es fs \<and> sd_ok k \<and> k \<notin> fst ` set es \<union> fst ` set fs"
  using distinct_insert_entry [of b k i es] distinct_insert_entry [of b k i fs]
  by (auto simp: entries_ok_def set_insert_entry)

lemma sorted_insert_entry:
  assumes "sorted (map fst es)" "k < b"
  shows "sorted (map fst (insert_entry b k i es))"
proof (cases "\<forall>e\<in>set es. fst e < k")
  case True
  then show ?thesis using assms by (auto simp: insert_entry_end sorted_append)
next
  case False
  then obtain x r where "dropWhile (\<lambda>e. fst e < k) es = x # r"
    by (cases "dropWhile (\<lambda>e. fst e < k) es") (auto simp del: dropWhile_eq_Cons_conv)
  then obtain lo where lo: "es = lo @ x # r" "\<forall>e\<in>set lo. fst e < k" "\<not> fst x < k"
    using dropWhile_split by fast
  show ?thesis
    unfolding lo(1) using insert_entry_mid [of lo k x b i r] lo assms(1) by (auto simp: sorted_append)
qed

text \<open>A descriptor that is not in use is added to the table of connections or of listeners.\<close>

lemma insert_lists_ok:
  assumes l: "lists_ok s ls ns" and k: "sd_ok k" "k \<notin> socket_of s ` set (ls @ ns)" and a: "\<not> live s a"
  shows "\<exists>s' ns'. update_new_sd (Some a) k i s = Some (0, s') \<and> lists_ok s' ls ns' \<and> frame s s'
     \<and> (\<forall>b. live s' b \<longrightarrow> live s b \<or> b = a)
     \<and> map (entry s') ns' = insert_entry (socket_of s Normal_head) k i (map (entry s) ns)
     \<and> map (entry s') ls = map (entry s) ls"
    and "\<exists>s' ls'. update_new_listen_sd (Some a) k i s = Some (0, s') \<and> lists_ok s' ls' ns \<and> frame s s'
     \<and> (\<forall>b. live s' b \<longrightarrow> live s b \<or> b = a)
     \<and> map (entry s') ls' = insert_entry (socket_of s Listen_head) k i (map (entry s) ls)
     \<and> map (entry s') ns = map (entry s) ns"
proof -
  note t = lists_ok_tables [OF l] and len = lists_ok_length [OF l]
  have kk: "k \<notin> fst ` set (map (entry s) ls) \<union> fst ` set (map (entry s) ns)"
    using k(2) by (auto simp: image_image)
  obtain s' ns' where s': "update_new_sd (Some a) k i s = Some (0, s')" "tables s' Normal_head ns' ls" "frame s s'"
    "map (entry s') ns' = insert_entry (socket_of s Normal_head) k i (map (entry s) ns)"
    "map (entry s') ls = map (entry s) ls" "set ns' = insert (Node a) (set ns)"
    using insert_sd_refines [of s Normal_head ns ls a k i] t a len unfolding update_new_sd_def by auto
  have hw: "socket_of s' Listen_head = socket_of s Listen_head" "socket_of s' Normal_head = socket_of s Normal_head"
    using s'(3) by (simp_all add: frame_def)
  have "lists_ok s' ls ns'"
    using l k(1) kk s'(2) unfolding lists_ok_entries s'(4,5) hw
    by (auto simp: tables_Normal entries_ok_insert sd_ok_def intro!: sorted_insert_entry simp del: map_map)
  moreover have "live s' b \<longrightarrow> live s b \<or> b = a" for b using t s'(2,6) by (auto simp: tables_def)
  ultimately show "\<exists>s' ns'. update_new_sd (Some a) k i s = Some (0, s') \<and> lists_ok s' ls ns' \<and> frame s s'
     \<and> (\<forall>b. live s' b \<longrightarrow> live s b \<or> b = a)
     \<and> map (entry s') ns' = insert_entry (socket_of s Normal_head) k i (map (entry s) ns)
     \<and> map (entry s') ls = map (entry s) ls" using s' by blast
  obtain s' ls' where s': "update_new_listen_sd (Some a) k i s = Some (0, s')" "tables s' Listen_head ls' ns" "frame s s'"
    "map (entry s') ls' = insert_entry (socket_of s Listen_head) k i (map (entry s) ls)"
    "map (entry s') ns = map (entry s) ns" "set ls' = insert (Node a) (set ls)"
    using insert_sd_refines [of s Listen_head ls ns a k i] t a len unfolding update_new_listen_sd_def by auto
  have hw: "socket_of s' Listen_head = socket_of s Listen_head" "socket_of s' Normal_head = socket_of s Normal_head"
    using s'(3) by (simp_all add: frame_def)
  have "lists_ok s' ls' ns"
    using l k(1) kk s'(2) unfolding lists_ok_entries s'(4,5) hw
    by (auto simp: tables_Normal entries_ok_insert sd_ok_def intro!: sorted_insert_entry simp del: map_map)
  moreover have "live s' b \<longrightarrow> live s b \<or> b = a" for b using t s'(2,6) by (auto simp: tables_def)
  ultimately show "\<exists>s' ls'. update_new_listen_sd (Some a) k i s = Some (0, s') \<and> lists_ok s' ls' ns \<and> frame s s'
     \<and> (\<forall>b. live s' b \<longrightarrow> live s b \<or> b = a)
     \<and> map (entry s') ls' = insert_entry (socket_of s Listen_head) k i (map (entry s) ls)
     \<and> map (entry s') ns = map (entry s) ns" using s' by blast
qed

lemma update_new_NULL:
  "is_head qhd \<Longrightarrow> insert_sd qhd None k i s = Some (- 1, s)"
  by (simp add: insert_sd_def get_next_def)

lemma lists_ok_drop:
  assumes "lists_ok s (us @ x # vs) ns" "tables s' Listen_head (us @ vs) ns" "socket_of s' = socket_of s"
  shows "lists_ok s' (us @ vs) ns"
  using assms by (auto simp: lists_ok_def sorted_append)

lemma lists_ok_flush:
  assumes "lists_ok s (us @ pending c @ vs) ns" "tables s' Listen_head (us @ vs) ns" "socket_of s' = socket_of s"
  shows "lists_ok s' (us @ vs) ns"
proof (cases c)
  case None
  then show ?thesis using assms by (simp add: lists_ok_def)
next
  case (Some x)
  then show ?thesis using assms lists_ok_drop [of s us x vs ns s'] by simp
qed

lemma lists_ok_drop_N:
  assumes "lists_ok s ls (us @ x # vs)" "tables s' Normal_head (us @ vs) ls" "socket_of s' = socket_of s"
  shows "lists_ok s' ls (us @ vs)"
  using assms by (auto simp: lists_ok_def tables_Normal sorted_append)

text \<open>The abstract effect of one \<open>accept\<close> on the table of connections.\<close>

definition one_accept ::
  "int \<Rightarrow> (int \<Rightarrow> int \<times> nat option) \<Rightarrow> int \<Rightarrow> (int \<times> int) list \<Rightarrow> (int \<times> int) list" where
  "one_accept behind acc k es = (case acc k of
     (f, Some a) \<Rightarrow> if f \<noteq> - 1 then insert_entry behind f k es else es | (_, None) \<Rightarrow> es)"

lemma accept_on_lists:
  assumes l: "lists_ok s ls ns" and fd: "fd_ok (g_r_set s)" and acc: "acc k = (f, a)"
    and fr: "f \<noteq> - 1 \<longrightarrow> fresh_answer s (socket_of s ` set (ls @ ns)) (f, a)"
  shows "\<exists>s' ns'. accept_on acc k s = Some s' \<and> lists_ok s' ls ns'
     \<and> map (entry s') ls = map (entry s) ls
     \<and> map (entry s') ns' = one_accept (socket_of s Normal_head) acc k (map (entry s) ns)
     \<and> passing s s' [] \<and> fd_ok (g_r_set s') \<and> (\<forall>b. live s' b \<longrightarrow> live s b \<or> a = Some b \<and> f \<noteq> - 1)"
proof (cases "f \<noteq> - 1 \<and> a \<noteq> None")
  case True
  then obtain b where b: "a = Some b" and ok: "sd_ok f" "f \<notin> socket_of s ` set (ls @ ns)" "\<not> live s b"
    using fr by (auto simp: fresh_answer_def)
  obtain s1 ns' where s1: "update_new_sd (Some b) f k s = Some (0, s1)" "lists_ok s1 ls ns'" "frame s s1"
    "map (entry s1) ns' = insert_entry (socket_of s Normal_head) f k (map (entry s) ns)"
    "map (entry s1) ls = map (entry s) ls" "\<forall>b'. live s1 b' \<longrightarrow> live s b' \<or> b' = b"
    using insert_lists_ok(1) [OF l ok, of k] by auto
  have "fd_ok (g_r_set s1)" using fd s1(3) by (simp add: frame_def)
  then obtain g where g: "FD_SET f (g_r_set s1) = Some g" "fd_ok g" using FD_SET_has ok(1) by blast
  have "accept_on acc k s = Some (s1\<lparr>g_r_set := g\<rparr>)"
    using True acc b s1(1) g by (simp add: accept_on_def)
  moreover have "lists_ok (s1\<lparr>g_r_set := g\<rparr>) ls ns'" using s1(2) by (simp add: lists_ok_def)
  moreover have "passing s (s1\<lparr>g_r_set := g\<rparr>) []" using s1(3) by (simp add: passing_def closing_def frame_def)
  ultimately show ?thesis using s1 g True acc b by (auto simp: one_accept_def)
next
  case False
  have "accept_on acc k s = Some s"
    using False acc by (auto simp: accept_on_def update_new_sd_def update_new_NULL)
  then show ?thesis
    using False acc l fd by (auto simp: one_accept_def passing_def closing_def split: option.splits)
qed

lemma listen_round:
  assumes l: "lists_ok s (pre @ pending c @ x # rest) ns"
    and fd: "fd_ok (g_clr_set s)" "fd_ok (g_r_set s)" "fd_ok r"
    and fr: "fst (acc (socket_of s x)) \<noteq> - 1
       \<longrightarrow> fresh_answer s (socket_of s ` set (pre @ pending c @ x # rest @ ns)) (acc (socket_of s x))"
  shows "\<exists>s1 c' ns1. listen_loop r acc s c x = listen_loop r acc s1 c' (hd (rest @ [Listen_head]))
     \<and> pending c' = (if fd_has (g_clr_set s) (socket_of s x) then [x] else [])
     \<and> lists_ok s1 (pre @ x # rest) ns1 \<and> map (entry s1) (pre @ x # rest) = map (entry s) (pre @ x # rest)
     \<and> map (entry s1) ns1 = (if \<not> fd_has (g_clr_set s) (socket_of s x) \<and> fd_has r (socket_of s x)
          then one_accept (socket_of s Normal_head) acc (socket_of s x) (map (entry s) ns)
          else map (entry s) ns)
     \<and> passing s s1 (map (socket_of s) (pending c)) \<and> fd_ok (g_r_set s1)
     \<and> (\<forall>b. live s1 b \<longrightarrow> live s b \<or> snd (acc (socket_of s x)) = Some b \<and> fst (acc (socket_of s x)) \<noteq> - 1)"
proof -
  let ?k = "socket_of s x"
  have t: "tables s Listen_head (pre @ pending c @ x # rest) ns" and ok: "sd_ok ?k"
    using l by (auto simp: lists_ok_def)
  have sx: "get_socket s x = Some ?k" "x \<noteq> Listen_head"
    using tables_next [of s Listen_head "pre @ pending c" x rest ns] t by auto
  obtain s1 where s1: "flush_item Listen_head c s = Some s1" "tables s1 Listen_head (pre @ x # rest) ns"
    "entry s1 = entry s" "closing s s1 (map (socket_of s) (pending c))"
    using flush_item_tables [OF t] by auto
  note cf = closing_fields [OF s1(4)] and so = entry_socket [OF s1(3)]
  have l1: "lists_ok s1 (pre @ x # rest) ns"
    by (rule lists_ok_flush [OF _ s1(2) so]) (use l in simp)
  have isset: "FD_ISSET ?k (g_clr_set s) = Some (fd_has (g_clr_set s) ?k)"
    "FD_ISSET ?k r = Some (fd_has r ?k)"
    using FD_ISSET_has ok fd by auto
  have live: "live s1 b \<longrightarrow> live s b" for b
    using t s1(2) by (auto simp: tables_def)
  have fr1: "fst (acc ?k) \<noteq> - 1 \<longrightarrow> fresh_answer s1 (socket_of s1 ` set ((pre @ x # rest) @ ns)) (acc ?k)"
    using fr live so by (auto simp: fresh_answer_def split: option.splits prod.splits)
  obtain s2 ns2 where s2: "accept_on acc ?k s1 = Some s2" "lists_ok s2 (pre @ x # rest) ns2"
    "map (entry s2) (pre @ x # rest) = map (entry s1) (pre @ x # rest)"
    "map (entry s2) ns2 = one_accept (socket_of s1 Normal_head) acc ?k (map (entry s1) ns)"
    "passing s1 s2 []" "fd_ok (g_r_set s2)" "\<forall>b. live s2 b \<longrightarrow> live s1 b \<or> snd (acc ?k) = Some b \<and> fst (acc ?k) \<noteq> - 1"
    using accept_on_lists [OF l1, of acc ?k "fst (acc ?k)" "snd (acc ?k)"] fr1 fd cf by auto
  define s' where "s' = (if \<not> fd_has (g_clr_set s) ?k \<and> fd_has r ?k then s2 else s1)"
  define ns' where "ns' = (if \<not> fd_has (g_clr_set s) ?k \<and> fd_has r ?k then ns2 else ns)"
  define c' where "c' = (if fd_has (g_clr_set s) ?k then Some x else None)"
  have l': "lists_ok s' (pre @ x # rest) ns'" using l1 s2(2) by (simp add: s'_def ns'_def)
  have nx: "get_next s' x = Some (hd (rest @ [Listen_head]))"
    using tables_next [of s' Listen_head pre x rest ns'] l' by (simp add: lists_ok_def)
  have "listen_loop r acc s c x = listen_loop r acc s' c' (hd (rest @ [Listen_head]))"
    using sx s1(1) cf isset s2(1) nx
    by (subst listen_loop.simps) (auto simp: s'_def c'_def)
  moreover have "passing s s' (map (socket_of s) (pending c))"
    using closing_passing' [OF s1(4)] passing_trans [OF closing_passing' [OF s1(4)] s2(5)]
    by (simp add: s'_def)
  moreover have "pending c' = (if fd_has (g_clr_set s) ?k then [x] else [])" by (simp add: c'_def)
  moreover have "fd_ok (g_r_set s')" using s2(6) cf fd by (simp add: s'_def)
  moreover have "map (entry s') (pre @ x # rest) = map (entry s) (pre @ x # rest)"
    using s2(3) s1(3) by (simp add: s'_def)
  moreover have "map (entry s') ns' = (if \<not> fd_has (g_clr_set s) ?k \<and> fd_has r ?k
      then one_accept (socket_of s Normal_head) acc ?k (map (entry s) ns) else map (entry s) ns)"
    using s2(4) s1(3) so by (simp add: s'_def ns'_def)
  moreover have "\<forall>b. live s' b \<longrightarrow> live s b \<or> snd (acc ?k) = Some b \<and> fst (acc ?k) \<noteq> - 1"
    using s2(7) live by (auto simp: s'_def)
  ultimately show ?thesis using l' by blast
qed

lemma accepts_ok_Cons:
  assumes "accepts_ok s used acc (k # ks)"
  shows "fst (acc k) \<noteq> - 1 \<longrightarrow> fresh_answer s used (acc k)"
    and "\<forall>b. live t b \<longrightarrow> live s b \<or> snd (acc k) = Some b \<and> fst (acc k) \<noteq> - 1 \<Longrightarrow>
      used' \<subseteq> used \<union> (if fst (acc k) \<noteq> - 1 then {fst (acc k)} else {}) \<Longrightarrow> accepts_ok t used' acc ks"
proof -
  show "fst (acc k) \<noteq> - 1 \<longrightarrow> fresh_answer s used (acc k)"
    using assms by (auto simp: accepts_ok_def answers_def)
  assume l: "\<forall>b. live t b \<longrightarrow> live s b \<or> snd (acc k) = Some b \<and> fst (acc k) \<noteq> - 1"
    and u: "used' \<subseteq> used \<union> (if fst (acc k) \<noteq> - 1 then {fst (acc k)} else {})"
  have an: "answers acc (k # ks) = (if fst (acc k) \<noteq> - 1 then acc k # answers acc ks else answers acc ks)"
    by (simp add: answers_def)
  have "fresh_answer t used' ans" if ans: "ans \<in> set (answers acc ks)" for ans
  proof -
    have f: "fresh_answer s used ans" using assms ans by (auto simp: accepts_ok_def an list_all_iff)
    have "fst (acc k) \<noteq> - 1 \<longrightarrow> fst (acc k) \<notin> fst ` set (answers acc ks)"
      using assms by (simp add: accepts_ok_def an split: if_splits)
    then have ne: "fst (acc k) \<noteq> - 1 \<longrightarrow> fst ans \<noteq> fst (acc k)" by (metis ans imageI)
    have nb: "fst (acc k) \<noteq> - 1 \<longrightarrow> snd (acc k) = Some b \<longrightarrow> snd ans \<noteq> Some b" for b
      using assms ans by (force simp: accepts_ok_def an blocks_def)
    show ?thesis
      using f ne nb l u by (auto simp: fresh_answer_def split: option.splits prod.splits if_splits)
  qed
  moreover have "distinct (map fst (answers acc ks))" "distinct (blocks (answers acc ks))"
    using assms by (auto simp: accepts_ok_def an blocks_def split: if_splits)
  ultimately show "accepts_ok t used' acc ks" by (simp add: accepts_ok_def list_all_iff)
qed

text \<open>The table of connections grows by the accepted descriptors, the marked listeners are
  closed.\<close>

lemma one_accept_fst:
  "fst ` set (one_accept b acc k es) \<subseteq> fst ` set es \<union> (if fst (acc k) \<noteq> - 1 then {fst (acc k)} else {})"
  by (cases "acc k"; cases "snd (acc k)") (auto simp: one_accept_def set_insert_entry)

lemma sockets_entries: "socket_of s ` set xs = fst ` set (map (entry s) xs)"
  by (simp add: image_image)

lemma listen_loop_lists:
  assumes "lists_ok s (pre @ pending c @ rest) ns"
    "fd_ok (g_clr_set s)" "fd_ok (g_r_set s)" "fd_ok r"
    "accepts_ok s (socket_of s ` set (pre @ pending c @ rest @ ns)) acc (map (socket_of s) rest)"
  shows "\<exists>s' ns'. listen_loop r acc s c (hd (rest @ [Listen_head])) = Some s'
     \<and> lists_ok s' (pre @ filter (\<lambda>x. \<not> fd_has (g_clr_set s) (socket_of s x)) rest) ns'
     \<and> map (entry s') (pre @ filter (\<lambda>x. \<not> fd_has (g_clr_set s) (socket_of s x)) rest)
         = map (entry s) (pre @ filter (\<lambda>x. \<not> fd_has (g_clr_set s) (socket_of s x)) rest)
     \<and> map (entry s') ns' = fold (one_accept (socket_of s Normal_head) acc)
         (filter (\<lambda>k. \<not> fd_has (g_clr_set s) k \<and> fd_has r k) (map (socket_of s) rest)) (map (entry s) ns)
     \<and> passing s s' (map (socket_of s) (pending c @ filter (\<lambda>x. fd_has (g_clr_set s) (socket_of s x)) rest))
     \<and> fd_ok (g_r_set s')"
  using assms
proof (induction rest arbitrary: pre c s ns)
  case Nil
  have t: "tables s Listen_head (pre @ pending c @ []) ns" using Nil.prems(1) by (simp add: lists_ok_def)
  obtain s' where s': "flush_item Listen_head c s = Some s'" "tables s' Listen_head pre ns"
    "entry s' = entry s" "closing s s' (map (socket_of s) (pending c))"
    using flush_item_tables [OF t] by auto
  then have "lists_ok s' pre ns"
    using lists_ok_flush [of s pre c "[]" ns s'] Nil.prems(1) entry_socket [OF s'(3)] by simp
  then show ?case using Nil.prems s' closing_fields [OF s'(4)] by (auto simp: listen_loop.simps closing_passing')
next
  case (Cons x rest)
  let ?clr = "\<lambda>x. fd_has (g_clr_set s) (socket_of s x)"
  let ?used = "socket_of s ` set (pre @ pending c @ x # rest @ ns)"
  have acc: "accepts_ok s ?used acc (socket_of s x # map (socket_of s) rest)"
    using Cons.prems(5) by simp
  obtain s1 c' ns1 where s1: "listen_loop r acc s c x = listen_loop r acc s1 c' (hd (rest @ [Listen_head]))"
    "pending c' = (if ?clr x then [x] else [])"
    "lists_ok s1 (pre @ x # rest) ns1" "map (entry s1) (pre @ x # rest) = map (entry s) (pre @ x # rest)"
    "map (entry s1) ns1 = (if \<not> ?clr x \<and> fd_has r (socket_of s x)
          then one_accept (socket_of s Normal_head) acc (socket_of s x) (map (entry s) ns)
          else map (entry s) ns)"
    "passing s s1 (map (socket_of s) (pending c))" "fd_ok (g_r_set s1)"
    "\<forall>b. live s1 b \<longrightarrow> live s b \<or> snd (acc (socket_of s x)) = Some b \<and> fst (acc (socket_of s x)) \<noteq> - 1"
    using listen_round [OF Cons.prems(1-4), of acc] accepts_ok_Cons(1) [OF acc] by auto
  note cf = passing_fields [OF s1(6)]
  let ?pre = "if ?clr x then pre else pre @ [x]"
  have so: "socket_of s1 y = socket_of s y" "entry s1 y = entry s y" if "y \<in> set (pre @ x # rest)" for y
    using s1(4) that fst_entry(1) by (auto simp del: fst_entry, metis+)
  have fl: "filter (\<lambda>y. P (fd_has (g_clr_set s1) (socket_of s1 y))) rest = filter (\<lambda>y. P (?clr y)) rest" for P
    by (rule filter_cong) (use so cf in auto)
  have ml: "map (socket_of s1) rest = map (socket_of s) rest" using so by auto
  have l: "lists_ok s1 (?pre @ pending c' @ rest) ns1" using s1(2,3) by simp
  have "socket_of s1 ` set ns1 \<subseteq> socket_of s ` set ns \<union>
      (if fst (acc (socket_of s x)) \<noteq> - 1 then {fst (acc (socket_of s x))} else {})"
    unfolding sockets_entries s1(5)
    using one_accept_fst [of "socket_of s Normal_head" acc "socket_of s x" "map (entry s) ns"]
    by (simp split: if_splits) blast
  then have "accepts_ok s1 (socket_of s1 ` set (?pre @ pending c' @ rest @ ns1)) acc (map (socket_of s) rest)"
    by (intro accepts_ok_Cons(2) [OF acc s1(8)]) (use so s1(2) in \<open>auto split: if_splits\<close>)
  then obtain s' ns' where s': "listen_loop r acc s1 c' (hd (rest @ [Listen_head])) = Some s'"
    "lists_ok s' (?pre @ filter (\<lambda>x. \<not> ?clr x) rest) ns'"
    "map (entry s') (?pre @ filter (\<lambda>x. \<not> ?clr x) rest) = map (entry s1) (?pre @ filter (\<lambda>x. \<not> ?clr x) rest)"
    "map (entry s') ns' = fold (one_accept (socket_of s1 Normal_head) acc)
         (filter (\<lambda>k. \<not> fd_has (g_clr_set s) k \<and> fd_has r k) (map (socket_of s) rest)) (map (entry s1) ns1)"
    "passing s1 s' (map (socket_of s1) (pending c' @ filter ?clr rest))" "fd_ok (g_r_set s')"
    using Cons.IH [OF l] Cons.prems s1(7) cf ml fl [of "\<lambda>b. b"] fl [of Not] by auto
  have "map (socket_of s1) (pending c' @ filter ?clr rest) = map (socket_of s) (filter ?clr (x # rest))"
    using s1(2) so by auto
  then have "passing s s' (map (socket_of s) (pending c @ filter ?clr (x # rest)))"
    using passing_trans [OF s1(6) s'(5)] by simp
  moreover have "lists_ok s' (pre @ filter (\<lambda>x. \<not> ?clr x) (x # rest)) ns'"
    using s'(2) by (simp split: if_splits)
  moreover have "map (entry s') (pre @ filter (\<lambda>x. \<not> ?clr x) (x # rest))
      = map (entry s) (pre @ filter (\<lambda>x. \<not> ?clr x) (x # rest))"
    using s'(3) so by (auto split: if_splits)
  moreover have "map (entry s') ns' = fold (one_accept (socket_of s Normal_head) acc)
         (filter (\<lambda>k. \<not> fd_has (g_clr_set s) k \<and> fd_has r k) (map (socket_of s) (x # rest))) (map (entry s) ns)"
    using s'(4) s1(5) cf by simp
  ultimately show ?case using s'(1,6) s1(1) by auto
qed

end
