(* ===== verification/SocketRuns.thy ===== *)
theory SocketRuns
  imports Sockets
begin

text \<open>
  The socket commands and the receive task together: the invariant of the whole state, kept by
  every transition, and what follows from it. The statements are about runs of transitions
  from start-up (\<open>sock_run\<close>) under the assumptions on the environment in \<open>sock_enabled\<close>.
\<close>

section \<open>The invariant\<close>

definition tables_ok :: "socks \<Rightarrow> bool" where
  "tables_ok s \<longleftrightarrow>
     (if listhead_is_inited s then lists_ok s (nodes s Listen_head) (nodes s Normal_head)
      else qlen_of s Listen_head = 0 \<and> qlen_of s Normal_head = 0 \<and> (\<forall>a. \<not> live s a))"

text \<open>The control state: a task exists exactly when \<open>recv_task_inst\<close> is set, without one
  nothing is open; a command that waits for the task to end has asked it to, or it has ended.\<close>

definition control_ok :: "socks \<Rightarrow> bool" where
  "control_ok s \<longleftrightarrow> fd_ok (g_r_set s) \<and> fd_ok (g_clr_set s)
     \<and> (recv_task_inst s \<longleftrightarrow> task_pc s \<noteq> No_task)
     \<and> (recv_task_inst s \<longrightarrow> listhead_is_inited s)
     \<and> (\<not> recv_task_inst s \<longrightarrow> g_r_set s = fd_zero \<and> qlen_of s Listen_head = 0 \<and> qlen_of s Normal_head = 0)
     \<and> (task_pc s = Top \<or> selecting s \<longrightarrow>
          recv_task_st s = (if cmd_pc s = Waiting_term then TASK_ST_Stop else TASK_ST_Running))
     \<and> (cmd_pc s = In_delay \<and> task_pc s = No_task \<longrightarrow> recv_task_st s = TASK_ST_Term)
     \<and> (cmd_pc s = Waiting_term \<longrightarrow> task_pc s \<noteq> Created
          \<and> (task_pc s = No_task \<longrightarrow> recv_task_st s = TASK_ST_Term))"

definition sock_inv :: "socks \<Rightarrow> bool" where
  "sock_inv s \<longleftrightarrow> tables_ok s \<and> control_ok s"

lemma lists_ok_nodes: "lists_ok s ls ns \<Longrightarrow> nodes s Listen_head = ls \<and> nodes s Normal_head = ns"
  using tables_nodes [of s Listen_head ls ns] by (simp add: lists_ok_def)

lemma tables_okI: "lists_ok s ls ns \<Longrightarrow> listhead_is_inited s \<Longrightarrow> tables_ok s"
  using lists_ok_nodes [of s ls ns] by (simp add: tables_ok_def)

lemma tables_okE:
  assumes "tables_ok s" "listhead_is_inited s"
  obtains ls ns where "lists_ok s ls ns" "nodes s Listen_head = ls" "nodes s Normal_head = ns"
  using assms by (simp add: tables_ok_def)

lemma lists_ok_qlen:
  "lists_ok s ls ns \<Longrightarrow> (qlen_of s Listen_head = 0 \<longleftrightarrow> ls = []) \<and> (qlen_of s Normal_head = 0 \<longleftrightarrow> ns = [])"
  using tables_qlen lists_ok_tables by metis

lemma lists_ok_listed:
  "lists_ok s ls ns \<Longrightarrow> listed s = map (socket_of s) (ls @ ns)"
  using lists_ok_nodes [of s ls ns] by (simp add: listed_def entries_def)

lemma lists_ok_ctl [simp]:
  "lists_ok (s\<lparr>g_r_set := f\<rparr>) ls ns = lists_ok s ls ns"
  "lists_ok (s\<lparr>g_clr_set := f\<rparr>) ls ns = lists_ok s ls ns"
  "lists_ok (s\<lparr>max_sd := k\<rparr>) ls ns = lists_ok s ls ns"
  "lists_ok (s\<lparr>recv_task_st := k\<rparr>) ls ns = lists_ok s ls ns"
  "lists_ok (s\<lparr>recv_task_inst := b\<rparr>) ls ns = lists_ok s ls ns"
  "lists_ok (s\<lparr>task_pc := p\<rparr>) ls ns = lists_ok s ls ns"
  "lists_ok (s\<lparr>cmd_pc := c\<rparr>) ls ns = lists_ok s ls ns"
  "lists_ok (s\<lparr>closed := cs\<rparr>) ls ns = lists_ok s ls ns"
  "lists_ok (s\<lparr>listhead_is_inited := b\<rparr>) ls ns = lists_ok s ls ns"
  by (simp_all add: lists_ok_def)

lemma init_lists_ok:
  assumes "tables_ok s"
  shows "\<exists>s' ls ns. init_lists s = Some s' \<and> lists_ok s' ls ns \<and> listhead_is_inited s'
     \<and> frame (s\<lparr>listhead_is_inited := True\<rparr>) s' \<and> live s' = live s
     \<and> set (map (socket_of s') (ls @ ns)) = set (listed s)
     \<and> qlen_of s' = qlen_of s"
proof (cases "listhead_is_inited s")
  case True
  then obtain ls ns where l: "lists_ok s ls ns" using assms tables_okE by blast
  have "frame (s\<lparr>listhead_is_inited := True\<rparr>) s" using True by (simp add: frame_def)
  then show ?thesis using True l lists_ok_listed [OF l] by (auto simp: init_lists_def)
next
  case False
  then have q: "qlen_of s Listen_head = 0" "qlen_of s Normal_head = 0" and nl: "\<forall>a. \<not> live s a"
    using assms by (auto simp: tables_ok_def)
  define t where "t = s\<lparr>next_of := (next_of s)(Listen_head := Listen_head, Normal_head := Normal_head),
    prev_of := (prev_of s)(Listen_head := Listen_head, Normal_head := Normal_head),
    listhead_is_inited := True\<rparr>"
  have "(qlen_of s)(Listen_head := 0, Normal_head := 0) = qlen_of s" using q by auto
  then have "init_lists s = Some t"
    using False by (simp add: init_lists_def list_q_init_def set_next_def set_prev_def t_def)
  moreover have "lists_ok t [] []"
    using q nl by (simp add: lists_ok_def tables_def dll_def t_def)
  moreover have "frame (s\<lparr>listhead_is_inited := True\<rparr>) t" by (simp add: frame_def t_def)
  moreover have "listed s = []" using q by (simp add: listed_def entries_def nodes_def)
  moreover have "listhead_is_inited t" "live t = live s" "qlen_of t = qlen_of s" by (simp_all add: t_def)
  ultimately show ?thesis by auto
qed

section \<open>Opening a socket\<close>

text \<open>Removing a descriptor keeps the tables; a single entry leaves them empty.\<close>

lemma filter_out_both:
  assumes "xs = us @ x # vs" "map f xs = [k]"
  shows "us @ vs = []"
  using assms by (auto simp: append_eq_Cons_conv)

lemma rm_listen_lists:
  assumes l: "lists_ok s ls ns"
  shows "\<exists>r s' ls'. rm_listen_sd k s = Some (r, s') \<and> lists_ok s' ls' ns \<and> frame s s'
     \<and> (map (socket_of s) ls = [k] \<longrightarrow> ls' = [])"
proof -
  have t: "tables s Listen_head ls ns" using l by (simp add: lists_ok_def)
  obtain r s' ls' where s': "rm_from Listen_head k s = Some (r, s')" "tables s' Listen_head ls' ns"
    "frame s s'" "entry s' = entry s"
    and c: "if k \<in> socket_of s ` set ls then r = k \<and> (\<exists>us x vs. ls = us @ x # vs \<and> ls' = us @ vs
             \<and> socket_of s x = k \<and> k \<notin> socket_of s ` set us) else r = - 1 \<and> ls' = ls"
    using rm_from_refines [OF t, of k] by auto
  note so = entry_socket [OF s'(4)]
  show ?thesis
  proof (cases "k \<in> socket_of s ` set ls")
    case True
    then obtain us x vs where ux: "ls = us @ x # vs" "ls' = us @ vs" using c unfolding if_P [OF True] by blast
    then have "lists_ok s' ls' ns" using lists_ok_drop [of s us x vs ns s'] l s'(2) so by simp
    then show ?thesis
      using s' ux filter_out_both [of ls us x vs "socket_of s" k] by (auto simp: rm_listen_sd_def)
  next
    case False
    then have "ls' = ls" using c by simp
    moreover from this have "lists_ok s' ls' ns" using l s'(2) so by (simp add: lists_ok_def)
    moreover have "map (socket_of s) ls \<noteq> [k]" using False by auto
    ultimately show ?thesis using s' by (auto simp: rm_listen_sd_def)
  qed
qed

lemma rm_lists:
  assumes l: "lists_ok s ls ns"
  shows "\<exists>r s' ns'. rm_sd k s = Some (r, s') \<and> lists_ok s' ls ns' \<and> frame s s'
     \<and> (map (socket_of s) ns = [k] \<longrightarrow> ns' = [])"
proof -
  have t: "tables s Normal_head ns ls" using l lists_ok_tables by blast
  obtain r s' ns' where s': "rm_from Normal_head k s = Some (r, s')" "tables s' Normal_head ns' ls"
    "frame s s'" "entry s' = entry s"
    and c: "if k \<in> socket_of s ` set ns then r = k \<and> (\<exists>us x vs. ns = us @ x # vs \<and> ns' = us @ vs
             \<and> socket_of s x = k \<and> k \<notin> socket_of s ` set us) else r = - 1 \<and> ns' = ns"
    using rm_from_refines [OF t, of k] by auto
  note so = entry_socket [OF s'(4)]
  show ?thesis
  proof (cases "k \<in> socket_of s ` set ns")
    case True
    then obtain us x vs where ux: "ns = us @ x # vs" "ns' = us @ vs" using c unfolding if_P [OF True] by blast
    then have "lists_ok s' ls ns'" using lists_ok_drop_N [of s ls us x vs s'] l s'(2) so by simp
    then show ?thesis
      using s' ux filter_out_both [of ns us x vs "socket_of s" k] by (auto simp: rm_sd_def)
  next
    case False
    then have "ns' = ns" using c by simp
    moreover from this have "lists_ok s' ls ns'" using l s'(2) so by (simp add: lists_ok_def tables_Normal)
    moreover have "map (socket_of s) ns \<noteq> [k]" using False by auto
    ultimately show ?thesis using s' by (auto simp: rm_sd_def)
  qed
qed

lemma FD_CLR_SET_zero:
  assumes "sd_ok k" "FD_SET k fd_zero = Some f"
  shows "FD_CLR k f = Some fd_zero"
proof -
  obtain f' where f': "FD_SET k fd_zero = Some f'" "fd_ok f'"
    "\<forall>m. sd_ok m \<longrightarrow> fd_has f' m = (m = k \<or> fd_has fd_zero m)"
    using FD_SET_has [OF fd_ok_zero assms(1)] by blast
  obtain g where g: "FD_CLR k f' = Some g" "fd_ok g" "\<forall>m. sd_ok m \<longrightarrow> fd_has g m = (m \<noteq> k \<and> fd_has f' m)"
    using FD_CLR_has [OF f'(2) assms(1)] by blast
  have "\<forall>m. sd_ok m \<longrightarrow> \<not> fd_has g m" using g(3) f'(3) fd_zero_empty by auto
  then show ?thesis using fd_zero_iff [OF g(2)] g(1) f'(1) assms(2) by simp
qed

text \<open>
  What the commands rely on when they enter a descriptor into one of the tables (\<open>mine\<close>) and take
  it back when the task cannot be created: the contract that \<open>update_new_listen_sd\<close> and
  \<open>_rm_listen_sd\<close> on the one hand, \<open>update_new_sd\<close> and \<open>_rm_sd\<close> on the other both keep.
\<close>

locale sd_table =
  fixes upd :: "nat option \<Rightarrow> int \<Rightarrow> int \<Rightarrow> socks \<Rightarrow> (int \<times> socks) option"
    and rm :: "int \<Rightarrow> socks \<Rightarrow> (int \<times> socks) option"
    and mine :: "ptr list \<Rightarrow> ptr list \<Rightarrow> ptr list"
  assumes upd_NULL: "upd None k i s = Some (- 1, s)"
    and upd_new: "lists_ok s ls ns \<Longrightarrow> sd_ok k \<Longrightarrow> k \<notin> socket_of s ` set (ls @ ns) \<Longrightarrow> \<not> live s a \<Longrightarrow>
      \<exists>s' ls' ns'. upd (Some a) k i s = Some (0, s') \<and> lists_ok s' ls' ns' \<and> frame s s'
        \<and> (ls @ ns = [] \<longrightarrow> map (socket_of s') (mine ls' ns') = [k] \<and> ls' @ ns' = mine ls' ns')"
    and rm_old: "lists_ok s ls ns \<Longrightarrow>
      \<exists>r s' ls' ns'. rm k s = Some (r, s') \<and> lists_ok s' ls' ns' \<and> frame s s'
        \<and> (map (socket_of s) (mine ls ns) = [k] \<and> ls @ ns = mine ls ns \<longrightarrow> ls' @ ns' = [])"
begin

text \<open>Without a task the new entry is taken out of the tables again.\<close>

lemma unregister_inv:
  assumes "lists_ok s ls ns" "fd_ok (g_clr_set s) \<and> task_pc s = No_task" "cmd_pc s = Ready" "listhead_is_inited s" "\<not> recv_task_inst s"
    and "map (socket_of s) (mine ls ns) = [k]" "ls @ ns = mine ls ns" "g_r_set s = fd_zero"
  shows "\<exists>r s'. rm k s = Some (r, s') \<and> sock_inv s' \<and> cmd_pc s' = Ready"
proof -
  obtain r u where u: "rm k s = Some (r, u)" "lists_ok u [] []" "frame s u"
    using rm_old [OF assms(1), of k] assms(6,7) by auto
  have "control_ok u \<and> cmd_pc u = Ready \<and> listhead_is_inited u"
    using assms(2-5,8) u(3) lists_ok_qlen [OF u(2)] by (simp add: control_ok_def frame_def selecting_def)
  then show ?thesis using u tables_okI [OF u(2)] by (simp add: sock_inv_def)
qed

lemma register_inv:
  assumes inv: "sock_inv s" and cmd: "cmd_pc s = Ready"
    and api: "fresh_answer s (set (listed s)) (k, ap_malloc api)"
  shows "\<exists>r s'. register_sd (upd (ap_malloc api) k i) rm err k api s = Some (r, s')
     \<and> sock_inv s' \<and> cmd_pc s' = Ready"
proof -
  have ctl: "control_ok s" and k: "sd_ok k" using inv api by (auto simp: sock_inv_def fresh_answer_def)
  obtain s1 ls ns where s1: "init_lists s = Some s1" "lists_ok s1 ls ns" "listhead_is_inited s1"
    "frame (s\<lparr>listhead_is_inited := True\<rparr>) s1" "live s1 = live s"
    "set (map (socket_of s1) (ls @ ns)) = set (listed s)" "qlen_of s1 = qlen_of s"
    using init_lists_ok inv unfolding sock_inv_def by blast
  have c1: "control_ok s1 \<and> cmd_pc s1 = Ready"
    using ctl cmd s1(3,4,7) by (simp add: control_ok_def frame_def selecting_def)
  show ?thesis
  proof (cases "ap_malloc api")
    case None
    have "sock_inv (close_sd k s1) \<and> cmd_pc (close_sd k s1) = Ready"
      using c1 tables_okI [of "close_sd k s1" ls ns] s1(2,3)
      by (simp add: sock_inv_def control_ok_def close_sd_def selecting_def)
    then show ?thesis using None s1(1) by (simp add: register_sd_def upd_NULL)
  next
    case (Some a)
    then have a: "\<not> live s1 a" "k \<notin> socket_of s1 ` set (ls @ ns)"
      using api s1(5,6) by (auto simp: fresh_answer_def)
    obtain s2 ls2 ns2 where s2: "upd (Some a) k i s1 = Some (0, s2)" "lists_ok s2 ls2 ns2" "frame s1 s2"
      "ls @ ns = [] \<longrightarrow> map (socket_of s2) (mine ls2 ns2) = [k] \<and> ls2 @ ns2 = mine ls2 ns2"
      using upd_new [OF s1(2) k a(2,1), of i] by (elim exE conjE) (rule that)
    have i2: "listhead_is_inited s2" "cmd_pc s2 = Ready" "fd_ok (g_r_set s2)" "recv_task_inst s2 = recv_task_inst s1"
      using s2(3) s1(3) c1 by (simp_all add: frame_def control_ok_def)
    obtain f where f: "FD_SET k (g_r_set s2) = Some f" "fd_ok f" using FD_SET_has [OF i2(3) k] by blast
    show ?thesis
    proof (cases "recv_task_inst s2 \<or> ap_task api")
      case False
      then have e: "ls @ ns = []" "g_r_set s2 = fd_zero"
        using c1 i2(4) lists_ok_qlen [OF s1(2)] s2(3) by (auto simp: control_ok_def frame_def)
      let ?t = "close_sd k (s2\<lparr>g_r_set := fd_zero\<rparr>)"
      have clr: "FD_CLR k f = Some fd_zero" using FD_CLR_SET_zero [OF k] f(1) e(2) by simp
      have "\<exists>r s'. rm k ?t = Some (r, s') \<and> sock_inv s' \<and> cmd_pc s' = Ready"
        by (rule unregister_inv [of _ ls2 ns2])
           (use c1 i2 False s2(2-4) e in \<open>auto simp: control_ok_def frame_def close_sd_def selecting_def\<close>)
      then show ?thesis
        using Some s1(1) s2(1) f clr False by (auto simp: register_sd_def)
    next
      case True
      let ?s3 = "s2\<lparr>g_r_set := f\<rparr>"
      let ?s4 = "if recv_task_inst s2 then ?s3 else ?s3\<lparr>recv_task_inst := True, task_pc := Created\<rparr>"
      have "control_ok ?s4 \<and> cmd_pc ?s4 = Ready"
        using c1 s2(3) f(2) s1(3) by (auto simp: control_ok_def frame_def selecting_def)
      moreover have "tables_ok ?s4"
        by (rule tables_okI [of _ ls2 ns2]) (use s2(2) i2(1) in auto)
      ultimately show ?thesis
        using Some s1(1) s2(1) f True by (auto simp: register_sd_def sock_inv_def Let_def)
    qed
  qed
qed

end

lemma new_entry_alone: "map (entry s') xs = insert_entry b k i [] \<Longrightarrow> map (socket_of s') xs = [k]"
  by (cases xs) (auto simp: insert_entry_def entry_def)

interpretation listeners: sd_table update_new_listen_sd rm_listen_sd "\<lambda>ls ns. ls"
proof
  show "update_new_listen_sd None k i s = Some (- 1, s)" for k i s
    by (simp add: update_new_listen_sd_def update_new_NULL)
next
  fix s ls ns k a i
  assume "lists_ok s ls ns" "sd_ok k" "k \<notin> socket_of s ` set (ls @ ns)" "\<not> live s a"
  from insert_lists_ok(2) [OF this, of i]
  show "\<exists>s' ls' ns'. update_new_listen_sd (Some a) k i s = Some (0, s') \<and> lists_ok s' ls' ns' \<and> frame s s'
        \<and> (ls @ ns = [] \<longrightarrow> map (socket_of s') ls' = [k] \<and> ls' @ ns' = ls')"
    using new_entry_alone by fastforce
next
  fix s ls ns k
  assume "lists_ok s ls ns"
  from rm_listen_lists [OF this, of k]
  show "\<exists>r s' ls' ns'. rm_listen_sd k s = Some (r, s') \<and> lists_ok s' ls' ns' \<and> frame s s'
        \<and> (map (socket_of s) ls = [k] \<and> ls @ ns = ls \<longrightarrow> ls' @ ns' = [])"
    by fastforce
qed

interpretation connections: sd_table update_new_sd rm_sd "\<lambda>ls ns. ns"
proof
  show "update_new_sd None k i s = Some (- 1, s)" for k i s
    by (simp add: update_new_sd_def update_new_NULL)
next
  fix s ls ns k a i
  assume "lists_ok s ls ns" "sd_ok k" "k \<notin> socket_of s ` set (ls @ ns)" "\<not> live s a"
  from insert_lists_ok(1) [OF this, of i]
  show "\<exists>s' ls' ns'. update_new_sd (Some a) k i s = Some (0, s') \<and> lists_ok s' ls' ns' \<and> frame s s'
        \<and> (ls @ ns = [] \<longrightarrow> map (socket_of s') ns' = [k] \<and> ls' @ ns' = ns')"
    using new_entry_alone by fastforce
next
  fix s ls ns k
  assume "lists_ok s ls ns"
  from rm_lists [OF this, of k]
  show "\<exists>r s' ls' ns'. rm_sd k s = Some (r, s') \<and> lists_ok s' ls' ns' \<and> frame s s'
        \<and> (map (socket_of s) ns = [k] \<and> ls @ ns = ns \<longrightarrow> ls' @ ns' = [])"
    by fastforce
qed

lemma open_inv:
  assumes "sock_inv s" "cmd_pc s = Ready" "api_ok s api"
  shows "\<exists>r s'. At_TCPConnect argv api s = Some (r, s') \<and> sock_inv s' \<and> cmd_pc s' = Ready"
    and "\<exists>r s'. At_TCPListen argv api s = Some (r, s') \<and> sock_inv s' \<and> cmd_pc s' = Ready"
    and "\<exists>r s'. At_UDPCreate argv api s = Some (r, s') \<and> sock_inv s' \<and> cmd_pc s' = Ready"
proof -
  let ?k = "ap_socket api"
  have cl: "sock_inv (close_sd k s) \<and> cmd_pc (close_sd k s) = Ready" for k
  proof -
    have "control_ok (close_sd k s)" using assms(1) by (simp add: sock_inv_def control_ok_def close_sd_def selecting_def)
    moreover have "tables_ok (close_sd k s)"
    proof (cases "listhead_is_inited s")
      case True
      then obtain ls ns where "lists_ok s ls ns" using assms(1) tables_okE by (auto simp: sock_inv_def)
      then show ?thesis using True by (intro tables_okI [of _ ls ns]) (simp_all add: close_sd_def)
    qed (use assms(1) in \<open>simp add: sock_inv_def tables_ok_def close_sd_def\<close>)
    ultimately show ?thesis using assms(2) by (simp add: sock_inv_def close_sd_def)
  qed
  have ok: "\<not> ?k < 0 \<Longrightarrow> fresh_answer s (set (listed s)) (?k, ap_malloc api)" using assms(3) by (simp add: api_ok_def)
  show "\<exists>r s'. At_TCPConnect argv api s = Some (r, s') \<and> sock_inv s' \<and> cmd_pc s' = Ready"
    using assms connections.register_inv [OF assms(1,2) ok] cl by (auto simp: At_TCPConnect_def Let_def)
  show "\<exists>r s'. At_TCPListen argv api s = Some (r, s') \<and> sock_inv s' \<and> cmd_pc s' = Ready"
    using assms listeners.register_inv [OF assms(1,2) ok] cl by (auto simp: At_TCPListen_def Let_def)
  show "\<exists>r s'. At_UDPCreate argv api s = Some (r, s') \<and> sock_inv s' \<and> cmd_pc s' = Ready"
    using assms connections.register_inv [OF assms(1,2) ok] cl by (auto simp: At_UDPCreate_def Let_def)
qed

section \<open>Closing a socket\<close>

lemma inv_parts:
  assumes "sock_inv s"
  shows "fd_ok (g_r_set s)" "fd_ok (g_clr_set s)"
    "recv_task_inst s \<or> (g_r_set s = fd_zero \<and> qlen_of s Listen_head = 0 \<and> qlen_of s Normal_head = 0)"
  using assms by (auto simp: sock_inv_def control_ok_def)

lemma inv_lists:
  assumes "sock_inv s" "recv_task_inst s"
  obtains ls ns where "lists_ok s ls ns" "listhead_is_inited s"
    "nodes s Listen_head = ls" "nodes s Normal_head = ns"
  using assms tables_okE by (auto simp: sock_inv_def control_ok_def)

lemma fd_total:
  assumes "fd_ok f" "- 8 < k" "k < 8"
  shows "\<exists>b g h. FD_ISSET k f = Some b \<and> FD_CLR k f = Some g \<and> fd_ok g \<and> (b \<longrightarrow> f \<noteq> fd_zero)"
  using assms by (auto simp: fd_ok_single FD_ISSET_ok FD_CLR_single fd_zero_eq)

lemma close_inv:
  assumes inv: "sock_inv s" and cmd: "cmd_pc s = Ready" and arg: "sd_arg_ok argv"
  shows "\<exists>r s'. close_command argv s = Some (r, s') \<and> sock_inv s'"
proof (cases argv)
  case Nil
  then show ?thesis using inv by (simp add: close_command_def)
next
  case (Cons t ts)
  let ?k = "str_atoi t"
  obtain b g where b: "FD_ISSET ?k (g_r_set s) = Some b" "FD_CLR ?k (g_r_set s) = Some g" "fd_ok g"
    "b \<longrightarrow> g_r_set s \<noteq> fd_zero"
    using fd_total [OF inv_parts(1) [OF inv], of ?k] arg Cons by (auto simp: sd_arg_ok_def)
  show ?thesis
  proof (cases b)
    case False
    then show ?thesis using Cons b inv by (simp add: close_command_def)
  next
    case True
    then have inst: "recv_task_inst s" using b inv_parts(3) [OF inv] by blast
    then obtain ls ns where l: "lists_ok s ls ns" "listhead_is_inited s" using inv inv_lists by blast
    let ?s = "s\<lparr>g_r_set := g\<rparr>"
    have t: "tables ?s Normal_head ns ls" using l(1) lists_ok_tables by simp
    have ok: "sd_ok (socket_of ?s x)" if "x \<in> set ns" for x
      using l(1) that by (simp add: lists_ok_def)
    have "fd_ok (g_clr_set ?s)" using inv_parts(2) [OF inv] by simp
    then obtain r f where f: "mark_rm_sd ?k ?s = Some (r, ?s\<lparr>g_clr_set := f\<rparr>)" "fd_ok f"
      using mark_rm_sd_refines [OF t _ ok, of ?k] by blast
    let ?t = "?s\<lparr>g_clr_set := f, cmd_pc := In_delay\<rparr>"
    have "control_ok ?t"
      using inv cmd inst b(3) f(2) by (simp add: sock_inv_def control_ok_def selecting_def)
    moreover have "tables_ok ?t" by (rule tables_okI [of _ ls ns]) (use l in simp_all)
    ultimately show ?thesis using Cons b True f by (simp add: close_command_def sock_inv_def)
  qed
qed

lemma unlisten_inv:
  assumes inv: "sock_inv s" and cmd: "cmd_pc s = Ready"
    and arg: "argv = [] \<or> info_of s Listen_head \<noteq> port_arg (hd argv)"
  shows "\<exists>r s'. At_TCPUnlisten argv s = Some (r, s') \<and> sock_inv s'"
proof (cases "argv = [] \<or> port_arg (hd argv) = 0 \<or> qlen_of s Listen_head = 0")
  case True
  then show ?thesis
    using inv by (cases argv) (auto simp: At_TCPUnlisten_def mark_rm_listen_sd_by_port_def Let_def)
next
  case False
  let ?p = "port_arg (hd argv)"
  have inst: "recv_task_inst s" using False inv_parts(3) [OF inv] by blast
  then obtain ls ns where l: "lists_ok s ls ns" "listhead_is_inited s" using inv inv_lists by blast
  have t: "tables s Listen_head ls ns" using l(1) by (simp add: lists_ok_def)
  have ok: "sd_ok (socket_of s x)" if "x \<in> set ls" for x
    using l(1) that by (simp add: lists_ok_def)
  obtain r f where f: "mark_rm_listen_sd_by_port ?p s = Some (r, s\<lparr>g_clr_set := f\<rparr>)" "fd_ok f"
    "r = - 1 \<and> f = g_clr_set s \<or> sd_ok r"
    using mark_rm_listen_refines [OF t inv_parts(2) [OF inv] ok, of ?p] arg False
    by (auto split: if_splits)
  show ?thesis
  proof (cases "r = - 1")
    case True
    then have "f = g_clr_set s" using f(3) by (auto simp: sd_ok_def)
    then show ?thesis using True f(1) False inv by (cases argv) (auto simp: At_TCPUnlisten_def Let_def)
  next
    case ne: False
    then obtain g where g: "FD_CLR r (g_r_set s) = Some g" "fd_ok g"
      using FD_CLR_has [OF inv_parts(1) [OF inv]] f(3) by blast
    let ?t = "s\<lparr>g_clr_set := f, g_r_set := g, cmd_pc := In_delay\<rparr>"
    have "control_ok ?t"
      using inv cmd inst g(2) f(2) by (simp add: sock_inv_def control_ok_def selecting_def)
    moreover have "tables_ok ?t" by (rule tables_okI [of _ ls ns]) (use l in simp_all)
    ultimately show ?thesis
      using False f(1) g ne by (cases argv) (auto simp: At_TCPUnlisten_def Let_def sock_inv_def)
  qed
qed

lemma send_total:
  assumes "sock_inv s" "sd_arg_ok argv"
  shows "\<exists>r. At_TCPSend argv api s = Some (r, s)" "\<exists>r. At_UDPSend argv api s = Some (r, s)"
  using assms fd_total [OF inv_parts(1) [OF assms(1)], of "str_atoi (hd argv)"]
  by (cases argv; force simp: At_TCPSend_def At_UDPSend_def sd_arg_ok_def)+

lemma tables_ok_ctl [simp]:
  "tables_ok (s\<lparr>recv_task_st := v1\<rparr>) = tables_ok s" "tables_ok (s\<lparr>cmd_pc := v2\<rparr>) = tables_ok s"
  "tables_ok (s\<lparr>task_pc := v3\<rparr>) = tables_ok s" "tables_ok (s\<lparr>g_clr_set := v4\<rparr>) = tables_ok s"
  "tables_ok (s\<lparr>max_sd := v5\<rparr>) = tables_ok s"
proof -
  have n: "nodes_from (s\<lparr>recv_task_st := v1\<rparr>) k p = nodes_from s k p"
    "nodes_from (s\<lparr>cmd_pc := v2\<rparr>) k p = nodes_from s k p" "nodes_from (s\<lparr>task_pc := v3\<rparr>) k p = nodes_from s k p"
    "nodes_from (s\<lparr>g_clr_set := v4\<rparr>) k p = nodes_from s k p" "nodes_from (s\<lparr>max_sd := v5\<rparr>) k p = nodes_from s k p"
    for k p by (induction k arbitrary: p) simp_all
  show "tables_ok (s\<lparr>recv_task_st := v1\<rparr>) = tables_ok s" "tables_ok (s\<lparr>cmd_pc := v2\<rparr>) = tables_ok s"
    "tables_ok (s\<lparr>task_pc := v3\<rparr>) = tables_ok s" "tables_ok (s\<lparr>g_clr_set := v4\<rparr>) = tables_ok s"
    "tables_ok (s\<lparr>max_sd := v5\<rparr>) = tables_ok s"
    by (simp_all add: tables_ok_def nodes_def n)
qed

lemma chk_inv:
  assumes "sock_inv s" "cmd_pc s = In_delay" "task_pc s \<noteq> Created"
  shows "\<exists>s'. chk_socket_task s = Some s' \<and> sock_inv s'"
  using assms
  by (cases "task_pc s")
     (auto simp: chk_socket_task_def sock_inv_def control_ok_def selecting_def TASK_ST_Term_def
       TASK_ST_Running_def TASK_ST_Stop_def)

lemma poll_inv:
  assumes "sock_inv s" "cmd_pc s = Waiting_term"
  shows "\<exists>s'. chk_poll s = Some s' \<and> sock_inv s'"
  using assms
  by (cases "task_pc s")
     (auto simp: chk_poll_def sock_inv_def control_ok_def selecting_def TASK_ST_Term_def TASK_ST_Stop_def)

section \<open>The task\<close>

lemma start_inv:
  assumes "sock_inv s" "task_pc s = Created"
  shows "\<exists>s'. task_start s = Some s' \<and> sock_inv s'"
  using assms by (auto simp: task_start_def sock_inv_def control_ok_def selecting_def)

text \<open>The end of the task closes everything.\<close>

lemma terminate_lists:
  assumes l: "lists_ok s ls ns"
  shows "\<exists>s'. terminate s = Some s' \<and> lists_ok s' [] [] \<and> g_r_set s' = fd_zero
     \<and> recv_task_st s' = TASK_ST_Term \<and> \<not> recv_task_inst s' \<and> task_pc s' = No_task
     \<and> cmd_pc s' = cmd_pc s \<and> g_clr_set s' = g_clr_set s \<and> listhead_is_inited s' = listhead_is_inited s
     \<and> closed s' = closed s @ map (socket_of s) (ns @ ls) \<and> (\<forall>a. \<not> live s' a)"
proof -
  obtain s1 where s1: "drain Normal_head s = Some s1" "tables s1 Normal_head [] ls" "entry s1 = entry s"
    "closing s s1 (map (socket_of s) ns)"
    using drain_tables lists_ok_tables [OF l] by blast
  obtain s2 where s2: "drain Listen_head s1 = Some s2" "tables s2 Listen_head [] []" "entry s2 = entry s1"
    "closing s1 s2 (map (socket_of s1) ls)"
    using drain_tables [of s1 Listen_head ls "[]"] s1(2) by (auto simp: tables_Normal)
  note c = closing_fields [OF closing_trans [OF s1(4) s2(4)]] and so = entry_socket [OF s1(3)]
  have "\<forall>a. \<not> live s2 a" using s2(2) by (simp add: tables_def)
  then show ?thesis
    using s1(1) s2(1,2) c so by (auto simp: terminate_def lists_ok_def)
qed

lemma terminate_inv:
  assumes "sock_inv s" "recv_task_inst s"
  shows "\<exists>s'. terminate s = Some s' \<and> sock_inv s'"
proof -
  obtain ls ns where l: "lists_ok s ls ns" "listhead_is_inited s" using assms inv_lists by blast
  obtain s' where s': "terminate s = Some s'" "lists_ok s' [] []" "g_r_set s' = fd_zero"
    "recv_task_st s' = TASK_ST_Term" "\<not> recv_task_inst s'" "task_pc s' = No_task"
    "cmd_pc s' = cmd_pc s" "g_clr_set s' = g_clr_set s" "listhead_is_inited s'"
    using terminate_lists [OF l(1)] l(2) by auto
  have "control_ok s'"
    using assms s' lists_ok_qlen [OF s'(2)] inv_parts [OF assms(1)]
    by (simp add: control_ok_def selecting_def)
  then show ?thesis using s' tables_okI [OF s'(2)] by (simp add: sock_inv_def)
qed

text \<open>Before \<open>select\<close>.\<close>

lemma arm_tables:
  assumes l: "tables s Listen_head ls ns" and st: "recv_task_st s = TASK_ST_Running"
  shows "task_top s = (let m = (if ns = [] then max_sd s else max (max_sd s) (socket_of s (last ns)));
           m' = (if ls = [] then m else max m (socket_of s (last ls)))
         in Some (s\<lparr>g_clr_set := fd_zero, max_sd := m', task_pc := Selecting (m' + 1) (g_r_set s)\<rparr>))"
proof -
  let ?s = "s\<lparr>g_clr_set := fd_zero\<rparr>"
  define m where "m = (if ns = [] then max_sd s else max (max_sd s) (socket_of s (last ns)))"
  define m' where "m' = (if ls = [] then m else max m (socket_of s (last ls)))"
  have t: "tables ?s Normal_head ns ls" "tables (?s\<lparr>max_sd := m\<rparr>) Listen_head ls ns"
    using l by (simp_all add: tables_Normal)
  have "max_with Normal_head ?s = Some (?s\<lparr>max_sd := m\<rparr>)"
    unfolding m_def using max_with_refines [OF t(1)] by (cases "ns = []") simp_all
  moreover have "max_with Listen_head (?s\<lparr>max_sd := m\<rparr>) = Some (?s\<lparr>max_sd := m'\<rparr>)"
    unfolding m'_def using max_with_refines [OF t(2)] by (cases "ls = []") simp_all
  ultimately show ?thesis
    using st by (simp add: task_top_def update_max_sd_def Let_def flip: m_def) (simp add: m'_def)
qed

lemma top_inv:
  assumes inv: "sock_inv s" and pc: "task_pc s = Top"
  shows "\<exists>s'. task_top s = Some s' \<and> sock_inv s'"
proof (cases "recv_task_st s = TASK_ST_Running")
  case True
  have inst: "recv_task_inst s" using inv pc by (simp add: sock_inv_def control_ok_def)
  then obtain ls ns where l: "lists_ok s ls ns" "listhead_is_inited s" using inv inv_lists by blast
  obtain m where m: "task_top s = Some (s\<lparr>g_clr_set := fd_zero, max_sd := m, task_pc := Selecting (m + 1) (g_r_set s)\<rparr>)"
    (is "_ = Some ?t") using arm_tables [OF _ True] lists_ok_tables [OF l(1)] by (auto simp: Let_def)
  have "control_ok ?t"
    using inv pc True inst by (auto simp: sock_inv_def control_ok_def selecting_def)
  moreover have "tables_ok ?t" using inv by (simp add: sock_inv_def)
  ultimately show ?thesis using m by (simp add: sock_inv_def)
next
  case False
  have "recv_task_inst s" using inv pc by (simp add: sock_inv_def control_ok_def)
  with False show ?thesis using terminate_inv [OF inv] by (simp add: task_top_def)
qed

text \<open>After a timeout.\<close>

lemma fd_zero_has: "sd_ok k \<Longrightarrow> \<not> fd_has fd_zero k"
  using fd_zero_empty by blast

lemma timeout_lists:
  assumes l: "lists_ok s ls ns" and fd: "fd_ok (g_clr_set s)"
  shows "\<exists>s'. task_timeout s = (if recv_task_st s \<noteq> TASK_ST_Running then terminate s' else Some (s'\<lparr>task_pc := Top\<rparr>))
     \<and> lists_ok s' (filter (\<lambda>x. \<not> fd_has (g_clr_set s) (socket_of s x)) ls)
                   (filter (\<lambda>x. \<not> fd_has (g_clr_set s) (socket_of s x)) ns)
     \<and> entry s' = entry s
     \<and> closing s s' (map (socket_of s) (filter (\<lambda>x. fd_has (g_clr_set s) (socket_of s x)) (ls @ ns)))"
proof (cases "g_clr_set s = fd_zero")
  case True
  have none: "\<not> fd_has (g_clr_set s) (socket_of s x)" if "x \<in> set ls \<union> set ns" for x
    using True l that fd_zero_has by (auto simp: lists_ok_def)
  then have "filter (\<lambda>x. \<not> fd_has (g_clr_set s) (socket_of s x)) ls = ls"
    "filter (\<lambda>x. \<not> fd_has (g_clr_set s) (socket_of s x)) ns = ns"
    "filter (\<lambda>x. fd_has (g_clr_set s) (socket_of s x)) (ls @ ns) = []"
    by (auto simp: filter_id_conv filter_empty_conv)
  then show ?thesis using True l by (auto simp: task_timeout_def)
next
  case False
  let ?clr = "\<lambda>x. fd_has (g_clr_set s) (socket_of s x)"
  have t: "tables s Listen_head ([] @ ls) ns" using l by (simp add: lists_ok_def)
  obtain s1 where s1: "expire_loop Listen_head s (hd (ls @ [Listen_head])) = Some s1" "entry s1 = entry s"
    "tables s1 Listen_head (filter (\<lambda>x. \<not> ?clr x) ls) ns" "closing s s1 (map (socket_of s) (filter ?clr ls))"
    using expire_loop_tables [OF t fd] l by (auto simp: lists_ok_def)
  note so = entry_socket [OF s1(2)] and cf = closing_fields [OF s1(4)]
  have t1: "tables s1 Normal_head ([] @ ns) (filter (\<lambda>x. \<not> ?clr x) ls)" using s1(3) by (simp add: tables_Normal)
  obtain s2 where s2: "expire_loop Normal_head s1 (hd (ns @ [Normal_head])) = Some s2" "entry s2 = entry s1"
    "tables s2 Normal_head (filter (\<lambda>x. \<not> ?clr x) ns) (filter (\<lambda>x. \<not> ?clr x) ls)"
    "closing s1 s2 (map (socket_of s) (filter ?clr ns))"
    using expire_loop_tables [OF t1] fd cf l so by (auto simp: lists_ok_def)
  note cc = closing_trans [OF s1(4) s2(4)] and cf2 = closing_fields [OF s2(4)]
  have "lists_ok s2 (filter (\<lambda>x. \<not> ?clr x) ls) (filter (\<lambda>x. \<not> ?clr x) ns)"
    using s2(3) l entry_socket [OF s2(2)] so
    by (auto simp: lists_ok_def tables_Normal distinct_map_filter intro!: sorted_filter)
  then show ?thesis
    using False s1(1,2) s2(1,2) cc cf cf2 tables_first [OF t] tables_first [OF t1]
    by (intro exI [of _ s2]) (simp add: task_timeout_def)
qed

lemma timeout_inv:
  assumes inv: "sock_inv s" and pc: "selecting s"
  shows "\<exists>s'. task_timeout s = Some s' \<and> sock_inv s'"
proof -
  have inst: "recv_task_inst s" using inv pc by (auto simp: sock_inv_def control_ok_def selecting_def)
  then obtain ls ns where l: "lists_ok s ls ns" "listhead_is_inited s" using inv inv_lists by blast
  obtain s' ls' ns' where s': "task_timeout s = (if recv_task_st s \<noteq> TASK_ST_Running then terminate s' else Some (s'\<lparr>task_pc := Top\<rparr>))"
    "lists_ok s' ls' ns'" "\<exists>cs. closing s s' cs"
    using timeout_lists [OF l(1) inv_parts(2) [OF inv]] by blast
  then obtain cs where cf: "closing s s' cs" by blast
  note cf = closing_fields [OF cf]
  have "control_ok s'" using inv inst cf by (simp add: sock_inv_def control_ok_def selecting_def)
  moreover have "tables_ok s'" using tables_okI [OF s'(2)] cf l by simp
  ultimately have inv': "sock_inv s'" "recv_task_inst s'" using inst cf by (simp_all add: sock_inv_def)
  moreover have "sock_inv (s'\<lparr>task_pc := Top\<rparr>)" if "recv_task_st s = TASK_ST_Running"
  proof -
    have "cmd_pc s \<noteq> Waiting_term"
      using inv pc that by (auto simp: sock_inv_def control_ok_def TASK_ST_Running_def TASK_ST_Stop_def)
    then show ?thesis using inv' that cf by (simp add: sock_inv_def control_ok_def selecting_def)
  qed
  ultimately show ?thesis using s'(1) terminate_inv by simp
qed

text \<open>After \<open>select\<close> has reported descriptors.\<close>

lemma lists_ok_filter_N:
  assumes "lists_ok s ls ns" "tables s' Normal_head (filter P ns) ls" "entry s' = entry s"
  shows "lists_ok s' ls (filter P ns)"
  using assms entry_socket [OF assms(3)] by (auto simp: lists_ok_def tables_Normal distinct_map_filter intro!: sorted_filter)

definition after_accepts ::
  "socks \<Rightarrow> u8 list \<Rightarrow> (int \<Rightarrow> int \<times> nat option) \<Rightarrow> int list \<Rightarrow> (int \<times> int) list \<Rightarrow> (int \<times> int) list" where
  "after_accepts s r acc ks es = fold (one_accept (socket_of s Normal_head) acc)
     (filter (\<lambda>k. \<not> fd_has (g_clr_set s) k \<and> fd_has r k) ks) es"

lemma filter_map_entry: "filter (\<lambda>e. P (fst e)) (map (entry s) xs) = map (entry s) (filter (\<lambda>x. P (socket_of s x)) xs)"
  by (simp add: filter_map o_def)

lemma ready_lists:
  assumes l: "lists_ok s ls ns" and fd: "fd_ok (g_clr_set s)" "fd_ok (g_r_set s)" "fd_ok r"
    and acc: "accepts_ok s (set (listed s)) acc (map fst (entries s Listen_head))"
  shows "\<exists>s' ls' ns'. task_ready r acc rcv s = Some (s'\<lparr>task_pc := Top\<rparr>) \<and> lists_ok s' ls' ns'
     \<and> map (entry s') ls' = filter (\<lambda>e. \<not> fd_has (g_clr_set s) (fst e)) (map (entry s) ls)
     \<and> map (entry s') ns' = filter (\<lambda>e. \<not> gone_sd (g_clr_set s) r rcv (fst e))
         (after_accepts s r acc (map (socket_of s) ls) (map (entry s) ns))
     \<and> passing s s' (filter (fd_has (g_clr_set s)) (map (socket_of s) ls)
         @ filter (gone_sd (g_clr_set s) r rcv)
             (map fst (after_accepts s r acc (map (socket_of s) ls) (map (entry s) ns)))) \<and> fd_ok (g_r_set s')"
proof -
  let ?clr = "\<lambda>x. fd_has (g_clr_set s) (socket_of s x)"
  let ?gone = "gone_sd (g_clr_set s) r rcv"
  have t: "tables s Listen_head ls ns" using l by (simp add: lists_ok_def)
  have used: "set (listed s) = socket_of s ` set (ls @ ns)" "map fst (entries s Listen_head) = map (socket_of s) ls"
    using lists_ok_listed [OF l] lists_ok_nodes [OF l] by (auto simp: entries_def)
  obtain s1 ns1 where s1: "listen_loop r acc s None (hd (ls @ [Listen_head])) = Some s1"
    "lists_ok s1 (filter (\<lambda>x. \<not> ?clr x) ls) ns1"
    "map (entry s1) (filter (\<lambda>x. \<not> ?clr x) ls) = map (entry s) (filter (\<lambda>x. \<not> ?clr x) ls)"
    "map (entry s1) ns1 = after_accepts s r acc (map (socket_of s) ls) (map (entry s) ns)"
    "passing s s1 (map (socket_of s) (filter ?clr ls))" "fd_ok (g_r_set s1)"
    using listen_loop_lists [of s "[]" None ls ns r acc] l fd acc unfolding used after_accepts_def by auto
  note cf = passing_fields [OF s1(5)]
  have t1: "tables s1 Normal_head ([] @ pending None @ ns1) (filter (\<lambda>x. \<not> ?clr x) ls)"
    using s1(2) lists_ok_tables by simp
  have fd1: "fd_ok (g_clr_set s1)" "\<And>x. x \<in> set ns1 \<Longrightarrow> sd_ok (socket_of s1 x)"
    using cf fd s1(2) by (auto simp: lists_ok_def)
  obtain s2 where s2: "normal_loop r rcv s1 None (hd (ns1 @ [Normal_head])) = Some s2" "entry s2 = entry s1"
    "tables s2 Normal_head (filter (\<lambda>x. \<not> ?gone (socket_of s1 x)) ns1) (filter (\<lambda>x. \<not> ?clr x) ls)"
    "passing s1 s2 (map (socket_of s1) (filter (\<lambda>x. ?gone (socket_of s1 x)) ns1))" "fd_ok (g_r_set s2)"
    using normal_loop_tables [OF t1 fd1(1) s1(6) fd(3), of rcv] fd1(2) cf by auto
  have l2: "lists_ok s2 (filter (\<lambda>x. \<not> ?clr x) ls) (filter (\<lambda>x. \<not> ?gone (socket_of s1 x)) ns1)"
    by (rule lists_ok_filter_N [OF s1(2) s2(3,2)])
  let ?es = "after_accepts s r acc (map (socket_of s) ls) (map (entry s) ns)"
  have n: "map (entry s2) (filter (\<lambda>x. \<not> ?gone (socket_of s1 x)) ns1) = filter (\<lambda>e. \<not> ?gone (fst e)) ?es"
    using s2(2) by (simp add: filter_map_entry [of "\<lambda>k. \<not> ?gone k"] flip: s1(4))
  have m: "map (entry s2) (filter (\<lambda>x. \<not> ?clr x) ls) = filter (\<lambda>e. \<not> fd_has (g_clr_set s) (fst e)) (map (entry s) ls)"
    using s2(2) s1(3) by (simp add: filter_map_entry [of "\<lambda>k. \<not> fd_has (g_clr_set s) k"])
  have "filter ?gone (map fst ?es) = map (socket_of s1) (filter (\<lambda>x. ?gone (socket_of s1 x)) ns1)"
    "filter (fd_has (g_clr_set s)) (map (socket_of s) ls) = map (socket_of s) (filter ?clr ls)"
    by (simp_all add: filter_map o_def flip: s1(4))
  then have p: "passing s s2 (filter (fd_has (g_clr_set s)) (map (socket_of s) ls) @ filter ?gone (map fst ?es))"
    using passing_trans [OF s1(5) s2(4)] by simp
  have "task_ready r acc rcv s = Some (s2\<lparr>task_pc := Top\<rparr>)"
    using tables_first [OF t] tables_first [OF t1] s1(1) s2(1) by (simp add: task_ready_def)
  with l2 m n p s2(5) show ?thesis by blast
qed

lemma ready_inv:
  assumes inv: "sock_inv s" and pc: "selecting s" and r: "length r = length fd_zero"
    and acc: "accepts_ok s (set (listed s)) acc (map fst (entries s Listen_head))"
  shows "\<exists>s'. task_ready r acc rcv s = Some s' \<and> sock_inv s'"
proof -
  have inst: "recv_task_inst s" using inv pc by (auto simp: sock_inv_def control_ok_def selecting_def)
  then obtain ls ns where l: "lists_ok s ls ns" "listhead_is_inited s" using inv inv_lists by blast
  have "fd_ok r" using r by (simp add: fd_ok_def)
  then obtain s' ls' ns' cs where s': "task_ready r acc rcv s = Some (s'\<lparr>task_pc := Top\<rparr>)" "lists_ok s' ls' ns'"
    "passing s s' cs" "fd_ok (g_r_set s')"
    using ready_lists [OF l(1) inv_parts(2,1) [OF inv] _ acc, of r rcv] by blast
  note cf = passing_fields [OF s'(3)]
  have "control_ok (s'\<lparr>task_pc := Top\<rparr>)"
    using inv inst cf pc s'(4) by (simp add: sock_inv_def control_ok_def selecting_def)
  moreover have "tables_ok s'" using tables_okI [OF s'(2)] cf l by simp
  ultimately show ?thesis using s'(1) by (simp add: sock_inv_def)
qed

section \<open>Every run keeps the invariant\<close>

lemma step_inv:
  assumes "sock_inv s" "sock_enabled e s"
  shows "\<exists>s'. sock_step e s = Some s' \<and> sock_inv s'"
proof (cases e)
  case (Connect argv api)
  then show ?thesis using assms open_inv(1) [of s api argv] by auto
next
  case (Listen argv api)
  then show ?thesis using assms open_inv(2) [of s api argv] by auto
next
  case (Udp_create argv api)
  then show ?thesis using assms open_inv(3) [of s api argv] by auto
next
  case (Disconnect argv)
  then show ?thesis using assms close_inv [of s argv] by (auto simp: At_TCPDisconnect_def)
next
  case (Udp_close argv)
  then show ?thesis using assms close_inv [of s argv] by (auto simp: At_UDPClose_def)
next
  case (Unlisten argv)
  then show ?thesis using assms unlisten_inv [of s argv] by auto
next
  case (Tcp_send argv api)
  then show ?thesis using assms send_total(1) [of s argv api] by auto
next
  case (Udp_send argv api)
  then show ?thesis using assms send_total(2) [of s argv api] by auto
next
  case Delay_over
  then show ?thesis using assms chk_inv by simp
next
  case Poll
  then show ?thesis using assms poll_inv by simp
next
  case Start
  then show ?thesis using assms start_inv by simp
next
  case Loop_top
  then show ?thesis using assms top_inv by simp
next
  case Select_error
  then have "selecting s" using assms(2) by simp
  then have "recv_task_inst s" using assms(1) by (auto simp: selecting_def sock_inv_def control_ok_def)
  with Select_error show ?thesis using assms(1) terminate_inv by simp
next
  case Timeout
  then show ?thesis using assms timeout_inv by simp
next
  case (Ready_sds r acc rcv)
  then show ?thesis using assms ready_inv by simp
qed

lemma run_inv:
  "sock_inv s \<Longrightarrow> sock_runnable es s \<Longrightarrow> \<exists>s'. sock_run es s = Some s' \<and> sock_inv s'"
proof (induction es arbitrary: s)
  case (Cons e es)
  obtain s1 where s1: "sock_step e s = Some s1" "sock_inv s1"
    using step_inv [of s e] Cons.prems by auto
  have "sock_runnable es s1" using Cons.prems(2) s1(1) by simp
  then show ?case using Cons.IH [OF s1(2)] s1(1) by simp
qed simp

lemma boot_inv: "sock_inv (sock_boot b1 b2)"
  by (simp add: sock_inv_def tables_ok_def control_ok_def sock_boot_def selecting_def)

section \<open>Properties\<close>

text \<open>
  C2: Whatever commands are given and whatever the receive task is woken for, as long as the
  environment keeps to its rules, no step of the system reads or writes through a null pointer
  or a freed block or runs for ever; afterwards both tables are intact rings, hold exactly the
  blocks that are allocated, every descriptor once, and the control state is consistent.
\<close>

theorem sockets_run_safe:
  assumes "sock_runnable es (sock_boot behind behind2)"
  shows "\<exists>s. sock_run es (sock_boot behind behind2) = Some s \<and> tables_ok s \<and> control_ok s"
  using run_inv [OF boot_inv assms] by (simp add: sock_inv_def)

text \<open>A run that uses every kind of step.\<close>

definition api_example :: "int \<Rightarrow> nat \<Rightarrow> api" where
  "api_example k a = \<lparr>ap_socket = k, ap_connect = True, ap_bind = True, ap_listen = True,
     ap_malloc = Some a, ap_task = True, ap_send = 1\<rparr>"

definition run_example :: "event list" where
  "run_example =
    [Connect [''10.0.0.1'', ''80''] (api_example 0 100), Start, Loop_top,
     Listen [''8080''] (api_example 1 101), Timeout, Loop_top,
     Ready_sds [2] (\<lambda>_. (2, Some 102)) (\<lambda>_. ([], 0)), Loop_top,
     Disconnect [''0''], Delay_over, Timeout, Loop_top]"

lemma run_example_runnable: "sock_runnable run_example (sock_boot (\<lambda>_. 8) (\<lambda>_. 0))"
  by code_simp

theorem sockets_run_safe_witness:
  "\<exists>s. sock_run run_example (sock_boot (\<lambda>_. 8) (\<lambda>_. 0)) = Some s \<and> tables_ok s \<and> control_ok s"
  by (rule sockets_run_safe [OF run_example_runnable])

lemma entries_tables:
  "tables s Listen_head ls ns \<Longrightarrow> entries s Listen_head = map (entry s) ls \<and> entries s Normal_head = map (entry s) ns"
  using tables_nodes [of s Listen_head ls ns] by (simp add: entries_def)

lemma well_linkedE:
  assumes "well_linked s"
  obtains ls ns where "tables s Listen_head ls ns" "entries s Listen_head = map (entry s) ls"
    "entries s Normal_head = map (entry s) ns"
  using assms entries_tables by (auto simp: well_linked_def)

text \<open>
  C20: \<open>update_new_sd\<close>, on pointers, does to the list of connections what \<open>insert_entry\<close> does: the
  new entry goes behind the last smaller or equal descriptor; when it is larger than all of a
  non-empty list, the word behind the head of the list decides whether it goes last or first.
  The rings stay intact and the other table is unchanged.
\<close>

theorem update_new_sd_refines:
  assumes "well_linked s" "\<not> live s a" "length (entries s Normal_head) < 2 ^ 32 - 1"
  shows "\<exists>s'. update_new_sd (Some a) k i s = Some (0, s') \<and> well_linked s'
     \<and> entries s' Normal_head = insert_entry (socket_of s Normal_head) k i (entries s Normal_head)
     \<and> entries s' Listen_head = entries s Listen_head"
proof -
  obtain ls ns where t: "tables s Listen_head ls ns" "entries s Listen_head = map (entry s) ls"
    "entries s Normal_head = map (entry s) ns" using assms(1) by (rule well_linkedE)
  obtain s' ns' where s': "insert_sd Normal_head (Some a) k i s = Some (0, s')" "tables s' Normal_head ns' ls"
    "map (entry s') ns' = insert_entry (socket_of s Normal_head) k i (map (entry s) ns)"
    "map (entry s') ls = map (entry s) ls"
    using insert_sd_refines [of s Normal_head ns ls a k i] t(1,3) assms(2,3) by (auto simp: tables_Normal)
  have t': "tables s' Listen_head ls ns'" using s'(2) by (simp add: tables_Normal)
  show ?thesis
    using s' t(2,3) entries_tables [OF t'] well_linkedI [OF t'] by (simp add: update_new_sd_def)
qed

definition linked_example :: "int \<Rightarrow> socks" where
  "linked_example b = the (init_lists (sock_boot (\<lambda>_. b) (\<lambda>_. 0)))"

lemma linked_example_facts:
  "well_linked (linked_example b)" "live (linked_example b) a = False"
  "entries (linked_example b) qhd = []" "socket_of (linked_example b) Normal_head = b"
  by (simp_all add: linked_example_def init_lists_def list_q_init_def set_next_def set_prev_def sock_boot_def
      well_linked_def tables_def dll_def nodes_def entries_def)

theorem update_new_sd_refines_witness:
  "\<exists>s'. update_new_sd (Some 7) 3 (- 1) (linked_example 0) = Some (0, s') \<and> well_linked s'
     \<and> entries s' Normal_head = [(3, - 1)] \<and> entries s' Listen_head = []"
  using update_new_sd_refines [of "linked_example 0" 7 3 "- 1"]
  by (simp add: linked_example_facts insert_entry_def)

text \<open>
  The wrong order has a consequence. When the word behind \<open>g_normal_socket\<close> is not larger than
  a new descriptor that is the largest of all, the descriptor is put first, \<open>update_max_sd\<close> looks
  at the last entry, and \<open>select\<close> is called with a bound that excludes the new descriptor: what
  arrives on it is never read.
\<close>

lemma largest_descriptor_not_watched:
  assumes "well_linked s" "\<not> live s a" "length (entries s Normal_head) < 2 ^ 32 - 1"
    and "recv_task_st s = TASK_ST_Running" "entries s Normal_head \<noteq> []" "max_sd s < k"
    and "\<forall>e\<in>set (entries s Normal_head @ entries s Listen_head). fst e < k"
    and "socket_of s Normal_head \<le> k"
  shows "\<exists>s1 s2 n r. update_new_sd (Some a) k i s = Some (0, s1) \<and> task_top s1 = Some s2
     \<and> entries s2 Normal_head = (k, i) # entries s Normal_head
     \<and> task_pc s2 = Selecting n r \<and> n \<le> k"
proof -
  obtain ls ns where t: "tables s Listen_head ls ns" "entries s Listen_head = map (entry s) ls"
    "entries s Normal_head = map (entry s) ns" using assms(1) by (rule well_linkedE)
  obtain s' ns' where s': "insert_sd Normal_head (Some a) k i s = Some (0, s')" "tables s' Normal_head ns' ls"
    "map (entry s') ns' = insert_entry (socket_of s Normal_head) k i (map (entry s) ns)"
    "map (entry s') ls = map (entry s) ls" "frame s s'"
    using insert_sd_refines [of s Normal_head ns ls a k i] t(1,3) assms(2,3) by (auto simp: tables_Normal)
  have t': "tables s' Listen_head ls ns'" using s'(2) by (simp add: tables_Normal)
  have e: "map (entry s') ns' = (k, i) # map (entry s) ns"
    using s'(3) assms(5,7,8) t(3) by (simp add: insert_entry_end)
  have "map (socket_of s') ns' = map fst (map (entry s') ns')" by simp
  then have so: "map (socket_of s') ns' = k # map (socket_of s) ns" unfolding e by simp
  have "map (socket_of s') ls = map fst (map (entry s') ls)" by simp
  then have so': "map (socket_of s') ls = map (socket_of s) ls" unfolding s'(4) by simp
  have ne: "ns \<noteq> []" "ns' \<noteq> []" using assms(5) t(3) e by auto
  have "socket_of s' (last ns') = last (k # map (socket_of s) ns)" using ne so last_map by metis
  also have "\<dots> = socket_of s (last ns)" using ne by (simp add: last_map)
  also have "\<dots> < k"
  proof -
    have "entry s (last ns) \<in> set (entries s Normal_head @ entries s Listen_head)" using t(3) ne by simp
    then have "fst (entry s (last ns)) < k" using assms(7) by blast
    then show ?thesis by simp
  qed
  finally have "socket_of s' (last ns') < k" .
  moreover have "ls \<noteq> [] \<longrightarrow> socket_of s' (last ls) < k"
  proof
    assume l: "ls \<noteq> []"
    have "entry s (last ls) \<in> set (entries s Normal_head @ entries s Listen_head)" using t(2) l by simp
    then have "fst (entry s (last ls)) < k" using assms(7) by blast
    moreover have "socket_of s' (last ls) = socket_of s (last ls)"
      using so' l by (metis last_map)
    ultimately show "socket_of s' (last ls) < k" by simp
  qed
  moreover have "max_sd s' < k" "recv_task_st s' = TASK_ST_Running"
    using s'(5) assms(4,6) by (simp_all add: frame_def)
  ultimately obtain s2 m where s2: "task_top s' = Some s2" "m < k"
    "s2 = s'\<lparr>g_clr_set := fd_zero, max_sd := m, task_pc := Selecting (m + 1) (g_r_set s')\<rparr>"
    using arm_tables [OF t'] ne by (auto simp: Let_def)
  have "tables s2 Listen_head ls ns'" "entry s2 = entry s'" using t' s2(3) by simp_all
  then have "entries s2 Normal_head = (k, i) # entries s Normal_head"
    using entries_tables e t(3) by metis
  then show ?thesis using s'(1) s2 by (simp add: update_new_sd_def)
qed

text \<open>Concrete states, as runs leave them; \<open>b\<close> is the word behind the heads.\<close>

definition state_after :: "event list \<Rightarrow> int \<Rightarrow> socks" where
  "state_after es b = the (sock_run es (sock_boot (\<lambda>_. b) (\<lambda>_. 0)))"

lemma state_after_inv:
  assumes "sock_runnable es (sock_boot (\<lambda>_. b) (\<lambda>_. 0))"
  shows "sock_inv (state_after es b)"
  using run_inv [OF boot_inv assms] by (auto simp: state_after_def)

lemma inv_well_linked: "sock_inv s \<Longrightarrow> listhead_is_inited s \<Longrightarrow> well_linked s"
  by (auto simp: sock_inv_def tables_ok_def lists_ok_def well_linked_def)

definition one_connection :: "event list" where
  "one_connection = [Connect [''10.0.0.1'', ''80''] (api_example 0 100), Start]"

lemma one_connection_facts:
  "sock_runnable one_connection (sock_boot (\<lambda>_. 0) (\<lambda>_. 0))"
  "listhead_is_inited (state_after one_connection 0)" "\<not> live (state_after one_connection 0) 101"
  "entries (state_after one_connection 0) Normal_head = [(0, - 1)]"
  "entries (state_after one_connection 0) Listen_head = []"
  "recv_task_st (state_after one_connection 0) = TASK_ST_Running" "max_sd (state_after one_connection 0) = - 1"
  "socket_of (state_after one_connection 0) Normal_head = 0"
  by code_simp+

theorem largest_descriptor_not_watched_witness:
  "\<exists>s1 s2 n r. update_new_sd (Some 101) 1 (- 1) (state_after one_connection 0) = Some (0, s1)
     \<and> task_top s1 = Some s2 \<and> entries s2 Normal_head = [(1, - 1), (0, - 1)]
     \<and> task_pc s2 = Selecting n r \<and> n \<le> 1"
  using largest_descriptor_not_watched [of "state_after one_connection 0" 101 1 "- 1"]
    inv_well_linked [OF state_after_inv] one_connection_facts by simp

text \<open>
  When the words behind the two heads are larger than every descriptor, the tables stay in
  order, and each time the task goes round, \<open>select\<close> gets a bound above every descriptor listed.
\<close>

lemma all_descriptors_watched:
  assumes "sock_runnable es (sock_boot behind behind2)" "sock_run es (sock_boot behind behind2) = Some s"
    and "8 \<le> socket_of s Listen_head" "8 \<le> socket_of s Normal_head"
    and "task_pc s = Top" "recv_task_st s = TASK_ST_Running"
  shows "\<exists>s' n. task_top s = Some s' \<and> task_pc s' = Selecting n (g_r_set s) \<and> (\<forall>k\<in>set (listed s'). k < n)"
proof -
  have inv: "sock_inv s" using run_inv [OF boot_inv assms(1)] assms(2) by simp
  then have inst: "recv_task_inst s" using assms(5) by (simp add: sock_inv_def control_ok_def)
  obtain ls ns where l: "lists_ok s ls ns" using inv_lists [OF inv inst] by blast
  define m where "m = (if ns = [] then max_sd s else max (max_sd s) (socket_of s (last ns)))"
  define m' where "m' = (if ls = [] then m else max m (socket_of s (last ls)))"
  let ?t = "s\<lparr>g_clr_set := fd_zero, max_sd := m', task_pc := Selecting (m' + 1) (g_r_set s)\<rparr>"
  have t: "tables s Listen_head ls ns" using l by (simp add: lists_ok_def)
  have top: "task_top s = Some ?t" using arm_tables [OF t assms(6)] by (simp add: m'_def m_def Let_def)
  have lt: "lists_ok ?t ls ns" using l by simp
  have bound: "socket_of s x \<le> socket_of s (last xs)"
    if "sorted (map (socket_of s) xs)" "x \<in> set xs" for x xs
    using that by (induction xs) auto
  have "socket_of s x < m' + 1" if x: "x \<in> set (ls @ ns)" for x
  proof -
    have s: "sorted (map (socket_of s) ls)" "sorted (map (socket_of s) ns)"
      using l assms(3,4) by (simp_all add: lists_ok_def)
    have "x \<in> set ls \<Longrightarrow> socket_of s x \<le> m'"
      using bound [OF s(1)] by (cases ls) (auto simp: m'_def le_max_iff_disj)
    moreover have "x \<in> set ns \<Longrightarrow> socket_of s x \<le> m"
      using bound [OF s(2)] by (cases ns) (auto simp: m_def le_max_iff_disj)
    moreover have "m \<le> m'" by (simp add: m'_def)
    ultimately show ?thesis using x by auto
  qed
  then show ?thesis using top lists_ok_listed [OF lt] by auto
qed

definition two_connections :: "event list" where
  "two_connections = [Connect [''10.0.0.1'', ''80''] (api_example 0 100), Start, Loop_top,
     Connect [''10.0.0.1'', ''80''] (api_example 1 101), Timeout]"

lemma two_connections_facts:
  "sock_runnable two_connections (sock_boot (\<lambda>_. 8) (\<lambda>_. 0))"
  "task_pc (state_after two_connections 8) = Top" "cmd_pc (state_after two_connections 8) = Ready"
  "recv_task_st (state_after two_connections 8) = TASK_ST_Running"
  "8 \<le> socket_of (state_after two_connections 8) Listen_head"
  "8 \<le> socket_of (state_after two_connections 8) Normal_head"
  "g_r_set (state_after two_connections 8) = [3]"
  "entries (state_after two_connections 8) Normal_head = [(0, - 1), (1, - 1)]"
  "entries (state_after two_connections 8) Listen_head = []"
  "closed (state_after two_connections 8) = []"
  by code_simp+

lemma state_after_run:
  "sock_runnable es (sock_boot (\<lambda>_. b) (\<lambda>_. 0)) \<Longrightarrow> sock_run es (sock_boot (\<lambda>_. b) (\<lambda>_. 0)) = Some (state_after es b)"
  using run_inv [OF boot_inv] by (fastforce simp: state_after_def)

theorem all_descriptors_watched_witness:
  "\<exists>s' n. task_top (state_after two_connections 8) = Some s' \<and> task_pc s' = Selecting n [3]
     \<and> (\<forall>k\<in>set (listed s'). k < n)"
  using all_descriptors_watched [OF two_connections_facts(1) state_after_run [OF two_connections_facts(1)]]
    two_connections_facts by simp

text \<open>What \<open>AT+TCPDISCONNECT\<close> does before its delay.\<close>

lemma disconnect_effect:
  assumes inv: "sock_inv s" and k: "sd_ok (str_atoi t)" "fd_has (g_r_set s) (str_atoi t)"
    "str_atoi t \<in> fst ` set (entries s Normal_head)"
  shows "\<exists>f g. At_TCPDisconnect (t # ts) s
       = Some (ERROR_SUCCESS, s\<lparr>g_r_set := g, g_clr_set := f, cmd_pc := In_delay\<rparr>)
     \<and> fd_ok f \<and> fd_ok g \<and> recv_task_inst s
     \<and> (\<forall>m. sd_ok m \<longrightarrow> fd_has f m = (m = str_atoi t \<or> fd_has (g_clr_set s) m))
     \<and> (\<forall>m. sd_ok m \<longrightarrow> fd_has g m = (m \<noteq> str_atoi t \<and> fd_has (g_r_set s) m))"
proof -
  have "g_r_set s \<noteq> fd_zero" using k(1,2) fd_zero_has by metis
  then have inst: "recv_task_inst s" using inv_parts(3) [OF inv] by blast
  then obtain ls ns where l: "lists_ok s ls ns" using inv inv_lists by blast
  obtain g where g: "FD_CLR (str_atoi t) (g_r_set s) = Some g" "fd_ok g"
    "\<forall>m. sd_ok m \<longrightarrow> fd_has g m = (m \<noteq> str_atoi t \<and> fd_has (g_r_set s) m)"
    using FD_CLR_has [OF inv_parts(1) [OF inv] k(1)] by blast
  let ?s = "s\<lparr>g_r_set := g\<rparr>"
  have tb: "tables ?s Normal_head ns ls" using lists_ok_tables [OF l] by simp
  have ok: "sd_ok (socket_of ?s x)" if "x \<in> set ns" for x using l that by (simp add: lists_ok_def)
  have mem: "str_atoi t \<in> socket_of ?s ` set ns"
    using k(3) entries_tables [of s ls ns] l by (auto simp: lists_ok_def image_image)
  obtain f where f: "mark_rm_sd (str_atoi t) ?s = Some (str_atoi t, ?s\<lparr>g_clr_set := f\<rparr>)" "fd_ok f"
    "\<forall>m. sd_ok m \<longrightarrow> fd_has f m = (m = str_atoi t \<or> fd_has (g_clr_set s) m)"
    using mark_rm_sd_refines [OF tb _ ok, of "str_atoi t"] inv_parts(2) [OF inv] unfolding if_P [OF mem]
    by auto
  have "FD_ISSET (str_atoi t) (g_r_set s) = Some True" using k(2) by (simp add: fd_has_def)
  then show ?thesis
    using f g inst by (auto simp: At_TCPDisconnect_def close_command_def)
qed

lemma filter_eq_single: "distinct xs \<Longrightarrow> k \<in> set xs \<Longrightarrow> filter ((=) k) xs = [k]"
  by (induction xs) (auto simp: filter_empty_conv)

text \<open>If only \<open>k\<close> is marked, the entries to close are the connection with that descriptor.\<close>

lemma only_marked:
  assumes l: "lists_ok s ls ns" and k: "k \<in> socket_of s ` set ns" and f: "\<And>m. sd_ok m \<Longrightarrow> fd_has f m = (m = k)"
  shows "filter (\<lambda>x. \<not> fd_has f (socket_of s x)) ls = ls"
    "filter (\<lambda>x. \<not> fd_has f (socket_of s x)) ns = filter (\<lambda>x. socket_of s x \<noteq> k) ns"
    "map (socket_of s) (filter (\<lambda>x. fd_has f (socket_of s x)) (ls @ ns)) = [k]"
proof -
  have dist: "distinct (map (socket_of s) (ls @ ns))" and ok: "\<forall>x\<in>set (ls @ ns). sd_ok (socket_of s x)"
    using l by (simp_all add: lists_ok_def)
  have "k \<notin> socket_of s ` set ls" using dist k by auto
  then have ls: "\<forall>x\<in>set ls. socket_of s x \<noteq> k" by (metis imageI)
  show "filter (\<lambda>x. \<not> fd_has f (socket_of s x)) ls = ls" using ls ok f by (auto simp: filter_id_conv)
  show "filter (\<lambda>x. \<not> fd_has f (socket_of s x)) ns = filter (\<lambda>x. socket_of s x \<noteq> k) ns"
    using ok f by (auto intro: filter_cong)
  have "map (socket_of s) (filter (\<lambda>x. fd_has f (socket_of s x)) (ls @ ns)) = filter ((=) k) (map (socket_of s) (ls @ ns))"
    using ok f by (auto simp: filter_map o_def intro!: arg_cong2 [of _ _ _ _ "(@)"] arg_cong [of _ _ "map _"] filter_cong)
  also have "\<dots> = [k]" by (rule filter_eq_single [OF dist]) (use k in auto)
  finally show "map (socket_of s) (filter (\<lambda>x. fd_has f (socket_of s x)) (ls @ ns)) = [k]" .
qed

text \<open>
  C25: A connection that is disconnected while the task waits in \<open>select\<close> is closed at the next
  timeout: its descriptor is given to \<open>close\<close> once, its entry disappears, and all other entries
  of both tables stay, in their order.
\<close>

theorem disconnect_then_closed:
  assumes "sock_inv s" "selecting s" "cmd_pc s = Ready" "g_clr_set s = fd_zero"
    and "sd_ok (str_atoi t)" "fd_has (g_r_set s) (str_atoi t)" "str_atoi t \<in> fst ` set (entries s Normal_head)"
  shows "\<exists>s1 s2. At_TCPDisconnect [t] s = Some (ERROR_SUCCESS, s1) \<and> task_timeout s1 = Some s2
     \<and> closed s2 = closed s @ [str_atoi t] \<and> entries s2 Listen_head = entries s Listen_head
     \<and> entries s2 Normal_head = filter (\<lambda>e. fst e \<noteq> str_atoi t) (entries s Normal_head)"
proof -
  let ?k = "str_atoi t"
  obtain f g where fg: "At_TCPDisconnect [t] s
       = Some (ERROR_SUCCESS, s\<lparr>g_r_set := g, g_clr_set := f, cmd_pc := In_delay\<rparr>)" (is "_ = Some (_, ?s)")
    "fd_ok f" "recv_task_inst s" "\<forall>m. sd_ok m \<longrightarrow> fd_has f m = (m = ?k \<or> fd_has (g_clr_set s) m)"
    using disconnect_effect [OF assms(1,5-7)] by blast
  have f: "sd_ok m \<Longrightarrow> fd_has f m = (m = ?k)" for m using fg(4) assms(4) fd_zero_has by auto
  obtain ls ns where l: "lists_ok s ls ns" using inv_lists [OF assms(1) fg(3)] by blast
  have e: "entries s Listen_head = map (entry s) ls" "entries s Normal_head = map (entry s) ns"
    using entries_tables [of s ls ns] l by (simp_all add: lists_ok_def)
  have l': "lists_ok ?s ls ns" and fd: "fd_ok (g_clr_set ?s)" using l fg(2) by simp_all
  have run: "recv_task_st ?s = TASK_ST_Running"
    using assms(1-3) by (auto simp: sock_inv_def control_ok_def)
  have k: "?k \<in> socket_of s ` set ns" using assms(7) e by (simp add: image_image)
  obtain s' where s': "task_timeout ?s = Some (s'\<lparr>task_pc := Top\<rparr>)"
    "lists_ok s' ls (filter (\<lambda>x. socket_of s x \<noteq> ?k) ns)" "entry s' = entry s" "closing ?s s' [?k]"
    using timeout_lists [OF l' fd] run only_marked [OF l k f] by auto
  let ?s2 = "s'\<lparr>task_pc := Top\<rparr>"
  have "tables ?s2 Listen_head ls (filter (\<lambda>x. socket_of s x \<noteq> ?k) ns)" "entry ?s2 = entry s"
    using s'(2,3) by (simp_all add: lists_ok_def)
  then have "entries ?s2 Listen_head = entries s Listen_head"
    "entries ?s2 Normal_head = filter (\<lambda>e. fst e \<noteq> ?k) (entries s Normal_head)"
    using entries_tables [of ?s2 ls] e filter_map_entry [of "\<lambda>k. k \<noteq> ?k" s ns] by simp_all
  moreover have "closed ?s2 = closed s @ [?k]" using closing_fields [OF s'(4)] by simp
  ultimately show ?thesis using fg(1) s'(1) by blast
qed

definition two_selecting :: "event list" where "two_selecting = two_connections @ [Loop_top]"

lemma two_selecting_facts:
  "sock_runnable two_selecting (sock_boot (\<lambda>_. 8) (\<lambda>_. 0))"
  "selecting (state_after two_selecting 8)" "cmd_pc (state_after two_selecting 8) = Ready"
  "g_clr_set (state_after two_selecting 8) = fd_zero" "sd_ok (str_atoi ''1'')"
  "fd_has (g_r_set (state_after two_selecting 8)) (str_atoi ''1'')" "str_atoi ''1'' = 1"
  "entries (state_after two_selecting 8) Normal_head = [(0, - 1), (1, - 1)]"
  "entries (state_after two_selecting 8) Listen_head = []" "closed (state_after two_selecting 8) = []"
  by code_simp+

theorem disconnect_then_closed_witness:
  "\<exists>s1 s2. At_TCPDisconnect [''1''] (state_after two_selecting 8) = Some (ERROR_SUCCESS, s1)
     \<and> task_timeout s1 = Some s2 \<and> closed s2 = [1] \<and> entries s2 Listen_head = []
     \<and> entries s2 Normal_head = [(0, - 1)]"
  using disconnect_then_closed [OF state_after_inv [OF two_selecting_facts(1)] two_selecting_facts(2-6)]
  by (simp add: two_selecting_facts(7-10))

text \<open>
  A connection that is disconnected while the task is between two waits is not closed. The
  command answers with success, but the task clears the marks before it waits again, so the
  entry and the open descriptor stay; and as the descriptor has left \<open>g_r_set\<close>, nothing is
  received on it and a second attempt to disconnect it is refused.
\<close>

lemma disconnect_mark_lost:
  assumes "sock_inv s" "task_pc s = Top" "cmd_pc s = Ready" "recv_task_st s = TASK_ST_Running"
    and "sd_ok (str_atoi t)" "fd_has (g_r_set s) (str_atoi t)" "str_atoi t \<in> fst ` set (entries s Normal_head)"
  shows "\<exists>s1 s2 s3 s4. At_TCPDisconnect [t] s = Some (ERROR_SUCCESS, s1) \<and> task_top s1 = Some s2
     \<and> task_timeout s2 = Some s3 \<and> entries s3 Normal_head = entries s Normal_head \<and> closed s3 = closed s
     \<and> At_TCPDisconnect [t] s3 = Some (ERROR_INVALID_PARAMETER, s4)"
proof -
  let ?k = "str_atoi t"
  obtain f g where fg: "At_TCPDisconnect [t] s
       = Some (ERROR_SUCCESS, s\<lparr>g_r_set := g, g_clr_set := f, cmd_pc := In_delay\<rparr>)" (is "_ = Some (_, ?s)")
    "fd_ok g" "recv_task_inst s" "\<forall>m. sd_ok m \<longrightarrow> fd_has g m = (m \<noteq> ?k \<and> fd_has (g_r_set s) m)"
    using disconnect_effect [OF assms(1,5-7)] by blast
  obtain ls ns where l: "lists_ok s ls ns" using inv_lists [OF assms(1) fg(3)] by blast
  have e: "entries s Normal_head = map (entry s) ns"
    using entries_tables [of s ls ns] l by (simp add: lists_ok_def)
  have t1: "tables ?s Listen_head ls ns" and run: "recv_task_st ?s = TASK_ST_Running"
    using l assms(4) by (simp_all add: lists_ok_def)
  obtain m where m: "task_top ?s = Some (?s\<lparr>g_clr_set := fd_zero, max_sd := m, task_pc := Selecting (m + 1) g\<rparr>)"
    (is "_ = Some ?t") using arm_tables [OF t1 run] by (auto simp: Let_def)
  have tt: "task_timeout ?t = Some (?t\<lparr>task_pc := Top\<rparr>)" using assms(4) by (simp add: task_timeout_def)
  have t3: "tables (?t\<lparr>task_pc := Top\<rparr>) Listen_head ls ns" using l by (simp add: lists_ok_def)
  have "FD_ISSET ?k g = Some False"
    using FD_ISSET_has [OF fg(2) assms(5)] fg(4) assms(5) by auto
  then have "At_TCPDisconnect [t] (?t\<lparr>task_pc := Top\<rparr>) = Some (ERROR_INVALID_PARAMETER, ?t\<lparr>task_pc := Top\<rparr>)"
    by (simp add: At_TCPDisconnect_def close_command_def)
  moreover have "entries (?t\<lparr>task_pc := Top\<rparr>) Normal_head = entries s Normal_head"
    using entries_tables [OF t3] e by simp
  moreover have "closed (?t\<lparr>task_pc := Top\<rparr>) = closed s" by simp
  ultimately show ?thesis using fg(1) m tt by blast
qed

lemma two_connections_disconnect:
  "sd_ok (str_atoi ''1'')" "fd_has (g_r_set (state_after two_connections 8)) (str_atoi ''1'')"
  "str_atoi ''1'' \<in> fst ` set (entries (state_after two_connections 8) Normal_head)"
  by code_simp+

theorem disconnect_mark_lost_witness:
  "\<exists>s1 s2 s3 s4. At_TCPDisconnect [''1''] (state_after two_connections 8) = Some (ERROR_SUCCESS, s1)
     \<and> task_top s1 = Some s2 \<and> task_timeout s2 = Some s3
     \<and> entries s3 Normal_head = [(0, - 1), (1, - 1)] \<and> closed s3 = []
     \<and> At_TCPDisconnect [''1''] s3 = Some (ERROR_INVALID_PARAMETER, s4)"
  using disconnect_mark_lost [OF state_after_inv [OF two_connections_facts(1)] two_connections_facts(2-4)
    two_connections_disconnect] by (simp add: two_connections_facts(8,10))

text \<open>
  The wait in \<open>chk_socket_task\<close> ends: when a command waits for the task to end, the end of the
  current wait of the task (or of its current round) brings it about, both tables are then empty
  and no task is left.
\<close>

lemma waiting_command_returns:
  assumes "sock_runnable es (sock_boot behind behind2)" "sock_run es (sock_boot behind behind2) = Some s"
    and "cmd_pc s = Waiting_term"
  shows "\<exists>es' s'. length es' \<le> 2 \<and> set es' \<subseteq> {Timeout, Loop_top, Poll} \<and> sock_runnable es' s
     \<and> sock_run es' s = Some s' \<and> cmd_pc s' = Ready \<and> listed s' = [] \<and> \<not> recv_task_inst s'"
proof -
  have inv: "sock_inv s" using run_inv [OF boot_inv assms(1)] assms(2) by simp
  have empty: "listed s' = []" if "sock_inv s'" "\<not> recv_task_inst s'" for s'
    using inv_parts(3) [OF that(1)] that(2) by (simp add: listed_def entries_def nodes_def)
  text \<open>The task has ended: one round of polling is enough.\<close>
  have poll: "\<exists>s'. sock_runnable [Poll] u \<and> sock_run [Poll] u = Some s' \<and> cmd_pc s' = Ready \<and> listed s' = [] \<and> \<not> recv_task_inst s'"
    if "sock_inv u" "cmd_pc u = Waiting_term" "task_pc u = No_task" for u
  proof -
    note pu = that
    obtain s' where s': "chk_poll u = Some s'" "sock_inv s'" using poll_inv [OF pu(1,2)] by blast
    have u: "recv_task_st u = TASK_ST_Term" "\<not> recv_task_inst u"
      using pu by (auto simp: sock_inv_def control_ok_def)
    then have "cmd_pc s' = Ready" "\<not> recv_task_inst s'" using s'(1) by (auto simp: chk_poll_def)
    then show ?thesis using s' empty [OF s'(2)] pu(2) by (intro exI [of _ s']) simp
  qed
  text \<open>Otherwise its next step is the last one.\<close>
  have last: "\<exists>s'. sock_runnable [e, Poll] s \<and> sock_run [e, Poll] s = Some s' \<and> cmd_pc s' = Ready \<and> listed s' = [] \<and> \<not> recv_task_inst s'"
    if "sock_enabled e s" "sock_step e s = Some u" "cmd_pc u = Waiting_term" "task_pc u = No_task" for e u
  proof -
    have "sock_inv u" using step_inv [OF inv that(1)] that(2) by simp
    from poll [OF this that(3,4)] show ?thesis using that(1,2) by auto
  qed
  have stop: "task_pc s = Top \<or> selecting s \<Longrightarrow> recv_task_st s = TASK_ST_Stop \<and> recv_task_inst s"
    using inv assms(3) by (auto simp: sock_inv_def control_ok_def selecting_def)
  have st: "TASK_ST_Stop \<noteq> TASK_ST_Running" by (simp add: TASK_ST_Stop_def TASK_ST_Running_def)
  consider (none) "task_pc s = No_task" | (top) "task_pc s = Top" | (sel) "selecting s"
    using inv assms(3) by (cases "task_pc s") (auto simp: sock_inv_def control_ok_def selecting_def)
  then show ?thesis
  proof cases
    case none
    then show ?thesis using poll [OF inv assms(3)] by (intro exI [of _ "[Poll]"]) auto
  next
    case top
    obtain ls ns where l: "lists_ok s ls ns" using inv_lists [OF inv] stop top by blast
    obtain u where u: "terminate s = Some u" "task_pc u = No_task" "cmd_pc u = cmd_pc s"
      using terminate_lists [OF l] by blast
    have "task_top s = Some u" using u(1) stop top st by (simp add: task_top_def)
    then show ?thesis
      using last [of Loop_top u] top u assms(3) by (intro exI [of _ "[Loop_top, Poll]"]) auto
  next
    case sel
    obtain ls ns where l: "lists_ok s ls ns" using inv_lists [OF inv] stop sel by blast
    obtain v ls' ns' where v: "task_timeout s = (if recv_task_st s \<noteq> TASK_ST_Running then terminate v else Some (v\<lparr>task_pc := Top\<rparr>))"
      "lists_ok v ls' ns'" "\<exists>cs. closing s v cs"
      using timeout_lists [OF l inv_parts(2) [OF inv]] by blast
    obtain u where u: "terminate v = Some u" "task_pc u = No_task" "cmd_pc u = cmd_pc v"
      using terminate_lists [OF v(2)] by blast
    have "task_timeout s = Some u" using u(1) v(1) stop sel st by simp
    moreover have "cmd_pc v = cmd_pc s" using v(3) closing_fields by blast
    ultimately show ?thesis
      using last [of Timeout u] sel u assms(3) by (intro exI [of _ "[Timeout, Poll]"]) auto
  qed
qed

definition last_disconnect :: "event list" where
  "last_disconnect = one_connection @ [Loop_top, Disconnect [''0''], Delay_over]"

lemma last_disconnect_facts:
  "sock_runnable last_disconnect (sock_boot (\<lambda>_. 0) (\<lambda>_. 0))"
  "cmd_pc (state_after last_disconnect 0) = Waiting_term"
  by code_simp+

theorem waiting_command_returns_witness:
  "\<exists>es' s'. length es' \<le> 2 \<and> set es' \<subseteq> {Timeout, Loop_top, Poll} \<and> sock_runnable es' (state_after last_disconnect 0)
     \<and> sock_run es' (state_after last_disconnect 0) = Some s' \<and> cmd_pc s' = Ready \<and> listed s' = [] \<and> \<not> recv_task_inst s'"
  by (rule waiting_command_returns [OF last_disconnect_facts(1) state_after_run [OF last_disconnect_facts(1)]
        last_disconnect_facts(2)])

section \<open>Arguments that are no descriptors\<close>

text \<open>A descriptor outside the set is looked up behind it.\<close>

lemma disconnect_out_of_set:
  assumes "fd_ok (g_r_set s)" "str_atoi t \<ge> 8 \<or> str_atoi t \<le> - 8"
  shows "At_TCPDisconnect [t] s = None" "At_TCPSend [t, d] api s = None"
proof -
  have "FD_ISSET (str_atoi t) (g_r_set s) = None"
    using assms by (auto simp: FD_ISSET_def fd_byte_def fd_index_def fd_ok_single rd_def)
  then show "At_TCPDisconnect [t] s = None" "At_TCPSend [t, d] api s = None"
    by (simp_all add: At_TCPDisconnect_def close_command_def At_TCPSend_def)
qed

text \<open>A small negative number is taken for the descriptor with the same residue: the set loses that
  descriptor, and no entry of the table is marked.\<close>

lemma FD_alias:
  assumes "- 8 < k" "k < 0" "fd_ok f"
  shows "FD_ISSET k f = FD_ISSET (k + 8) f" "FD_CLR k f = FD_CLR (k + 8) f"
  using assms fd_byte_single [of k] fd_byte_single [of "k + 8"]
  by (auto simp: fd_ok_single FD_ISSET_def FD_CLR_def fd_bit_def)

text \<open>A connection that is accepted when no memory is left stays open, without an entry.\<close>

lemma accept_without_memory:
  "fork \<noteq> - 1 \<Longrightarrow> accept_on (\<lambda>_. (fork, None)) k s = Some s"
  by (simp add: accept_on_def update_new_sd_def update_new_NULL)

end
