(* ===== verification/AtEnv.thy ===== *)
theory AtEnv
  imports AtCmd Printf CLib
begin

text \<open>
  What the handlers of the AT commands in \<open>projects/mac_atcmd/src/cli/atcmd.c\<close> work on: the
  variables of that file, the calls of the binary libraries (radio, Wi-Fi, GPIO, PWM, efuse) with
  their arguments at the widths of the prototypes, and the console output.

  A call of a library appends to a log. What the library answers is the environment: a function
  of the calls made before and of the call itself. \<open>ret\<close> is the return value; \<open>outs\<close> are the values
  written through pointer arguments, in their order (a missing value is not written). The libraries are
  taken not to write the variables of the state; the one that exists to do so,
  \<open>set_temper_value\<close>, has its effect as a function of the environment.
\<close>

definition ERROR_MEMORY_FAILED :: int where "ERROR_MEMORY_FAILED = - 11"
definition ERROR_WIFI_CONNECTION :: int where "ERROR_WIFI_CONNECTION = - 4"
definition ERROR_NOT_IMPLEMENT :: int where "ERROR_NOT_IMPLEMENT = - 2"
definition ERROR_SUCCESS_NO_RSP :: int where "ERROR_SUCCESS_NO_RSP = 1"

section \<open>Data\<close>

record st_tempe_table =
  band_gain :: "u8 list"
  freq_xi :: u8
  freq_xo :: u8
  ldo_rxafe :: u8
  ldo_dcdcv :: u8
  ldo_dldov :: u8
  pa_vcas1 :: u8
  pa_vcas2 :: u8
  pa_vcas3 :: u8
  pa_bias :: u8
  pa_cap :: u8
  padpd_cali :: u8

record st_rate_gain =
  rate1 :: u8
  rate2 :: u8
  rate3 :: u8
  rate4 :: u8

record st_tempe_5g_table =
  bbscale_band0 :: u8
  bbscale_band1 :: u8
  bbscale_band2 :: u8
  bbscale_band3 :: u8
  bias1 :: u32
  bias2 :: u32

record st_rf_table =
  rt_config :: st_tempe_table
  ht_config :: st_tempe_table
  lt_config :: st_tempe_table
  rf_gain :: u8
  rate_gain_b :: u8
  rate_config_g :: st_rate_gain
  rate_config_20n :: st_rate_gain
  rate_config_40n :: st_rate_gain
  low_boundary :: "8 word"
  high_boundary :: "8 word"
  rt_5g_config :: st_tempe_5g_table
  ht_5g_config :: st_tempe_5g_table
  lt_5g_config :: st_tempe_5g_table
  band_f0_threshold :: u16
  band_f1_threshold :: u16
  band_f2_threshold :: u16

record softap_config =
  start_ip :: u32
  end_ip :: u32
  gw :: u32
  subnet :: u32
  max_sta_num :: "8 word"
  encryt_mode :: "8 word"
  keylen :: "8 word"
  key :: buf
  channel :: u8
  beacon_interval :: "16 word"
  ssid_length :: "8 word"
  ssid :: buf

record ap_info =
  name :: buf
  name_len :: u8
  mac :: "u8 list"
  ap_channel :: u8
  security_type :: u8
  security_subType :: u8
  rssi :: u8

section \<open>Library calls\<close>

datatype (plugins only: code) rf_call =
    Rf_tx_start int int | Rf_tx_stop | Rf_rx_reset | Rf_set_ch int u8 u32 | Rf_set_rate int
  | Rf_enable_tcsr u8 | Rf_bmode_count | Rf_gmode_count | Rf_manu_padpd_cali
  | Rf_freqoffset_readxi | Rf_freqoffset_readxo | Rf_tone_gen u8
  | Get_current_temperature | Get_current_tempe_state "8 word" "8 word" | Dump_rf_table
  | Save_rf_table_to_flash st_rf_table | Set_temper_value u8 u8
  | Write_reg_band_gain u8 | Write_reg_rf_gain u8 | Write_reg_rate_gain_b u8
  | Write_reg_rate_gain_g st_rate_gain u8 | Write_reg_rate_gain_20n st_rate_gain u8
  | Write_reg_rate_gain_40n st_rate_gain u8 | Write_reg_padpd_cali u8
  | Write_reg_freq_xi_xo u8 u8 u8 | Write_reg_2gpa u8 u8 u8 u8 u32 | Write_reg_2gpa_cell u8
  | Write_reg_2gpa_cap u8 | Write_reg_rxafe u8 | Write_reg_dcdc u8 | Write_reg_ldo u8 u8 u32
  | Write_reg_xoldo u8 | Write_reg_rxpad_ch13 u8 | Write_reg_tempe_table st_tempe_table
  | Write_reg_5g_bbscale_5100 u8 | Write_reg_5g_bbscale_5500 u8 | Write_reg_5g_bbscale_5700 u8
  | Write_reg_5g_bbscale_5900 u8 | Write_reg_5g_bias1 u32 | Write_reg_5g_bias2 u32
  | Write_reg_tempe_5g_table st_tempe_5g_table | Write_reg_5g_three_bias u32 u32 u32
  | Write_reg_5g_band_threshold u16 u16 u16

datatype (plugins only: code) wifi_call =
    Wifi_cfg_init | Wifi_cfg_replace_mem_addr1 string | Wifi_cfg_replace_mem_addr2 string
  | Wifi_cfg_write_cfg | Wifi_cfg_deinit | Wifi_cfg_get_addr1 | Wifi_cfg_get_addr2
  | Efuse_write_mac "u8 list" | Efuse_read_mac
  | DUT_wifi_start u8 | Get_DUT_wifi_mode | Softap_exit | Softap_set_custom_conf softap_config
  | Homekit_softap_start | Dbg_dump_ip string u32
  | Scan_AP | Wifi_connect | Wifi_connect_2 u8 | Wifi_disconnect | Wifi_disconnect_2 u8
  | Wifi_connect_active string u8 "string option" u8 | GetAvailableIndex
  | Set_wifi_config string u8 "string option" u8 "u8 list option"
  | Set_wifi_config_3 u8 string u8 "string option" u8 "u8 list option" u8
  | Set_if_config u8 u32 u32 u32 u32 | Set_if_config_2 u8 u8 u32 u32 u32 u32
  | Get_wifi_status | Get_wifi_status_2 u8
  | Ota_set_server int string int | Ota_set_parameter string string | Ota_update

datatype (plugins only: code) io_call =
    Drv_gpio_set_mode int int | Drv_gpio_set_dir int int | Drv_gpio_set_pull int int
  | Drv_gpio_set_logic int int | Drv_gpio_get_logic int | Drv_gpio_intc_trigger_mode int int
  | Drv_gpio_register_isr int | Drv_gpio_intc_clear int
  | Drv_pwm_init u8 | Drv_pwm_config u8 u32 u32 u8 | Drv_pwm_enable u8 | Drv_pwm_disable u8
  | Drv_wdt_init | Drv_wdt_enable u16
  | Config_channel int | Set_auto_connect_flag u8 | Wifi_set_fix_drate u8 u8 | Wifi_set_rc_mask u16
  | Drv_mac_hw_queue_status | Drv_mac_mib_on | Drv_mac_mib_off | Drv_mac_mib_reset
  | Drv_mac_mib_tx | Drv_mac_mib_rx

datatype (plugins only: code) at_call = Rf rf_call | Wifi wifi_call | Io io_call

record at_env =
  ret :: "at_call list \<Rightarrow> at_call \<Rightarrow> int"
  outs :: "at_call list \<Rightarrow> at_call \<Rightarrow> int list"
  set_temper :: "u8 \<Rightarrow> u8 \<Rightarrow> st_rf_table \<Rightarrow> st_rf_table"

record at_st =
  ssv_rf_table :: st_rf_table
  bEfuseEnableWrite :: bool
  gpio_intc_id :: u8
  gpio_intc_mode :: u8
  ap_list :: "ap_info list"
  calls :: "at_call list"
  console :: string

type_synonym handler = "at_env \<Rightarrow> string list \<Rightarrow> at_st \<Rightarrow> (int \<times> at_st) option"

section \<open>Elementary steps\<close>

definition call :: "at_env \<Rightarrow> at_call \<Rightarrow> at_st \<Rightarrow> int \<times> at_st" where
  "call e c s = (ret e (calls s) c, s\<lparr>calls := calls s @ [c]\<rparr>)"

abbreviation run_call :: "at_env \<Rightarrow> at_call \<Rightarrow> at_st \<Rightarrow> at_st" where
  "run_call e c s \<equiv> snd (call e c s)"

text \<open>The \<open>k\<close>-th value written through the pointer arguments of a call, over the old one.\<close>

definition out_value :: "at_env \<Rightarrow> at_st \<Rightarrow> at_call \<Rightarrow> nat \<Rightarrow> int \<Rightarrow> int" where
  "out_value e s c k old = (let vs = outs e (calls s) c in if k < length vs then vs ! k else old)"

text \<open>\<open>printf\<close> of a format, as the pieces of \<open>Printf\<close>: the text reaches the console with a carriage
  return before each line feed.\<close>

abbreviation LF :: char where "LF \<equiv> CHR 0x0A"

definition print :: "piece list \<Rightarrow> at_st \<Rightarrow> at_st" where
  "print ps s = s\<lparr>console := console s @ crlf (concat (map piece_text ps))\<rparr>"

abbreviation nl :: "at_st \<Rightarrow> at_st" where "nl s \<equiv> print [Lit [LF]] s"

abbreviation line :: "string \<Rightarrow> piece" where "line t \<equiv> Lit (t @ [LF])"

abbreviation dec :: "u32 \<Rightarrow> piece" where "dec v \<equiv> Num False False 0 (CHR ''d'') v"

abbreviation dec8 :: "u8 \<Rightarrow> piece" where "dec8 v \<equiv> dec (ucast v)"

text \<open>A list of pieces with commas between them.\<close>

fun commas :: "piece list \<Rightarrow> piece list" where
  "commas [] = []"
| "commas [p] = [p]"
| "commas (p # ps) = p # Lit '','' # commas ps"

text \<open>The first \<open>n\<close> arguments; a missing one is a null pointer that the code would read through.\<close>

definition arguments :: "string list \<Rightarrow> nat \<Rightarrow> string list option" where
  "arguments argv n = (if n \<le> length argv then Some (take n argv) else None)"

abbreviation int8 :: "string \<Rightarrow> u8" where "int8 t \<equiv> word_of_int (atoi t)"

text \<open>A handler that checks for one argument and passes it to one library call.\<close>

definition one_call :: "(string \<Rightarrow> at_call) \<Rightarrow> handler" where
  "one_call c e argv s =
     (if length argv < 1 then Some (ERROR_INVALID_PARAMETER, s)
      else do { a \<leftarrow> rd argv 0; Some (call e (c a) s) })"

section \<open>Facts about the steps\<close>

named_theorems at_step

lemma call_proj [at_step]:
  "fst (call e c s) = ret e (calls s) c" "snd (call e c s) = s\<lparr>calls := calls s @ [c]\<rparr>"
  by (simp_all add: call_def)

lemma print_sel [at_step, simp]:
  "ssv_rf_table (print ps s) = ssv_rf_table s" "bEfuseEnableWrite (print ps s) = bEfuseEnableWrite s"
  "gpio_intc_id (print ps s) = gpio_intc_id s" "gpio_intc_mode (print ps s) = gpio_intc_mode s"
  "ap_list (print ps s) = ap_list s" "calls (print ps s) = calls s"
  "console (print ps s) = console s @ crlf (concat (map piece_text ps))"
  by (simp_all add: print_def)

lemma call_sel [at_step, simp]:
  "ssv_rf_table (snd (call e c s)) = ssv_rf_table s"
  "bEfuseEnableWrite (snd (call e c s)) = bEfuseEnableWrite s"
  "gpio_intc_id (snd (call e c s)) = gpio_intc_id s" "gpio_intc_mode (snd (call e c s)) = gpio_intc_mode s"
  "ap_list (snd (call e c s)) = ap_list s" "calls (snd (call e c s)) = calls s @ [c]"
  "console (snd (call e c s)) = console s" "fst (call e c s) = ret e (calls s) c"
  by (simp_all add: call_def)

lemma case_call [at_step]: "(case call e c s of (r, s') \<Rightarrow> f r s') = f (ret e (calls s) c) (snd (call e c s))"
  by (simp add: call_def)

lemma call_pair [at_step]: "call e c s = (r, s') \<longleftrightarrow> r = ret e (calls s) c \<and> s' = snd (call e c s)"
  by (auto simp: call_def)

lemma arguments_Some [at_step]: "n \<le> length argv \<Longrightarrow> arguments argv n = Some (take n argv)"
  by (simp add: arguments_def)

lemma arguments_eq: "arguments argv n = Some a \<longleftrightarrow> n \<le> length argv \<and> a = take n argv"
  by (auto simp: arguments_def)

lemma arguments_None: "arguments argv n = None \<longleftrightarrow> length argv < n"
  by (auto simp: arguments_def)

lemma one_call_eq:
  "one_call c e argv s =
    Some (if argv = [] then (ERROR_INVALID_PARAMETER, s) else call e (c (hd argv)) s)"
  by (cases argv) (auto simp: one_call_def rd_def)

text \<open>Texts without a line feed print as they are.\<close>

lemma crlf_plain: "LF \<notin> set t \<Longrightarrow> crlf t = t"
  by (induction t) (auto simp: crlf_def)

lemma crlf_append [simp]: "crlf (a @ b) = crlf a @ crlf b"
  by (simp add: crlf_def)

lemma crlf_LF [simp]: "crlf [] = []" "crlf (LF # t) = CHR 0x0D # LF # crlf t"
  by (simp_all add: crlf_def)

lemma commas_text: "concat (map piece_text (commas ps)) = join (CHR '','') (map piece_text ps)"
  by (induction ps rule: commas.induct) simp_all

end
