(* ===== verification/AtRf.thy ===== *)
theory AtRf
  imports AtEnv
begin

text \<open>
  The radio commands of \<open>projects/mac_atcmd/src/cli/atcmd.c\<close> (lines 449 to 1272 and 1490 to
  1756): register writes, and the calibration table \<open>ssv_rf_table\<close> that the \<open>AT+RF_TABLE\<close> and
  \<open>AT+RF_5GTABLE\<close> commands show, change and save. Every change goes to the driver first and is
  stored only if the driver accepts it. \<open>At_RfSingleTone\<close> is declared \<open>void\<close> and called as if it
  returned a code; it is not modelled.
\<close>

section \<open>Single registers\<close>

definition At_RadioRFStart :: handler where
  "At_RadioRFStart e argv s =
     do { let s = nl s; a \<leftarrow> arguments argv 2;
          Some (call e (Rf (Rf_tx_start (atoi (a ! 0)) (atoi (a ! 1)))) s) }"

definition NL80211_CHAN_HT20 :: u32 where "NL80211_CHAN_HT20 = 1"
definition NL80211_CHAN_HT40MINUS :: u32 where "NL80211_CHAN_HT40MINUS = 2"
definition NL80211_CHAN_HT40PLUS :: u32 where "NL80211_CHAN_HT40PLUS = 3"

definition At_RadioChannel :: handler where
  "At_RadioChannel e argv s =
     do { let s = nl s;
          a0 \<leftarrow> rd argv 0;
          let ch = atoi a0;
          if length argv < 1 then Some (ERROR_INVALID_PARAMETER, s)
          else do {
            a1 \<leftarrow> rd argv 1;
            let ch_type = (if a1 = ''+'' then NL80211_CHAN_HT40PLUS
                           else if a1 = ''-'' then NL80211_CHAN_HT40MINUS else NL80211_CHAN_HT20);
            Some (call e (Rf (Rf_set_ch ch 0 ch_type)) s) } }"

definition At_RadioRFRate :: handler where
  "At_RadioRFRate e argv s = one_call (\<lambda>a. Rf (Rf_set_rate (atoi a))) e argv (nl s)"

definition At_RadioRFBandGain :: handler where
  "At_RadioRFBandGain e argv s = one_call (\<lambda>a. Rf (Write_reg_band_gain (int8 a))) e argv (nl s)"

definition At_RadioRFGain :: handler where
  "At_RadioRFGain e argv s = one_call (\<lambda>a. Rf (Write_reg_rf_gain (int8 a))) e argv (nl s)"

definition zero_rate :: st_rate_gain where
  "zero_rate = \<lparr>rate1 = 0, rate2 = 0, rate3 = 0, rate4 = 0\<rparr>"

text \<open>The four sub-rates of one mode: which argument text sets which field with which flag.\<close>

definition sub_rate ::
  "(st_rate_gain \<Rightarrow> u8 \<Rightarrow> rf_call) \<Rightarrow> string \<Rightarrow> string \<Rightarrow> string \<Rightarrow> string \<Rightarrow>
   string \<Rightarrow> u8 \<Rightarrow> at_env \<Rightarrow> at_st \<Rightarrow> int \<times> at_st" where
  "sub_rate c n1 n2 n3 n4 a0 gain e s =
     (if a0 = n1 then call e (Rf (c (zero_rate\<lparr>rate1 := gain\<rparr>) 8)) s
      else if a0 = n2 then call e (Rf (c (zero_rate\<lparr>rate2 := gain\<rparr>) 4)) s
      else if a0 = n3 then call e (Rf (c (zero_rate\<lparr>rate3 := gain\<rparr>) 2)) s
      else if a0 = n4 then call e (Rf (c (zero_rate\<lparr>rate4 := gain\<rparr>) 1)) s
      else (ERROR_NOT_IMPLEMENT, s))"

definition c_prefix :: "string \<Rightarrow> string \<Rightarrow> bool" where
  "c_prefix p t \<longleftrightarrow> take (length p) t = p"

definition At_RadioRFRateGain :: handler where
  "At_RadioRFRateGain e argv s =
     (let s = nl s in
      if length argv < 1 then Some (ERROR_INVALID_PARAMETER, s)
      else do {
        a1 \<leftarrow> rd argv 1;
        let gain = int8 a1;
        a0 \<leftarrow> rd argv 0;
        let s = print [Lit ''argv0 = '', Str a0, line '', ''] s;
        Some (if c_prefix ''b'' a0
              then call e (Rf (Write_reg_rate_gain_b gain)) (print [line ''set b mode''] s)
              else if c_prefix ''g'' a0
              then sub_rate Write_reg_rate_gain_g ''g6'' ''g12'' ''g24'' ''g48'' a0 gain e
                     (print [line ''set g mode''] s)
              else if c_prefix ''20n'' a0
              then sub_rate Write_reg_rate_gain_20n ''20n0'' ''20n1'' ''20n3'' ''20n5'' a0 gain e
                     (print [line ''set 20n mode''] s)
              else if c_prefix ''40n'' a0
              then sub_rate Write_reg_rate_gain_40n ''40n0'' ''40n1'' ''40n3'' ''40n5'' a0 gain e
                     (print [line ''set 40n mode''] s)
              else (ERROR_NOT_IMPLEMENT, s)) })"

definition At_RadioRFReadTempcs :: handler where
  "At_RadioRFReadTempcs e argv s =
     (let s = nl s; c = Rf Get_current_temperature;
          v = out_value e s c 0 0; s = run_call e c s
      in Some (ERROR_SUCCESS, print [Lit ''temperature = '', dec (word_of_int v), line ''''] s))"

definition At_RadioRFStop :: handler where
  "At_RadioRFStop e argv s = Some (call e (Rf Rf_tx_stop) (nl s))"

definition At_RadioRFReset :: handler where
  "At_RadioRFReset e argv s = Some (call e (Rf Rf_rx_reset) (nl s))"

definition At_RadioRFCount :: handler where
  "At_RadioRFCount e argv s =
     (let s = nl s in
      if length argv < 1 then Some (ERROR_INVALID_PARAMETER, s)
      else do {
        a0 \<leftarrow> rd argv 0;
        let b = (atoi a0 = 1);
        let s = print [line (if b then ''B Mode Count:'' else ''G/N Mode Count:'')] s;
        let c = Rf (if b then Rf_bmode_count else Rf_gmode_count);
        let total = out_value e s c 0 0;
        let err = out_value e s c 1 0;
        let s = run_call e c s;
        let s = print [Lit (''crc count = '' @ [CHR 0x27]), dec (word_of_int err), line [CHR 0x27]] s;
        Some (ERROR_SUCCESS, print [Lit (''total count = '' @ [CHR 0x27]), dec (word_of_int total), line [CHR 0x27]] s) })"

definition At_RadioEnableTCSR :: handler where
  "At_RadioEnableTCSR e argv s = one_call (\<lambda>a. Rf (Rf_enable_tcsr (int8 a))) e argv (nl s)"

definition At_RadioRFDump :: handler where
  "At_RadioRFDump e argv s = Some (ERROR_SUCCESS, run_call e (Rf Dump_rf_table) (nl s))"

definition At_RfCaliDPD :: handler where
  "At_RfCaliDPD e argv s = one_call (\<lambda>a. Rf (Write_reg_padpd_cali (int8 a))) e argv (nl s)"

definition At_RfManuDPD :: handler where
  "At_RfManuDPD e argv s = Some (call e (Rf Rf_manu_padpd_cali) (nl s))"

definition At_RadioRFFreqoffset :: handler where
  "At_RadioRFFreqoffset e argv s =
     one_call (\<lambda>a. Rf (Write_reg_freq_xi_xo (int8 a) (int8 a) 3)) e argv (nl s)"

definition At_RadioRFFreqoffset_readxi :: handler where
  "At_RadioRFFreqoffset_readxi e argv s =
     (let s = nl s; c = Rf Rf_freqoffset_readxi; v = out_value e s c 0 0; (r, s) = call e c s
      in Some (r, print [Lit ''AT+RF_FREQOFFSET_READXI='', dec (word_of_int v), line ''''] s))"

definition At_RadioRFFreqoffset_readxo :: handler where
  "At_RadioRFFreqoffset_readxo e argv s =
     (let s = nl s; c = Rf Rf_freqoffset_readxo; v = out_value e s c 0 0; (r, s) = call e c s
      in Some (r, print [Lit ''AT+RF_FREQOFFSET_READXO='', dec (word_of_int v), line ''''] s))"

definition At_RadioRF2Gpa1 :: handler where
  "At_RadioRF2Gpa1 e argv s = one_call (\<lambda>a. Rf (Write_reg_2gpa (int8 a) 0 0 0 8)) e argv (nl s)"

definition At_RadioRF2Gpa2 :: handler where
  "At_RadioRF2Gpa2 e argv s = one_call (\<lambda>a. Rf (Write_reg_2gpa 0 (int8 a) 0 0 4)) e argv (nl s)"

definition At_RadioRF2Gpa3 :: handler where
  "At_RadioRF2Gpa3 e argv s = one_call (\<lambda>a. Rf (Write_reg_2gpa 0 0 (int8 a) 0 2)) e argv (nl s)"

definition At_RadioRF2GpaBias :: handler where
  "At_RadioRF2GpaBias e argv s = one_call (\<lambda>a. Rf (Write_reg_2gpa 0 0 0 (int8 a) 1)) e argv (nl s)"

definition At_RadioRF2GpaCell :: handler where
  "At_RadioRF2GpaCell e argv s = one_call (\<lambda>a. Rf (Write_reg_2gpa_cell (int8 a))) e argv (nl s)"

definition At_RadioRF2GpaCap :: handler where
  "At_RadioRF2GpaCap e argv s = one_call (\<lambda>a. Rf (Write_reg_2gpa_cap (int8 a))) e argv (nl s)"

definition At_RadioRFLdo :: handler where
  "At_RadioRFLdo e argv s = one_call (\<lambda>a. Rf (Write_reg_rxafe (int8 a))) e argv (nl s)"

definition At_RadioRFDcdc :: handler where
  "At_RadioRFDcdc e argv s = one_call (\<lambda>a. Rf (Write_reg_dcdc (int8 a))) e argv (nl s)"

definition At_RadioRFDcdcv :: handler where
  "At_RadioRFDcdcv e argv s = one_call (\<lambda>a. Rf (Write_reg_ldo (int8 a) 0 2)) e argv (nl s)"

definition At_RadioRFDldov :: handler where
  "At_RadioRFDldov e argv s = one_call (\<lambda>a. Rf (Write_reg_ldo 0 (int8 a) 1)) e argv (nl s)"

definition At_RadioRFXoldo :: handler where
  "At_RadioRFXoldo e argv s = one_call (\<lambda>a. Rf (Write_reg_xoldo (int8 a))) e argv (nl s)"

definition At_RadioRFRxPadCh13 :: handler where
  "At_RadioRFRxPadCh13 e argv s = one_call (\<lambda>a. Rf (Write_reg_rxpad_ch13 (int8 a))) e argv (nl s)"

text \<open>\<open>save_rf_table_to_flash\<close> stores the table as it is; the call carries it.\<close>

definition save_rf :: "at_env \<Rightarrow> at_st \<Rightarrow> at_st" where
  "save_rf e s = run_call e (Rf (Save_rf_table_to_flash (ssv_rf_table s))) s"

definition At_RadioRFTempBoundary :: handler where
  "At_RadioRFTempBoundary e argv s =
     (let s = nl s in
      if length argv < 1 then Some (ERROR_INVALID_PARAMETER, s)
      else do {
        a \<leftarrow> arguments argv 2;
        let low = int8 (a ! 0);
        let high = int8 (a ! 1);
        let s = run_call e (Rf (Set_temper_value low high)) s;
        let s = s\<lparr>ssv_rf_table := set_temper e low high (ssv_rf_table s)\<rparr>;
        Some (ERROR_SUCCESS, save_rf e s) })"

section \<open>The table of the 2.4 GHz band\<close>

definition temp_state :: "at_st \<Rightarrow> at_call" where
  "temp_state s = Rf (Get_current_tempe_state (low_boundary (ssv_rf_table s)) (high_boundary (ssv_rf_table s)))"

text \<open>\<open>printf ("%s=%d,...\n")\<close> of the values of a row.\<close>

definition print_row :: "string \<Rightarrow> piece list \<Rightarrow> at_st \<Rightarrow> at_st" where
  "print_row nm ps s = print (Str nm # Lit ''='' # commas ps @ [Lit [LF]]) s"

definition tempe_values :: "st_tempe_table \<Rightarrow> u8 list" where
  "tempe_values t = map ((!) (band_gain t)) [0..<7] @ [freq_xi t, freq_xo t, ldo_rxafe t, ldo_dcdcv t, ldo_dldov t,
     pa_vcas1 t, pa_vcas2 t, pa_vcas3 t, pa_bias t, pa_cap t, padpd_cali t]"

definition tempe_of :: "string list \<Rightarrow> st_tempe_table" where
  "tempe_of a = \<lparr>band_gain = map int8 (take 7 a), freq_xi = int8 (a ! 7), freq_xo = int8 (a ! 8),
     ldo_rxafe = int8 (a ! 9), ldo_dcdcv = int8 (a ! 10), ldo_dldov = int8 (a ! 11),
     pa_vcas1 = int8 (a ! 12), pa_vcas2 = int8 (a ! 13), pa_vcas3 = int8 (a ! 14), pa_bias = int8 (a ! 15),
     pa_cap = int8 (a ! 16), padpd_cali = int8 (a ! 17)\<rparr>"

text \<open>
  The registers are written only in the temperature state \<open>st\<close> that the row is for; a row that the
  driver refuses is not stored.
\<close>

definition store_row ::
  "at_env \<Rightarrow> int \<Rightarrow> at_call \<Rightarrow> (st_rf_table \<Rightarrow> st_rf_table) \<Rightarrow> at_st \<Rightarrow> int \<times> at_st" where
  "store_row e st c put s =
     (let (t, s) = call e (temp_state s) s;
          (r, s) = (if t = st then call e c s else (ERROR_SUCCESS, s))
      in if r \<noteq> 0 then (r, s) else (r, save_rf e (s\<lparr>ssv_rf_table := put (ssv_rf_table s)\<rparr>)))"

definition tempe_row_command ::
  "string \<Rightarrow> int \<Rightarrow> (st_rf_table \<Rightarrow> st_tempe_table) \<Rightarrow>
   (st_tempe_table \<Rightarrow> st_rf_table \<Rightarrow> st_rf_table) \<Rightarrow> handler" where
  "tempe_row_command nm st get put e argv s =
     (let s = nl s in
      if length argv < 1 then Some (ERROR_INVALID_PARAMETER, s)
      else do {
        a0 \<leftarrow> rd argv 0;
        if a0 = ''?''
        then Some (ERROR_SUCCESS, print_row nm (map dec8 (tempe_values (get (ssv_rf_table s)))) s)
        else do {
          a \<leftarrow> arguments argv 18;
          let cfg = tempe_of a;
          Some (store_row e st (Rf (Write_reg_tempe_table cfg)) (put cfg) s) } })"

definition At_RfTableRT :: handler where
  "At_RfTableRT = tempe_row_command ''AT+RF_TABLE_RT'' 0 rt_config (\<lambda>c t. t\<lparr>rt_config := c\<rparr>)"

definition At_RfTableHT :: handler where
  "At_RfTableHT = tempe_row_command ''AT+RF_TABLE_HT'' 1 ht_config (\<lambda>c t. t\<lparr>ht_config := c\<rparr>)"

definition At_RfTableLT :: handler where
  "At_RfTableLT = tempe_row_command ''AT+RF_TABLE_LT'' 2 lt_config (\<lambda>c t. t\<lparr>lt_config := c\<rparr>)"

text \<open>Gains without a temperature state: one library call, then store and save.\<close>

definition store_gain ::
  "at_env \<Rightarrow> at_call \<Rightarrow> (st_rf_table \<Rightarrow> st_rf_table) \<Rightarrow> at_st \<Rightarrow> int \<times> at_st" where
  "store_gain e c put s =
     (let (r, s) = call e c s
      in if r \<noteq> 0 then (r, s) else (r, save_rf e (s\<lparr>ssv_rf_table := put (ssv_rf_table s)\<rparr>)))"

definition gain_command ::
  "(st_rf_table \<Rightarrow> piece list) \<Rightarrow> nat \<Rightarrow> (string list \<Rightarrow> at_call) \<Rightarrow>
   (string list \<Rightarrow> st_rf_table \<Rightarrow> st_rf_table) \<Rightarrow> handler" where
  "gain_command show n c put e argv s =
     (let s = nl s in
      if length argv < 1 then Some (ERROR_INVALID_PARAMETER, s)
      else do {
        a0 \<leftarrow> rd argv 0;
        if a0 = ''?'' then Some (ERROR_SUCCESS, print (show (ssv_rf_table s)) s)
        else do { a \<leftarrow> arguments argv n; Some (store_gain e (c a) (put a) s) } })"

definition At_RfTableGain :: handler where
  "At_RfTableGain = gain_command (\<lambda>t. [Lit ''RF Gain = '', dec8 (rf_gain t), line '''']) 1
     (\<lambda>a. Rf (Write_reg_rf_gain (int8 (a ! 0)))) (\<lambda>a t. t\<lparr>rf_gain := int8 (a ! 0)\<rparr>)"

definition At_RfTableBRateGain :: handler where
  "At_RfTableBRateGain = gain_command (\<lambda>t. [Lit ''B Mode Rate Gain = '', dec8 (rate_gain_b t), line '''']) 1
     (\<lambda>a. Rf (Write_reg_rate_gain_b (int8 (a ! 0)))) (\<lambda>a t. t\<lparr>rate_gain_b := int8 (a ! 0)\<rparr>)"

definition rate_of :: "string list \<Rightarrow> st_rate_gain" where
  "rate_of a = \<lparr>rate1 = int8 (a ! 0), rate2 = int8 (a ! 1), rate3 = int8 (a ! 2), rate4 = int8 (a ! 3)\<rparr>"

definition show_rate :: "string \<Rightarrow> st_rate_gain \<Rightarrow> piece list" where
  "show_rate t r = Lit t # commas (map dec8 [rate1 r, rate2 r, rate3 r, rate4 r]) @ [Lit [LF]]"

definition At_RfTableGRateGain :: handler where
  "At_RfTableGRateGain = gain_command (\<lambda>t. show_rate ''G Mode Rate Gain = '' (rate_config_g t)) 4
     (\<lambda>a. Rf (Write_reg_rate_gain_g (rate_of a) 0xf)) (\<lambda>a t. t\<lparr>rate_config_g := rate_of a\<rparr>)"

definition At_RfTable20NRateGain :: handler where
  "At_RfTable20NRateGain = gain_command (\<lambda>t. show_rate ''20N Mode Rate Gain = '' (rate_config_20n t)) 4
     (\<lambda>a. Rf (Write_reg_rate_gain_20n (rate_of a) 0xf)) (\<lambda>a t. t\<lparr>rate_config_20n := rate_of a\<rparr>)"

definition At_RfTable40NRateGain :: handler where
  "At_RfTable40NRateGain = gain_command (\<lambda>t. show_rate ''40N Mode Rate Gain = '' (rate_config_40n t)) 4
     (\<lambda>a. Rf (Write_reg_rate_gain_40n (rate_of a) 0xf)) (\<lambda>a t. t\<lparr>rate_config_40n := rate_of a\<rparr>)"

section \<open>The 5 GHz band\<close>

definition At_Rf5GBBScale :: handler where
  "At_Rf5GBBScale e argv s =
     (let s = nl s in
      if length argv < 4 then Some (ERROR_INVALID_PARAMETER, s)
      else do {
        a \<leftarrow> arguments argv 4;
        let (r, s) = call e (Rf (Write_reg_5g_bbscale_5100 (int8 (a ! 0)))) s;
        if r \<noteq> 0 then Some (- 1, s) else do {
        let (r, s) = call e (Rf (Write_reg_5g_bbscale_5500 (int8 (a ! 1)))) s;
        if r \<noteq> 0 then Some (- 1, s) else do {
        let (r, s) = call e (Rf (Write_reg_5g_bbscale_5700 (int8 (a ! 2)))) s;
        if r \<noteq> 0 then Some (- 1, s) else do {
        let (r, s) = call e (Rf (Write_reg_5g_bbscale_5900 (int8 (a ! 3)))) s;
        if r \<noteq> 0 then Some (- 1, s) else Some (ERROR_SUCCESS, s) } } } })"

definition At_Rf5GBias1 :: handler where
  "At_Rf5GBias1 e argv s = one_call (\<lambda>a. Rf (Write_reg_5g_bias1 (strtoul a 16))) e argv (nl s)"

definition At_Rf5GBias2 :: handler where
  "At_Rf5GBias2 e argv s = one_call (\<lambda>a. Rf (Write_reg_5g_bias2 (strtoul a 16))) e argv (nl s)"

text \<open>The handlers of the 5 GHz table read \<open>argv[0]\<close> before they look at \<open>argc\<close>.\<close>

definition row_5g_command ::
  "string \<Rightarrow> (st_rf_table \<Rightarrow> piece list) \<Rightarrow> nat \<Rightarrow>
   (at_env \<Rightarrow> string list \<Rightarrow> at_st \<Rightarrow> int \<times> at_st) \<Rightarrow> handler" where
  "row_5g_command nm show n set_row e argv s =
     do { let s = nl s;
          a0 \<leftarrow> rd argv 0;
          if a0 = ''?'' then Some (ERROR_SUCCESS, print_row nm (show (ssv_rf_table s)) s)
          else if length argv < n then Some (ERROR_INVALID_PARAMETER, s)
          else do { a \<leftarrow> arguments argv n; Some (set_row e a s) } }"

definition bbscales :: "st_tempe_5g_table \<Rightarrow> u8 list" where
  "bbscales c = [bbscale_band0 c, bbscale_band1 c, bbscale_band2 c, bbscale_band3 c]"

definition scaled :: "string list \<Rightarrow> st_tempe_5g_table \<Rightarrow> st_tempe_5g_table" where
  "scaled a c = \<lparr>bbscale_band0 = int8 (a ! 0), bbscale_band1 = int8 (a ! 1), bbscale_band2 = int8 (a ! 2),
     bbscale_band3 = int8 (a ! 3), bias1 = bias1 c, bias2 = bias2 c\<rparr>"

definition At_Rf5GTableRT :: handler where
  "At_Rf5GTableRT = row_5g_command ''AT+RF_5GTABLE_RT'' (\<lambda>t. map dec8 (bbscales (rt_5g_config t))) 4
     (\<lambda>e a s. let cfg = scaled a (rt_5g_config (ssv_rf_table s)) in
        store_row e 0 (Rf (Write_reg_tempe_5g_table cfg)) (\<lambda>t. t\<lparr>rt_5g_config := cfg\<rparr>) s)"

definition At_Rf5GTableHT :: handler where
  "At_Rf5GTableHT = row_5g_command ''AT+RF_5GTABLE_HT'' (\<lambda>t. map dec8 (bbscales (ht_5g_config t))) 4
     (\<lambda>e a s. let cfg = scaled a (ht_5g_config (ssv_rf_table s)) in
        store_row e 1 (Rf (Write_reg_tempe_5g_table cfg)) (\<lambda>t. t\<lparr>ht_5g_config := cfg\<rparr>) s)"

definition At_Rf5GTableLT :: handler where
  "At_Rf5GTableLT = row_5g_command ''AT+RF_5GTABLE_LT'' (\<lambda>t. map dec8 (bbscales (lt_5g_config t))) 4
     (\<lambda>e a s. let cfg = scaled a (lt_5g_config (ssv_rf_table s)) in
        store_row e 2 (Rf (Write_reg_tempe_5g_table cfg)) (\<lambda>t. t\<lparr>lt_5g_config := cfg\<rparr>) s)"

text \<open>One field in the rows for the three temperatures.\<close>

definition put_bias1 :: "u32 \<Rightarrow> u32 \<Rightarrow> u32 \<Rightarrow> st_rf_table \<Rightarrow> st_rf_table" where
  "put_bias1 r h l t = t\<lparr>rt_5g_config := rt_5g_config t\<lparr>bias1 := r\<rparr>,
     ht_5g_config := ht_5g_config t\<lparr>bias1 := h\<rparr>, lt_5g_config := lt_5g_config t\<lparr>bias1 := l\<rparr>\<rparr>"

definition put_bias2 :: "u32 \<Rightarrow> u32 \<Rightarrow> u32 \<Rightarrow> st_rf_table \<Rightarrow> st_rf_table" where
  "put_bias2 r h l t = t\<lparr>rt_5g_config := rt_5g_config t\<lparr>bias2 := r\<rparr>,
     ht_5g_config := ht_5g_config t\<lparr>bias2 := h\<rparr>, lt_5g_config := lt_5g_config t\<lparr>bias2 := l\<rparr>\<rparr>"

definition biases :: "(st_tempe_5g_table \<Rightarrow> u32) \<Rightarrow> st_rf_table \<Rightarrow> u32 list" where
  "biases f t = [f (rt_5g_config t), f (ht_5g_config t), f (lt_5g_config t)]"

text \<open>\<open>%s=0x%x,0x%x,0x%x\<close>.\<close>

fun hex_commas :: "u32 list \<Rightarrow> piece list" where
  "hex_commas [] = []"
| "hex_commas [v] = [Lit ''0x'', Num False False 0 (CHR ''x'') v]"
| "hex_commas (v # vs) = Lit ''0x'' # Num False False 0 (CHR ''x'') v # Lit '','' # hex_commas vs"

definition bias_command ::
  "string \<Rightarrow> (st_tempe_5g_table \<Rightarrow> u32) \<Rightarrow> (u32 \<Rightarrow> u32 \<Rightarrow> u32 \<Rightarrow> st_rf_table \<Rightarrow> st_rf_table) \<Rightarrow> handler" where
  "bias_command nm f put e argv s =
     do { let s = nl s;
          a0 \<leftarrow> rd argv 0;
          if a0 = ''?''
          then Some (ERROR_SUCCESS,
            print (Str nm # Lit ''='' # hex_commas (biases f (ssv_rf_table s)) @ [Lit [LF]]) s)
          else if length argv < 3 then Some (ERROR_INVALID_PARAMETER, s)
          else do {
            a \<leftarrow> arguments argv 3;
            let r = strtoul (a ! 0) 16;
            let h = strtoul (a ! 1) 16;
            let l = strtoul (a ! 2) 16;
            Some (store_gain e (Rf (Write_reg_5g_three_bias r h l)) (put r h l) s) } }"

definition At_Rf5GTableBIAS1 :: handler where
  "At_Rf5GTableBIAS1 = bias_command ''AT+RF_5GTABLE_BIAS1'' bias1 put_bias1"

definition At_Rf5GTableBIAS2 :: handler where
  "At_Rf5GTableBIAS2 = bias_command ''AT+RF_5GTABLE_BIAS2'' bias2 put_bias2"

definition thresholds :: "st_rf_table \<Rightarrow> u16 list" where
  "thresholds t = [band_f0_threshold t, band_f1_threshold t, band_f2_threshold t]"

definition put_thresholds :: "u16 \<Rightarrow> u16 \<Rightarrow> u16 \<Rightarrow> st_rf_table \<Rightarrow> st_rf_table" where
  "put_thresholds f0 f1 f2 t = t\<lparr>band_f0_threshold := f0, band_f1_threshold := f1, band_f2_threshold := f2\<rparr>"

abbreviation ulong16 :: "string \<Rightarrow> u16" where "ulong16 t \<equiv> ucast (strtoul t 10)"

definition At_Rf5GBandThreshold :: handler where
  "At_Rf5GBandThreshold = row_5g_command ''AT+RF_5GTABLE_BAND_THRESHOLD''
     (\<lambda>t. map (\<lambda>v. dec (ucast v)) (thresholds t)) 3
     (\<lambda>e a s. store_gain e
        (Rf (Write_reg_5g_band_threshold (ulong16 (a ! 0)) (ulong16 (a ! 1)) (ulong16 (a ! 2))))
        (put_thresholds (ulong16 (a ! 0)) (ulong16 (a ! 1)) (ulong16 (a ! 2))) s)"

end
