(* ===== verification/AtRows.thy ===== *)
theory AtRows
  imports AtRf
begin

text \<open>
  The rows of the calibration table as an interface: a command that prints a row for \<open>?\<close> and sets it
  from its arguments. The locale holds what the nine commands of this shape promise; its lemma is
  that a printed row, typed as a command, restores the row.
\<close>

section \<open>Printed numbers read back\<close>

definition digit_text :: "nat list \<Rightarrow> string" where
  "digit_text ds = map (digit_char False) ds"

lemma code_digit: "d < 10 \<Longrightarrow> code (digit_char up d) = 48 + int d"
  using of_char_digit [of d up] by (metis of_nat_add of_nat_numeral of_nat_of_char)

lemma digits_value_text:
  "\<forall>d \<in> set ds. d < 10 \<Longrightarrow> digits_value i (digit_text ds) = foldl (\<lambda>a d. a * 10 + int d) i ds"
  by (induction ds arbitrary: i) (simp_all add: digit_text_def code_digit)

lemma of_char_hex: "d < 16 \<Longrightarrow> of_char (digit_char False d) = (if d < 10 then 48 + d else 87 + d)"
  by (simp add: digit_char_def)

lemma digit_of_digit: "d < 16 \<Longrightarrow> digit_of (digit_char False d) = d"
  by (simp add: digit_of_def of_char_hex Let_def)

lemma digit_char_neq: "d < 16 \<Longrightarrow> of_char c < (48 :: nat) \<or> of_char c = (63 :: nat) \<Longrightarrow> digit_char False d \<noteq> c"
  using of_char_hex [of d] by (auto split: if_splits)

lemma radix_value_text:
  "\<forall>d \<in> set ds. d < b \<Longrightarrow> b \<le> 16 \<Longrightarrow>
   radix_value b i (digit_text ds) = foldl (\<lambda>a d. a * b + d) i ds"
  by (induction ds arbitrary: i) (simp_all add: digit_text_def digit_of_digit)

lemma no_space_digit:
  assumes "d < 16"
  shows "\<not> is_space (digit_char False d) \<and> digit_char False d \<noteq> CHR ''-'' \<and> digit_char False d \<noteq> CHR ''+''"
proof -
  have "code (digit_char False d) = int (of_char (digit_char False d))"
    by (simp only: of_nat_of_char)
  with of_char_hex [OF assms] have "48 \<le> code (digit_char False d)" by simp
  with is_space_digit digit_char_neq [OF assms] show ?thesis by simp
qed

text \<open>A word that is neither empty nor a question mark and holds no separator.\<close>

definition arg_word :: "string \<Rightarrow> bool" where
  "arg_word w \<longleftrightarrow> w \<noteq> [] \<and> set w \<inter> set [CHR '','', CHR ''?'', NUL, LF] = {}"

lemma arg_word_digits: "ds \<noteq> [] \<Longrightarrow> \<forall>d \<in> set ds. d < 16 \<Longrightarrow> arg_word (digit_text ds)"
  by (auto simp: arg_word_def digit_text_def digit_char_neq dest: sym)

definition base_text :: "nat \<Rightarrow> nat \<Rightarrow> string" where
  "base_text b n = digit_text (rev (rev_digits b n))"

lemma base_text_digits: "1 < b \<Longrightarrow> d \<in> set (rev (rev_digits b n)) \<Longrightarrow> d < b"
  using rev_digits_less by auto

lemma decimal_base: "decimal n = base_text 10 n"
  by (simp add: decimal_def base_text_def digit_text_def)

lemma base_text_Cons:
  assumes "1 < b" "b \<le> 16"
  obtains d ds where "rev (rev_digits b n) = d # ds" "d < 16" "base_text b n = digit_char False d # digit_text ds"
proof -
  obtain d ds where e: "rev (rev_digits b n) = d # ds" by (cases "rev (rev_digits b n)") auto
  with base_text_digits [OF assms(1), of d n] assms(2) have "d < 16" by simp
  with e that show ?thesis by (simp add: base_text_def digit_text_def)
qed

lemma arg_word_base: "1 < b \<Longrightarrow> b \<le> 16 \<Longrightarrow> arg_word (base_text b n)"
  unfolding base_text_def using base_text_digits [of b _ n] by (intro arg_word_digits) fastforce+

lemma str_atoi_decimal: "str_atoi (decimal n) = int n"
proof -
  obtain d ds where d: "rev (rev_digits 10 n) = d # ds" "d < 16" "base_text 10 n = digit_char False d # digit_text ds"
    by (rule base_text_Cons [of 10 n]) auto
  have "str_atoi (decimal n) = digits_value 0 (digit_text (rev (rev_digits 10 n)))"
    using no_space_digit [OF d(2)] by (simp add: str_atoi_def decimal_base d(3)) (simp add: d(1) digit_text_def)
  also have "\<dots> = int n"
    using foldl_digits [of 10 n, where ?'a = int] base_text_digits [of 10 _ n]
    by (subst digits_value_text) auto
  finally show ?thesis .
qed

lemma atoi_decimal: "n < 2 ^ 31 \<Longrightarrow> atoi (decimal n) = int n"
  by (simp add: atoi_int str_atoi_decimal INT_MIN_def INT_MAX_def)

lemma radix_value_base:
  assumes "1 < b" "b \<le> 16"
  shows "radix_value b 0 (base_text b n) = n"
proof -
  have "radix_value b 0 (base_text b n) = foldl (\<lambda>a d. a * b + d) 0 (rev (rev_digits b n))"
    unfolding base_text_def using base_text_digits [OF assms(1)] assms(2) by (intro radix_value_text) auto
  with foldl_digits [OF assms(1), of n, where ?'a = nat] show ?thesis by simp
qed

lemma strtoul_decimal:
  assumes "n < 2 ^ 32"
  shows "strtoul (decimal n) 10 = of_nat n"
proof -
  obtain d ds where d: "d < 16" "base_text 10 n = digit_char False d # digit_text ds"
    by (rule base_text_Cons [of 10 n]) auto
  have "strtoul (decimal n) 10 = ulong_of False (radix_value 10 0 (skip_0x 10 (base_text 10 n)))"
    using no_space_digit [OF d(1)] by (simp add: strtoul_def decimal_base d(2))
  moreover have "skip_0x 10 t = t" for t by (simp add: skip_0x_def split: list.splits)
  ultimately show ?thesis using radix_value_base [of 10 n] assms by (simp add: ulong_of_def)
qed

lemma strtoul_hex:
  assumes "n < 2 ^ 32"
  shows "strtoul (''0x'' @ base_text 16 n) 16 = of_nat n"
proof -
  obtain d ds where d: "d < 16" "base_text 16 n = digit_char False d # digit_text ds"
    by (rule base_text_Cons [of 16 n]) auto
  have "skip_0x 16 (''0x'' @ base_text 16 n) = base_text 16 n"
    using d digit_of_digit [OF d(1)] by (simp add: skip_0x_def)
  then have "strtoul (''0x'' @ base_text 16 n) 16 = ulong_of False (radix_value 16 0 (base_text 16 n))"
    by (simp add: strtoul_def is_space_def)
  with radix_value_base [of 16 n] assms show ?thesis by (simp add: ulong_of_def)
qed

text \<open>The texts of the pieces that the row commands print.\<close>

lemma dec_text: "unat v < 2 ^ 31 \<Longrightarrow> piece_text (dec v) = decimal (unat v)"
proof -
  assume "unat v < 2 ^ 31"
  then have "\<not> bit (unat v) 31" by (simp add: bit_iff_odd)
  then have "\<not> bit v 31" by (simp add: bit_unsigned_iff)
  then have "\<not> sint v < 0" by (simp flip: bit_last_iff)
  then have "\<not> v <s 0" by (simp add: word_sless_alt)
  then show ?thesis
    by (simp add: num_field_def num_neg_def num_digits_def conv_radix_def decimal_def)
qed


lemma dec_text_small: "LENGTH('a::len) < 32 \<Longrightarrow> piece_text (dec (ucast (v :: 'a word))) = decimal (unat v)"
proof -
  assume l: "LENGTH('a) < 32"
  have u: "unat v < 2 ^ LENGTH('a)" by (rule unsigned_less)
  also have "(2 :: nat) ^ LENGTH('a) \<le> 2 ^ 31" using l by (intro power_increasing) auto
  finally have "unat v < 2 ^ 31" .
  moreover have "unat (ucast v :: u32) = unat v"
    using \<open>unat v < 2 ^ 31\<close> by (simp add: unsigned_ucast_eq take_bit_nat_eq_self_iff)
  ultimately show ?thesis using dec_text [of "ucast v"] by simp
qed

lemma int8_decimal: "int8 (decimal (unat v)) = v"
proof -
  have "unat v < 2 ^ 8" using unsigned_less [of v, where ?'a = nat] by simp
  then show ?thesis by (simp add: atoi_decimal)
qed

lemma ulong16_decimal: "ulong16 (decimal (unat v)) = v"
proof -
  have "unat v < 2 ^ 16" using unsigned_less [of v, where ?'a = nat] by simp
  then have "strtoul (decimal (unat v)) 10 = of_nat (unat v)" by (intro strtoul_decimal) simp
  moreover have "ucast (ucast v :: u32) = v" by transfer simp
  ultimately show ?thesis by simp
qed

lemma hex_text: "piece_text (Num False False 0 (CHR ''x'') v) = base_text 16 (unat v)"
  by (simp add: num_field_def num_neg_def conv_signed_def num_digits_def conv_radix_def base_text_def digit_text_def)

lemma strtoul_hex_word: "strtoul (''0x'' @ base_text 16 (unat v)) 16 = v"
  using strtoul_hex [of "unat v"] unsigned_less [of v, where ?'a = nat] by simp


section \<open>Argument lists\<close>

lemma at_split_join:
  assumes "ws \<noteq> []" "\<forall>w \<in> set ws. arg_word w" "length ws \<le> m"
  shows "at_split m (join (CHR '','') ws) = ws"
  using assms
proof (induction ws arbitrary: m rule: induct_list012)
  case (2 w)
  then have w: "w \<noteq> []" "CHR '','' \<notin> set w" by (auto simp: arg_word_def)
  then have d: "dropWhile (\<lambda>c. c \<noteq> CHR '','') w = []" by (auto simp: dropWhile_eq_Nil_conv)
  have "at_split m w = [w]"
  proof (cases "(m, w)" rule: at_split.cases)
    case (3 k v)
    with d show ?thesis by (simp only: prod.inject at_split.simps list.case)
  qed auto
  then show ?case by simp
next
  case (3 w v ws)
  have w: "CHR '','' \<notin> set w" using 3(4) by (auto simp: arg_word_def)
  obtain k where m: "m = Suc (Suc k)" using 3(5) by (cases m; cases "m - 1") auto
  let ?r = "join (CHR '','') (v # ws)"
  have "v \<noteq> []" using 3(4) by (auto simp: arg_word_def)
  then have ne: "?r \<noteq> []" by (intro join_not_Nil) auto
  have j: "join (CHR '','') (w # v # ws) = w @ CHR '','' # ?r" by simp
  have d: "dropWhile (\<lambda>c. c \<noteq> CHR '','') (w @ CHR '','' # ?r) = CHR '','' # ?r"
    using w by (subst dropWhile_append2) auto
  have t: "takeWhile (\<lambda>c. c \<noteq> CHR '','') (w @ CHR '','' # ?r) = w"
    using w by (subst takeWhile_append2) auto
  have "at_split (Suc k) ?r = v # ws" using 3 m by (intro "3.IH"(2)) auto
  then show ?case unfolding j m at_split.simps d t using ne by simp
qed simp

lemma arg_words_join:
  assumes "\<forall>w \<in> set ws. arg_word w"
  shows "NUL \<notin> set (join (CHR '','') ws)" "LF \<notin> set (join (CHR '','') ws)"
  using assms set_join [of "CHR '',''" ws] by (fastforce simp: arg_word_def)+

section \<open>The interface of a row\<close>

text \<open>The array of the structure has its seven entries.\<close>

definition rf_table_ok :: "st_rf_table \<Rightarrow> bool" where
  "rf_table_ok t \<longleftrightarrow> length (band_gain (rt_config t)) = 7 \<and> length (band_gain (ht_config t)) = 7 \<and>
     length (band_gain (lt_config t)) = 7"

text \<open>The line a query of the row \<open>nm\<close> with the fields \<open>ws\<close> prints.\<close>

definition row_line :: "string \<Rightarrow> string list \<Rightarrow> string" where
  "row_line nm ws = nm @ CHR ''='' # join (CHR '','') ws"

definition saved_now :: "at_st \<Rightarrow> bool" where
  "saved_now s \<longleftrightarrow> calls s \<noteq> [] \<and> last (calls s) = Rf (Save_rf_table_to_flash (ssv_rf_table s))"

locale row_command =
  fixes cmd :: handler
    and nm :: string
    and n :: nat
    and texts :: "st_rf_table \<Rightarrow> string list"
    and row :: "st_rf_table \<Rightarrow> 'r"
    and store :: "string list \<Rightarrow> st_rf_table \<Rightarrow> st_rf_table"
  assumes size: "0 < n" "length (texts t) = n"
    and words: "w \<in> set (texts t) \<Longrightarrow> arg_word w"
    and query: "\<exists>s'. cmd e [''?''] s = Some (ERROR_SUCCESS, s') \<and> ssv_rf_table s' = ssv_rf_table s \<and>
      calls s' = calls s \<and> console s' = console s @ crlf (LF # row_line nm (texts (ssv_rf_table s)) @ [LF])"
    and set_row: "length a = n \<Longrightarrow> hd a \<noteq> ''?'' \<Longrightarrow> \<exists>r s'. cmd e a s = Some (r, s') \<and>
      (if r = ERROR_SUCCESS then ssv_rf_table s' = store a (ssv_rf_table s) \<and> saved_now s'
       else ssv_rf_table s' = ssv_rf_table s)"
    and read_back: "rf_table_ok t \<Longrightarrow> row (store (texts t) u) = row t"
begin

lemma texts_split: "n \<le> m \<Longrightarrow> at_split m (join (CHR '','') (texts t)) = texts t"
  using size(1) size(2) [of t] words by (intro at_split_join) auto

lemma texts_plain: "NUL \<notin> set (join (CHR '','') (texts t)) \<and> join (CHR '','') (texts t) \<noteq> []"
proof -
  have ne: "texts t \<noteq> []" using size(1) size(2) [of t] by auto
  with words [of "hd (texts t)" t] have "hd (texts t) \<noteq> []" by (auto simp: arg_word_def)
  with ne have "join (CHR '','') (texts t) \<noteq> []" by (rule join_not_Nil)
  with arg_words_join [of "texts t"] words [of _ t] show ?thesis by simp
qed

lemma texts_restore:
  assumes "rf_table_ok t"
  shows "\<exists>r u'. cmd e (texts t) u = Some (r, u') \<and>
    (if r = ERROR_SUCCESS then row (ssv_rf_table u') = row t \<and> saved_now u'
     else ssv_rf_table u' = ssv_rf_table u)"
proof -
  have "texts t \<noteq> []" using size(1) size(2) [of t] by auto
  with words [of "hd (texts t)" t] have "hd (texts t) \<noteq> ''?''" by (auto simp: arg_word_def)
  with set_row [OF size(2), of t e u] read_back [OF assms] show ?thesis
    by (metis (mono_tags, lifting))
qed

end

section \<open>The rows of the code\<close>

abbreviation decs :: "'a::len word list \<Rightarrow> string list" where
  "decs vs \<equiv> map (\<lambda>v. decimal (unat v)) vs"

lemma arg_word_decimal: "arg_word (decimal n)"
  by (simp add: decimal_base arg_word_base)

lemma print_row_console:
  "console (print_row nm ps s) = console s @ crlf (row_line nm (map piece_text ps) @ [LF])"
  by (simp add: print_row_def row_line_def commas_text)

lemma print_row_sel [simp]:
  "ssv_rf_table (print_row nm ps s) = ssv_rf_table s" "calls (print_row nm ps s) = calls s"
  by (simp_all add: print_row_def)

lemma save_rf_sel [simp]:
  "ssv_rf_table (save_rf e s) = ssv_rf_table s" "saved_now (save_rf e s)"
  by (simp_all add: save_rf_def saved_now_def)

lemma store_row_spec:
  "store_row e st c put s = (r, s') \<Longrightarrow>
   if r = ERROR_SUCCESS then ssv_rf_table s' = put (ssv_rf_table s) \<and> saved_now s'
   else ssv_rf_table s' = ssv_rf_table s"
  by (auto simp: store_row_def call_def ERROR_SUCCESS_def Let_def split: if_splits)

lemma store_gain_spec:
  "store_gain e c put s = (r, s') \<Longrightarrow>
   if r = ERROR_SUCCESS then ssv_rf_table s' = put (ssv_rf_table s) \<and> saved_now s'
   else ssv_rf_table s' = ssv_rf_table s"
  by (auto simp: store_gain_def call_def ERROR_SUCCESS_def Let_def split: if_splits)

lemma tempe_values_length [simp]: "length (tempe_values c) = 18"
  by (simp add: tempe_values_def)

lemma tempe_read_back:
  assumes "length (band_gain c) = 7"
  shows "tempe_of (decs (tempe_values c)) = c"
proof -
  have "map ((!) (band_gain c)) [0..<7] = band_gain c" using assms by (metis map_nth)
  moreover have "(xs @ ys) ! (7 + i) = ys ! i" if "length xs = 7" for xs ys :: "string list" and i
    using that by (simp add: nth_append)
  ultimately show ?thesis using assms
    by (simp add: tempe_of_def tempe_values_def comp_def int8_decimal nth_append)
qed

lemma hd_rd: "length a = n \<Longrightarrow> 0 < n \<Longrightarrow> rd a 0 = Some (hd a)"
  by (cases a) (auto simp: rd_def)

lemma tempe_row_is_row:
  assumes "\<And>c t. get (put c t) = c" "\<And>t. rf_table_ok t \<Longrightarrow> length (band_gain (get t)) = 7"
  shows "row_command (tempe_row_command nm st get put) nm 18 (\<lambda>t. decs (tempe_values (get t))) get
    (\<lambda>a. put (tempe_of a))"
proof (unfold_locales, goal_cases)
  case (4 e s)
  then show ?case
    by (auto simp: tempe_row_command_def rd_def print_row_console dec_text_small comp_def simp del: piece_text.simps(3))
next
  case (5 a e s)
  obtain r s' where rs: "store_row e st (Rf (Write_reg_tempe_table (tempe_of a))) (put (tempe_of a)) (nl s) = (r, s')"
    by fastforce
  from store_row_spec [OF this] 5 hd_rd [OF 5(1)] show ?case
    by (simp add: tempe_row_command_def arguments_def rs Let_def)
qed (auto simp: arg_word_decimal assms tempe_read_back)

interpretation rt: row_command At_RfTableRT "''AT+RF_TABLE_RT''" 18 "\<lambda>t. decs (tempe_values (rt_config t))"
    rt_config "\<lambda>a t. t\<lparr>rt_config := tempe_of a\<rparr>"
  unfolding At_RfTableRT_def by (rule tempe_row_is_row) (auto simp: rf_table_ok_def)

interpretation ht: row_command At_RfTableHT "''AT+RF_TABLE_HT''" 18 "\<lambda>t. decs (tempe_values (ht_config t))"
    ht_config "\<lambda>a t. t\<lparr>ht_config := tempe_of a\<rparr>"
  unfolding At_RfTableHT_def by (rule tempe_row_is_row) (auto simp: rf_table_ok_def)

interpretation lt: row_command At_RfTableLT "''AT+RF_TABLE_LT''" 18 "\<lambda>t. decs (tempe_values (lt_config t))"
    lt_config "\<lambda>a t. t\<lparr>lt_config := tempe_of a\<rparr>"
  unfolding At_RfTableLT_def by (rule tempe_row_is_row) (auto simp: rf_table_ok_def)


text \<open>The 5 GHz rows: the set part is any function that meets the law of \<open>store_row_spec\<close>.\<close>

definition row_law ::
  "(at_env \<Rightarrow> string list \<Rightarrow> at_st \<Rightarrow> int \<times> at_st) \<Rightarrow> (string list \<Rightarrow> st_rf_table \<Rightarrow> st_rf_table) \<Rightarrow> bool" where
  "row_law set_row put \<longleftrightarrow> (\<forall>e a s r s'. set_row e a s = (r, s') \<longrightarrow>
     (if r = ERROR_SUCCESS then ssv_rf_table s' = put a (ssv_rf_table s) \<and> saved_now s'
      else ssv_rf_table s' = ssv_rf_table s))"

lemma row_5g_is_row:
  assumes "row_law set_row put" "0 < n" "\<And>t. length (show t) = n" "\<And>t. map piece_text (show t) = texts t"
    and "\<And>t w. w \<in> set (texts t) \<Longrightarrow> arg_word w" "\<And>t u. row (put (texts t) u) = row t"
  shows "row_command (row_5g_command nm show n set_row) nm n texts row put"
proof (unfold_locales, goal_cases)
  case (2 t)
  show ?case by (metis assms(3,4) length_map)
next
  case (4 e s)
  then show ?case
    by (auto simp: row_5g_command_def rd_def print_row_console assms(4))
next
  case (5 a e s)
  obtain r s' where rs: "set_row e a (nl s) = (r, s')" by fastforce
  with assms(1) have "if r = ERROR_SUCCESS then ssv_rf_table s' = put a (ssv_rf_table (nl s)) \<and> saved_now s'
    else ssv_rf_table s' = ssv_rf_table (nl s)" unfolding row_law_def by blast
  with 5 hd_rd [OF 5(1) assms(2)] show ?case
    by (simp add: row_5g_command_def arguments_def rs)
qed (use assms in auto)

lemma scaled_law:
  "row_law (\<lambda>e a s. let cfg = scaled a (get (ssv_rf_table s)) in
      store_row e st (Rf (Write_reg_tempe_5g_table cfg)) (put cfg) s)
    (\<lambda>a t. put (scaled a (get t)) t)"
  unfolding row_law_def Let_def using store_row_spec by blast

lemma bbscales_read_back: "bbscales (scaled (decs (bbscales c)) d) = bbscales c"
  by (simp add: bbscales_def scaled_def int8_decimal)

lemma map_dec8_text: "map piece_text (map dec8 vs) = decs vs"
  by (simp add: dec_text_small del: piece_text.simps(3))

interpretation rt5: row_command At_Rf5GTableRT "''AT+RF_5GTABLE_RT''" 4 "\<lambda>t. decs (bbscales (rt_5g_config t))"
    "\<lambda>t. bbscales (rt_5g_config t)" "\<lambda>a t. t\<lparr>rt_5g_config := scaled a (rt_5g_config t)\<rparr>"
  unfolding At_Rf5GTableRT_def
  by (rule row_5g_is_row [OF scaled_law [where put = "\<lambda>c t. t\<lparr>rt_5g_config := c\<rparr>"]])
    (auto simp: map_dec8_text bbscales_read_back arg_word_decimal simp del: list.map(2) map_map, simp add: bbscales_def)

interpretation ht5: row_command At_Rf5GTableHT "''AT+RF_5GTABLE_HT''" 4 "\<lambda>t. decs (bbscales (ht_5g_config t))"
    "\<lambda>t. bbscales (ht_5g_config t)" "\<lambda>a t. t\<lparr>ht_5g_config := scaled a (ht_5g_config t)\<rparr>"
  unfolding At_Rf5GTableHT_def
  by (rule row_5g_is_row [OF scaled_law [where put = "\<lambda>c t. t\<lparr>ht_5g_config := c\<rparr>"]])
    (auto simp: map_dec8_text bbscales_read_back arg_word_decimal simp del: list.map(2) map_map, simp add: bbscales_def)

interpretation lt5: row_command At_Rf5GTableLT "''AT+RF_5GTABLE_LT''" 4 "\<lambda>t. decs (bbscales (lt_5g_config t))"
    "\<lambda>t. bbscales (lt_5g_config t)" "\<lambda>a t. t\<lparr>lt_5g_config := scaled a (lt_5g_config t)\<rparr>"
  unfolding At_Rf5GTableLT_def
  by (rule row_5g_is_row [OF scaled_law [where put = "\<lambda>c t. t\<lparr>lt_5g_config := c\<rparr>"]])
    (auto simp: map_dec8_text bbscales_read_back arg_word_decimal simp del: list.map(2) map_map, simp add: bbscales_def)

lemma threshold_law:
  "row_law (\<lambda>e a s. store_gain e
        (Rf (Write_reg_5g_band_threshold (ulong16 (a ! 0)) (ulong16 (a ! 1)) (ulong16 (a ! 2))))
        (put_thresholds (ulong16 (a ! 0)) (ulong16 (a ! 1)) (ulong16 (a ! 2))) s)
    (\<lambda>a. put_thresholds (ulong16 (a ! 0)) (ulong16 (a ! 1)) (ulong16 (a ! 2)))"
  unfolding row_law_def using store_gain_spec by blast

lemma map_dec16_text: "map piece_text (map (\<lambda>v :: u16. dec (ucast v)) vs) = decs vs"
  by (simp add: dec_text_small del: piece_text.simps(3))

interpretation thr: row_command At_Rf5GBandThreshold "''AT+RF_5GTABLE_BAND_THRESHOLD''" 3
    "\<lambda>t. decs (thresholds t)" thresholds
    "\<lambda>a. put_thresholds (ulong16 (a ! 0)) (ulong16 (a ! 1)) (ulong16 (a ! 2))"
  unfolding At_Rf5GBandThreshold_def
  by (rule row_5g_is_row [OF threshold_law])
    (auto simp: map_dec16_text arg_word_decimal ulong16_decimal simp del: list.map(2) map_map,
     auto simp: thresholds_def put_thresholds_def ulong16_decimal)

text \<open>The bias rows print hexadecimal numbers.\<close>

definition hexs :: "u32 list \<Rightarrow> string list" where
  "hexs vs = map (\<lambda>v. ''0x'' @ base_text 16 (unat v)) vs"

lemma hex_commas_text:
  "concat (map piece_text (hex_commas vs)) = join (CHR '','') (hexs vs)"
  by (induction vs rule: hex_commas.induct) (simp_all add: hexs_def hex_text del: piece_text.simps(3))

lemma arg_word_hex: "w \<in> set (hexs vs) \<Longrightarrow> arg_word w"
  using arg_word_base [of 16] by (auto simp: hexs_def arg_word_def)

lemma bias_is_row:
  assumes "\<And>r h l t. biases f (put r h l t) = [r, h, l]"
  shows "row_command (bias_command nm f put) nm 3 (\<lambda>t. hexs (biases f t)) (biases f)
    (\<lambda>a. put (strtoul (a ! 0) 16) (strtoul (a ! 1) 16) (strtoul (a ! 2) 16))"
proof (unfold_locales, goal_cases)
  case (4 e s)
  then show ?case
    by (auto simp: bias_command_def rd_def hex_commas_text row_line_def)
next
  case (5 a e s)
  let ?r = "strtoul (a ! 0) 16" and ?h = "strtoul (a ! 1) 16" and ?l = "strtoul (a ! 2) 16"
  obtain r s' where rs: "store_gain e (Rf (Write_reg_5g_three_bias ?r ?h ?l)) (put ?r ?h ?l) (nl s) = (r, s')"
    by fastforce
  from store_gain_spec [OF this] 5 hd_rd [OF 5(1)] show ?case
    by (simp add: bias_command_def arguments_def rs Let_def del: One_nat_def)
next
  case (6 t u)
  show ?case unfolding assms
    using strtoul_hex_word [simplified] by (simp add: hexs_def biases_def)
qed (simp_all add: arg_word_hex, simp add: hexs_def biases_def)

interpretation bias1: row_command At_Rf5GTableBIAS1 "''AT+RF_5GTABLE_BIAS1''" 3
    "\<lambda>t. hexs (biases bias1 t)" "biases bias1"
    "\<lambda>a. put_bias1 (strtoul (a ! 0) 16) (strtoul (a ! 1) 16) (strtoul (a ! 2) 16)"
  unfolding At_Rf5GTableBIAS1_def by (rule bias_is_row) (simp add: biases_def put_bias1_def)

interpretation bias2: row_command At_Rf5GTableBIAS2 "''AT+RF_5GTABLE_BIAS2''" 3
    "\<lambda>t. hexs (biases bias2 t)" "biases bias2"
    "\<lambda>a. put_bias2 (strtoul (a ! 0) 16) (strtoul (a ! 1) 16) (strtoul (a ! 2) 16)"
  unfolding At_Rf5GTableBIAS2_def by (rule bias_is_row) (simp add: biases_def put_bias2_def)

end
