(* ===== verification/AtIo.thy ===== *)
theory AtIo
  imports AtEnv
begin

text \<open>
  The GPIO, PWM, watchdog, rate and MIB commands of \<open>projects/mac_atcmd/src/cli/atcmd.c\<close> (lines 1812
  to 1833, 2358 to 2366 and 2474 to 2838). The handlers check the upper bound of the pin and channel
  numbers that \<open>atoi\<close> returns, not the lower one.
\<close>

definition usage :: "string list \<Rightarrow> at_st \<Rightarrow> at_st" where
  "usage ts s = fold (\<lambda>t. print [line t]) ts s"

definition show_value :: "string \<Rightarrow> int \<Rightarrow> at_st \<Rightarrow> at_st" where
  "show_value t v s = print [Lit t, dec (word_of_int v), line ''''] s"

section \<open>GPIO\<close>

definition At_SetGpioTriState :: handler where
  "At_SetGpioTriState e argv s =
     (if length argv < 1 \<or> atoi (argv ! 0) > 22
      then Some (ERROR_INVALID_PARAMETER,
        usage ['''', ''Usage   : AT+SET_GPIO_TRI_STATE=<id>'', ''<id>    : gpio id(0-22)''] s)
      else do {
        pid \<leftarrow> rd argv 0;
        let s = run_call e (Io (Drv_gpio_set_mode (atoi pid) 1)) s;
        Some (ERROR_SUCCESS, show_value ''gpio_id = '' (atoi pid) (nl s)) })"

definition At_SetGpioLogic :: handler where
  "At_SetGpioLogic e argv s =
     (if length argv < 2 \<or> atoi (argv ! 0) > 22 \<or> atoi (argv ! 1) > 1
      then Some (ERROR_INVALID_PARAMETER,
        usage ['''', ''Usage   : AT+SET_GPIO_LOGIC=<id>,<logic>'', ''<id>    : gpio id(0-22)'',
          ''<logic> : 0:low ; 1:high''] s)
      else do {
        a \<leftarrow> arguments argv 2;
        let pid = atoi (a ! 0);
        let logic = atoi (a ! 1);
        let s = run_call e (Io (Drv_gpio_set_mode pid 0)) s;
        let s = run_call e (Io (Drv_gpio_set_dir pid 1)) s;
        let s = run_call e (Io (Drv_gpio_set_logic pid logic)) s;
        Some (ERROR_SUCCESS, show_value ''gpio_logic = '' logic (show_value ''gpio_id = '' pid (nl s))) })"

definition At_SetGpioPull :: handler where
  "At_SetGpioPull e argv s =
     (if length argv < 2 \<or> atoi (argv ! 0) > 22 \<or> atoi (argv ! 1) > 2
      then Some (ERROR_INVALID_PARAMETER,
        usage ['''', ''Usage   : AT+SET_GPIO_PULL=<id>,<pull>'', ''<id>    : gpio id(0-22)'',
          ''<pull>  : 0:down ; 1:up ; 2:none''] s)
      else do {
        a \<leftarrow> arguments argv 2;
        let pid = atoi (a ! 0);
        let gpio_pull = atoi (a ! 1);
        let s = run_call e (Io (Drv_gpio_set_mode pid 0)) s;
        let s = run_call e (Io (Drv_gpio_set_dir pid 0)) s;
        let s = run_call e (Io (Drv_gpio_set_pull pid gpio_pull)) s;
        let s = show_value ''gpio_pull = '' gpio_pull (show_value ''gpio_id = '' pid (nl s));
        let (v, s) = call e (Io (Drv_gpio_get_logic pid)) s;
        Some (ERROR_SUCCESS, show_value ''gpio_input_get = '' v s) })"

text \<open>The level goes through an \<open>int8_t\<close>.\<close>

definition At_ReadGpio :: handler where
  "At_ReadGpio e argv s =
     (if length argv < 1 \<or> atoi (argv ! 0) > 22
      then Some (ERROR_INVALID_PARAMETER,
        usage ['''', ''Usage   : AT+READ_GPIO=<id>'', ''<id>    : gpio id(0-22)''] s)
      else do {
        pid \<leftarrow> rd argv 0;
        let (v, s) = call e (Io (Drv_gpio_get_logic (atoi pid))) s;
        Some (ERROR_SUCCESS, show_value ''gpio_logic = '' (sint (word_of_int v :: 8 word))
          (show_value ''gpio_id = '' (atoi pid) (nl s))) })"

definition At_SetGpioInt :: handler where
  "At_SetGpioInt e argv s =
     (if length argv < 2 \<or> atoi (argv ! 0) > 22 \<or> atoi (argv ! 1) > 5 \<or> atoi (argv ! 1) < 2
      then Some (ERROR_INVALID_PARAMETER,
        usage ['''', ''Usage   : AT+SET_GPIO_INT=<id>,<mode>'', ''<id>    : gpio id(0-22)'',
          ''<mode>  : 2:high_level ; 3:rising_edge ; 4:low_level ; 5:falling_edge''] s)
      else do {
        a \<leftarrow> arguments argv 2;
        let pid = int8 (a ! 0);
        let mode = int8 (a ! 1);
        let s = s\<lparr>gpio_intc_id := pid, gpio_intc_mode := mode\<rparr>;
        let s = run_call e (Io (Drv_gpio_set_mode (uint pid) 0)) s;
        let s = run_call e (Io (Drv_gpio_set_dir (uint pid) 0)) s;
        let s = run_call e (Io (Drv_gpio_intc_trigger_mode (uint pid) (uint mode))) s;
        let s = run_call e (Io (Drv_gpio_register_isr (uint pid))) s;
        Some (ERROR_SUCCESS, show_value ''gpio_interrupt_mode = '' (uint mode)
          (show_value ''gpio_id = '' (uint pid) (nl s))) })"

text \<open>The registered interrupt handler clears the pin of the last command and names its mode.\<close>

definition irq_report :: "int \<Rightarrow> string \<Rightarrow> at_st \<Rightarrow> at_st" where
  "irq_report ln t s = print [Lit (LF # ''Line = ''), dec (word_of_int ln), Lit (LF # ''Func = ''),
     Str ''irq_test_gpio_ipc'', Lit [LF], line t] s"

definition irq_test_gpio_ipc :: "at_env \<Rightarrow> at_st \<Rightarrow> at_st" where
  "irq_test_gpio_ipc e s =
     (let s = run_call e (Io (Drv_gpio_intc_clear (uint (gpio_intc_id s)))) s in
      if gpio_intc_mode s = 2 then irq_report 2580 ''GPIO_INTC_HIGH_LEVEL'' s
      else if gpio_intc_mode s = 3 then irq_report 2583 ''GPIO_INTC_RISING_EDGE'' s
      else if gpio_intc_mode s = 4 then irq_report 2586 ''GPIO_INTC_LOW_LEVEL'' s
      else irq_report 2589 ''GPIO_INTC_FALLING_EDGE'' s)"

section \<open>PWM\<close>

definition pwm_usage :: "string \<Rightarrow> at_st \<Rightarrow> at_st" where
  "pwm_usage t s = usage ['''', t, ''<id>    : pwm id(0-4)'', ''<freq>  : freq_hz(5-4M)'',
     ''<duty>  : duty(0-100)'', ''<inv>   : 0:none ; 1:invert the PWM polarity''] s"

text \<open>The test that \<open>At_SetPWM\<close> and \<open>At_SetPWMReconfig\<close> both write out, and their report.\<close>

definition pwm_refused :: "string list \<Rightarrow> bool" where
  "pwm_refused argv \<longleftrightarrow> length argv < 4 \<or> atoi (argv ! 0) > 4 \<or> atoi (argv ! 1) < 5 \<or>
     atoi (argv ! 1) > 4000000 \<or> atoi (argv ! 2) > 100 \<or> atoi (argv ! 3) > 1"

definition pwm_report :: "string list \<Rightarrow> at_st \<Rightarrow> at_st" where
  "pwm_report a s = show_value ''is_invert   = '' (atoi (a ! 3)) (show_value ''duty        = '' (atoi (a ! 2))
     (show_value ''freq_hz     = '' (atoi (a ! 1)) (show_value ''pwm_id      = '' (atoi (a ! 0)) (nl s))))"

definition pwm_config :: "string list \<Rightarrow> at_call" where
  "pwm_config a = Io (Drv_pwm_config (int8 (a ! 0)) (word_of_int (atoi (a ! 1))) (word_of_int (atoi (a ! 2))) (int8 (a ! 3)))"

definition At_SetPWM :: handler where
  "At_SetPWM e argv s =
     (if pwm_refused argv
      then Some (ERROR_INVALID_PARAMETER, pwm_usage ''Usage   : AT+SET_PWM=<id>,<freq>,<duty>,<inv>'' s)
      else do {
        a \<leftarrow> arguments argv 4;
        let s = run_call e (Io (Drv_pwm_init (int8 (a ! 0)))) s;
        let s = run_call e (pwm_config a) s;
        let s = run_call e (Io (Drv_pwm_enable (int8 (a ! 0)))) s;
        Some (ERROR_SUCCESS, pwm_report a s) })"

definition At_SetPWMDisable :: handler where
  "At_SetPWMDisable e argv s =
     (if length argv < 1 \<or> atoi (argv ! 0) > 4
      then Some (ERROR_INVALID_PARAMETER,
        usage ['''', ''Usage   : AT+SET_PWM_DISABLE=<id>'', ''<id>    : pwm_id(0-4)''] s)
      else do {
        a \<leftarrow> rd argv 0;
        let s = run_call e (Io (Drv_pwm_disable (int8 a))) s;
        Some (ERROR_SUCCESS, show_value ''pwm_id      = '' (atoi a) (nl s)) })"

definition At_SetPWMEnable :: handler where
  "At_SetPWMEnable e argv s =
     (if length argv < 1 \<or> atoi (argv ! 0) > 4
      then Some (ERROR_INVALID_PARAMETER,
        usage ['''', ''Usage   : AT+SET_PWM_ENABLE=<id>'', ''<id>    : pwm_id(0-4)''] s)
      else do {
        a \<leftarrow> rd argv 0;
        let s = run_call e (Io (Drv_pwm_enable (int8 a))) s;
        Some (ERROR_SUCCESS, show_value ''pwm_id      = '' (atoi a) (nl s)) })"

definition At_SetPWMReconfig :: handler where
  "At_SetPWMReconfig e argv s =
     (if pwm_refused argv
      then Some (ERROR_INVALID_PARAMETER, pwm_usage ''Usage   : AT+SET_PWM_RECONFIG=<id>,<freq>,<duty>,<inv>'' s)
      else do {
        a \<leftarrow> arguments argv 4;
        Some (ERROR_SUCCESS, pwm_report a (run_call e (pwm_config a) s)) })"

section \<open>Watchdog, country, rates and MIB\<close>

text \<open>\<open>drv_wdt_enable\<close> takes the milliseconds as a \<open>uint16_t\<close>.\<close>

definition At_Reboot :: handler where
  "At_Reboot e argv s =
     (let sec = (if 1 \<le> length argv then atoi (argv ! 0) else 0);
          s = print [Lit [CHR 0x0D, LF]] s;
          s = print [Lit ''System will reboot after '', dec (word_of_int sec), line '' seconds''] s;
          s = run_call e (Io Drv_wdt_init) s
      in Some (ERROR_SUCCESS,
           run_call e (Io (Drv_wdt_enable (if sec = 0 then 100 else word_of_int (sec * 1000)))) s))"

definition At_SetAutoConnect :: handler where
  "At_SetAutoConnect e argv s =
     (if length argv < 1 then Some (ERROR_INVALID_PARAMETER, s)
      else do { a \<leftarrow> rd argv 0; Some (ERROR_SUCCESS, run_call e (Io (Set_auto_connect_flag (int8 a))) s) })"

definition At_CmdSetCountryCode :: handler where
  "At_CmdSetCountryCode = one_call (\<lambda>a. Io (Config_channel (atoi a)))"

definition At_FIXRATE :: handler where
  "At_FIXRATE e argv s =
     (if length argv \<noteq> 2 then Some (ERROR_SUCCESS, usage [''usage:'', ''AT+FR=[wsid] [rate]''] s)
      else do {
        a \<leftarrow> arguments argv 2;
        Some (ERROR_SUCCESS, run_call e (Io (Wifi_set_fix_drate (int8 (a ! 0)) (int8 (a ! 1)))) s) })"

definition At_RCMASK :: handler where
  "At_RCMASK e argv s =
     (if length argv \<noteq> 1 then Some (ERROR_SUCCESS, usage [''usage:'', ''rc_mask=[rate mask]''] s)
      else do {
        a \<leftarrow> rd argv 0;
        Some (ERROR_SUCCESS, run_call e (Io (Wifi_set_rc_mask (ucast (strtoul a 16)))) s) })"

definition At_MacHWQueue :: handler where
  "At_MacHWQueue e argv s = Some (ERROR_SUCCESS, run_call e (Io Drv_mac_hw_queue_status) s)"

definition mib_usage :: "at_st \<Rightarrow> at_st" where
  "mib_usage s = usage (map (\<lambda>t. t @ [CHR 0x0D])
     [''mib=on'', ''mib=off'', ''mib=reset'', ''mib=tx'', ''mib=rx'', ''mib=txrx'']) s"

definition At_MacHWMIB :: handler where
  "At_MacHWMIB e argv s =
     (if length argv \<noteq> 1 then Some (ERROR_SUCCESS, mib_usage s)
      else do {
        a \<leftarrow> rd argv 0;
        Some (ERROR_SUCCESS,
          if a = ''on'' then run_call e (Io Drv_mac_mib_on) s
          else if a = ''off'' then run_call e (Io Drv_mac_mib_off) s
          else if a = ''reset'' then run_call e (Io Drv_mac_mib_reset) s
          else if a = ''tx'' then run_call e (Io Drv_mac_mib_tx) s
          else if a = ''rx'' then run_call e (Io Drv_mac_mib_rx) s
          else if a = ''txrx'' then run_call e (Io Drv_mac_mib_rx) (run_call e (Io Drv_mac_mib_tx) s)
          else mib_usage s) })"

end
