(* ===== verification/AtWifi.thy ===== *)
theory AtWifi
  imports AtEnv
begin

text \<open>
  The Wi-Fi, address, efuse and update commands of \<open>projects/mac_atcmd/src/cli/atcmd.c\<close>: \<open>ip2int\<close>
  and the network configuration, the set-up of the access point, station configuration and
  connection, MAC addresses in flash and efuse, OTA.
\<close>

section \<open>Addresses\<close>

text \<open>
  \<open>ip2int\<close> copies its text into 16 bytes without looking at the length. The result is the code and
  the four bytes, when it stores them.
\<close>

definition ip2int :: "string \<Rightarrow> (int \<times> u8 list) option" where
  "ip2int pStr =
     do {
       cp \<leftarrow> blit (replicate 16 NUL) 0 (pStr @ [NUL]);
       let ts = strtok '' .'' (cstr cp);
       Some (if length ts < 4 then (ERROR_INVALID_PARAMETER, [])
             else (ERROR_SUCCESS, map int8 (take 4 ts))) }"

text \<open>The four bytes as the 32-bit member of the union, on the little-endian processor.\<close>

definition ip_u32 :: "u8 list \<Rightarrow> u32" where
  "ip_u32 b = ucast (b ! 0) OR push_bit 8 (ucast (b ! 1)) OR push_bit 16 (ucast (b ! 2)) OR push_bit 24 (ucast (b ! 3))"

text \<open>\<open>*p - 0x30\<close> of an argument, whose first byte may be its terminator.\<close>

definition digit_arg :: "string \<Rightarrow> u8" where
  "digit_arg t = word_of_int (code (case t of [] \<Rightarrow> NUL | c # _ \<Rightarrow> c)) - 0x30"

text \<open>The static addresses are read one after the other, up to the first that is refused.\<close>

fun static_ips :: "string list \<Rightarrow> u32 list option option" where
  "static_ips [] = Some (Some [])"
| "static_ips (t # ts) = do {
     (r, b) \<leftarrow> ip2int t;
     if r \<noteq> ERROR_SUCCESS then Some None
     else do { rest \<leftarrow> static_ips ts; Some (map_option ((#) (ip_u32 b)) rest) } }"

definition At_SetIfConfigure :: handler where
  "At_SetIfConfigure e argv s =
     (if length argv < 1 then Some (ERROR_INVALID_PARAMETER, s)
      else do {
        pdhcp \<leftarrow> rd argv 0;
        let dhcpen = digit_arg pdhcp;
        if dhcpen = 0 \<and> length argv < 4 then Some (ERROR_INVALID_PARAMETER, s)
        else do {
          ips \<leftarrow> (if dhcpen = 0 then static_ips (take 3 (drop 1 argv)) else Some (Some [0, 0, 0]));
          case ips of None \<Rightarrow> Some (ERROR_INVALID_PARAMETER, s)
          | Some v \<Rightarrow> Some (ERROR_SUCCESS,
              run_call e (Wifi (Set_if_config dhcpen (v ! 0) (v ! 1) (v ! 2) 0)) s) } })"

definition At_SetIfConfigure2 :: handler where
  "At_SetIfConfigure2 e argv s =
     (if length argv < 2 then Some (ERROR_INVALID_PARAMETER, s)
      else do {
        pid \<leftarrow> rd argv 0;
        pdhcp \<leftarrow> rd argv 1;
        let id' = digit_arg pid;
        let dhcpen = digit_arg pdhcp;
        if dhcpen = 0 \<and> length argv < 5 \<or> (id' \<noteq> 0 \<and> id' \<noteq> 1) then Some (ERROR_INVALID_PARAMETER, s)
        else do {
          ips \<leftarrow> (if dhcpen = 0 then static_ips (take 3 (drop 2 argv)) else Some (Some [0, 0, 0]));
          case ips of None \<Rightarrow> Some (ERROR_INVALID_PARAMETER, s)
          | Some v \<Rightarrow> do {
              let (r, s) = call e (Wifi (Set_if_config_2 id' dhcpen (v ! 0) (v ! 1) (v ! 2) 0)) s;
              Some (if r \<noteq> 0 then ERROR_INVALID_PARAMETER else ERROR_SUCCESS, s) } } })"

section \<open>The access point\<close>

definition DUT_STA :: u8 where "DUT_STA = 1"
definition DUT_AP :: u8 where "DUT_AP = 2"
definition DUT_SNIFFER :: u8 where "DUT_SNIFFER = 5"

definition htonlx :: "u32 \<Rightarrow> u32" where
  "htonlx x = push_bit 24 (x AND 0xff) OR push_bit 16 (drop_bit 8 x AND 0xff) OR
     push_bit 8 (drop_bit 16 x AND 0xff) OR (drop_bit 24 x AND 0xff)"

definition At_HKAP :: handler where
  "At_HKAP e argv s =
     do {
       k \<leftarrow> blit (replicate 64 NUL) 0 ''1234567890'';
       i \<leftarrow> blit (replicate 32 NUL) 0 ''iU9-Smart-Outlet026D'';
       let cfg = \<lparr>start_ip = 0xc0a80002, end_ip = 0xc0a80005, gw = 0xc0a80001, subnet = 0xffffff00,
         max_sta_num = 1, encryt_mode = 0, keylen = 10, key = k, channel = 1, beacon_interval = 50,
         ssid_length = 20, ssid = i\<rparr>;
       let s = run_call e (Wifi (Softap_set_custom_conf cfg)) s;
       Some (ERROR_SUCCESS_NO_RSP, run_call e (Wifi Homekit_softap_start) s) }"

definition At_AP :: handler where
  "At_AP e argv s = Some (ERROR_SUCCESS_NO_RSP, run_call e (Wifi (DUT_wifi_start DUT_AP)) s)"

definition At_GET_APMODE :: handler where
  "At_GET_APMODE e argv s =
     (let (mode, s) = call e (Wifi Get_DUT_wifi_mode) s;
          s = print [Lit [CHR 0x0D, LF]] s
      in Some (0, print [Lit ''AT+GET_APMODE='', Str (if mode = uint DUT_AP then ''AP'' else ''STA''), line ''''] s))"

definition At_AP_EXIT :: handler where
  "At_AP_EXIT e argv s =
     (let s = run_call e (Wifi Softap_exit) s;
          (mode, s) = call e (Wifi Get_DUT_wifi_mode) s
      in Some (ERROR_SUCCESS_NO_RSP,
           if mode \<noteq> uint DUT_STA then run_call e (Wifi (DUT_wifi_start DUT_STA)) s else s))"

text \<open>\<open>%s\<close> of an array that must hold a terminator.\<close>

definition str_piece :: "buf \<Rightarrow> piece option" where
  "str_piece b = (if NUL \<in> set b then Some (Str (cstr b)) else None)"

definition ip_pieces :: "u32 \<Rightarrow> piece list" where
  "ip_pieces v = [dec (drop_bit 24 v AND 0xff), Lit ''.'', dec (drop_bit 16 v AND 0xff), Lit ''.'',
     dec (drop_bit 8 v AND 0xff), Lit ''.'', dec (v AND 0xff)]"

text \<open>The number of stations is clamped as a signed byte, the range to that many addresses.\<close>

definition clamp_sta :: "8 word \<Rightarrow> 8 word" where
  "clamp_sta n = (let n = (if 4 <s n then 4 else n) in if n <s 1 then 1 else n)"

definition show_args :: "string list \<Rightarrow> nat \<Rightarrow> at_st \<Rightarrow> at_st" where
  "show_args argv n s = fold (\<lambda>i. print [Lit ''argv['', dec (of_nat i), Lit '']='', Str (argv ! i), line '''']) [0..<n] s"

definition apconfig_exit :: "string list \<Rightarrow> int \<Rightarrow> at_st \<Rightarrow> int \<times> at_st" where
  "apconfig_exit argv rlt s = (rlt, print [Lit ''<Error>At_SET_APCONFIG rlt = '', dec (word_of_int rlt), line '''']
     (show_args argv (length argv) s))"

text \<open>
  The arguments are those of the \<open>argc\<close> test and, past it, \<open>argv[9]\<close> and \<open>argv[10]\<close>. The lengths are
  signed bytes; the comparison with \<open>strlen\<close> is unsigned.
\<close>

definition At_SET_APCONFIG :: handler where
  "At_SET_APCONFIG e argv s =
     (let s = print [Lit (LF # ''[At_SET_APCONFIG] : +++''), line ''''] s in
      if length argv < 9 then Some (ERROR_INVALID_PARAMETER, s)
      else do {
        let start = strtoul (argv ! 0) 16;
        let end0 = strtoul (argv ! 1) 16;
        let gw0 = strtoul (argv ! 2) 16;
        let net = strtoul (argv ! 3) 16;
        let sta = clamp_sta (ucast (strtoul (argv ! 4) 10));
        let last_ip = start + scast sta;
        let s = (if last_ip < end0
                 then print ([Lit (LF # ''<Error> end_ip = '')] @ ip_pieces end0 @
                        [Lit ''  over start_ip+max_stanum -----> new end_ip=''] @ ip_pieces last_ip @ [Lit [LF, LF]]) s
                 else s);
        let end1 = (if last_ip < end0 then last_ip else end0);
        let enc = ucast (strtoul (argv ! 5) 10);
        let klen = (ucast (strtoul (argv ! 6) 10) :: 8 word);
        if (scast klen :: u32) \<noteq> of_nat (length (argv ! 7)) then Some (apconfig_exit argv (- 1) s)
        else do {
          k \<leftarrow> blit (replicate 64 NUL) 0 (argv ! 7);
          let ch = ucast (strtoul (argv ! 8) 10);
          a9 \<leftarrow> rd argv 9;
          let slen = (ucast (strtoul a9 10) :: 8 word);
          a10 \<leftarrow> rd argv 10;
          if (scast slen :: u32) \<noteq> of_nat (length a10) then Some (apconfig_exit argv (- 2) s)
          else do {
            i \<leftarrow> blit (replicate 32 NUL) 0 a10;
            let s = run_call e (Wifi (Dbg_dump_ip ''start_ip'' (htonlx start))) s;
            let s = run_call e (Wifi (Dbg_dump_ip ''end_ip'' (htonlx end1))) s;
            let s = run_call e (Wifi (Dbg_dump_ip ''gateway'' (htonlx gw0))) s;
            let s = run_call e (Wifi (Dbg_dump_ip ''netmask'' (htonlx net))) s;
            let s = print [Lit ''(max_sta_num,encryt_mode,channel,hk_support)=('', dec (scast sta), Lit '','',
                             dec (scast (enc :: 8 word)), Lit '','', dec (ucast (ch :: u8)), line '')''] s;
            kp \<leftarrow> str_piece k;
            let s = print [Lit ''(keylen,key)=('', dec (scast klen), Lit '','', kp, line '')''] s;
            ip \<leftarrow> str_piece i;
            let s = print [Lit ''(ssid_length,ssid)=('', dec (scast slen), Lit '','', ip, line '')''] s;
            let cfg = \<lparr>start_ip = start, end_ip = end1, gw = gw0, subnet = net, max_sta_num = sta,
              encryt_mode = enc, keylen = klen, key = k, channel = ch, beacon_interval = 50,
              ssid_length = slen, ssid = i\<rparr>;
            let (r, s) = call e (Wifi (Softap_set_custom_conf cfg)) s;
            Some (r, if r = - 4
              then print [line (''Don'' @ [CHR 0x27] @ ''t configure SoftAP when SoftAP is running. Please execute AT+AP_EXIT first'')] s
              else s) } } })"

section \<open>Station\<close>

definition At_NetScan :: handler where
  "At_NetScan e argv s =
     (let (m1, s) = call e (Wifi Get_DUT_wifi_mode) s;
          (m2, s) = (if m1 = 0 then (m1, s) else call e (Wifi Get_DUT_wifi_mode) s);
          s = (if m1 = 0 \<or> m2 = uint DUT_SNIFFER then print [line (LF # ''Please run AT+DUT_START=1 first'')] s else s);
          (r, s) = call e (Wifi Scan_AP) s
      in Some (if r \<noteq> 0 then ERROR_INVALID_PARAMETER else ERROR_SUCCESS_NO_RSP, s))"

definition CRLF_nl :: "at_st \<Rightarrow> at_st" where
  "CRLF_nl s = print [Lit [CHR 0x0D, LF]] s"

text \<open>The commands with a station number read \<open>*argv[0]\<close> before they look at \<open>argc\<close>.\<close>

definition At_Connect2 :: handler where
  "At_Connect2 e argv s =
     do { let s = CRLF_nl s;
          pid \<leftarrow> rd argv 0;
          let id' = digit_arg pid;
          if length argv < 1 \<or> id' \<noteq> 0 \<and> id' \<noteq> 1 then Some (ERROR_INVALID_PARAMETER, s)
          else do {
            let (r, s) = call e (Wifi (Wifi_connect_2 id')) s;
            Some (if r \<noteq> 0 then ERROR_INVALID_PARAMETER else ERROR_SUCCESS_NO_RSP, s) } }"

definition At_Connect :: handler where
  "At_Connect e argv s = Some (ERROR_SUCCESS_NO_RSP, run_call e (Wifi Wifi_connect) s)"

text \<open>A missing key is a null pointer that is passed on, with length 0.\<close>

definition opt_arg :: "string list \<Rightarrow> nat \<Rightarrow> string option" where
  "opt_arg argv k = (if k < length argv then Some (argv ! k) else None)"

definition opt_len :: "string option \<Rightarrow> nat" where
  "opt_len t = (case t of None \<Rightarrow> 0 | Some w \<Rightarrow> length w)"

definition At_ConnectActive :: handler where
  "At_ConnectActive e argv s =
     (if length argv < 1 then Some (ERROR_INVALID_PARAMETER, s)
      else do {
        pSsid \<leftarrow> rd argv 0;
        let pWebkey = opt_arg argv 1;
        let s = run_call e (Wifi (DUT_wifi_start DUT_STA)) s;
        Some (call e (Wifi (Wifi_connect_active pSsid (of_nat (length pSsid)) pWebkey (of_nat (opt_len pWebkey)))) s) })"

definition At_Disconnect2 :: handler where
  "At_Disconnect2 e argv s =
     do { let s = CRLF_nl s;
          pid \<leftarrow> rd argv 0;
          let id' = digit_arg pid;
          if length argv < 1 \<or> id' \<noteq> 0 \<and> id' \<noteq> 1 then Some (ERROR_INVALID_PARAMETER, s)
          else Some (ERROR_SUCCESS_NO_RSP, run_call e (Wifi (Wifi_disconnect_2 id')) s) }"

definition At_Disconnect :: handler where
  "At_Disconnect e argv s = Some (ERROR_SUCCESS_NO_RSP, run_call e (Wifi Wifi_disconnect) s)"

text \<open>Six calls of \<open>strtok\<close>, each result read as hexadecimal, with fewer pieces through null.\<close>

definition parse_mac :: "string \<Rightarrow> u8 list option" where
  "parse_mac t = do { ts \<leftarrow> arguments (strtok '':'' t) 6; Some (map (\<lambda>w. ucast (strtoul w 16)) ts) }"

definition parse_opt_mac :: "string option \<Rightarrow> u8 list option option" where
  "parse_opt_mac t = (case t of None \<Rightarrow> Some None | Some w \<Rightarrow> map_option Some (parse_mac w))"

definition At_SetWifiConfig2 :: handler where
  "At_SetWifiConfig2 e argv s =
     (if length argv < 3 then Some (ERROR_INVALID_PARAMETER, s)
      else do {
        a \<leftarrow> arguments argv 3;
        let pSsid = a ! 2;
        let pWebkey = opt_arg argv 3;
        let id' = digit_arg (a ! 0);
        if id' \<noteq> 0 \<and> id' \<noteq> 1 then Some (ERROR_INVALID_PARAMETER, s)
        else do {
          m \<leftarrow> parse_opt_mac (opt_arg argv 4);
          let (r, s) = call e (Wifi (Set_wifi_config_3 id' pSsid (of_nat (length pSsid)) pWebkey
            (of_nat (opt_len pWebkey)) m 5)) s;
          Some (if r \<noteq> 0 then ERROR_INVALID_PARAMETER else ERROR_SUCCESS, s) } })"

text \<open>
  The scan list is searched for the network: \<open>strcmp\<close> runs over the bytes of the entries as they lie
  in memory, since a name of 32 bytes has no terminator. The test \<open>security_type =! 0 && keylen > 0\<close>
  is an assignment of the truth value of \<open>!0 && keylen > 0\<close>.
\<close>

definition ap_bytes :: "ap_info \<Rightarrow> buf" where
  "ap_bytes a = name a @ map (\<lambda>b. char_of (unat b)) (name_len a # mac a @
     [ap_channel a, security_type a, security_subType a, rssi a])"

definition ap_named :: "ap_info list \<Rightarrow> nat \<Rightarrow> string \<Rightarrow> bool" where
  "ap_named aps i t \<longleftrightarrow> c_streq t (concat (map ap_bytes (drop i aps)))"

function ap_search :: "at_env \<Rightarrow> string \<Rightarrow> nat \<Rightarrow> nat \<Rightarrow> at_st \<Rightarrow> (u8 list option \<times> at_st) option" where
  "ap_search e pSsid klen i s =
     (let (n, s) = call e (Wifi GetAvailableIndex) s in
      if i < unat (word_of_int n :: u8) then do {
        ap \<leftarrow> rd (ap_list s) i;
        if ap_named (ap_list s) i pSsid
        then if security_type ap = 0 \<and> klen = 0 then Some (Some (mac ap), s)
             else do {
               let v = (if 0 < klen then 1 else 0);
               let s = s\<lparr>ap_list := (ap_list s)[i := ap\<lparr>security_type := v\<rparr>]\<rparr>;
               if v \<noteq> 0 then Some (Some (mac ap), s) else ap_search e pSsid klen (Suc i) s }
        else ap_search e pSsid klen (Suc i) s }
      else Some (None, s))"
  by pat_completeness auto
termination
proof (relation "measure (\<lambda>(e, t, k, i, s). 256 - i)", goal_cases)
  case (2 e pSsid klen i s p n s' ap)
  then show ?case using unsigned_less [of "word_of_int n :: u8", where ?'a = nat] by simp
next
  case (3 e pSsid klen i s p n s' ap)
  then show ?case using unsigned_less [of "word_of_int n :: u8", where ?'a = nat] by simp
qed simp

declare ap_search.simps [simp del]

definition At_SetWifiConfig :: handler where
  "At_SetWifiConfig e argv s =
     (if length argv < 2 then Some (ERROR_INVALID_PARAMETER, s)
      else do {
        pSsid \<leftarrow> rd argv 1;
        let pWebkey = opt_arg argv 2;
        m \<leftarrow> parse_opt_mac (opt_arg argv 3);
        (found, s) \<leftarrow> ap_search e pSsid (opt_len pWebkey) 0 s;
        let m = (case found of None \<Rightarrow> m | Some b \<Rightarrow> Some (take 6 b));
        let (r, s) = call e (Wifi (Set_wifi_config pSsid (of_nat (length pSsid)) pWebkey
          (of_nat (opt_len pWebkey)) m)) s;
        Some (if r \<noteq> 0 then ERROR_INVALID_PARAMETER else ERROR_SUCCESS, s) })"

definition At_GetNetStatus2 :: handler where
  "At_GetNetStatus2 e argv s =
     do { let s = CRLF_nl s;
          pid \<leftarrow> rd argv 0;
          let id' = digit_arg pid;
          if length argv < 1 \<or> id' \<noteq> 0 \<and> id' \<noteq> 1 then Some (ERROR_INVALID_PARAMETER, s)
          else do {
            let (v, s) = call e (Wifi (Get_wifi_status_2 id')) s;
            Some (ERROR_SUCCESS, print [Lit ''+NETSTATUS=STA'', dec8 id', Lit '' - '', dec (word_of_int v),
              Lit [CHR 0x0D, LF]] s) } }"

definition At_GetNetStatus :: handler where
  "At_GetNetStatus e argv s =
     (let s = CRLF_nl s; (v, s) = call e (Wifi Get_wifi_status) s
      in Some (ERROR_SUCCESS, print [Lit ''+NETSTATUS='', dec (word_of_int v), Lit [CHR 0x0D, LF]] s))"

definition At_DUTSTART :: handler where
  "At_DUTSTART e argv s =
     (let s = CRLF_nl s in
      if length argv < 1 then Some (ERROR_INVALID_PARAMETER, s)
      else do {
        pmode \<leftarrow> rd argv 0;
        let mode = digit_arg pmode;
        if mode > 5 then Some (ERROR_INVALID_PARAMETER, s)
        else Some (ERROR_SUCCESS, run_call e (Wifi (DUT_wifi_start mode)) s) })"

section \<open>MAC addresses in flash and efuse\<close>

definition write_mac :: "string \<Rightarrow> (string \<Rightarrow> wifi_call) \<Rightarrow> handler" where
  "write_mac nm c e argv s =
     (let s = nl s in
      if length argv < 1 then Some (ERROR_INVALID_PARAMETER, s)
      else do {
        a \<leftarrow> rd argv 0;
        if length a \<noteq> 17
        then Some (ERROR_INVALID_PARAMETER, print [Lit ''EX:'', Str nm, line ''=00:23:45:67:89:AB''] s)
        else do {
          let (h, s) = call e (Wifi Wifi_cfg_init) s;
          if h = 0 then Some (ERROR_MEMORY_FAILED, s)
          else Some (ERROR_SUCCESS,
            run_call e (Wifi Wifi_cfg_deinit) (run_call e (Wifi Wifi_cfg_write_cfg) (run_call e (Wifi (c a)) s))) } })"

definition At_RadioWriteMAC1 :: handler where
  "At_RadioWriteMAC1 = write_mac ''AT+RF_WRITE_MAC1'' Wifi_cfg_replace_mem_addr1"

definition At_RadioWriteMAC2 :: handler where
  "At_RadioWriteMAC2 = write_mac ''AT+RF_WRITE_MAC2'' Wifi_cfg_replace_mem_addr2"

definition mac_pieces :: "u8 list \<Rightarrow> piece list" where
  "mac_pieces b = (let h = (\<lambda>i. Num False True 2 (CHR ''X'') (ucast (b ! i))) in
     [h 0, Lit '':'', h 1, Lit '':'', h 2, Lit '':'', h 3, Lit '':'', h 4, Lit '':'', h 5])"

definition six_outs :: "at_env \<Rightarrow> at_st \<Rightarrow> at_call \<Rightarrow> u8 list" where
  "six_outs e s c = map (\<lambda>k. word_of_int (out_value e s c k 0)) [0..<6]"

definition read_mac :: "string \<Rightarrow> wifi_call \<Rightarrow> handler" where
  "read_mac nm c e argv s =
     (let s = nl s; s = run_call e (Wifi Wifi_cfg_init) s;
          b = six_outs e s (Wifi c); s = run_call e (Wifi c) s;
          s = run_call e (Wifi Wifi_cfg_deinit) s
      in Some (ERROR_SUCCESS, print (Str nm # Lit ''='' # mac_pieces b @ [line '''']) s))"

definition At_RadioReadMAC1 :: handler where
  "At_RadioReadMAC1 = read_mac ''AT+RF_READ_MAC1'' Wifi_cfg_get_addr1"

definition At_RadioReadMAC2 :: handler where
  "At_RadioReadMAC2 = read_mac ''AT+RF_READ_MAC2'' Wifi_cfg_get_addr2"

definition At_EfuseEnableWrite :: handler where
  "At_EfuseEnableWrite e argv s =
     Some (ERROR_SUCCESS, print [line ''Now you can write efuse''] ((nl s)\<lparr>bEfuseEnableWrite := True\<rparr>))"

definition At_EfuseWriteMAC :: handler where
  "At_EfuseWriteMAC e argv s =
     (let s = nl s in
      if length argv < 1 then Some (ERROR_INVALID_PARAMETER, s)
      else do {
        a \<leftarrow> rd argv 0;
        if length a \<noteq> 17
        then Some (ERROR_INVALID_PARAMETER, print [Lit ''EX:AT+EFUSE_WRITE_MAC'', line ''=00:23:45:67:89:AB''] s)
        else do {
          b \<leftarrow> parse_mac a;
          let s = print (Lit ''Parse mac -> '' # mac_pieces b @ [line '''']) s;
          if \<not> bEfuseEnableWrite s
          then Some (ERROR_NOT_IMPLEMENT, print [line ''Please run AT+EFUSE_ENABLE_WRITE first''] s)
          else Some (call e (Wifi (Efuse_write_mac b)) (s\<lparr>bEfuseEnableWrite := False\<rparr>)) } })"

definition At_EfuseReadMAC :: handler where
  "At_EfuseReadMAC e argv s =
     (let s = nl s; b = six_outs e s (Wifi Efuse_read_mac); (r, s) = call e (Wifi Efuse_read_mac) s
      in Some (r, if r = 0 then print (Lit ''AT+EFUSE_READ_MAC='' # mac_pieces b @ [line '''']) s
                  else print [line ''No MAC in Efuse''] s))"

section \<open>Update over the air\<close>

definition At_OTASetServer :: handler where
  "At_OTASetServer e argv s =
     (let (st, s) = call e (Wifi Get_wifi_status) s in
      if st \<noteq> 1 then Some (ERROR_WIFI_CONNECTION, s)
      else if length argv < 3 then Some (ERROR_INVALID_PARAMETER, s)
      else do {
        a \<leftarrow> arguments argv 3;
        if atoi (a ! 1) = 0 then Some (ERROR_INVALID_PARAMETER, s)
        else Some (ERROR_SUCCESS, run_call e (Wifi (Ota_set_server (atoi (a ! 2)) (a ! 0) (atoi (a ! 1)))) s) })"

definition At_OTASetParam :: handler where
  "At_OTASetParam e argv s =
     Some (case opt_arg argv 0 of
         None \<Rightarrow> (1, s)
       | Some f \<Rightarrow> (ERROR_SUCCESS, run_call e (Wifi (Ota_set_parameter f
           (case opt_arg argv 1 of None \<Rightarrow> [] | Some p \<Rightarrow> p))) s))"

definition At_OTAStart :: handler where
  "At_OTAStart e argv s = Some (ERROR_SUCCESS, run_call e (Wifi Ota_update) s)"

end
