(* ===== verification/AtConsole.thy ===== *)
theory AtConsole
  imports AtRows AtIo AtWifi
begin

text \<open>
  The handlers of \<open>AtRf\<close>, \<open>AtIo\<close> and \<open>AtWifi\<close> behind the dispatcher of \<open>AtCmd\<close>: which command
  runs which handler, runs of console lines, and the abstract machine that the handlers implement
  for what outlives a command: the calibration table, its copy in flash and the efuse.
\<close>

section \<open>The handlers of the table\<close>

text \<open>The entries of \<open>atcmdicomm_info_tbl\<close> whose handler is modelled.\<close>

definition table_handlers :: "(string \<times> handler) list" where
  "table_handlers = [
     (''AT+RF_TABLE_RT'', At_RfTableRT), (''AT+RF_TABLE_HT'', At_RfTableHT), (''AT+RF_TABLE_LT'', At_RfTableLT),
     (''AT+RF_TABLE_GAIN'', At_RfTableGain), (''AT+RF_TABLE_BRATE_GAIN'', At_RfTableBRateGain),
     (''AT+RF_TABLE_GRATE_GAIN'', At_RfTableGRateGain), (''AT+RF_TABLE_20NRATE_GAIN'', At_RfTable20NRateGain),
     (''AT+RF_TABLE_40NRATE_GAIN'', At_RfTable40NRateGain), (''AT+RF_TEMP_BOUNDARY'', At_RadioRFTempBoundary),
     (''AT+RF_5GTABLE_RT'', At_Rf5GTableRT), (''AT+RF_5GTABLE_HT'', At_Rf5GTableHT),
     (''AT+RF_5GTABLE_LT'', At_Rf5GTableLT), (''AT+RF_5GTABLE_BIAS1'', At_Rf5GTableBIAS1),
     (''AT+RF_5GTABLE_BIAS2'', At_Rf5GTableBIAS2), (''AT+RF_5GTABLE_BAND_THRESHOLD'', At_Rf5GBandThreshold)]"

definition rf_handlers :: "(string \<times> handler) list" where
  "rf_handlers = [
     (''AT+RF_START'', At_RadioRFStart), (''AT+RF_CHANNEL'', At_RadioChannel), (''AT+RF_RATE'', At_RadioRFRate),
     (''AT+RF_2GBAND_GAIN'', At_RadioRFBandGain), (''AT+RF_GAIN'', At_RadioRFGain),
     (''AT+RF_RATE_GAIN'', At_RadioRFRateGain), (''AT+RF_READ_TEMPCS'', At_RadioRFReadTempcs),
     (''AT+RF_STOP'', At_RadioRFStop), (''AT+RF_RESET'', At_RadioRFReset), (''AT+RF_COUNT'', At_RadioRFCount),
     (''AT+RF_ENABLE_TCSR'', At_RadioEnableTCSR), (''AT+RF_DUMP'', At_RadioRFDump),
     (''AT+RF_CALI_DPD'', At_RfCaliDPD), (''AT+RF_MANU_DPD'', At_RfManuDPD),
     (''AT+RF_FREQOFFSET'', At_RadioRFFreqoffset), (''AT+RF_FREQOFFSET_READXO'', At_RadioRFFreqoffset_readxo),
     (''AT+RF_FREQOFFSET_READXI'', At_RadioRFFreqoffset_readxi),
     (''AT+RF_2GPA1'', At_RadioRF2Gpa1), (''AT+RF_2GPA2'', At_RadioRF2Gpa2), (''AT+RF_2GPA3'', At_RadioRF2Gpa3),
     (''AT+RF_2GPABIAS'', At_RadioRF2GpaBias), (''AT+RF_2GPACELL'', At_RadioRF2GpaCell),
     (''AT+RF_2GPACAP'', At_RadioRF2GpaCap), (''AT+RF_LDO'', At_RadioRFLdo), (''AT+RF_DCDC'', At_RadioRFDcdc),
     (''AT+RF_DCDCV'', At_RadioRFDcdcv), (''AT+RF_DLDOV'', At_RadioRFDldov), (''AT+RF_XOLDO'', At_RadioRFXoldo),
     (''AT+RF_RXPAD_CH13'', At_RadioRFRxPadCh13), (''AT+RF_5G_BB_SCALE'', At_Rf5GBBScale),
     (''AT+RF_5G_BIAS1'', At_Rf5GBias1), (''AT+RF_5G_BIAS2'', At_Rf5GBias2)]"

definition io_handlers :: "(string \<times> handler) list" where
  "io_handlers = [
     (''AT+REBOOT'', At_Reboot), (''AT+SET_AUTO_CONNECT'', At_SetAutoConnect),
     (''AT+SET_GPIO_TRI_STATE'', At_SetGpioTriState), (''AT+SET_GPIO_LOGIC'', At_SetGpioLogic),
     (''AT+SET_GPIO_PULL'', At_SetGpioPull), (''AT+READ_GPIO'', At_ReadGpio), (''AT+SET_GPIO_INT'', At_SetGpioInt),
     (''AT+SET_PWM'', At_SetPWM), (''AT+SET_PWM_DISABLE'', At_SetPWMDisable), (''AT+SET_PWM_ENABLE'', At_SetPWMEnable),
     (''AT+SET_PWM_RECONFIG'', At_SetPWMReconfig), (''fixrate'', At_FIXRATE), (''rc_mask'', At_RCMASK),
     (''AT+SET_COUNTRY_CODE'', At_CmdSetCountryCode), (''q'', At_MacHWQueue), (''mib'', At_MacHWMIB)]"

definition wifi_handlers :: "(string \<times> handler) list" where
  "wifi_handlers = [
     (''AT+SCAN'', At_NetScan), (''AT+SET_WIFICONFIG'', At_SetWifiConfig), (''AT+SET_WIFICONFIG2'', At_SetWifiConfig2),
     (''AT+WIFICONNECT'', At_Connect), (''AT+WIFICONNECT2'', At_Connect2), (''AT+WIFIDISCONNECT'', At_Disconnect),
     (''AT+WIFIDISCONNECT2'', At_Disconnect2), (''AT+SET_IFCONFIG'', At_SetIfConfigure),
     (''AT+SET_IFCONFIG2'', At_SetIfConfigure2), (''AT+NETSTATUS'', At_GetNetStatus),
     (''AT+NETSTATUS2'', At_GetNetStatus2), (''AT+DUT_START'', At_DUTSTART), (''AT+ACTIVECONNECT'', At_ConnectActive),
     (''AT+AP_EXIT'', At_AP_EXIT), (''AT+SET_APCONFIG'', At_SET_APCONFIG), (''AT+AP'', At_AP),
     (''AT+GET_APMODE'', At_GET_APMODE), (''AT+HKAP'', At_HKAP),
     (''AT+RF_WRITE_MAC1'', At_RadioWriteMAC1), (''AT+RF_READ_MAC1'', At_RadioReadMAC1),
     (''AT+RF_WRITE_MAC2'', At_RadioWriteMAC2), (''AT+RF_READ_MAC2'', At_RadioReadMAC2),
     (''AT+EFUSE_READ_MAC'', At_EfuseReadMAC), (''AT+OTASETSERVER'', At_OTASetServer),
     (''AT+OTASETPARAM'', At_OTASetParam), (''AT+OTASTART'', At_OTAStart)]"

definition efuse_handlers :: "(string \<times> handler) list" where
  "efuse_handlers = [(''AT+EFUSE_ENABLE_WRITE'', At_EfuseEnableWrite), (''AT+EFUSE_WRITE_MAC'', At_EfuseWriteMAC)]"

definition at_handlers :: "(string \<times> handler) list" where
  "at_handlers = table_handlers @ efuse_handlers @ rf_handlers @ io_handlers @ wifi_handlers"

text \<open>
  The handler as the dispatcher calls it. \<open>None\<close> is a console that has read through a null pointer
  or written outside an array. Commands outside \<open>at_handlers\<close> leave the state of this
  model alone; what they return is the parameter \<open>other\<close>.
\<close>

definition at_handle ::
  "at_env \<Rightarrow> (string \<Rightarrow> string list \<Rightarrow> int) \<Rightarrow> string \<Rightarrow> string list \<Rightarrow> at_st option \<Rightarrow> int \<times> at_st option" where
  "at_handle e other w argv so =
     (case so of None \<Rightarrow> (0, None)
      | Some s \<Rightarrow> (case map_of at_handlers w of
          None \<Rightarrow> (other w argv, Some s)
        | Some h \<Rightarrow> (case h e argv s of None \<Rightarrow> (0, None) | Some (r, s') \<Rightarrow> (r, Some s'))))"

section \<open>Which commands touch what\<close>

definition quiet_call :: "at_call \<Rightarrow> bool" where
  "quiet_call c = (case c of
      Rf (Save_rf_table_to_flash t) \<Rightarrow> False | Wifi (Efuse_write_mac b) \<Rightarrow> False | _ \<Rightarrow> True)"

text \<open>Table, efuse switch and the size of the scan list stay, and the log grows by other calls.\<close>

definition at_frame :: "at_st \<Rightarrow> at_st \<Rightarrow> bool" where
  "at_frame s s' \<longleftrightarrow> ssv_rf_table s' = ssv_rf_table s \<and> bEfuseEnableWrite s' = bEfuseEnableWrite s \<and>
     length (ap_list s') = length (ap_list s) \<and> take (length (calls s)) (calls s') = calls s \<and> list_all quiet_call (drop (length (calls s)) (calls s'))"

definition result_in :: "(at_st \<Rightarrow> bool) \<Rightarrow> (int \<times> at_st) option \<Rightarrow> bool" where
  "result_in P x \<longleftrightarrow> (\<forall>r s'. x = Some (r, s') \<longrightarrow> P s')"

abbreviation keeps_result :: "at_st \<Rightarrow> (int \<times> at_st) option \<Rightarrow> bool" where
  "keeps_result s \<equiv> result_in (at_frame s)"

definition keeps :: "handler \<Rightarrow> bool" where
  "keeps h \<longleftrightarrow> (\<forall>e argv s. keeps_result s (h e argv s))"

named_theorems keep_rules
named_theorems handler_keeps

lemma at_frame_refl [simp]: "at_frame s s"
  by (simp add: at_frame_def)

lemma at_frame_trans: "at_frame s t \<Longrightarrow> at_frame t u \<Longrightarrow> at_frame s u"
proof -
  assume f: "at_frame s t" "at_frame t u"
  obtain cs where t: "calls t = calls s @ cs" using f(1) unfolding at_frame_def by (metis append_take_drop_id)
  obtain ds where u: "calls u = calls t @ ds" using f(2) unfolding at_frame_def by (metis append_take_drop_id)
  from f show ?thesis by (simp add: at_frame_def t u)
qed

lemma frame_print [simp]: "at_frame s (print ps t) = at_frame s t" "at_frame (print ps s) t = at_frame s t"
  by (simp_all add: at_frame_def)

lemma frame_usage [simp]: "at_frame s (usage ts t) = at_frame s t"
proof -
  have "at_frame s (fold (\<lambda>t. print [line t]) ts t) = at_frame s t" by (induction ts arbitrary: t) simp_all
  then show ?thesis by (simp add: usage_def)
qed

lemma frame_upd [simp]:
  "at_frame s (t\<lparr>gpio_intc_id := i\<rparr>) = at_frame s t" "at_frame s (t\<lparr>gpio_intc_mode := i\<rparr>) = at_frame s t"
  "length l = length (ap_list t) \<Longrightarrow> at_frame s (t\<lparr>ap_list := l\<rparr>) = at_frame s t"
  by (simp_all add: at_frame_def)

lemma frame_show_value [simp]: "at_frame s (show_value x v t) = at_frame s t"
  by (simp add: show_value_def)

lemma frame_call [simp]: "quiet_call c \<Longrightarrow> at_frame s t \<Longrightarrow> at_frame s (snd (call e c t))"
proof -
  assume "quiet_call c" "at_frame s t"
  moreover from this(1) have "at_frame t (snd (call e c t))" by (simp add: at_frame_def)
  ultimately show ?thesis using at_frame_trans by blast
qed

lemma frame_call_pair: "call e c t = (r, t') \<Longrightarrow> quiet_call c \<Longrightarrow> at_frame s t \<Longrightarrow> at_frame s t'"
  using frame_call [of c s t e] by simp

lemma quiet_simps [simp]:
  "quiet_call (Io c)" "quiet_call (Rf r) = (\<forall>t. r \<noteq> Save_rf_table_to_flash t)"
  "quiet_call (Wifi w) = (\<forall>b. w \<noteq> Efuse_write_mac b)"
  by (simp_all add: quiet_call_def split: rf_call.splits wifi_call.splits)

text \<open>Rules that follow the text of a handler down to its states.\<close>

lemma keepsI: "(\<And>e argv s. keeps_result s (h e argv s)) \<Longrightarrow> keeps h"
  by (simp add: keeps_def)

lemma result_in_None [keep_rules]: "result_in P None"
  by (simp add: result_in_def)

lemma result_in_Some [keep_rules]: "P (snd p) \<Longrightarrow> result_in P (Some p)"
  by (cases p) (simp add: result_in_def)

lemma result_in_if [keep_rules]: "result_in P x \<Longrightarrow> result_in P y \<Longrightarrow> result_in P (if b then x else y)"
  by simp

lemma result_in_bind [keep_rules]: "(\<And>y. result_in P (f y)) \<Longrightarrow> result_in P (Option.bind m f)"
  by (cases m) (simp_all add: result_in_None)

lemma result_in_Let [keep_rules]: "result_in P (f v) \<Longrightarrow> result_in P (Let v f)"
  by simp

lemma keeps_result_prod [keep_rules]:
  "at_frame s (snd p) \<Longrightarrow> (\<And>r t. at_frame s t \<Longrightarrow> keeps_result s (f r t)) \<Longrightarrow>
   keeps_result s (case p of (r, t) \<Rightarrow> f r t)"
  by (cases p) simp

lemma result_in_option [keep_rules]:
  "result_in P x \<Longrightarrow> (\<And>v. result_in P (f v)) \<Longrightarrow> result_in P (case m of None \<Rightarrow> x | Some v \<Rightarrow> f v)"
  by (cases m) simp_all

lemma frame_snd_if [keep_rules]:
  "at_frame s (snd p) \<Longrightarrow> at_frame s (snd q) \<Longrightarrow> at_frame s (snd (if b then p else q))"
  by simp

lemma frame_snd_Let [keep_rules]: "at_frame s (snd (f v)) \<Longrightarrow> at_frame s (snd (Let v f))"
  by simp

lemma frame_snd_prod [keep_rules]:
  "at_frame s (snd p) \<Longrightarrow> (\<And>r t. at_frame s t \<Longrightarrow> at_frame s (snd (f r t))) \<Longrightarrow>
   at_frame s (snd (case p of (r, t) \<Rightarrow> f r t))"
  by (cases p) simp

lemma frame_snd_option [keep_rules]:
  "at_frame s (snd x) \<Longrightarrow> (\<And>v. at_frame s (snd (f v))) \<Longrightarrow> at_frame s (snd (case m of None \<Rightarrow> x | Some v \<Rightarrow> f v))"
  by (cases m) simp_all

lemma frame_if [keep_rules]: "at_frame s t \<Longrightarrow> at_frame s u \<Longrightarrow> at_frame s (if b then t else u)"
  by simp

lemma frame_snd_sub_rate [keep_rules]:
  "(\<And>g m. quiet_call (Rf (c g m))) \<Longrightarrow> at_frame s t \<Longrightarrow> at_frame s (snd (sub_rate c n1 n2 n3 n4 a0 g e t))"
  by (simp add: sub_rate_def)

lemma frame_CRLF [simp]: "at_frame s (CRLF_nl t) = at_frame s t"
  by (simp add: CRLF_nl_def)

text \<open>The handlers outside the calibration table and the efuse keep both.\<close>

lemmas rf_handler_defs =
  At_RadioRFRate_def At_RadioRFBandGain_def At_RadioRFGain_def
  At_RadioEnableTCSR_def At_RfCaliDPD_def At_RadioRFFreqoffset_def
  At_RadioRF2Gpa1_def At_RadioRF2Gpa2_def At_RadioRF2Gpa3_def
  At_RadioRF2GpaBias_def At_RadioRF2GpaCell_def At_RadioRF2GpaCap_def
  At_RadioRFLdo_def At_RadioRFDcdc_def At_RadioRFDcdcv_def
  At_RadioRFDldov_def At_RadioRFXoldo_def At_RadioRFRxPadCh13_def
  At_Rf5GBias1_def At_Rf5GBias2_def At_RadioRFStart_def
  At_RadioChannel_def At_RadioRFRateGain_def At_RadioRFReadTempcs_def
  At_RadioRFStop_def At_RadioRFReset_def At_RadioRFCount_def
  At_RadioRFDump_def At_RfManuDPD_def At_RadioRFFreqoffset_readxi_def
  At_RadioRFFreqoffset_readxo_def At_Rf5GBBScale_def
  one_call_def

lemmas io_handler_defs =
  At_CmdSetCountryCode_def At_Reboot_def At_SetAutoConnect_def
  At_SetGpioTriState_def At_SetGpioLogic_def At_SetGpioPull_def
  At_ReadGpio_def At_SetGpioInt_def At_SetPWM_def
  At_SetPWMDisable_def At_SetPWMEnable_def At_SetPWMReconfig_def
  At_FIXRATE_def At_RCMASK_def At_MacHWQueue_def
  At_MacHWMIB_def
  one_call_def pwm_usage_def pwm_config_def pwm_report_def mib_usage_def

lemmas wifi_handler_defs =
  At_NetScan_def At_SetWifiConfig2_def At_Connect_def
  At_Connect2_def At_Disconnect_def At_Disconnect2_def
  At_SetIfConfigure_def At_SetIfConfigure2_def At_GetNetStatus_def
  At_GetNetStatus2_def At_DUTSTART_def At_ConnectActive_def
  At_AP_EXIT_def At_AP_def At_GET_APMODE_def
  At_HKAP_def At_RadioWriteMAC1_def At_RadioReadMAC1_def
  At_RadioWriteMAC2_def At_RadioReadMAC2_def At_EfuseReadMAC_def
  At_OTASetServer_def At_OTASetParam_def At_OTAStart_def
  write_mac_def read_mac_def

lemma keeps_rf_one [handler_keeps]:
  "keeps At_RadioRFRate" "keeps At_RadioRFBandGain" "keeps At_RadioRFGain"
  "keeps At_RadioEnableTCSR" "keeps At_RfCaliDPD" "keeps At_RadioRFFreqoffset"
  "keeps At_RadioRF2Gpa1" "keeps At_RadioRF2Gpa2" "keeps At_RadioRF2Gpa3"
  "keeps At_RadioRF2GpaBias" "keeps At_RadioRF2GpaCell" "keeps At_RadioRF2GpaCap"
  "keeps At_RadioRFLdo" "keeps At_RadioRFDcdc" "keeps At_RadioRFDcdcv"
  "keeps At_RadioRFDldov" "keeps At_RadioRFXoldo" "keeps At_RadioRFRxPadCh13"
  "keeps At_Rf5GBias1" "keeps At_Rf5GBias2"
  by (rule keepsI, unfold rf_handler_defs, intro keep_rules; simp)+

lemma keeps_rf [handler_keeps]:
  "keeps At_RadioRFStart" "keeps At_RadioChannel" "keeps At_RadioRFRateGain"
  "keeps At_RadioRFReadTempcs" "keeps At_RadioRFStop" "keeps At_RadioRFReset"
  "keeps At_RadioRFCount" "keeps At_RadioRFDump" "keeps At_RfManuDPD"
  "keeps At_RadioRFFreqoffset_readxi" "keeps At_RadioRFFreqoffset_readxo" "keeps At_Rf5GBBScale"
  by (rule keepsI, unfold rf_handler_defs, intro keep_rules; simp)+

lemma keeps_io [handler_keeps]:
  "keeps At_CmdSetCountryCode" "keeps At_Reboot" "keeps At_SetAutoConnect"
  "keeps At_SetGpioTriState" "keeps At_SetGpioLogic" "keeps At_SetGpioPull"
  "keeps At_ReadGpio" "keeps At_SetGpioInt" "keeps At_SetPWM"
  "keeps At_SetPWMDisable" "keeps At_SetPWMEnable" "keeps At_SetPWMReconfig"
  "keeps At_FIXRATE" "keeps At_RCMASK" "keeps At_MacHWQueue"
  "keeps At_MacHWMIB"
  by (rule keepsI, unfold io_handler_defs, intro keep_rules; simp)+

lemma keeps_wifi [handler_keeps]:
  "keeps At_NetScan" "keeps At_SetWifiConfig2" "keeps At_Connect"
  "keeps At_Connect2" "keeps At_Disconnect" "keeps At_Disconnect2"
  "keeps At_SetIfConfigure" "keeps At_SetIfConfigure2" "keeps At_GetNetStatus"
  "keeps At_GetNetStatus2" "keeps At_DUTSTART" "keeps At_ConnectActive"
  "keeps At_AP_EXIT" "keeps At_AP" "keeps At_GET_APMODE"
  "keeps At_HKAP" "keeps At_RadioWriteMAC1" "keeps At_RadioReadMAC1"
  "keeps At_RadioWriteMAC2" "keeps At_RadioReadMAC2" "keeps At_EfuseReadMAC"
  "keeps At_OTASetServer" "keeps At_OTASetParam" "keeps At_OTAStart"
  by (rule keepsI, unfold wifi_handler_defs, intro keep_rules; simp)+


text \<open>The search unfolded once, and induction over its index, which is a byte.\<close>

abbreviation ap_count :: "at_env \<Rightarrow> at_st \<Rightarrow> nat" where
  "ap_count e s \<equiv> unat (word_of_int (ret e (calls s) (Wifi GetAvailableIndex)) :: u8)"

lemma ap_search_step:
  "ap_search e t k i s =
    (let s1 = run_call e (Wifi GetAvailableIndex) s in
     if i < ap_count e s
     then (case rd (ap_list s) i of None \<Rightarrow> None
       | Some ap \<Rightarrow>
         if ap_named (ap_list s) i t
         then if security_type ap = 0 \<and> k = 0 then Some (Some (mac ap), s1)
              else if 0 < k then Some (Some (mac ap), s1\<lparr>ap_list := (ap_list s)[i := ap\<lparr>security_type := 1\<rparr>]\<rparr>)
              else ap_search e t k (Suc i) (s1\<lparr>ap_list := (ap_list s)[i := ap\<lparr>security_type := 0\<rparr>]\<rparr>)
         else ap_search e t k (Suc i) s1)
     else Some (None, s1))"
  by (subst ap_search.simps) (simp add: case_call Let_def split: option.split)

lemma ap_search_induct:
  assumes "\<And>i s. (i < 256 \<Longrightarrow> \<forall>s'. P (Suc i) s') \<Longrightarrow> P i s"
  shows "P i s"
proof (induction "256 - i" arbitrary: i s rule: less_induct)
  case less
  show ?case by (rule assms) (use less in auto)
qed

lemma ap_count_less: "i < ap_count e s \<Longrightarrow> i < 256"
  using unsigned_less [of "word_of_int (ret e (calls s) (Wifi GetAvailableIndex)) :: u8", where ?'a = nat] by simp

lemma keeps_ap_search: "ap_search e t k i s = Some (m, s') \<Longrightarrow> at_frame s s'"
proof (induction i s arbitrary: m s' rule: ap_search_induct)
  case (1 i s)
  let ?s = "run_call e (Wifi GetAvailableIndex) s"
  have f: "at_frame s ?s" "\<And>l. length l = length (ap_list s) \<Longrightarrow> at_frame s (?s\<lparr>ap_list := l\<rparr>)" by simp_all
  show ?case
  proof (cases "i < ap_count e s")
    case False
    with 1(2) have "s' = ?s" by (simp add: ap_search_step [of e t k i s])
    with f show ?thesis by simp
  next
    case True
    with ap_count_less have IH: "ap_search e t k (Suc i) u = Some (m, s') \<Longrightarrow> at_frame u s'" for u
      using 1(1) by blast
    from True 1(2) obtain ap where ap: "rd (ap_list s) i = Some ap"
      by (auto simp: ap_search_step [of e t k i s] Let_def split: option.splits)
    from 1(2) True have "s' = ?s \<or> (\<exists>l. length l = length (ap_list s) \<and> (s' = ?s\<lparr>ap_list := l\<rparr> \<or>
        ap_search e t k (Suc i) (?s\<lparr>ap_list := l\<rparr>) = Some (m, s'))) \<or> ap_search e t k (Suc i) ?s = Some (m, s')"
      unfolding ap_search_step [of e t k i s] Let_def ap option.case if_P [OF True]
      by (auto split: if_splits intro!: exI [of _ "(ap_list s)[i := _]"])
    with IH f at_frame_trans show ?thesis by blast
  qed
qed

lemma keeps_SetWifiConfig [handler_keeps]: "keeps At_SetWifiConfig"
proof (rule keepsI)
  fix e argv s
  show "keeps_result s (At_SetWifiConfig e argv s)"
    by (auto simp: result_in_def At_SetWifiConfig_def Let_def bind_eq_Some_conv case_call
      split: if_splits dest!: keeps_ap_search)
qed

lemma frame_show_args [simp]: "at_frame s (show_args argv n t) = at_frame s t"
proof -
  have "at_frame s (fold (\<lambda>i. print [Lit ''argv['', dec (of_nat i), Lit '']='', Str (argv ! i), line '''']) is t) = at_frame s t"
    for "is" by (induction "is" arbitrary: t) simp_all
  then show ?thesis by (simp add: show_args_def)
qed

lemma keeps_SET_APCONFIG [handler_keeps]: "keeps At_SET_APCONFIG"
  by (rule keepsI, unfold At_SET_APCONFIG_def apconfig_exit_def, intro keep_rules; simp)

section \<open>The abstract machine\<close>

text \<open>
  What a command can do to the state that lasts: the table and its copy in flash change together,
  and only by the commands of the table; the efuse is written only when armed, which disarms it.
\<close>

record at_abs =
  ram :: st_rf_table
  flash :: "st_rf_table option"
  armed :: bool
  burns :: nat

inductive at_step :: "string \<Rightarrow> at_abs \<Rightarrow> at_abs \<Rightarrow> bool" where
  idle: "at_step w a a"
| save: "w \<in> set (map fst table_handlers) \<Longrightarrow> at_step w a (a\<lparr>ram := t, flash := Some t\<rparr>)"
| arm: "at_step ''AT+EFUSE_ENABLE_WRITE'' a (a\<lparr>armed := True\<rparr>)"
| burn: "armed a \<Longrightarrow> at_step ''AT+EFUSE_WRITE_MAC'' a (a\<lparr>armed := False, burns := Suc (burns a)\<rparr>)"

definition saved_tables :: "at_call list \<Rightarrow> st_rf_table list" where
  "saved_tables cs = List.map_filter (\<lambda>c. case c of Rf (Save_rf_table_to_flash t) \<Rightarrow> Some t | _ \<Rightarrow> None) cs"

definition burned :: "at_call list \<Rightarrow> u8 list list" where
  "burned cs = List.map_filter (\<lambda>c. case c of Wifi (Efuse_write_mac b) \<Rightarrow> Some b | _ \<Rightarrow> None) cs"

definition abs_st :: "at_st \<Rightarrow> at_abs" where
  "abs_st s = \<lparr>ram = ssv_rf_table s,
     flash = (if saved_tables (calls s) = [] then None else Some (last (saved_tables (calls s)))),
     armed = bEfuseEnableWrite s, burns = length (burned (calls s))\<rparr>"

lemma log_append [simp]:
  "saved_tables (cs @ ds) = saved_tables cs @ saved_tables ds" "burned (cs @ ds) = burned cs @ burned ds"
  by (simp_all add: saved_tables_def burned_def map_filter_def)

lemma log_quiet:
  "list_all quiet_call cs \<Longrightarrow> saved_tables cs = [] \<and> burned cs = []"
proof (induction cs)
  case (Cons c cs)
  then show ?case
    by (auto simp: saved_tables_def burned_def map_filter_simps quiet_call_def
      split: at_call.splits rf_call.splits wifi_call.splits)
qed (simp add: saved_tables_def burned_def map_filter_simps)

lemma frame_calls:
  assumes "at_frame s s'"
  obtains cs where "calls s' = calls s @ cs" "list_all quiet_call cs"
  using assms that unfolding at_frame_def by (metis append_take_drop_id)

lemma frame_abs: "at_frame s s' \<Longrightarrow> abs_st s' = abs_st s"
proof -
  assume f: "at_frame s s'"
  obtain cs where cs: "calls s' = calls s @ cs" "list_all quiet_call cs" by (rule frame_calls [OF f])
  with log_quiet [OF cs(2)] f show ?thesis by (simp add: abs_st_def at_frame_def)
qed

text \<open>A handler of the table changes nothing, or stores a table and saves it.\<close>

definition stored :: "at_st \<Rightarrow> at_st \<Rightarrow> bool" where
  "stored s s' \<longleftrightarrow> (\<exists>e u t. at_frame s u \<and> s' = save_rf e (u\<lparr>ssv_rf_table := t\<rparr>))"

definition stores :: "handler \<Rightarrow> bool" where
  "stores h \<longleftrightarrow> (\<forall>e argv s. result_in (\<lambda>t. at_frame s t \<or> stored s t) (h e argv s))"

lemma storesI: "(\<And>e argv s. result_in (\<lambda>t. at_frame s t \<or> stored s t) (h e argv s)) \<Longrightarrow> stores h"
  by (simp add: stores_def)

lemma stored_save: "at_frame s u \<Longrightarrow> stored s (save_rf e (u\<lparr>ssv_rf_table := t\<rparr>))"
  unfolding stored_def by blast

lemma stored_abs:
  assumes "stored s s'"
  shows "\<exists>t. abs_st s' = (abs_st s)\<lparr>ram := t, flash := Some t\<rparr>"
proof -
  obtain e u t where u: "at_frame s u" "s' = save_rf e (u\<lparr>ssv_rf_table := t\<rparr>)"
    using assms unfolding stored_def by blast
  have "calls s' = calls u @ [Rf (Save_rf_table_to_flash t)]" using u(2) by (simp add: save_rf_def)
  moreover have "saved_tables [Rf (Save_rf_table_to_flash t)] = [t]" "burned [Rf (Save_rf_table_to_flash t)] = []"
    by (simp_all add: saved_tables_def burned_def map_filter_simps)
  moreover have "bEfuseEnableWrite s' = bEfuseEnableWrite u" "ssv_rf_table s' = t" using u(2) by (simp_all add: save_rf_def)
  ultimately have "abs_st s' = (abs_st u)\<lparr>ram := t, flash := Some t\<rparr>"
    by (simp add: abs_st_def)
  with frame_abs [OF u(1)] show ?thesis by auto
qed

lemma store_row_stores:
  "at_frame s t \<Longrightarrow> at_frame s (snd (store_row e st c put t)) \<or> stored s (snd (store_row e st c put t))"
  if "quiet_call c"
  using that by (auto simp: store_row_def case_call Let_def temp_state_def intro!: stored_save)

lemma store_gain_stores:
  "at_frame s t \<Longrightarrow> at_frame s (snd (store_gain e c put t)) \<or> stored s (snd (store_gain e c put t))"
  if "quiet_call c"
  using that by (auto simp: store_gain_def case_call intro!: stored_save)

lemma frame_print_row [simp]: "at_frame s (print_row nm ps t) = at_frame s t"
  by (simp add: print_row_def)

lemma tempe_row_stores: "stores (tempe_row_command nm st get put)"
  unfolding tempe_row_command_def by (rule storesI, intro keep_rules; simp add: store_row_stores)

lemma gain_stores: "(\<And>a. quiet_call (c a)) \<Longrightarrow> stores (gain_command show n c put)"
  unfolding gain_command_def by (rule storesI, intro keep_rules; simp add: store_gain_stores)

lemma row_5g_stores:
  "(\<And>e a s t. at_frame s t \<Longrightarrow> at_frame s (snd (set_row e a t)) \<or> stored s (snd (set_row e a t))) \<Longrightarrow>
   stores (row_5g_command nm show n set_row)"
  unfolding row_5g_command_def by (rule storesI, intro keep_rules; simp)

lemma bias_stores: "stores (bias_command nm f put)"
  unfolding bias_command_def by (rule storesI, intro keep_rules; simp add: store_gain_stores)

lemma temp_boundary_stores: "stores At_RadioRFTempBoundary"
  unfolding At_RadioRFTempBoundary_def by (rule storesI, intro keep_rules; simp add: stored_save)

lemma scaled_stores:
  "at_frame s t \<Longrightarrow> at_frame s (snd (let cfg = f t in store_row e st (Rf (Write_reg_tempe_5g_table cfg)) (put cfg) t)) \<or>
     stored s (snd (let cfg = f t in store_row e st (Rf (Write_reg_tempe_5g_table cfg)) (put cfg) t))"
  unfolding Let_def by (rule store_row_stores) simp_all

lemma table_handlers_store: "list_all (\<lambda>(w, h). stores h) table_handlers"
  by (simp add: table_handlers_def temp_boundary_stores At_RfTableRT_def At_RfTableHT_def At_RfTableLT_def
      tempe_row_stores At_RfTableGain_def At_RfTableBRateGain_def At_RfTableGRateGain_def At_RfTable20NRateGain_def
      At_RfTable40NRateGain_def gain_stores At_Rf5GTableBIAS1_def At_Rf5GTableBIAS2_def bias_stores)
    (intro conjI; (unfold At_Rf5GTableRT_def At_Rf5GTableHT_def At_Rf5GTableLT_def At_Rf5GBandThreshold_def)?;
     intro row_5g_stores; (intro scaled_stores store_gain_stores)?; simp)

lemma other_handlers_keep: "list_all (\<lambda>(w, h). keeps h) (rf_handlers @ io_handlers @ wifi_handlers)"
  by (simp add: rf_handlers_def io_handlers_def wifi_handlers_def handler_keeps)

lemma result_in_cases: "(b \<Longrightarrow> result_in P x) \<Longrightarrow> (\<not> b \<Longrightarrow> result_in P y) \<Longrightarrow> result_in P (if b then x else y)"
  by simp

lemma burned_one: "burned [Wifi (Efuse_write_mac b)] = [b]" "saved_tables [Wifi (Efuse_write_mac b)] = []"
  by (simp_all add: saved_tables_def burned_def map_filter_simps)

lemma efuse_enable_abs: "At_EfuseEnableWrite e argv s = Some (r, s') \<Longrightarrow> abs_st s' = (abs_st s)\<lparr>armed := True\<rparr>"
  by (auto simp: At_EfuseEnableWrite_def abs_st_def)

lemma efuse_write_abs:
  assumes "At_EfuseWriteMAC e argv s = Some (r, s')"
  shows "at_frame s s' \<or> bEfuseEnableWrite s \<and> (\<exists>u b. at_frame s u \<and>
    s' = run_call e (Wifi (Efuse_write_mac b)) (u\<lparr>bEfuseEnableWrite := False\<rparr>))"
proof -
  let ?P = "\<lambda>s'. at_frame s s' \<or> bEfuseEnableWrite s \<and> (\<exists>u b. at_frame s u \<and>
    s' = run_call e (Wifi (Efuse_write_mac b)) (u\<lparr>bEfuseEnableWrite := False\<rparr>))"
  have "at_frame s u \<Longrightarrow> bEfuseEnableWrite u \<Longrightarrow> ?P (snd (call e (Wifi (Efuse_write_mac b)) (u\<lparr>bEfuseEnableWrite := False\<rparr>)))" for u b
    unfolding at_frame_def by blast
  then have "result_in ?P (At_EfuseWriteMAC e argv s)"
    unfolding At_EfuseWriteMAC_def Let_def
    by (intro result_in_cases result_in_Some result_in_bind) (simp_all del: call_sel)
  with assms show ?thesis unfolding result_in_def by blast
qed

lemma burn_abs:
  assumes "at_frame s u"
  shows "abs_st (run_call e (Wifi (Efuse_write_mac b)) (u\<lparr>bEfuseEnableWrite := False\<rparr>)) =
    (abs_st s)\<lparr>armed := False, burns := Suc (burns (abs_st s))\<rparr>"
proof -
  have "abs_st (run_call e (Wifi (Efuse_write_mac b)) (u\<lparr>bEfuseEnableWrite := False\<rparr>)) =
    (abs_st u)\<lparr>armed := False, burns := Suc (burns (abs_st u))\<rparr>"
    by (simp add: abs_st_def burned_one)
  with frame_abs [OF assms] show ?thesis by simp
qed

lemma efuse_write_step:
  assumes "At_EfuseWriteMAC e argv s = Some (r, s')"
  shows "at_step ''AT+EFUSE_WRITE_MAC'' (abs_st s) (abs_st s')"
proof -
  consider "at_frame s s'" | u b where "bEfuseEnableWrite s" "at_frame s u"
      "s' = run_call e (Wifi (Efuse_write_mac b)) (u\<lparr>bEfuseEnableWrite := False\<rparr>)"
    using efuse_write_abs [OF assms] by blast
  then show ?thesis
  proof cases
    case 1
    from frame_abs [OF 1] show ?thesis by (simp add: at_step.idle)
  next
    case 2
    have "armed (abs_st s)" using 2(1) by (simp add: abs_st_def)
    from at_step.burn [OF this] show ?thesis unfolding 2(3) burn_abs [OF 2(2)] .
  qed
qed

lemma map_of_filtered: "map_of xs w = Some h \<Longrightarrow> list_all (\<lambda>(w, h). P h) xs \<Longrightarrow> P h"
  by (auto simp: list_all_iff dest!: map_of_SomeD)

lemma efuse_lookup:
  "map_of efuse_handlers w = Some h \<Longrightarrow> (w, h) \<in>
     {(''AT+EFUSE_ENABLE_WRITE'', At_EfuseEnableWrite), (''AT+EFUSE_WRITE_MAC'', At_EfuseWriteMAC)}"
  by (drule map_of_SomeD) (simp add: efuse_handlers_def)

lemma handler_step:
  assumes "map_of at_handlers w = Some h" "h e argv s = Some (r, s')"
  shows "at_step w (abs_st s) (abs_st s')"
proof -
  from assms(1) consider "map_of table_handlers w = Some h" | "map_of efuse_handlers w = Some h"
    | "map_of (rf_handlers @ io_handlers @ wifi_handlers) w = Some h"
    unfolding at_handlers_def map_of_append map_add_def by (auto split: option.splits)
  then show ?thesis
  proof cases
    case 1
    then have "w \<in> set (map fst table_handlers)" by (auto dest!: map_of_SomeD simp: rev_image_eqI)
    moreover have "at_frame s s' \<or> stored s s'"
      using map_of_filtered [OF 1 table_handlers_store] assms(2) unfolding stores_def result_in_def by blast
    ultimately show ?thesis
    proof (elim disjE)
      assume "stored s s'"
      then obtain t where "abs_st s' = (abs_st s)\<lparr>ram := t, flash := Some t\<rparr>" using stored_abs by blast
      then show ?thesis by (simp only: at_step.save [OF \<open>w \<in> set (map fst table_handlers)\<close>])
    qed (simp add: frame_abs at_step.idle)
  next
    case 2
    from efuse_lookup [OF 2] consider "w = ''AT+EFUSE_ENABLE_WRITE''" "h = At_EfuseEnableWrite"
      | "w = ''AT+EFUSE_WRITE_MAC''" "h = At_EfuseWriteMAC" by blast
    then show ?thesis
    proof cases
      case 1
      from assms(2) have "At_EfuseEnableWrite e argv s = Some (r, s')" unfolding 1(2) .
      from efuse_enable_abs [OF this] show ?thesis unfolding 1(1) by (simp only: at_step.arm)
    next
      case 2
      from assms(2) have "At_EfuseWriteMAC e argv s = Some (r, s')" unfolding 2(2) .
      from efuse_write_step [OF this] show ?thesis unfolding 2(1) .
    qed
  next
    case 3
    from map_of_filtered [OF 3 other_handlers_keep] assms(2) have "at_frame s s'"
      unfolding keeps_def result_in_def by blast
    then show ?thesis by (simp add: frame_abs at_step.idle)
  qed
qed

lemma at_handle_step:
  "at_handle e other w argv (Some s) = (r, Some s') \<Longrightarrow> at_step w (abs_st s) (abs_st s')"
  by (auto simp: at_handle_def at_step.idle split: option.splits dest: handler_step)

end
