(* ===== verification/AtRuns.thy ===== *)
theory AtRuns
  imports AtConsole
begin

text \<open>
  Typed commands and runs of the console: what a line does through the dispatcher, the abstract
  machine over runs, and the properties of the handlers.
\<close>

section \<open>Typed lines\<close>

text \<open>A line in a text buffer, given to \<open>At_Parser\<close>; \<open>None\<close> when the console goes wrong.\<close>

definition enter ::
  "(string \<Rightarrow> bool) \<Rightarrow> at_env \<Rightarrow> (string \<Rightarrow> string list \<Rightarrow> int) \<Rightarrow> string \<Rightarrow> at_st \<Rightarrow> (int \<times> at_st) option" where
  "enter build e other t s =
     (case At_Parser (atcmdicomm_info_tbl build) (at_handle e other) (replicate MAX_CMD_LEN NUL)
        (t @ replicate MAX_CMD_LEN NUL) (length t) (Some s) of
       Some (n, rsp, b, Some s') \<Rightarrow> Some (n, s') | _ \<Rightarrow> None)"

lemma enter_command:
  assumes "(w, m) \<in> set (atcmdicomm_info_tbl build)" "map_of at_handlers w = Some h"
    and "NUL \<notin> set args" "args \<noteq> []"
  shows "enter build e other (w @ CHR ''='' # args) s = h e (at_split (if m = 0 then MAX_ARGUMENT else m) args) s"
proof -
  let ?t = "w @ CHR ''='' # args"
  have "(?t @ replicate MAX_CMD_LEN NUL)[length ?t := NUL] = w @ CHR ''='' # args @ NUL # replicate 31 NUL"
    by (simp add: MAX_CMD_LEN_def list_update_append numeral_eq_Suc)
  note P = At_Parser_command [OF assms(1) _ this assms(3,4), of "replicate MAX_CMD_LEN NUL" "at_handle e other" "Some s"]
  have hd: "at_handle e other w a (Some s) = (case h e a s of None \<Rightarrow> (0, None) | Some (r, s') \<Rightarrow> (r, Some s'))" for a
    by (simp add: at_handle_def assms(2))
  show ?thesis
    using P unfolding enter_def hd
    by (cases "h e (at_split (if m = 0 then MAX_ARGUMENT else m) args) s")
      (auto simp: MAX_CMD_LEN_def Let_def split: option.splits prod.splits)
qed

lemma at_split_query: "at_split m ''?'' = [''?'']"
  by (cases "(m, ''?'')" rule: at_split.cases) simp_all

text \<open>A row through the dispatcher: the printed line, entered, restores the row.\<close>

context row_command
begin

lemma row_line_restores:
  assumes "(nm, m) \<in> set (atcmdicomm_info_tbl build)" "map_of at_handlers nm = Some cmd"
    and "n \<le> (if m = 0 then MAX_ARGUMENT else m)" "rf_table_ok (ssv_rf_table s)"
  shows "\<exists>q L. enter build e other (nm @ ''=?'') s = Some (ERROR_SUCCESS, q) \<and> ssv_rf_table q = ssv_rf_table s \<and>
    console q = console s @ crlf (LF # L @ [LF]) \<and>
    (\<forall>e' u. \<exists>r v. enter build e' other L u = Some (r, v) \<and>
      (if r = ERROR_SUCCESS then row (ssv_rf_table v) = row (ssv_rf_table s) \<and> saved_now v
       else ssv_rf_table v = ssv_rf_table u))"
proof -
  let ?t = "ssv_rf_table s" and ?m = "if m = 0 then MAX_ARGUMENT else m"
  let ?a = "join (CHR '','') (texts ?t)"
  have "enter build e other (nm @ ''=?'') s = cmd e [''?''] s"
    using enter_command [OF assms(1,2), of "''?''"] by (simp add: at_split_query)
  with query [of e s] obtain q where q: "enter build e other (nm @ ''=?'') s = Some (ERROR_SUCCESS, q)"
    "ssv_rf_table q = ?t" "console q = console s @ crlf (LF # row_line nm (texts ?t) @ [LF])" by auto
  have "enter build e' other (row_line nm (texts ?t)) u = cmd e' (texts ?t) u" for e' u
    using enter_command [OF assms(1,2), of ?a e' other u] texts_plain [of ?t] texts_split [OF assms(3)]
    by (simp add: row_line_def)
  with texts_restore [OF assms(4)] q show ?thesis by metis
qed

end

text \<open>The nine rows: name and values.\<close>

datatype row_id = Row_RT | Row_HT | Row_LT | Row5_RT | Row5_HT | Row5_LT | Row_bias1 | Row_bias2 | Row_threshold

fun row_name :: "row_id \<Rightarrow> string" where
  "row_name Row_RT = ''AT+RF_TABLE_RT''"
| "row_name Row_HT = ''AT+RF_TABLE_HT''"
| "row_name Row_LT = ''AT+RF_TABLE_LT''"
| "row_name Row5_RT = ''AT+RF_5GTABLE_RT''"
| "row_name Row5_HT = ''AT+RF_5GTABLE_HT''"
| "row_name Row5_LT = ''AT+RF_5GTABLE_LT''"
| "row_name Row_bias1 = ''AT+RF_5GTABLE_BIAS1''"
| "row_name Row_bias2 = ''AT+RF_5GTABLE_BIAS2''"
| "row_name Row_threshold = ''AT+RF_5GTABLE_BAND_THRESHOLD''"

fun row_values :: "row_id \<Rightarrow> st_rf_table \<Rightarrow> nat list" where
  "row_values Row_RT t = map unat (tempe_values (rt_config t))"
| "row_values Row_HT t = map unat (tempe_values (ht_config t))"
| "row_values Row_LT t = map unat (tempe_values (lt_config t))"
| "row_values Row5_RT t = map unat (bbscales (rt_5g_config t))"
| "row_values Row5_HT t = map unat (bbscales (ht_5g_config t))"
| "row_values Row5_LT t = map unat (bbscales (lt_5g_config t))"
| "row_values Row_bias1 t = map unat (biases bias1 t)"
| "row_values Row_bias2 t = map unat (biases bias2 t)"
| "row_values Row_threshold t = map unat (thresholds t)"

fun row_args :: "row_id \<Rightarrow> nat" where
  "row_args r = (if r = Row_RT \<or> r = Row_HT \<or> r = Row_LT then 18 else 0)"

lemma unguarded_entry: "([], w, m) \<in> set atcmd_entries \<Longrightarrow> (w, m) \<in> set (atcmdicomm_info_tbl build)"
  unfolding atcmdicomm_info_tbl_def by force

lemma row_entry: "(row_name r, row_args r) \<in> set (atcmdicomm_info_tbl build)"
  by (rule unguarded_entry, cases r; simp only: row_name.simps row_args.simps row_id.distinct simp_thms if_True if_False;
      unfold atcmd_entries_def list.set; (rule insertI1 | rule insertI2)+)

lemma row_handlers:
  "map_of at_handlers (row_name Row_RT) = Some At_RfTableRT" "map_of at_handlers (row_name Row_HT) = Some At_RfTableHT"
  "map_of at_handlers (row_name Row_LT) = Some At_RfTableLT" "map_of at_handlers (row_name Row5_RT) = Some At_Rf5GTableRT"
  "map_of at_handlers (row_name Row5_HT) = Some At_Rf5GTableHT" "map_of at_handlers (row_name Row5_LT) = Some At_Rf5GTableLT"
  "map_of at_handlers (row_name Row_bias1) = Some At_Rf5GTableBIAS1"
  "map_of at_handlers (row_name Row_bias2) = Some At_Rf5GTableBIAS2"
  "map_of at_handlers (row_name Row_threshold) = Some At_Rf5GBandThreshold"
  by (simp_all add: at_handlers_def table_handlers_def)

lemma row_restores:
  assumes "rf_table_ok (ssv_rf_table s)"
  shows "\<exists>q L. enter build e other (row_name r @ ''=?'') s = Some (ERROR_SUCCESS, q) \<and> ssv_rf_table q = ssv_rf_table s \<and>
    console q = console s @ crlf (LF # L @ [LF]) \<and>
    (\<forall>e' u. \<exists>n v. enter build e' other L u = Some (n, v) \<and>
      (if n = ERROR_SUCCESS then row_values r (ssv_rf_table v) = row_values r (ssv_rf_table s) \<and> saved_now v
       else ssv_rf_table v = ssv_rf_table u))"
proof -
  have m: "18 \<le> (if (18 :: nat) = 0 then MAX_ARGUMENT else 18)" "4 \<le> (if (0 :: nat) = 0 then MAX_ARGUMENT else 0)"
    "3 \<le> (if (0 :: nat) = 0 then MAX_ARGUMENT else 0)" by (simp_all add: MAX_ARGUMENT_def)
  note en = row_entry [of _ build]
  show ?thesis
  proof (cases r)
    case Row_RT
    from rt.row_line_restores [OF _ _ m(1) assms, of build e other] row_handlers(1) en [of Row_RT]
    show ?thesis by (simp add: Row_RT) metis
  next
    case Row_HT
    from ht.row_line_restores [OF _ _ m(1) assms, of build e other] row_handlers(2) en [of Row_HT]
    show ?thesis by (simp add: Row_HT) metis
  next
    case Row_LT
    from lt.row_line_restores [OF _ _ m(1) assms, of build e other] row_handlers(3) en [of Row_LT]
    show ?thesis by (simp add: Row_LT) metis
  next
    case Row5_RT
    from rt5.row_line_restores [OF _ _ m(2) assms, of build e other] row_handlers(4) en [of Row5_RT]
    show ?thesis by (simp add: Row5_RT) metis
  next
    case Row5_HT
    from ht5.row_line_restores [OF _ _ m(2) assms, of build e other] row_handlers(5) en [of Row5_HT]
    show ?thesis by (simp add: Row5_HT) metis
  next
    case Row5_LT
    from lt5.row_line_restores [OF _ _ m(2) assms, of build e other] row_handlers(6) en [of Row5_LT]
    show ?thesis by (simp add: Row5_LT) metis
  next
    case Row_bias1
    from bias1.row_line_restores [OF _ _ m(3) assms, of build e other] row_handlers(7) en [of Row_bias1]
    show ?thesis by (simp add: Row_bias1) metis
  next
    case Row_bias2
    from bias2.row_line_restores [OF _ _ m(3) assms, of build e other] row_handlers(8) en [of Row_bias2]
    show ?thesis by (simp add: Row_bias2) metis
  next
    case Row_threshold
    from thr.row_line_restores [OF _ _ m(3) assms, of build e other] row_handlers(9) en [of Row_threshold]
    show ?thesis by (simp add: Row_threshold) metis
  qed
qed

section \<open>Runs\<close>

text \<open>The console over a sequence of lines: the stale \<open>cmd\<close> array, the buffer and the length.\<close>

fun console_run ::
  "(string \<Rightarrow> bool) \<Rightarrow> at_env \<Rightarrow> (string \<Rightarrow> string list \<Rightarrow> int) \<Rightarrow> (buf \<times> buf \<times> nat) list \<Rightarrow> at_st \<Rightarrow> at_st option" where
  "console_run build e other [] s = Some s"
| "console_run build e other ((cmd0, buff, len) # ls) s =
     (case At_Parser (atcmdicomm_info_tbl build) (at_handle e other) cmd0 buff len (Some s) of
        Some (n, rsp, b, Some s') \<Rightarrow> console_run build e other ls s' | _ \<Rightarrow> None)"

text \<open>A sequence of commands with their arguments, without the dispatcher.\<close>

fun commands_run :: "at_env \<Rightarrow> (string \<Rightarrow> string list \<Rightarrow> int) \<Rightarrow> (string \<times> string list) list \<Rightarrow> at_st \<Rightarrow> at_st option" where
  "commands_run e other [] s = Some s"
| "commands_run e other ((w, argv) # cs) s =
     (case at_handle e other w argv (Some s) of (n, Some s') \<Rightarrow> commands_run e other cs s' | _ \<Rightarrow> None)"

inductive at_trace :: "string list \<Rightarrow> at_abs \<Rightarrow> at_abs \<Rightarrow> bool" where
  nil: "at_trace [] a a"
| cons: "at_step w a b \<Longrightarrow> at_trace ws b c \<Longrightarrow> at_trace (w # ws) a c"

text \<open>What holds of every result of an option computation, followed down its text.\<close>

definition opt_all :: "('a \<Rightarrow> bool) \<Rightarrow> 'a option \<Rightarrow> bool" where
  "opt_all Q x \<longleftrightarrow> (\<forall>y. x = Some y \<longrightarrow> Q y)"

named_theorems opt_rules

lemma opt_all_Some [opt_rules]: "Q y \<Longrightarrow> opt_all Q (Some y)"
  by (simp add: opt_all_def)

lemma opt_all_bind: "opt_all R m \<Longrightarrow> (\<And>y. R y \<Longrightarrow> opt_all Q (f y)) \<Longrightarrow> opt_all Q (Option.bind m f)"
  by (cases m) (auto simp: opt_all_def)

lemma opt_all_bind' [opt_rules]: "(\<And>y. opt_all Q (f y)) \<Longrightarrow> opt_all Q (Option.bind m f)"
  by (cases m) (auto simp: opt_all_def)

lemma opt_all_if [opt_rules]: "opt_all Q x \<Longrightarrow> opt_all Q y \<Longrightarrow> opt_all Q (if b then x else y)"
  by simp

lemma opt_all_prod [opt_rules]: "(\<And>a b. p = (a, b) \<Longrightarrow> opt_all Q (f a b)) \<Longrightarrow> opt_all Q (case p of (a, b) \<Rightarrow> f a b)"
  by (cases p) simp

lemma opt_all_option [opt_rules]:
  "opt_all Q x \<Longrightarrow> (\<And>v. opt_all Q (f v)) \<Longrightarrow> opt_all Q (case m of None \<Rightarrow> x | Some v \<Rightarrow> f v)"
  by (cases m) simp_all

lemma At_Parser_same_or_handler:
  assumes "At_Parser tbl pf cmd0 buff len w = Some (n, rsp, b, w')"
  shows "w' = w \<or> (\<exists>name args. w' = snd (pf name args w))"
proof -
  let ?Q = "\<lambda>w'. w' = w \<or> (\<exists>name args. w' = snd (pf name args w))"
  have "opt_all (\<lambda>(n, rsp, b, w'). ?Q w') (At_Parser tbl pf cmd0 buff len w)"
    unfolding At_Parser_def Let_def
  proof ((rule opt_all_bind')+, rule opt_all_if, goal_cases)
    case (2 y c)
    show ?case
    proof (rule opt_all_bind', rule opt_all_bind', rule opt_all_prod, rule opt_all_bind [where R = "\<lambda>(n, b, w'). ?Q w'"], goal_cases)
      case 1
      then show ?case by (intro opt_rules) (simp, simp, intro disjI2 exI, erule sndI [symmetric])
    next
      case 2
      then show ?case by (auto intro!: opt_rules)
    qed
  qed (simp add: opt_all_def)
  with assms show ?thesis by (auto simp: opt_all_def)
qed

lemma commands_trace: "commands_run e other cs s = Some s' \<Longrightarrow> at_trace (map fst cs) (abs_st s) (abs_st s')"
proof (induction e other cs s rule: commands_run.induct)
  case (2 e other w argv cs s)
  then obtain n u where u: "at_handle e other w argv (Some s) = (n, Some u)" "commands_run e other cs u = Some s'"
    by (auto split: prod.splits option.splits)
  with 2(1) at_handle_step [OF u(1)] show ?case by (auto intro: at_trace.cons)
qed (simp add: at_trace.nil)

lemma console_trace: "console_run build e other ls s = Some s' \<Longrightarrow> \<exists>ws. at_trace ws (abs_st s) (abs_st s')"
proof (induction build e other ls s rule: console_run.induct)
  case (2 build e other cmd0 buff len ls s)
  then obtain n rsp b u where
    u: "At_Parser (atcmdicomm_info_tbl build) (at_handle e other) cmd0 buff len (Some s) = Some (n, rsp, b, Some u)"
    "console_run build e other ls u = Some s'"
    by (auto split: prod.splits option.splits)
  have "\<exists>ws. at_trace ws (abs_st u) (abs_st s')" by (rule 2(1) [OF u(1) refl refl refl refl u(2)])
  then obtain ws where ws: "at_trace ws (abs_st u) (abs_st s')" ..
  from At_Parser_same_or_handler [OF u(1)] consider "u = s" | w args where "at_handle e other w args (Some s) = (fst (at_handle e other w args (Some s)), Some u)"
    by (metis option.inject prod.collapse)
  then obtain w where "at_step w (abs_st s) (abs_st u)"
    using at_handle_step at_step.idle by metis
  with ws show ?case by (auto intro: at_trace.cons)
qed (auto intro: at_trace.nil)

lemma trace_flash:
  "at_trace ws a b \<Longrightarrow> flash b = flash a \<and> ram b = ram a \<or> flash b = Some (ram b)"
proof (induction rule: at_trace.induct)
  case (cons w a b ws c)
  from cons(1) have "flash b = flash a \<and> ram b = ram a \<or> flash b = Some (ram b)"
    by (cases rule: at_step.cases) simp_all
  with cons(3) show ?case by auto
qed simp

lemma trace_burns:
  "at_trace ws a b \<Longrightarrow> burns b + of_bool (armed b) \<le> burns a + of_bool (armed a) + count_list ws ''AT+EFUSE_ENABLE_WRITE''"
proof (induction rule: at_trace.induct)
  case (cons w a b ws c)
  from cons(1) have "burns b + of_bool (armed b) \<le> burns a + of_bool (armed a) + of_bool (w = ''AT+EFUSE_ENABLE_WRITE'')"
    by (cases rule: at_step.cases) (auto simp: of_bool_def)
  with cons(3) show ?case by auto
qed simp

section \<open>Typed numbers and addresses\<close>

definition num_text :: "int \<Rightarrow> string" where
  "num_text i = (if i < 0 then CHR ''-'' # decimal (nat (- i)) else decimal (nat i))"

lemma str_atoi_minus: "str_atoi (CHR ''-'' # t) = - digits_value 0 t"
  by (simp add: str_atoi_def is_space_def)

lemma digits_value_decimal: "digits_value 0 (decimal n) = int n"
proof -
  obtain d ds where d: "d < 16" "base_text 10 n = digit_char False d # digit_text ds"
    by (rule base_text_Cons [of 10 n]) auto
  have "str_atoi (decimal n) = digits_value 0 (decimal n)"
    using no_space_digit [OF d(1)] by (simp add: str_atoi_def decimal_base d(2))
  then show ?thesis by (simp add: str_atoi_decimal)
qed

lemma atoi_num_text: "INT_MIN \<le> i \<Longrightarrow> i \<le> INT_MAX \<Longrightarrow> atoi (num_text i) = i"
  by (auto simp: num_text_def atoi_int str_atoi_minus digits_value_decimal str_atoi_decimal)

lemma arg_word_num: "arg_word (num_text i)"
  using arg_word_decimal [of "nat i"] arg_word_decimal [of "nat (- i)"]
  by (auto simp: num_text_def arg_word_def)

text \<open>A list of words as the arguments of a typed line.\<close>

lemma enter_words:
  assumes "(w, m) \<in> set (atcmdicomm_info_tbl build)" "map_of at_handlers w = Some h"
    and "ws \<noteq> []" "\<forall>a \<in> set ws. arg_word a" "length ws \<le> (if m = 0 then MAX_ARGUMENT else m)"
  shows "enter build e other (w @ CHR ''='' # join (CHR '','') ws) s = h e ws s"
proof -
  have "hd ws \<noteq> []" using assms(3,4) by (cases ws) (auto simp: arg_word_def)
  with assms(3) have "join (CHR '','') ws \<noteq> []" by (rule join_not_Nil)
  with enter_command [OF assms(1,2)] arg_words_join(1) [OF assms(4)] at_split_join [OF assms(3-5)]
  show ?thesis by simp
qed

definition dotted :: "u8 list \<Rightarrow> string" where
  "dotted b = join (CHR ''.'') (decs b)"

lemma decimal_byte: "length (decimal (unat (b :: u8))) \<le> 3" "set (decimal n) \<inter> set '' .'' = {}"
proof -
  have "unat b < 10 ^ 3" using unsigned_less [of b, where ?'a = nat] by simp
  from rev_digits_length_10 [OF this] show "length (decimal (unat b)) \<le> 3" by (simp add: decimal_def)
  have "digit_char False d \<notin> set '' .''" if "d < 10" for d
    using digit_char_neq [of d] that by auto
  with rev_digits_less [of 10 _ n] show "set (decimal n) \<inter> set '' .'' = {}"
    by (fastforce simp: decimal_def)
qed

lemma list_of_four: "length xs = 4 \<Longrightarrow> xs = [xs ! 0, xs ! 1, xs ! 2, xs ! 3]"
  by (auto simp: numeral_eq_Suc length_Suc_conv)

lemma ip2int_dotted:
  assumes "length b = 4"
  shows "ip2int (dotted b) = Some (ERROR_SUCCESS, b)" "arg_word (dotted b)" "length (dotted b) < 16"
proof -
  obtain x y z w where b: "b = [x, y, z, w]" using list_of_four [OF assms] by blast
  have l: "length (dotted b) < 16"
    using decimal_byte(1) [of x] decimal_byte(1) [of y] decimal_byte(1) [of z] decimal_byte(1) [of w]
    by (simp add: dotted_def b)
  have words: "\<forall>v \<in> set (decs b). v \<noteq> [] \<and> set v \<inter> set '' .'' = {}"
    using decimal_byte(2) arg_word_decimal by (auto simp: arg_word_def)
  have aw: "set (dotted b) \<subseteq> insert (CHR ''.'') (\<Union> (set ` set (decs b)))" unfolding dotted_def by (rule set_join)
  then show "arg_word (dotted b)"
    using arg_word_decimal join_not_Nil [of "decs b" "CHR ''.''"] by (fastforce simp: arg_word_def dotted_def b)
  then have nn: "NUL \<notin> set (dotted b)" by (simp add: arg_word_def)
  have "blit (replicate 16 NUL) 0 (dotted b @ [NUL]) = Some (dotted b @ NUL # replicate (15 - length (dotted b)) NUL)"
    using l by (simp add: blit_def)
  with nn have "ip2int (dotted b) = (let ts = strtok '' .'' (dotted b) in
      Some (if length ts < 4 then (ERROR_INVALID_PARAMETER, []) else (ERROR_SUCCESS, map int8 (take 4 ts))))"
    by (simp add: ip2int_def)
  also have "strtok '' .'' (dotted b) = decs b" unfolding dotted_def using words by (intro strtok_join) auto
  finally show "ip2int (dotted b) = Some (ERROR_SUCCESS, b)" by (simp add: b int8_decimal)
  show "length (dotted b) < 16" by (rule l)
qed

end
