(* ===== verification/AtSpec.thy ===== *)
theory AtSpec
  imports AtRuns
begin

text \<open>
  The signatures of the handlers, and the properties of the commands of \<open>AtRf\<close>, \<open>AtIo\<close> and
  \<open>AtWifi\<close>.
\<close>

section \<open>Signatures\<close>

text \<open>
  The argument lists that each handler takes without reading through a missing argument or
  overrunning an array, in the order of \<open>at_handlers\<close>.
\<close>

type_synonym args_pred = "string list \<Rightarrow> bool"

definition any_args :: args_pred where "any_args a \<longleftrightarrow> True"
definition some_arg :: args_pred where "some_arg a \<longleftrightarrow> a \<noteq> []"
definition none_or :: "nat \<Rightarrow> args_pred" where "none_or n a \<longleftrightarrow> a = [] \<or> n \<le> length a"
definition at_least :: "nat \<Rightarrow> args_pred" where "at_least n a \<longleftrightarrow> n \<le> length a"
definition query_or :: "nat \<Rightarrow> args_pred" where
  "query_or n a \<longleftrightarrow> a = [] \<or> hd a = ''?'' \<or> n \<le> length a"

fun ips_fit :: args_pred where
  "ips_fit [] = True"
| "ips_fit (t # ts) = (length t < 16 \<and> (4 \<le> length (strtok '' .'' t) \<longrightarrow> ips_fit ts))"

definition mac_fits :: "string \<Rightarrow> bool" where "mac_fits t \<longleftrightarrow> 6 \<le> length (strtok '':'' t)"

definition ifconfig_args :: args_pred where
  "ifconfig_args a \<longleftrightarrow> length a < 1 \<or> digit_arg (a ! 0) \<noteq> 0 \<or> length a < 4 \<or> ips_fit (take 3 (drop 1 a))"

definition ifconfig2_args :: args_pred where
  "ifconfig2_args a \<longleftrightarrow> length a < 2 \<or> digit_arg (a ! 0) \<notin> {0, 1} \<or> digit_arg (a ! 1) \<noteq> 0 \<or>
     length a < 5 \<or> ips_fit (take 3 (drop 2 a))"

definition wificonfig_args :: args_pred where
  "wificonfig_args a \<longleftrightarrow> length a < 4 \<or> mac_fits (a ! 3)"

definition wificonfig2_args :: args_pred where
  "wificonfig2_args a \<longleftrightarrow> length a < 5 \<or> digit_arg (a ! 0) \<notin> {0, 1} \<or> mac_fits (a ! 4)"

definition efuse_args :: args_pred where
  "efuse_args a \<longleftrightarrow> a = [] \<or> length (a ! 0) \<noteq> 17 \<or> mac_fits (a ! 0)"

definition byte_len :: "string \<Rightarrow> string \<Rightarrow> bool" where
  "byte_len n t \<longleftrightarrow> (scast (ucast (strtoul n 10) :: 8 word) :: u32) = of_nat (length t)"

definition apconfig_args :: args_pred where
  "apconfig_args a \<longleftrightarrow> length a < 9 \<or> \<not> byte_len (a ! 6) (a ! 7) \<or>
     length (a ! 7) \<le> 64 \<and> 11 \<le> length a \<and>
     (\<not> byte_len (a ! 9) (a ! 10) \<or> length (a ! 7) < 64 \<and> length (a ! 10) < 32)"

definition at_sigs :: "args_pred list" where
  "at_sigs =
     [query_or 18, query_or 18, query_or 18, any_args, any_args, query_or 4, query_or 4, query_or 4, none_or 2,
      some_arg, some_arg, some_arg, some_arg, some_arg, some_arg] @
     [any_args, efuse_args] @
     [at_least 2, at_least 2, any_args, any_args, any_args, none_or 2] @ replicate 26 any_args @
     replicate 16 any_args @
     [any_args, wificonfig_args, wificonfig2_args, any_args, some_arg, any_args, some_arg, ifconfig_args,
      ifconfig2_args, any_args, some_arg, any_args, any_args, any_args, apconfig_args] @ replicate 11 any_args"

definition args_ok :: "string \<Rightarrow> args_pred" where
  "args_ok w a = (case map_of (zip (map fst at_handlers) at_sigs) w of None \<Rightarrow> True | Some P \<Rightarrow> P a)"

text \<open>What the handlers rely on: the scan list is as long as the library says, texts hold no NUL.\<close>

definition scan_ok :: "at_env \<Rightarrow> at_st \<Rightarrow> bool" where
  "scan_ok e s \<longleftrightarrow> (\<forall>cs. unat (word_of_int (ret e cs (Wifi GetAvailableIndex)) :: u8) \<le> length (ap_list s))"

definition safe_iff :: "handler \<Rightarrow> args_pred \<Rightarrow> bool" where
  "safe_iff h P \<longleftrightarrow> (\<forall>e a s. scan_ok e s \<longrightarrow> (\<forall>w \<in> set a. NUL \<notin> set w) \<longrightarrow> (h e a s = None) = (\<not> P a))"

lemma safe_iffI: "(\<And>e a s. scan_ok e s \<Longrightarrow> \<forall>w \<in> set a. NUL \<notin> set w \<Longrightarrow> (h e a s = None) = (\<not> P a)) \<Longrightarrow> safe_iff h P"
  by (simp add: safe_iff_def)

lemma safe_iff_Some: "(\<And>e a s. h e a s \<noteq> None) \<Longrightarrow> safe_iff h any_args"
  by (simp add: safe_iff_def any_args_def)

lemmas arg_preds = any_args_def some_arg_def none_or_def at_least_def query_or_def

lemma rd_None [simp]: "rd a i = None \<longleftrightarrow> length a \<le> i"
  by (simp add: rd_def)

named_theorems sigs

lemma sig_one_call: "safe_iff (one_call c) any_args" "safe_iff (\<lambda>e a s. one_call c e a (f s)) any_args"
  by (rule safe_iff_Some, simp add: one_call_eq)+

lemma hd_nth: "rd a 0 = Some x \<Longrightarrow> hd a = x"
  by (cases a) (auto simp: rd_def)

lemma sig_tempe: "safe_iff (tempe_row_command nm st get put) (query_or 18)"
  by (rule safe_iffI) (auto simp: tempe_row_command_def arg_preds Let_def arguments_def dest: hd_nth
    split: bind_splits)

lemma sig_gain:
  "safe_iff (gain_command show (Suc 0) c put) any_args"
  "safe_iff (gain_command show 4 c put) (query_or 4)"
  by (rule safe_iffI; auto simp: gain_command_def arg_preds Let_def arguments_def Suc_le_eq dest: hd_nth
    split: bind_splits)+

lemma sig_5g: "safe_iff (row_5g_command nm show n f) some_arg"
  by (rule safe_iffI) (auto simp: row_5g_command_def arg_preds arguments_def Let_def rd_eq_Some_iff split: bind_splits)

lemma sig_bias: "safe_iff (bias_command nm f put) some_arg"
  by (rule safe_iffI) (auto simp: bias_command_def arg_preds arguments_def Let_def rd_eq_Some_iff split: bind_splits)

lemma sig_table [sigs]:
  "safe_iff At_RfTableRT (query_or 18)" "safe_iff At_RfTableHT (query_or 18)" "safe_iff At_RfTableLT (query_or 18)"
  "safe_iff At_RfTableGain any_args" "safe_iff At_RfTableBRateGain any_args"
  "safe_iff At_RfTableGRateGain (query_or 4)" "safe_iff At_RfTable20NRateGain (query_or 4)"
  "safe_iff At_RfTable40NRateGain (query_or 4)" "safe_iff At_Rf5GTableRT some_arg"
  "safe_iff At_Rf5GTableHT some_arg" "safe_iff At_Rf5GTableLT some_arg" "safe_iff At_Rf5GTableBIAS1 some_arg"
  "safe_iff At_Rf5GTableBIAS2 some_arg" "safe_iff At_Rf5GBandThreshold some_arg"
  unfolding At_RfTableRT_def At_RfTableHT_def At_RfTableLT_def At_RfTableGain_def At_RfTableBRateGain_def
    At_RfTableGRateGain_def At_RfTable20NRateGain_def At_RfTable40NRateGain_def At_Rf5GTableRT_def
    At_Rf5GTableHT_def At_Rf5GTableLT_def At_Rf5GTableBIAS1_def At_Rf5GTableBIAS2_def At_Rf5GBandThreshold_def One_nat_def
  by (rule sig_tempe sig_gain sig_5g sig_bias)+

lemma sig_rf [sigs]:
  "safe_iff At_RadioRFTempBoundary (none_or 2)" "safe_iff At_RadioRFStart (at_least 2)"
  "safe_iff At_RadioChannel (at_least 2)" "safe_iff At_RadioRFRateGain (none_or 2)"
  by (rule safe_iffI; auto simp: At_RadioRFTempBoundary_def At_RadioRFStart_def At_RadioChannel_def
    At_RadioRFRateGain_def arg_preds arguments_def Let_def rd_eq_Some_iff split: bind_splits)+

lemmas one_call_defs =
  At_RadioRFRate_def At_RadioRFBandGain_def At_RadioRFGain_def
  At_RadioEnableTCSR_def At_RfCaliDPD_def At_RadioRFFreqoffset_def
  At_RadioRF2Gpa1_def At_RadioRF2Gpa2_def At_RadioRF2Gpa3_def
  At_RadioRF2GpaBias_def At_RadioRF2GpaCell_def At_RadioRF2GpaCap_def
  At_RadioRFLdo_def At_RadioRFDcdc_def At_RadioRFDcdcv_def
  At_RadioRFDldov_def At_RadioRFXoldo_def At_RadioRFRxPadCh13_def
  At_Rf5GBias1_def At_Rf5GBias2_def At_CmdSetCountryCode_def

lemma sig_ones [sigs]:
  "safe_iff At_RadioRFRate any_args" "safe_iff At_RadioRFBandGain any_args" "safe_iff At_RadioRFGain any_args"
  "safe_iff At_RadioEnableTCSR any_args" "safe_iff At_RfCaliDPD any_args" "safe_iff At_RadioRFFreqoffset any_args"
  "safe_iff At_RadioRF2Gpa1 any_args" "safe_iff At_RadioRF2Gpa2 any_args" "safe_iff At_RadioRF2Gpa3 any_args"
  "safe_iff At_RadioRF2GpaBias any_args" "safe_iff At_RadioRF2GpaCell any_args" "safe_iff At_RadioRF2GpaCap any_args"
  "safe_iff At_RadioRFLdo any_args" "safe_iff At_RadioRFDcdc any_args" "safe_iff At_RadioRFDcdcv any_args"
  "safe_iff At_RadioRFDldov any_args" "safe_iff At_RadioRFXoldo any_args" "safe_iff At_RadioRFRxPadCh13 any_args"
  "safe_iff At_Rf5GBias1 any_args" "safe_iff At_Rf5GBias2 any_args" "safe_iff At_CmdSetCountryCode any_args"
  by (simp_all add: one_call_defs [abs_def] sig_one_call)

lemma sig_total_rf [sigs]:
  "safe_iff At_RadioRFReadTempcs any_args" "safe_iff At_RadioRFStop any_args" "safe_iff At_RadioRFReset any_args"
  "safe_iff At_RadioRFCount any_args" "safe_iff At_RadioRFDump any_args" "safe_iff At_RfManuDPD any_args"
  "safe_iff At_RadioRFFreqoffset_readxi any_args" "safe_iff At_RadioRFFreqoffset_readxo any_args" "safe_iff At_Rf5GBBScale any_args"
  by (rule safe_iff_Some, auto simp: rf_handler_defs arguments_def Let_def case_call split: bind_splits)+

lemma sig_total_io [sigs]:
  "safe_iff At_Reboot any_args" "safe_iff At_SetAutoConnect any_args" "safe_iff At_SetGpioTriState any_args"
  "safe_iff At_SetGpioLogic any_args" "safe_iff At_SetGpioPull any_args" "safe_iff At_ReadGpio any_args"
  "safe_iff At_SetGpioInt any_args" "safe_iff At_SetPWM any_args" "safe_iff At_SetPWMDisable any_args"
  "safe_iff At_SetPWMEnable any_args" "safe_iff At_SetPWMReconfig any_args" "safe_iff At_FIXRATE any_args"
  "safe_iff At_RCMASK any_args" "safe_iff At_MacHWQueue any_args" "safe_iff At_MacHWMIB any_args"
  by (rule safe_iff_Some, auto simp: io_handler_defs pwm_refused_def arguments_def Let_def case_call split: bind_splits)+

lemma sig_total_wifi [sigs]:
  "safe_iff At_NetScan any_args" "safe_iff At_Connect any_args" "safe_iff At_Disconnect any_args"
  "safe_iff At_GetNetStatus any_args" "safe_iff At_DUTSTART any_args" "safe_iff At_ConnectActive any_args"
  "safe_iff At_AP_EXIT any_args" "safe_iff At_AP any_args" "safe_iff At_GET_APMODE any_args"
  "safe_iff At_HKAP any_args" "safe_iff At_RadioWriteMAC1 any_args" "safe_iff At_RadioReadMAC1 any_args"
  "safe_iff At_RadioWriteMAC2 any_args" "safe_iff At_RadioReadMAC2 any_args" "safe_iff At_EfuseReadMAC any_args"
  "safe_iff At_OTASetServer any_args" "safe_iff At_OTASetParam any_args" "safe_iff At_OTAStart any_args"
  "safe_iff At_EfuseEnableWrite any_args"
  by (rule safe_iff_Some, auto simp: wifi_handler_defs At_EfuseEnableWrite_def arguments_def Let_def case_call blit_def split: bind_splits option.splits)+


lemma sig_station [sigs]:
  "safe_iff At_Connect2 some_arg" "safe_iff At_Disconnect2 some_arg" "safe_iff At_GetNetStatus2 some_arg"
  by (rule safe_iffI; auto simp: wifi_handler_defs arg_preds rd_eq_Some_iff Let_def case_call split: bind_splits)+

lemma ip2int_None: "NUL \<notin> set t \<Longrightarrow> ip2int t = None \<longleftrightarrow> 16 \<le> length t"
  by (auto simp: ip2int_def blit_def Let_def)

lemma ip2int_code:
  assumes "NUL \<notin> set t" "length t < 16"
  shows "\<exists>b. ip2int t = Some (if length (strtok '' .'' t) < 4 then ERROR_INVALID_PARAMETER else ERROR_SUCCESS, b)"
proof -
  have "blit (replicate 16 NUL) 0 (t @ [NUL]) = Some (t @ NUL # replicate (15 - length t) NUL)"
    using assms(2) by (simp add: blit_def)
  with assms(1) show ?thesis by (simp add: ip2int_def Let_def)
qed

lemma static_ips_None: "\<forall>t \<in> set ts. NUL \<notin> set t \<Longrightarrow> static_ips ts = None \<longleftrightarrow> \<not> ips_fit ts"
proof (induction ts)
  case (Cons t ts)
  show ?case
  proof (cases "length t < 16")
    case True
    obtain b where "ip2int t = Some (if length (strtok '' .'' t) < 4 then ERROR_INVALID_PARAMETER else ERROR_SUCCESS, b)"
      using ip2int_code [OF _ True] Cons.prems by auto
    with Cons True show ?thesis
      by (auto simp: ERROR_INVALID_PARAMETER_def ERROR_SUCCESS_def split: bind_splits)
  next
    case False
    with Cons.prems have "ip2int t = None" by (simp add: ip2int_None)
    with False show ?thesis by simp
  qed
qed simp

lemma sig_ifconfig [sigs]: "safe_iff At_SetIfConfigure ifconfig_args"
proof (rule safe_iffI)
  fix e a s assume "scan_ok e s" and nn: "\<forall>w \<in> set a. NUL \<notin> set w"
  have "\<forall>t \<in> set (take 3 (drop 1 a)). NUL \<notin> set t" using nn by (meson in_set_dropD in_set_takeD)
  from static_ips_None [OF this] show "(At_SetIfConfigure e a s = None) = (\<not> ifconfig_args a)"
    by (auto simp: At_SetIfConfigure_def ifconfig_args_def rd_def Let_def split: bind_splits option.splits)
qed

lemma sig_ifconfig2 [sigs]: "safe_iff At_SetIfConfigure2 ifconfig2_args"
proof (rule safe_iffI)
  fix e a s assume "scan_ok e s" and nn: "\<forall>w \<in> set a. NUL \<notin> set w"
  have "\<forall>t \<in> set (take 3 (drop 2 a)). NUL \<notin> set t" using nn by (meson in_set_dropD in_set_takeD)
  from static_ips_None [OF this] show "(At_SetIfConfigure2 e a s = None) = (\<not> ifconfig2_args a)"
    by (auto simp: At_SetIfConfigure2_def ifconfig2_args_def rd_def Let_def case_call split: bind_splits option.splits)
qed

lemma parse_mac_None: "parse_mac t = None \<longleftrightarrow> \<not> mac_fits t"
  by (auto simp: parse_mac_def mac_fits_def arguments_def)

lemma parse_mac_Some: "parse_mac t = Some m \<Longrightarrow> mac_fits t \<and> length m = 6"
  by (auto simp: parse_mac_def mac_fits_def arguments_def split: if_splits)

lemma sig_wificonfig2 [sigs]: "safe_iff At_SetWifiConfig2 wificonfig2_args"
proof (rule safe_iffI)
  fix e a s
  show "(At_SetWifiConfig2 e a s = None) = (\<not> wificonfig2_args a)"
    using parse_mac_None [of "a ! 4"]
    by (auto simp: At_SetWifiConfig2_def wificonfig2_args_def arguments_def Let_def case_call parse_opt_mac_def
        opt_arg_def split: bind_splits option.splits)
qed

lemma ap_search_total:
  "scan_ok e s \<Longrightarrow> \<exists>m s'. ap_search e t k i s = Some (m, s') \<and> length (ap_list s') = length (ap_list s)"
proof (induction i s rule: ap_search_induct)
  case (1 i s)
  let ?s = "run_call e (Wifi GetAvailableIndex) s"
  show ?case
  proof (cases "i < ap_count e s")
    case False
    then show ?thesis by (simp add: ap_search_step [of e t k i s])
  next
    case True
    from True 1(2) have "i < length (ap_list s)" unfolding scan_ok_def by (metis order_less_le_trans)
    then obtain ap where ap: "rd (ap_list s) i = Some ap" by (simp add: rd_def)
    have IH: "\<exists>m s'. ap_search e t k (Suc i) u = Some (m, s') \<and> length (ap_list s') = length (ap_list s)"
      if "length (ap_list u) = length (ap_list s)" for u
    proof -
      have "scan_ok e u" using 1(2) that by (simp add: scan_ok_def)
      with 1(1) ap_count_less [OF True] that show ?thesis by metis
    qed
    have IHs: "\<exists>m s'. ap_search e t k (Suc i) ?s = Some (m, s') \<and> length (ap_list s') = length (ap_list s)"
      "\<exists>m s'. ap_search e t k (Suc i) (?s\<lparr>ap_list := (ap_list s)[i := ap\<lparr>security_type := 0\<rparr>]\<rparr>) = Some (m, s') \<and>
         length (ap_list s') = length (ap_list s)"
      by (intro IH, simp)+
    show ?thesis
      unfolding ap_search_step [of e t k i s] Let_def ap option.case if_P [OF True]
      using IHs by (cases "ap_named (ap_list s) i t"; cases "security_type ap = 0 \<and> k = 0"; cases "0 < k") simp_all
  qed
qed

lemma sig_wificonfig [sigs]: "safe_iff At_SetWifiConfig wificonfig_args"
proof (rule safe_iffI)
  fix e a s assume "scan_ok e s"
  then obtain m s' where "ap_search e (a ! 1) (opt_len (opt_arg a 2)) 0 s = Some (m, s')"
    using ap_search_total by blast
  then show "(At_SetWifiConfig e a s = None) = (\<not> wificonfig_args a)"
    using parse_mac_None [of "a ! 3"]
    by (auto simp: At_SetWifiConfig_def wificonfig_args_def rd_def Let_def case_call parse_opt_mac_def
        opt_arg_def split: bind_splits option.splits)
qed

lemma sig_efuse [sigs]: "safe_iff At_EfuseWriteMAC efuse_args"
  by (rule safe_iffI) (auto simp: At_EfuseWriteMAC_def efuse_args_def rd_def Let_def parse_mac_None
    split: bind_splits dest: parse_mac_Some)

lemma blit_pad: "blit (replicate n NUL) 0 t = (if length t \<le> n then Some (t @ replicate (n - length t) NUL) else None)"
  by (simp add: blit_def)

lemma cstr_pad: "NUL \<notin> set t \<Longrightarrow> cstr (t @ replicate m NUL) = t"
  by (cases m) (simp_all add: cstr_id)

lemma str_piece_pad:
  "NUL \<notin> set t \<Longrightarrow> str_piece (t @ replicate m NUL) = (if m = 0 then None else Some (Str t))"
  by (cases m) (simp_all add: str_piece_def)

lemma sig_apconfig [sigs]: "safe_iff At_SET_APCONFIG apconfig_args"
proof (rule safe_iffI)
  fix e a s assume nn: "\<forall>w \<in> set a. NUL \<notin> set w"
  show "(At_SET_APCONFIG e a s = None) = (\<not> apconfig_args a)"
  proof (cases "length a < 9")
    case False
    then have n7: "NUL \<notin> set (a ! 7)" using nn by simp
    have n10: "10 < length a \<Longrightarrow> NUL \<notin> set (a ! 10)" using nn by simp
    show ?thesis
      using False n7 n10
      unfolding At_SET_APCONFIG_def apconfig_args_def byte_len_def Let_def case_call apconfig_exit_def
      by (auto simp: rd_def blit_pad str_piece_pad split: bind_splits if_splits)
  qed (simp add: At_SET_APCONFIG_def apconfig_args_def Let_def)
qed

section \<open>Every handler has its signature\<close>

lemma sig_any_replicate: "list_all2 P xs (replicate n y) \<longleftrightarrow> length xs = n \<and> list_all (\<lambda>x. P x y) xs"
  by (auto simp: list_all2_conv_all_nth list_all_length)

lemma handlers_typed: "list_all2 (\<lambda>(w, h) P. safe_iff h P) at_handlers at_sigs"
proof -
  let ?R = "\<lambda>(w, h) P. safe_iff h P"
  have t: "list_all2 ?R table_handlers
     [query_or 18, query_or 18, query_or 18, any_args, any_args, query_or 4, query_or 4, query_or 4, none_or 2,
      some_arg, some_arg, some_arg, some_arg, some_arg, some_arg]"
    by (simp add: table_handlers_def sigs)
  have f: "list_all2 ?R efuse_handlers [any_args, efuse_args]" by (simp add: efuse_handlers_def sigs)
  have r: "list_all2 ?R rf_handlers
      ([at_least 2, at_least 2, any_args, any_args, any_args, none_or 2] @ replicate 26 any_args)"
    by (simp add: rf_handlers_def sigs sig_any_replicate)
  have i: "list_all2 ?R io_handlers (replicate 16 any_args)"
    by (simp add: io_handlers_def sigs sig_any_replicate)
  have w: "list_all2 ?R wifi_handlers
      ([any_args, wificonfig_args, wificonfig2_args, any_args, some_arg, any_args, some_arg, ifconfig_args,
        ifconfig2_args, any_args, some_arg, any_args, any_args, any_args, apconfig_args] @ replicate 11 any_args)"
    by (simp add: wifi_handlers_def sigs sig_any_replicate)
  from list_all2_appendI [OF t list_all2_appendI [OF f list_all2_appendI [OF r list_all2_appendI [OF i w]]]]
  show ?thesis unfolding at_handlers_def at_sigs_def by (simp only: append_assoc)
qed

lemma zip_lookup:
  "list_all2 (\<lambda>(w, h) P. Q h P) xs ps \<Longrightarrow> map_of xs w = Some h \<Longrightarrow>
   \<exists>P. map_of (zip (map fst xs) ps) w = Some P \<and> Q h P"
  by (induction rule: list_all2_induct) (auto split: if_splits)

lemma handler_args_ok:
  assumes "map_of at_handlers w = Some h" "scan_ok e s" "\<forall>t \<in> set a. NUL \<notin> set t"
  shows "(h e a s = None) = (\<not> args_ok w a)"
  using zip_lookup [OF handlers_typed assms(1)] assms(2,3) by (auto simp: args_ok_def safe_iff_def)

section \<open>Well-formed states\<close>

text \<open>The rows keep their size, if \<open>set_temper_value\<close> keeps it, and so does the scan list.\<close>

definition temper_ok :: "at_env \<Rightarrow> bool" where
  "temper_ok e \<longleftrightarrow> (\<forall>l h t. rf_table_ok t \<longrightarrow> rf_table_ok (set_temper e l h t))"

definition shape_ok :: "at_env \<Rightarrow> at_st \<Rightarrow> bool" where
  "shape_ok e s \<longleftrightarrow> scan_ok e s \<and> rf_table_ok (ssv_rf_table s)"

lemma frame_shape: "at_frame s s' \<Longrightarrow> shape_ok e s \<Longrightarrow> shape_ok e s'"
  by (simp add: at_frame_def shape_ok_def scan_ok_def)

lemma save_rf_shape [simp]: "shape_ok e (save_rf e' s) = shape_ok e s"
  by (simp add: save_rf_def shape_ok_def scan_ok_def)

lemma shape_print [simp]: "shape_ok e (print ps s) = shape_ok e s"
  by (simp add: shape_ok_def scan_ok_def)

lemma shape_call [simp]: "shape_ok e (snd (call e' c s)) = shape_ok e s"
  by (simp add: shape_ok_def scan_ok_def)

lemma shape_table:
  "rf_table_ok t \<Longrightarrow> shape_ok e s \<Longrightarrow> shape_ok e (s\<lparr>ssv_rf_table := t\<rparr>)"
  by (simp add: shape_ok_def scan_ok_def)

lemma shape_rf: "shape_ok e s \<Longrightarrow> rf_table_ok (ssv_rf_table s)"
  by (simp add: shape_ok_def)

lemma rf_table_ok_upd [simp]:
  "rf_table_ok (t\<lparr>rt_5g_config := c\<rparr>) = rf_table_ok t" "rf_table_ok (t\<lparr>ht_5g_config := c\<rparr>) = rf_table_ok t"
  "rf_table_ok (t\<lparr>lt_5g_config := c\<rparr>) = rf_table_ok t" "rf_table_ok (t\<lparr>rf_gain := g\<rparr>) = rf_table_ok t"
  "rf_table_ok (t\<lparr>rate_gain_b := g\<rparr>) = rf_table_ok t" "rf_table_ok (t\<lparr>rate_config_g := k\<rparr>) = rf_table_ok t"
  "rf_table_ok (t\<lparr>rate_config_20n := k\<rparr>) = rf_table_ok t" "rf_table_ok (t\<lparr>rate_config_40n := k\<rparr>) = rf_table_ok t"
  "rf_table_ok (t\<lparr>band_f0_threshold := h\<rparr>) = rf_table_ok t" "rf_table_ok (t\<lparr>band_f1_threshold := h\<rparr>) = rf_table_ok t"
  "rf_table_ok (t\<lparr>band_f2_threshold := h\<rparr>) = rf_table_ok t"
  by (simp_all add: rf_table_ok_def)

lemma rf_table_ok_row [simp]:
  "length (band_gain c) = 7 \<Longrightarrow> rf_table_ok t \<Longrightarrow> rf_table_ok (t\<lparr>rt_config := c\<rparr>)"
  "length (band_gain c) = 7 \<Longrightarrow> rf_table_ok t \<Longrightarrow> rf_table_ok (t\<lparr>ht_config := c\<rparr>)"
  "length (band_gain c) = 7 \<Longrightarrow> rf_table_ok t \<Longrightarrow> rf_table_ok (t\<lparr>lt_config := c\<rparr>)"
  by (simp_all add: rf_table_ok_def)

definition keeps_shape :: "handler \<Rightarrow> bool" where
  "keeps_shape h \<longleftrightarrow> (\<forall>e a s. temper_ok e \<longrightarrow> shape_ok e s \<longrightarrow> result_in (shape_ok e) (h e a s))"

lemma keeps_shapeI: "(\<And>e a s. temper_ok e \<Longrightarrow> shape_ok e s \<Longrightarrow> result_in (shape_ok e) (h e a s)) \<Longrightarrow> keeps_shape h"
  by (simp add: keeps_shape_def)

lemma store_row_shape:
  "shape_ok e s \<Longrightarrow> rf_table_ok (put (ssv_rf_table s)) \<Longrightarrow> shape_ok e (snd (store_row e' st c put s))"
  by (simp add: store_row_def case_call Let_def shape_table)

lemma store_gain_shape:
  "shape_ok e s \<Longrightarrow> rf_table_ok (put (ssv_rf_table s)) \<Longrightarrow> shape_ok e (snd (store_gain e' c put s))"
  by (simp add: store_gain_def case_call shape_table)

lemma print_row_shape [simp]: "shape_ok e (print_row nm ps s) = shape_ok e s"
  by (simp add: print_row_def)

lemma shape_tempe:
  assumes "\<And>c t. length (band_gain c) = 7 \<Longrightarrow> rf_table_ok t \<Longrightarrow> rf_table_ok (put c t)"
  shows "keeps_shape (tempe_row_command nm st get put)"
proof (rule keeps_shapeI)
  fix e a s assume "shape_ok e s"
  moreover from this have "rf_table_ok (put (tempe_of (take 18 a)) (ssv_rf_table s))" if "18 \<le> length a"
    using that by (intro assms) (simp_all add: tempe_of_def shape_rf)
  ultimately show "result_in (shape_ok e) (tempe_row_command nm st get put e a s)"
    by (auto simp: result_in_def tempe_row_command_def Let_def arguments_def bind_eq_Some_conv
        dest!: arg_cong [of "store_row _ _ _ _ _" _ snd] split: if_splits intro!: store_row_shape)
qed

lemma shape_gain:
  "(\<And>a t. rf_table_ok t \<Longrightarrow> rf_table_ok (put a t)) \<Longrightarrow> keeps_shape (gain_command show n c put)"
  unfolding gain_command_def Let_def
  by (rule keeps_shapeI, intro keep_rules; simp add: store_gain_shape shape_rf)

lemma shape_5g:
  "(\<And>e a s. shape_ok e s \<Longrightarrow> shape_ok e (snd (f e a s))) \<Longrightarrow> keeps_shape (row_5g_command nm show n f)"
  unfolding row_5g_command_def Let_def by (rule keeps_shapeI, intro keep_rules; simp)

lemma shape_bias:
  "(\<And>r h l t. rf_table_ok t \<Longrightarrow> rf_table_ok (put r h l t)) \<Longrightarrow> keeps_shape (bias_command nm g put)"
  unfolding bias_command_def Let_def
  by (rule keeps_shapeI, intro keep_rules; simp add: store_gain_shape shape_rf)

lemma shape_temp_boundary: "keeps_shape At_RadioRFTempBoundary"
  unfolding At_RadioRFTempBoundary_def Let_def
  by (rule keeps_shapeI, intro keep_rules; simp add: shape_table shape_rf temper_ok_def)

lemma table_handlers_shape: "list_all (\<lambda>(w, h). keeps_shape h) table_handlers"
  by (simp add: table_handlers_def shape_temp_boundary At_RfTableRT_def At_RfTableHT_def At_RfTableLT_def
      At_RfTableGain_def At_RfTableBRateGain_def At_RfTableGRateGain_def At_RfTable20NRateGain_def
      At_RfTable40NRateGain_def At_Rf5GTableBIAS1_def At_Rf5GTableBIAS2_def At_Rf5GTableRT_def At_Rf5GTableHT_def
      At_Rf5GTableLT_def At_Rf5GBandThreshold_def)
    (intro conjI shape_tempe shape_gain shape_5g shape_bias store_gain_shape;
     simp add: put_bias1_def put_bias2_def put_thresholds_def shape_rf Let_def store_row_shape)

lemma efuse_shape: "shape_ok e s \<Longrightarrow> At_EfuseEnableWrite e' a s = Some (r, s') \<Longrightarrow> shape_ok e s'"
  "shape_ok e s \<Longrightarrow> At_EfuseWriteMAC e' a s = Some (r, s') \<Longrightarrow> shape_ok e s'"
proof -
  have f: "shape_ok e (s\<lparr>bEfuseEnableWrite := b\<rparr>) = shape_ok e s" for s :: at_st and b
    by (simp add: shape_ok_def scan_ok_def)
  show "shape_ok e s \<Longrightarrow> At_EfuseEnableWrite e' a s = Some (r, s') \<Longrightarrow> shape_ok e s'"
    by (auto simp: At_EfuseEnableWrite_def f)
  assume s: "shape_ok e s" and "At_EfuseWriteMAC e' a s = Some (r, s')"
  from efuse_write_abs [OF this(2)] show "shape_ok e s'" using frame_shape [OF _ s] by (auto simp: f)
qed

lemma handler_shape:
  assumes "map_of at_handlers w = Some h" "h e a s = Some (r, s')" "temper_ok e" "shape_ok e s"
  shows "shape_ok e s'"
proof -
  from assms(1) consider "map_of table_handlers w = Some h" | "map_of efuse_handlers w = Some h"
    | "map_of (rf_handlers @ io_handlers @ wifi_handlers) w = Some h"
    unfolding at_handlers_def map_of_append map_add_def by (auto split: option.splits)
  then show ?thesis
  proof cases
    case 1
    from map_of_filtered [OF 1 table_handlers_shape] assms(2-4) show ?thesis
      unfolding keeps_shape_def result_in_def by blast
  next
    case 2
    from efuse_lookup [OF 2] have "h = At_EfuseEnableWrite \<or> h = At_EfuseWriteMAC" by blast
    with assms(2,4) efuse_shape show ?thesis by metis
  next
    case 3
    from map_of_filtered [OF 3 other_handlers_keep] assms(2) have "at_frame s s'"
      unfolding keeps_def result_in_def by blast
    with frame_shape assms(4) show ?thesis by blast
  qed
qed

text \<open>A command with its arguments is well typed.\<close>

definition typed :: "string \<times> string list \<Rightarrow> bool" where
  "typed c \<longleftrightarrow> args_ok (fst c) (snd c)"

lemma args_ok_unknown: "map_of at_handlers w = None \<Longrightarrow> args_ok w a"
proof -
  assume "map_of at_handlers w = None"
  then have "w \<notin> set (map fst at_handlers)" by (simp add: map_of_eq_None_iff)
  then have "map_of (zip (map fst at_handlers) at_sigs) w = None"
    by (auto simp: map_of_eq_None_iff dest: set_zip_leftD)
  then show ?thesis by (simp add: args_ok_def)
qed

lemma at_handle_typed:
  assumes "temper_ok e" "shape_ok e s" "\<forall>t \<in> set a. NUL \<notin> set t"
  shows "(\<exists>n s'. at_handle e other w a (Some s) = (n, Some s')) = args_ok w a"
    and "at_handle e other w a (Some s) = (n, Some s') \<Longrightarrow> shape_ok e s'"
proof -
  show "(\<exists>n s'. at_handle e other w a (Some s) = (n, Some s')) = args_ok w a"
  proof (cases "map_of at_handlers w")
    case None
    then show ?thesis by (simp add: at_handle_def args_ok_unknown)
  next
    case (Some h)
    have "scan_ok e s" using assms(2) by (simp add: shape_ok_def)
    from handler_args_ok [OF Some this assms(3)] show ?thesis
      by (cases "h e a s") (simp_all add: at_handle_def Some split: prod.split)
  qed
  show "at_handle e other w a (Some s) = (n, Some s') \<Longrightarrow> shape_ok e s'"
    using handler_shape [OF _ _ assms(1,2)] assms(2) by (auto simp: at_handle_def split: option.splits)
qed

lemma commands_typed:
  assumes "temper_ok e" "shape_ok e s" "\<forall>(w, a) \<in> set cs. \<forall>t \<in> set a. NUL \<notin> set t"
  shows "case commands_run e other cs s of None \<Rightarrow> \<not> list_all typed cs
     | Some s' \<Rightarrow> list_all typed cs \<and> shape_ok e s'"
  using assms(2,3)
proof (induction cs arbitrary: s)
  case (Cons c cs)
  obtain w a where c: "c = (w, a)" by (cases c)
  have nn: "\<forall>t \<in> set a. NUL \<notin> set t" using Cons.prems(2) c by auto
  have ty: "typed (w, a) = args_ok w a" by (simp add: typed_def)
  note T = at_handle_typed [OF assms(1) Cons.prems(1) nn, of other w]
  show ?case
  proof (cases "args_ok w a")
    case False
    with T(1) have "commands_run e other (c # cs) s = None"
      by (auto simp: c split: prod.split option.split)
    with False show ?thesis by (simp add: c ty)
  next
    case True
    with T(1) obtain n u where u: "at_handle e other w a (Some s) = (n, Some u)" by blast
    with Cons.IH [OF T(2) [OF u]] Cons.prems(2) True show ?thesis
      by (auto simp: c ty split: option.splits)
  qed
qed simp

end
