(* ===== verification/AtProps.thy ===== *)
theory AtProps
  imports AtSpec
begin

text \<open>
  The properties of the AT commands outside the TCP/IP group, each with a concrete instance.
\<close>

section \<open>A state for the instances\<close>

text \<open>The example row of the command reference, and a library that answers 0 to everything.\<close>

definition sample_row :: st_tempe_table where
  "sample_row = \<lparr>band_gain = [7, 7, 7, 7, 7, 7, 7], freq_xi = 151, freq_xo = 151, ldo_rxafe = 7, ldo_dcdcv = 9,
     ldo_dldov = 10, pa_vcas1 = 7, pa_vcas2 = 7, pa_vcas3 = 7, pa_bias = 7, pa_cap = 7, padpd_cali = 0\<rparr>"

definition sample_5g :: st_tempe_5g_table where
  "sample_5g = \<lparr>bbscale_band0 = 128, bbscale_band1 = 128, bbscale_band2 = 128, bbscale_band3 = 128,
     bias1 = 0, bias2 = 0\<rparr>"

definition sample_table :: st_rf_table where
  "sample_table = \<lparr>rt_config = sample_row, ht_config = sample_row, lt_config = sample_row, rf_gain = 0,
     rate_gain_b = 0, rate_config_g = zero_rate, rate_config_20n = zero_rate, rate_config_40n = zero_rate,
     low_boundary = 0, high_boundary = 90, rt_5g_config = sample_5g, ht_5g_config = sample_5g,
     lt_5g_config = sample_5g, band_f0_threshold = 5200, band_f1_threshold = 5400, band_f2_threshold = 5600\<rparr>"

definition sample_st :: at_st where
  "sample_st = \<lparr>ssv_rf_table = sample_table, bEfuseEnableWrite = False, gpio_intc_id = 0, gpio_intc_mode = 0,
     ap_list = [], calls = [], console = []\<rparr>"

definition sample_at_env :: at_env where
  "sample_at_env = \<lparr>ret = (\<lambda>_ _. 0), outs = (\<lambda>_ _. []),
     set_temper = (\<lambda>l h t. t\<lparr>low_boundary := l, high_boundary := h\<rparr>)\<rparr>"

lemma at_sample_ok [simp]: "rf_table_ok sample_table" "scan_ok sample_at_env sample_st" "temper_ok sample_at_env"
  "ssv_rf_table sample_st = sample_table" "shape_ok sample_at_env sample_st" "\<not> bEfuseEnableWrite sample_st"
  by (simp_all add: rf_table_ok_def sample_table_def sample_row_def scan_ok_def sample_at_env_def sample_st_def
      temper_ok_def shape_ok_def)

section \<open>The calibration table\<close>



text \<open>The three rows of the 2.4 GHz band, each with its temperature state, as the entry stores it.\<close>

fun tempe_row :: "row_id \<Rightarrow> (int \<times> (st_tempe_table \<Rightarrow> st_rf_table \<Rightarrow> st_rf_table)) option" where
  "tempe_row Row_RT = Some (0, \<lambda>c t. t\<lparr>rt_config := c\<rparr>)"
| "tempe_row Row_HT = Some (1, \<lambda>c t. t\<lparr>ht_config := c\<rparr>)"
| "tempe_row Row_LT = Some (2, \<lambda>c t. t\<lparr>lt_config := c\<rparr>)"
| "tempe_row r = None"

lemma store_row_effect:
  "store_row e k c put s = (let hot = (ret e (calls s) (temp_state s) = k);
       r = (if hot then ret e (calls s @ [temp_state s]) c else ERROR_SUCCESS);
       t = put (ssv_rf_table s);
       cs = calls s @ [temp_state s] @ (if hot then [c] else [])
     in (r, if r = 0 then s\<lparr>ssv_rf_table := t, calls := cs @ [Rf (Save_rf_table_to_flash t)]\<rparr>
            else s\<lparr>calls := cs\<rparr>))"
  by (simp add: store_row_def call_def save_rf_def Let_def temp_state_def)

lemma tempe_row_set:
  assumes "length a = 18" "\<forall>w \<in> set a. arg_word w"
  shows "tempe_row_command nm k get put e a s =
    Some (store_row e k (Rf (Write_reg_tempe_table (tempe_of a))) (put (tempe_of a)) (nl s))"
proof -
  have "a ! 0 \<in> set a" using assms(1) by (intro nth_mem) simp
  with assms(2) have "a ! 0 \<noteq> ''?''" by (auto simp: arg_word_def)
  with assms(1) show ?thesis by (simp add: tempe_row_command_def arguments_def rd_def Let_def)
qed

lemma tempe_row_enter:
  assumes "tempe_row r = Some (k, put)" "length a = 18" "\<forall>w \<in> set a. arg_word w"
  shows "enter build e other (row_name r @ CHR ''='' # join (CHR '','') a) s =
    Some (store_row e k (Rf (Write_reg_tempe_table (tempe_of a))) (put (tempe_of a)) (nl s))"
proof -
  have a: "a \<noteq> []" "length a \<le> (if (18 :: nat) = 0 then MAX_ARGUMENT else 18)" using assms(2) by auto
  note E = enter_words [OF _ _ a(1) assms(3) a(2), of _ build _ e other s]
  from assms(1) consider "r = Row_RT" "k = 0" "put = (\<lambda>c t. t\<lparr>rt_config := c\<rparr>)"
    | "r = Row_HT" "k = 1" "put = (\<lambda>c t. t\<lparr>ht_config := c\<rparr>)" | "r = Row_LT" "k = 2" "put = (\<lambda>c t. t\<lparr>lt_config := c\<rparr>)"
    by (cases r) auto
  then show ?thesis
  proof cases
    case 1
    from E [OF row_entry [of Row_RT, simplified row_args.simps row_id.simps simp_thms if_True] row_handlers(1)]
    show ?thesis unfolding 1 At_RfTableRT_def tempe_row_set [OF assms(2,3)] .
  next
    case 2
    from E [OF row_entry [of Row_HT, simplified row_args.simps row_id.simps simp_thms if_True] row_handlers(2)]
    show ?thesis unfolding 2 At_RfTableHT_def tempe_row_set [OF assms(2,3)] .
  next
    case 3
    from E [OF row_entry [of Row_LT, simplified row_args.simps row_id.simps simp_thms if_True] row_handlers(3)]
    show ?thesis unfolding 3 At_RfTableLT_def tempe_row_set [OF assms(2,3)] .
  qed
qed

text \<open>
  C35: A typed row for one temperature is written to the registers exactly if the device is in that
  temperature state; a row the driver refuses is not stored; otherwise it becomes that row of the
  table, each number as its low byte, and the table is saved. Nothing else changes.
\<close>

theorem rf_row_set:
  assumes "tempe_row r = Some (k, put)" "length a = 18" "\<forall>w \<in> set a. arg_word w"
  shows "enter build e other (row_name r @ CHR ''='' # join (CHR '','') a) s =
    (let s = nl s; q = temp_state s; c = Rf (Write_reg_tempe_table (tempe_of a));
         hot = (ret e (calls s) q = k);
         n = (if hot then ret e (calls s @ [q]) c else 0);
         t = put (tempe_of a) (ssv_rf_table s);
         cs = calls s @ [q] @ (if hot then [c] else [])
     in Some (n, if n = 0 then s\<lparr>ssv_rf_table := t, calls := cs @ [Rf (Save_rf_table_to_flash t)]\<rparr>
                 else s\<lparr>calls := cs\<rparr>))"
  unfolding tempe_row_enter [OF assms] store_row_effect by (simp add: Let_def ERROR_SUCCESS_def)

lemma rf_row_set_witness:
  "\<exists>s'. enter (\<lambda>_. False) sample_at_env (\<lambda>_ _. 0) (''AT+RF_TABLE_LT='' @ join (CHR '','') (replicate 18 ''7'')) sample_st = Some (0, s') \<and>
     freq_xi (lt_config (ssv_rf_table s')) = 7 \<and> length (calls s') = 2 \<and> saved_now s'"
proof -
  let ?a = "replicate 18 ''7''"
  have a: "\<forall>w \<in> set ?a. arg_word w" by (simp add: arg_word_def)
  have r: "tempe_row Row_LT = Some (2, \<lambda>c t. t\<lparr>lt_config := c\<rparr>)" by simp
  have "atoi ''7'' = 7" by code_simp
  then have f: "freq_xi (tempe_of ?a) = 7" by (simp add: tempe_of_def)
  from rf_row_set [OF r _ a, of "\<lambda>_. False" sample_at_env "\<lambda>_ _. 0" sample_st] f show ?thesis
    by (simp add: Let_def sample_at_env_def sample_st_def saved_now_def)
qed

section \<open>What lasts\<close>

text \<open>
  C7: Every command implements one step of the abstract machine: the table in memory and its copy in
  flash change together and only by a command of the calibration table, and the efuse is
  written only by its command and only when armed, which disarms it.
\<close>

theorem console_refines:
  assumes "at_handle e other w argv (Some s) = (n, Some s')"
  shows "at_step w (abs_st s) (abs_st s')"
  by (rule at_handle_step [OF assms])

lemma console_refines_witness:
  "\<exists>n s'. at_handle sample_at_env (\<lambda>_ _. 0) ''AT+EFUSE_ENABLE_WRITE'' [] (Some sample_st) = (n, Some s') \<and>
     at_step ''AT+EFUSE_ENABLE_WRITE'' (abs_st sample_st) (abs_st s') \<and> armed (abs_st s')"
proof -
  have "map_of at_handlers ''AT+EFUSE_ENABLE_WRITE'' = Some At_EfuseEnableWrite"
    by (simp add: at_handlers_def table_handlers_def efuse_handlers_def)
  then obtain n s' where s': "at_handle sample_at_env (\<lambda>_ _. 0) ''AT+EFUSE_ENABLE_WRITE'' [] (Some sample_st) = (n, Some s')"
    "bEfuseEnableWrite s'"
    by (simp add: at_handle_def At_EfuseEnableWrite_def)
  from console_refines [OF s'(1)] s' show ?thesis by (auto simp: abs_st_def)
qed

text \<open>
  C9: Whatever bytes are entered in whatever order, after every run in which the console does not go
  wrong the calibration table in memory is the one saved to flash last, or both are as they
  were at the start.
\<close>

theorem table_agrees_with_flash:
  assumes "console_run build e other ls s = Some s'"
  shows "flash (abs_st s') = Some (ssv_rf_table s') \<or>
    flash (abs_st s') = flash (abs_st s) \<and> ssv_rf_table s' = ssv_rf_table s"
proof -
  obtain ws where "at_trace ws (abs_st s) (abs_st s')" using console_trace [OF assms] by blast
  from trace_flash [OF this] show ?thesis by (auto simp: abs_st_def)
qed

lemma console_run_line:
  "enter build e other t s = Some (n, s') \<Longrightarrow>
   console_run build e other [(replicate MAX_CMD_LEN NUL, t @ replicate MAX_CMD_LEN NUL, length t)] s = Some s'"
  by (auto simp: enter_def split: option.splits)

lemma table_agrees_with_flash_witness:
  "let t = ''AT+RF_TABLE_LT='' @ join (CHR '','') (replicate 18 ''7'');
       ls = [(replicate MAX_CMD_LEN NUL, t @ replicate MAX_CMD_LEN NUL, length t)]
   in \<exists>s'. console_run (\<lambda>_. False) sample_at_env (\<lambda>_ _. 0) ls sample_st = Some s' \<and>
        flash (abs_st s') = Some (ssv_rf_table s') \<and> flash (abs_st sample_st) = None"
proof -
  let ?a = "replicate 18 ''7''" let ?t = "''AT+RF_TABLE_LT='' @ join (CHR '','') ?a"
  have a: "\<forall>w \<in> set ?a. arg_word w" by (simp add: arg_word_def)
  have r: "tempe_row Row_LT = Some (2, \<lambda>c t. t\<lparr>lt_config := c\<rparr>)" by simp
  have len: "length ?a = 18" by simp
  obtain s' where "enter (\<lambda>_. False) sample_at_env (\<lambda>_ _. 0) ?t sample_st = Some (0, s')"
    and c: "calls s' \<noteq> []" "saved_tables (calls s') \<noteq> []"
    using tempe_row_enter [OF r len a, of "\<lambda>_. False" sample_at_env "\<lambda>_ _. 0" sample_st]
    by (simp add: store_row_effect Let_def sample_at_env_def sample_st_def ERROR_SUCCESS_def saved_tables_def
        map_filter_simps temp_state_def)
  from console_run_line [OF this(1)] have run: "console_run (\<lambda>_. False) sample_at_env (\<lambda>_ _. 0)
    [(replicate MAX_CMD_LEN NUL, ?t @ replicate MAX_CMD_LEN NUL, length ?t)] sample_st = Some s'" .
  have f: "flash (abs_st sample_st) = None" "flash (abs_st s') \<noteq> None"
    using c by (simp_all add: abs_st_def sample_st_def saved_tables_def map_filter_simps)
  with table_agrees_with_flash [OF run] have "flash (abs_st s') = Some (ssv_rf_table s')" by simp
  with run f show ?thesis unfolding Let_def by blast
qed

text \<open>
  C10: The efuse is written at most once for each \<open>AT+EFUSE_ENABLE_WRITE\<close>, in every sequence of
  commands.
\<close>

theorem efuse_written_once_per_enable:
  assumes "commands_run e other cs s = Some s'" "\<not> bEfuseEnableWrite s"
  shows "length (burned (calls s')) \<le> length (burned (calls s)) + count_list (map fst cs) ''AT+EFUSE_ENABLE_WRITE''"
  using trace_burns [OF commands_trace [OF assms(1)]] assms(2) by (simp add: abs_st_def)

lemma efuse_written_once_per_enable_witness:
  "\<exists>s'. commands_run sample_at_env (\<lambda>_ _. 0)
      [(''AT+EFUSE_ENABLE_WRITE'', []), (''AT+EFUSE_WRITE_MAC'', [''00:23:45:67:89:AB'']),
       (''AT+EFUSE_WRITE_MAC'', [''00:23:45:67:89:AB''])] sample_st = Some s' \<and>
    burned (calls s') \<noteq> [] \<and> length (burned (calls s')) \<le> 1"
proof -
  let ?m = "''00:23:45:67:89:AB''"
  let ?cs = "[(''AT+EFUSE_ENABLE_WRITE'', []), (''AT+EFUSE_WRITE_MAC'', [?m]), (''AT+EFUSE_WRITE_MAC'', [?m])]"
  have h: "map_of at_handlers ''AT+EFUSE_ENABLE_WRITE'' = Some At_EfuseEnableWrite"
    "map_of at_handlers ''AT+EFUSE_WRITE_MAC'' = Some At_EfuseWriteMAC"
    by (simp_all add: at_handlers_def table_handlers_def efuse_handlers_def)
  have "length (strtok '':'' ?m) = 6" by code_simp
  then obtain b where b: "parse_mac ?m = Some b" using parse_mac_None [of ?m] by (cases "parse_mac ?m") (auto simp: mac_fits_def)
  obtain s' where s': "commands_run sample_at_env (\<lambda>_ _. 0) ?cs sample_st = Some s'" "burned (calls s') \<noteq> []"
    by (simp add: at_handle_def h At_EfuseEnableWrite_def At_EfuseWriteMAC_def rd_def b Let_def case_call
        burned_def map_filter_simps sample_st_def)
  have "length (burned (calls s')) \<le> 1"
    using efuse_written_once_per_enable [OF s'(1)] by (simp add: sample_st_def burned_def map_filter_simps)
  with s' show ?thesis by blast
qed

section \<open>Types\<close>



section \<open>Pins, restart and addresses\<close>

lemma io_entries:
  "(''AT+SET_GPIO_LOGIC'', 0) \<in> set (atcmdicomm_info_tbl build)" "(''AT+REBOOT'', 0) \<in> set (atcmdicomm_info_tbl build)"
  "(''AT+SET_IFCONFIG'', 0) \<in> set (atcmdicomm_info_tbl build)"
  by (rule unguarded_entry, unfold atcmd_entries_def list.set, (rule insertI1 | rule insertI2)+)+

lemma io_lookup:
  "map_of at_handlers ''AT+SET_GPIO_LOGIC'' = Some At_SetGpioLogic" "map_of at_handlers ''AT+REBOOT'' = Some At_Reboot"
  "map_of at_handlers ''AT+SET_IFCONFIG'' = Some At_SetIfConfigure"
  "map_of at_handlers ''AT+SET_WIFICONFIG'' = Some At_SetWifiConfig"
  "map_of at_handlers ''AT+SET_APCONFIG'' = Some At_SET_APCONFIG"
  by (simp_all add: at_handlers_def table_handlers_def efuse_handlers_def rf_handlers_def io_handlers_def wifi_handlers_def)

text \<open>
  C39: A typed level for a pin is taken if and only if the pin is at most 22 and the level at most 1;
  then the pin becomes a driven output of that level, and nothing happens otherwise. Negative
  numbers are taken.
\<close>

theorem gpio_level_set:
  assumes "INT_MIN \<le> p" "p \<le> INT_MAX" "INT_MIN \<le> l" "l \<le> INT_MAX"
  shows "\<exists>r s'. enter build e other (''AT+SET_GPIO_LOGIC'' @ CHR ''='' # join (CHR '','') [num_text p, num_text l]) s = Some (r, s') \<and>
    (r = ERROR_SUCCESS \<longleftrightarrow> p \<le> 22 \<and> l \<le> 1) \<and>
    calls s' = calls s @ (if p \<le> 22 \<and> l \<le> 1
      then [Io (Drv_gpio_set_mode p 0), Io (Drv_gpio_set_dir p 1), Io (Drv_gpio_set_logic p l)] else [])"
proof -
  have w: "\<forall>a \<in> set [num_text p, num_text l]. arg_word a" by (simp add: arg_word_num)
  have n: "length [num_text p, num_text l] \<le> (if (0 :: nat) = 0 then MAX_ARGUMENT else 0)" by (simp add: MAX_ARGUMENT_def)
  show ?thesis
    unfolding enter_words [OF io_entries(1) io_lookup(1) list.distinct(2) w n]
    using assms by (simp add: At_SetGpioLogic_def atoi_num_text arguments_def show_value_def usage_def
        ERROR_SUCCESS_def ERROR_INVALID_PARAMETER_def)
qed

lemma gpio_level_set_witness:
  "\<exists>s'. enter (\<lambda>_. False) sample_at_env (\<lambda>_ _. 0) (''AT+SET_GPIO_LOGIC'' @ CHR ''='' # join (CHR '','') [num_text (- 1), num_text 1]) sample_st
      = Some (ERROR_SUCCESS, s') \<and>
    calls s' = [Io (Drv_gpio_set_mode (- 1) 0), Io (Drv_gpio_set_dir (- 1) 1), Io (Drv_gpio_set_logic (- 1) 1)]"
proof -
  have c: "calls sample_st = []" by (simp add: sample_st_def)
  from gpio_level_set [of "- 1" 1 "\<lambda>_. False" sample_at_env "\<lambda>_ _. 0" sample_st]
  show ?thesis by (simp add: INT_MIN_def INT_MAX_def c del: join.simps)
qed

text \<open>
  \<open>AT+REBOOT=n\<close> arms the watchdog with \<open>n\<close> seconds modulo 65.536 seconds: the restart comes after
  the printed time only up to 65 seconds, and a multiple of 8192 seconds gives a time of 0.
\<close>

lemma reboot_delay_wraps:
  assumes "0 < n" "n * 1000 \<le> INT_MAX"
  shows "\<exists>s' v. enter build e other (''AT+REBOOT'' @ CHR ''='' # num_text n) s = Some (ERROR_SUCCESS, s') \<and>
    calls s' = calls s @ [Io Drv_wdt_init, Io (Drv_wdt_enable v)] \<and> uint v = n * 1000 mod 65536 \<and>
    (uint v = n * 1000 \<longleftrightarrow> n \<le> 65) \<and> (v = 0 \<longleftrightarrow> 8192 dvd n)"
proof -
  let ?v = "word_of_int (n * 1000) :: u16"
  have w: "\<forall>a \<in> set [num_text n]. arg_word a" by (simp add: arg_word_num)
  have m: "length [num_text n] \<le> (if (0 :: nat) = 0 then MAX_ARGUMENT else 0)" by (simp add: MAX_ARGUMENT_def)
  have n: "atoi (num_text n) = n" "n \<noteq> 0" using assms by (simp_all add: atoi_num_text INT_MIN_def INT_MAX_def)
  have u: "uint ?v = n * 1000 mod 65536" by (simp add: uint_word_of_int del: of_int_mult)
  have "?v = 0 \<longleftrightarrow> n * 1000 mod 65536 = 0" unfolding u [symmetric] by (rule uint_0_iff [symmetric])
  also have "\<dots> \<longleftrightarrow> 8 * 8192 dvd 8 * (n * 125)" by (simp add: dvd_eq_mod_eq_0 mult.commute)
  also have "\<dots> \<longleftrightarrow> 8192 dvd n * 125" by (rule dvd_mult_cancel_left [THEN trans]) simp
  also have "\<dots> \<longleftrightarrow> 8192 dvd n"
    by (rule coprime_dvd_mult_left_iff) (rule coprime_power_left_iff [of 2 13, THEN iffD2, simplified], simp)
  finally have z: "?v = 0 \<longleftrightarrow> 8192 dvd n" .
  have k: "n * 1000 mod 65536 = n * 1000 \<longleftrightarrow> n \<le> 65" using assms by (smt (verit) mod_pos_pos_trivial pos_mod_bound)
  obtain s' where "At_Reboot e [num_text n] s = Some (ERROR_SUCCESS, s')"
    "calls s' = calls s @ [Io Drv_wdt_init, Io (Drv_wdt_enable ?v)]"
    by (simp add: At_Reboot_def n Let_def del: of_int_mult)
  then show ?thesis
    unfolding enter_words [OF io_entries(2) io_lookup(2) list.distinct(2) w m, unfolded join.simps]
    by (intro exI [of _ s'] exI [of _ ?v] conjI) (simp_all only: u z k)
qed

lemma reboot_delay_wraps_witness:
  "\<exists>s'. enter (\<lambda>_. False) sample_at_env (\<lambda>_ _. 0) (''AT+REBOOT'' @ CHR ''='' # num_text 66) sample_st = Some (ERROR_SUCCESS, s') \<and>
    calls s' = [Io Drv_wdt_init, Io (Drv_wdt_enable 464)]"
proof -
  have c: "calls sample_st = []" by (simp add: sample_st_def)
  from reboot_delay_wraps [of 66 "\<lambda>_. False" sample_at_env "\<lambda>_ _. 0" sample_st] obtain s' and v :: u16 where
    s': "enter (\<lambda>_. False) sample_at_env (\<lambda>_ _. 0) (''AT+REBOOT'' @ CHR ''='' # num_text 66) sample_st = Some (ERROR_SUCCESS, s')"
    "calls s' = [Io Drv_wdt_init, Io (Drv_wdt_enable v)]" "uint v = 464"
    by (auto simp: INT_MAX_def c)
  from s'(3) have "v = 464" by (simp add: uint_word_arith_bintrs word_uint_eq_iff)
  with s' show ?thesis by blast
qed

text \<open>
  Four typed dotted addresses of any bytes configure the interface without DHCP: address, mask
  and gateway reach the stack as these bytes, and the name server as 0.
\<close>

lemma static_address_set:
  assumes "length ip = 4" "length netmask = 4" "length gate = 4"
  shows "enter build e other (''AT+SET_IFCONFIG'' @ CHR ''='' # join (CHR '','') [''0'', dotted ip, dotted netmask, dotted gate]) s =
    Some (ERROR_SUCCESS, s\<lparr>calls := calls s @ [Wifi (Set_if_config 0 (ip_u32 ip) (ip_u32 netmask) (ip_u32 gate) 0)]\<rparr>)"
proof -
  let ?a = "[''0'', dotted ip, dotted netmask, dotted gate]"
  have w: "\<forall>a \<in> set ?a. arg_word a" using ip2int_dotted(2) assms by (simp add: arg_word_def)
  have m: "length ?a \<le> (if (0 :: nat) = 0 then MAX_ARGUMENT else 0)" by (simp add: MAX_ARGUMENT_def)
  have d: "digit_arg ''0'' = 0" by (simp add: digit_arg_def)
  show ?thesis
    unfolding enter_words [OF io_entries(3) io_lookup(3) list.distinct(2) w m]
    using assms by (simp add: At_SetIfConfigure_def d rd_def ip2int_dotted(1) call_def Let_def)
qed

lemma static_address_set_witness:
  "\<exists>s'. enter (\<lambda>_. False) sample_at_env (\<lambda>_ _. 0)
      (''AT+SET_IFCONFIG'' @ CHR ''='' # join (CHR '','') [''0'', dotted [192, 168, 1, 9], dotted [255, 255, 255, 0], dotted [192, 168, 1, 1]])
      sample_st = Some (ERROR_SUCCESS, s') \<and> calls s' = [Wifi (Set_if_config 0 0x0901a8c0 0x00ffffff 0x0101a8c0 0)]"
  using static_address_set [of "[192, 168, 1, 9]" "[255, 255, 255, 0]" "[192, 168, 1, 1]" "\<lambda>_. False" sample_at_env "\<lambda>_ _. 0" sample_st]
  by (simp add: sample_st_def ip_u32_def del: join.simps)

end
