(* ===== verification/AtNetProps.thy ===== *)
theory AtNetProps
  imports AtProps
begin

text \<open>
  The properties of the network configuration commands: the station with a network from the scan list,
  and the access point.
\<close>

section \<open>Networks\<close>

text \<open>A name with its terminator is compared as a C string.\<close>

lemma ap_named_name:
  assumes "i < length aps" "NUL \<in> set (name (aps ! i))" "NUL \<notin> set t"
  shows "ap_named aps i t \<longleftrightarrow> cstr (name (aps ! i)) = t"
proof -
  have d: "drop i aps = aps ! i # drop (Suc i) aps" using assms(1) by (simp add: Cons_nth_drop_Suc)
  obtain r where "name (aps ! i) = cstr (name (aps ! i)) @ NUL # r" using cstr_split [OF assms(2)] by blast
  then have "concat (map ap_bytes (drop i aps)) = cstr (name (aps ! i)) @ NUL # (r @ drop (length (name (aps ! i)))
      (ap_bytes (aps ! i)) @ concat (map ap_bytes (drop (Suc i) aps)))"
    unfolding d by (metis (no_types) ap_bytes_def append.assoc append_Cons append_eq_conv_conj concat.simps(2) list.simps(9))
  then show ?thesis
    using c_streq_terminated [OF NUL_notin_cstr assms(3)] unfolding ap_named_def by (metis (no_types))
qed

text \<open>The search without a key, on the list: every secured network of the name is marked open up to
  the first open one, which is the one found.\<close>

fun open_first :: "string \<Rightarrow> ap_info list \<Rightarrow> u8 list option \<times> ap_info list" where
  "open_first t [] = (None, [])"
| "open_first t (a # as) =
     (if cstr (name a) = t \<and> security_type a = 0 then (Some (mac a), a # as)
      else (let (m, r) = open_first t as in (m, (if cstr (name a) = t then a\<lparr>security_type := 0\<rparr> else a) # r)))"

definition scan_exact :: "at_env \<Rightarrow> nat \<Rightarrow> bool" where
  "scan_exact e n \<longleftrightarrow> (\<forall>cs. unat (word_of_int (ret e cs (Wifi GetAvailableIndex)) :: u8) = n)"

lemma ap_search_open:
  assumes "scan_exact e (length (ap_list s))" "\<forall>a \<in> set (ap_list s). NUL \<in> set (name a)" "NUL \<notin> set t"
    "i \<le> length (ap_list s)"
  shows "\<exists>s'. ap_search e t 0 i s = Some (fst (open_first t (drop i (ap_list s))), s') \<and>
    ap_list s' = take i (ap_list s) @ snd (open_first t (drop i (ap_list s)))"
  using assms
proof (induction "length (ap_list s) - i" arbitrary: i s)
  case 0
  then have "i = length (ap_list s)" by simp
  with 0(2) show ?case by (simp add: ap_search_step [of e t 0 "length (ap_list s)" s] scan_exact_def)
next
  case (Suc k)
  then have i: "i < length (ap_list s)" by simp
  let ?a = "ap_list s ! i" and ?s = "run_call e (Wifi GetAvailableIndex) s"
  let ?u = "?s\<lparr>ap_list := (ap_list s)[i := ?a\<lparr>security_type := 0\<rparr>]\<rparr>"
  have c: "i < ap_count e s" using Suc.prems(1) i by (simp add: scan_exact_def)
  have a: "rd (ap_list s) i = Some ?a" using i by (simp add: rd_def)
  have nm: "ap_named (ap_list s) i t \<longleftrightarrow> cstr (name ?a) = t" using ap_named_name [OF i _ Suc.prems(3)] Suc.prems(2) i by simp
  have d: "drop i (ap_list s) = ?a # drop (Suc i) (ap_list s)" using i by (simp add: Cons_nth_drop_Suc)
  have nn: "\<forall>a \<in> set (ap_list ?u). NUL \<in> set (name a)"
    using Suc.prems(2) i by (auto dest!: subsetD [OF set_update_subset_insert])
  have S: "\<exists>s'. ap_search e t 0 (Suc i) ?s = Some (fst (open_first t (drop (Suc i) (ap_list s))), s') \<and>
    ap_list s' = take (Suc i) (ap_list s) @ snd (open_first t (drop (Suc i) (ap_list s)))"
    using Suc.hyps(1) [of ?s "Suc i"] Suc.hyps(2) Suc.prems i by simp
  have U: "\<exists>s'. ap_search e t 0 (Suc i) ?u = Some (fst (open_first t (drop (Suc i) (ap_list s))), s') \<and>
    ap_list s' = take i (ap_list s) @ ?a\<lparr>security_type := 0\<rparr> # snd (open_first t (drop (Suc i) (ap_list s)))"
    using Suc.hyps(1) [of ?u "Suc i"] Suc.hyps(2) Suc.prems nn i by (simp add: take_Suc_conv_app_nth)
  show ?case
  proof (cases "cstr (name ?a) = t")
    case False
    with S i show ?thesis
      by (simp add: ap_search_step [of e t 0 i s] c a nm Let_def d take_Suc_conv_app_nth case_prod_unfold)
  next
    case True
    show ?thesis
    proof (cases "security_type ?a = 0")
      case o: True
      with True i show ?thesis by (simp add: ap_search_step [of e t 0 i s] c a nm Let_def d) (simp add: id_take_nth_drop [OF i, symmetric])
    next
      case False
      with True U show ?thesis by (simp add: ap_search_step [of e t 0 i s] c a nm Let_def d case_prod_unfold)
    qed
  qed
qed

lemma open_first_secured:
  "\<forall>a \<in> set as. cstr (name a) = t \<longrightarrow> security_type a \<noteq> 0 \<Longrightarrow>
   open_first t as = (None, map (\<lambda>a. if cstr (name a) = t then a\<lparr>security_type := 0\<rparr> else a) as)"
  by (induction as) auto

lemma open_first_open:
  "\<forall>a \<in> set as. cstr (name a) = t \<longrightarrow> security_type a = 0 \<Longrightarrow>
   fst (open_first t as) = map_option mac (find (\<lambda>a. cstr (name a) = t) as)"
  by (induction as) (auto simp: case_prod_unfold)

text \<open>\<open>AT+SET_WIFICONFIG=x,ssid\<close>, by its two arguments.\<close>

lemma wificonfig_no_key:
  assumes "scan_exact e (length (ap_list s))" "\<forall>a \<in> set (ap_list s). NUL \<in> set (name a)" "NUL \<notin> set t"
  shows "\<exists>n u. at_handle e other ''AT+SET_WIFICONFIG'' [x, t] (Some s) = (n, Some u) \<and>
    ap_list u = snd (open_first t (ap_list s)) \<and>
    last (calls u) = Wifi (Set_wifi_config t (of_nat (length t)) None 0 (map_option (take 6) (fst (open_first t (ap_list s)))))"
proof -
  obtain v where v: "ap_search e t 0 0 s = Some (fst (open_first t (ap_list s)), v)" "ap_list v = snd (open_first t (ap_list s))"
    using ap_search_open [OF assms, of 0] by auto
  show ?thesis
    by (simp add: at_handle_def io_lookup(4) At_SetWifiConfig_def rd_def opt_arg_def opt_len_def parse_opt_mac_def v
      Let_def case_call) (simp add: map_option_case)
qed

text \<open>
  C37: Setting a secured network without a key passes no address on and marks the network as open in
  the scan list, so that the same command given again configures it as an open network, with
  the address of its first entry.
\<close>

theorem network_without_key:
  assumes "scan_exact e (length (ap_list s))" "\<forall>a \<in> set (ap_list s). NUL \<in> set (name a)" "NUL \<notin> set t"
    "\<forall>a \<in> set (ap_list s). cstr (name a) = t \<longrightarrow> security_type a \<noteq> 0"
  shows "\<exists>u v. commands_run e other [(''AT+SET_WIFICONFIG'', [x, t])] s = Some u \<and>
    commands_run e other [(''AT+SET_WIFICONFIG'', [x, t])] u = Some v \<and>
    last (calls u) = Wifi (Set_wifi_config t (of_nat (length t)) None 0 None) \<and>
    (\<forall>a \<in> set (ap_list u). cstr (name a) = t \<longrightarrow> security_type a = 0) \<and>
    last (calls v) = Wifi (Set_wifi_config t (of_nat (length t)) None 0
      (map_option (\<lambda>a. take 6 (mac a)) (find (\<lambda>a. cstr (name a) = t) (ap_list s))))"
proof -
  let ?open = "\<lambda>a. if cstr (name a) = t then a\<lparr>security_type := 0\<rparr> else a"
  note o = open_first_secured [OF assms(4)]
  obtain n u where u: "at_handle e other ''AT+SET_WIFICONFIG'' [x, t] (Some s) = (n, Some u)" "ap_list u = map ?open (ap_list s)"
    "last (calls u) = Wifi (Set_wifi_config t (of_nat (length t)) None 0 None)"
    using wificonfig_no_key [OF assms(1-3), of other x] by (auto simp: o)
  have U: "scan_exact e (length (ap_list u))" "\<forall>a \<in> set (ap_list u). NUL \<in> set (name a)"
    "\<forall>a \<in> set (ap_list u). cstr (name a) = t \<longrightarrow> security_type a = 0"
    unfolding u(2) using assms(1,2) by (simp_all add: ball_Un)
  obtain k v where v: "at_handle e other ''AT+SET_WIFICONFIG'' [x, t] (Some u) = (k, Some v)"
    "last (calls v) = Wifi (Set_wifi_config t (of_nat (length t)) None 0 (map_option (take 6) (fst (open_first t (ap_list u)))))"
    using wificonfig_no_key [OF U(1,2) assms(3), of other x] by blast
  have "map_option mac (find (\<lambda>a. cstr (name a) = t) (map ?open as)) = map_option mac (find (\<lambda>a. cstr (name a) = t) as)" for as
    by (induction as) simp_all
  then have "fst (open_first t (ap_list u)) = map_option mac (find (\<lambda>a. cstr (name a) = t) (ap_list s))"
    unfolding open_first_open [OF U(3)] by (simp only: u(2))
  then have m: "map_option (take 6) (fst (open_first t (ap_list u))) =
      map_option (\<lambda>a. take 6 (mac a)) (find (\<lambda>a. cstr (name a) = t) (ap_list s))"
    by (simp only: option.map_comp comp_def)
  have "commands_run e other [(''AT+SET_WIFICONFIG'', [x, t])] s = Some u"
    "commands_run e other [(''AT+SET_WIFICONFIG'', [x, t])] u = Some v"
    by (simp_all only: commands_run.simps u(1) v(1) prod.case option.case)
  with u(3) v(2) U(3) show ?thesis unfolding m by blast
qed

definition sample_ap :: ap_info where
  "sample_ap = \<lparr>name = ''home'' @ replicate 28 NUL, name_len = 4, mac = [0, 17, 34, 51, 68, 85], ap_channel = 6,
     security_type = 1, security_subType = 0, rssi = 40\<rparr>"

lemma network_without_key_witness:
  "let e = sample_at_env\<lparr>ret := \<lambda>_ c. if c = Wifi GetAvailableIndex then 1 else 0\<rparr>; c = (''AT+SET_WIFICONFIG'', [''0'', ''home''])
   in \<exists>u v. commands_run e (\<lambda>_ _. 0) [c] (sample_st\<lparr>ap_list := [sample_ap]\<rparr>) = Some u \<and> commands_run e (\<lambda>_ _. 0) [c] u = Some v \<and>
     last (calls u) = Wifi (Set_wifi_config ''home'' 4 None 0 None) \<and>
     last (calls v) = Wifi (Set_wifi_config ''home'' 4 None 0 (Some [0, 17, 34, 51, 68, 85]))"
proof -
  let ?e = "sample_at_env\<lparr>ret := \<lambda>_ c. if c = Wifi GetAvailableIndex then 1 else 0\<rparr>" and ?s = "sample_st\<lparr>ap_list := [sample_ap]\<rparr>"
  have c: "cstr (name sample_ap) = ''home''" by (simp add: sample_ap_def cstr_append_NUL numeral_eq_Suc cstr_def)
  have "scan_exact ?e (length (ap_list ?s))" "\<forall>a \<in> set (ap_list ?s). NUL \<in> set (name a)" "NUL \<notin> set ''home''"
    "\<forall>a \<in> set (ap_list ?s). cstr (name a) = ''home'' \<longrightarrow> security_type a \<noteq> 0"
    by (simp_all add: scan_exact_def sample_ap_def)
  note N = network_without_key [OF this, of "\<lambda>_ _. 0" "''0''"]
  have f: "map_option (\<lambda>a. take 6 (mac a)) (find (\<lambda>a. cstr (name a) = ''home'') (ap_list ?s)) = Some [0, 17, 34, 51, 68, 85]"
    by (simp add: c) (simp add: sample_ap_def)
  have l: "of_nat (length ''home'') = (4 :: u8)" by simp
  from N show ?thesis unfolding f l Let_def by blast
qed

lemma clamp_sta_range: "1 \<le> sint (clamp_sta n)" "sint (clamp_sta n) \<le> 4"
  by (auto simp: clamp_sta_def Let_def word_sless_alt)

lemma byte_len_sint: "(scast (k :: 8 word) :: u32) = of_nat n \<Longrightarrow> n < 2 ^ 31 \<Longrightarrow> sint k = int n"
proof -
  assume k: "(scast k :: u32) = of_nat n" and n: "n < 2 ^ 31"
  have "sint k = sint (scast k :: u32)" by (simp add: sint_up_scast is_up)
  also have "\<dots> = int n" unfolding k using n by (simp add: signed_of_nat signed_take_bit_int_eq_self)
  finally show ?thesis .
qed

lemma blit_text:
  assumes "blit (replicate n NUL) 0 t = Some b" "str_piece b = Some p" "NUL \<notin> set t"
  shows "length b = n \<and> cstr b = t \<and> NUL \<in> set b \<and> length t < n"
  using assms str_piece_pad [of t "n - length t"]
  by (auto simp: blit_pad cstr_pad split: if_splits)

lemma calls_show_args [simp]: "calls (show_args argv n s) = calls s"
proof -
  have "calls (fold (\<lambda>i. print [Lit ''argv['', dec (of_nat i), Lit '']='', Str (argv ! i), line '''']) is s) = calls s"
    for "is" by (induction "is" arbitrary: s) simp_all
  then show ?thesis by (simp add: show_args_def)
qed

lemma result_in_bindI: "(\<And>y. m = Some y \<Longrightarrow> result_in P (f y)) \<Longrightarrow> result_in P (Option.bind m f)"
  by (cases m) (simp_all add: result_in_None)

lemma result_in_LetI: "(\<And>x. x = v \<Longrightarrow> result_in P (f x)) \<Longrightarrow> result_in P (Let v f)"
  by simp

definition apconfig_good :: "string list \<Rightarrow> softap_config \<Rightarrow> bool" where
  "apconfig_good a c \<longleftrightarrow>
    1 \<le> sint (max_sta_num c) \<and> sint (max_sta_num c) \<le> 4 \<and> end_ip c \<le> start_ip c + scast (max_sta_num c) \<and>
    length (key c) = 64 \<and> cstr (key c) = a ! 7 \<and> NUL \<in> set (key c) \<and> sint (keylen c) = int (length (a ! 7)) \<and>
    length (ssid c) = 32 \<and> cstr (ssid c) = a ! 10 \<and> NUL \<in> set (ssid c) \<and> sint (ssid_length c) = int (length (a ! 10))"

lemma apconfig_calls:
  assumes "\<forall>t \<in> set a. NUL \<notin> set t"
  shows "result_in (\<lambda>s'. \<exists>cs. calls s' = calls s @ cs \<and> (\<forall>c. Wifi (Softap_set_custom_conf c) \<in> set cs \<longrightarrow> apconfig_good a c))
    (At_SET_APCONFIG e a s)"
  unfolding At_SET_APCONFIG_def apconfig_exit_def
proof (intro result_in_LetI result_in_cases result_in_bindI, goal_cases)
  case (4 x xa xb xc xd xe xf xg xh xi xj y xk a9 xl a10 yc xm xn xo xp xq yd xr ye xs xt xu)
  have "\<not> length a < 9" "rd a 10 = Some a10" and k: "blit (replicate 64 NUL) 0 (a ! 7) = Some y"
    "\<not> (scast xj :: u32) \<noteq> of_nat (length (a ! 7))" "str_piece y = Some yd"
    and i: "blit (replicate 32 NUL) 0 a10 = Some yc" "\<not> (scast xl :: u32) \<noteq> of_nat (length a10)" "str_piece yc = Some ye"
    and r: "xe = clamp_sta (ucast (strtoul (a ! 4) 10))" "xf = xa + scast xe" "xh = (if xf < xb then xf else xb)"
    by fact+
  then have n: "NUL \<notin> set (a ! 7)" "NUL \<notin> set (a ! 10)" "a10 = a ! 10"
    using assms by (auto simp: rd_def split: if_splits)
  have "xh \<le> xa + scast xe" unfolding r(3) r(2) by (simp add: not_less)
  moreover note clamp_sta_range [of "ucast (strtoul (a ! 4) 10)", folded r(1)] blit_text [OF k(1,3) n(1)]
    blit_text [OF i(1,3)] byte_len_sint [of xj "length (a ! 7)"] byte_len_sint [of xl "length a10"]
  ultimately have g: "apconfig_good a xt"
    using k(2) i(2) n by (simp add: apconfig_good_def \<open>xt = _\<close>)
  have c: "calls xs = calls s @ [Wifi (Dbg_dump_ip ''start_ip'' (htonlx xa)), Wifi (Dbg_dump_ip ''end_ip'' (htonlx xh)),
      Wifi (Dbg_dump_ip ''gateway'' (htonlx xc)), Wifi (Dbg_dump_ip ''netmask'' (htonlx xd))]"
    unfolding \<open>xs = _\<close> \<open>xr = _\<close> \<open>xq = _\<close> \<open>xp = _\<close> \<open>xo = _\<close> \<open>xn = _\<close> \<open>xm = _\<close> \<open>xg = _\<close> \<open>x = _\<close> by simp
  show ?case
    unfolding \<open>xu = _\<close> case_call by (intro result_in_Some) (simp add: g c)
qed (rule result_in_Some, simp)+


lemma apconfig_reaches:
  assumes "11 \<le> length a" "byte_len (a ! 6) (a ! 7)" "byte_len (a ! 9) (a ! 10)"
  shows "result_in (\<lambda>s'. \<exists>c. Wifi (Softap_set_custom_conf c) \<in> set (calls s')) (At_SET_APCONFIG e a s)"
  unfolding At_SET_APCONFIG_def apconfig_exit_def
proof (intro result_in_LetI result_in_cases result_in_bindI, goal_cases)
  case (3 x xa xb xc xd xe xf xg xh xi xj y xk a9 xl a10)
  have "rd a 9 = Some a9" "rd a 10 = Some a10" "xl = ucast (strtoul a9 10)" "(scast xl :: u32) \<noteq> of_nat (length a10)" by fact+
  with assms(1,3) show ?case by (simp add: rd_def byte_len_def split: if_splits)
next
  case (4 x xa xb xc xd xe xf xg xh xi xj y xk a9 xl a10 yc xm xn xo xp xq yd xr ye xs xt xu)
  show ?case unfolding \<open>xu = _\<close> case_call by (intro result_in_Some) auto
qed (use assms in \<open>simp_all add: byte_len_def\<close>)


end
