(* ===== verification/AtShow.thy ===== *)
theory AtShow
  imports AtWifi
begin

text \<open>
  The reports of the AT console: the handlers of \<open>cli/atcmd.c\<close> and the callbacks that print what the driver knows,
  \<open>At_ShowConnectAP\<close>, \<open>At_ShowAllAP\<close>, \<open>At_GetConfigure\<close>, \<open>At_EfuseDump\<close>, \<open>scan_cbfunc\<close>, \<open>atwificbfunc\<close>, the
  command lists and the version texts, and \<open>At_SmartConfig\<close>. What the driver answers is a record of parameters; the
  only effect of a report is on the console. \<open>%s\<close> of an array without a terminator reads
  past its end, which is \<open>None\<close>.
\<close>

section \<open>What the driver answers\<close>

text \<open>The members of \<open>AP_DETAIL_INFO\<close> that are printed.\<close>

record conn_ap =
  conn_ssid :: buf
  conn_ssid_len :: u8
  conn_channel :: u8
  conn_rssi :: u8
  conn_mac :: "u8 list"
  conn_security :: u8
  conn_subType :: u8

text \<open>The addresses are lists of four bytes. \<open>stack_ssid\<close> and \<open>stack_key\<close> are the uninitialised arrays of
  \<open>At_GetConfigure\<close>; \<open>wifi_config\<close> is what \<open>get_wifi_config\<close> writes over them when it succeeds, without terminators.\<close>

record if_conf =
  if_dhcpen :: u8
  if_mac :: "u8 list"
  if_ip :: "u8 list"
  if_mask :: "u8 list"
  if_gateway :: "u8 list"
  if_dns :: "u8 list"

record efuse_conf =
  free_bits :: u32
  efuse_mac :: "u8 list option"
  usb_vid :: "u16 option"
  usb_pid :: "u16 option"
  tx_power1 :: "u8 option"
  tx_power2 :: "u8 option"
  efuse_xtal :: "u8 option"

record show_env =
  wifi_status :: "u8 \<Rightarrow> int"
  connAP :: "conn_ap list"
  opmode :: nat
  current_rate :: "u8 \<Rightarrow> u8"
  scanned :: "ap_info list"
  malloc_ok :: bool
  if_config :: "u8 \<Rightarrow> if_conf"
  wifi_config :: "(string \<times> string) option"
  stack_ssid :: buf
  stack_key :: buf
  efuse :: efuse_conf
  version :: string

section \<open>Names of codes\<close>

definition dataRateMapping :: "string list" where
  "dataRateMapping = [''11b 1M'', ''11b 2M'', ''11b 5.5M'', ''11b 11M'', ''11b 2M SP'', ''11b 5.5M SP'', ''11b 11M SP'',
     ''NON-HT 6M'', ''NON-HT 9M'', ''NON-HT 12M'', ''NON-HT 18M'', ''NON-HT 24M'', ''NON-HT 36M'', ''NON-HT 48M'', ''NON-HT 54M'',
     ''HT-MM MCS0'', ''HT-MM MCS1'', ''HT-MM MCS2'', ''HT-MM MCS3'', ''HT-MM MCS4'', ''HT-MM MCS5'', ''HT-MM MCS6'', ''HT-MM MCS7'',
     ''HT-MM SGI MCS0'', ''HT-MM SGI MCS1'', ''HT-MM SGI MCS2'', ''HT-MM SGI MCS3'', ''HT-MM SGI MCS4'', ''HT-MM SGI MCS5'',
     ''HT-MM SGI MCS6'', ''HT-MM SGI MCS7'',
     ''HT-GF MCS0'', ''HT-GF MCS1'', ''HT-GF MCS2'', ''HT-GF MCS3'', ''HT-GF MCS4'', ''HT-GF MCS5'', ''HT-GF MCS6'', ''HT-GF MCS7'']"

definition showDataRate :: "u8 \<Rightarrow> string" where
  "showDataRate idx = (if idx \<le> 38 then dataRateMapping ! unat idx else ''Unknown'')"

definition securityString :: "u8 \<Rightarrow> string" where
  "securityString ver =
     (if ver = 0 then ''OPEN'' else if ver = 1 then ''WEP'' else if ver = 2 then ''WPA'' else if ver = 3 then ''WPA2''
      else if ver = 4 then ''WPAWPA2'' else ''unknown security type'')"

definition securitySubString :: "u8 \<Rightarrow> string" where
  "securitySubString ver =
     (if ver = 0 then ''NONE'' else if ver = 1 then ''TKIP'' else if ver = 2 then ''AES'' else if ver = 3 then ''TKIP_CCMP''
      else ''unknown security type'')"

section \<open>Pieces\<close>

abbreviation CR_LF :: piece where "CR_LF \<equiv> Lit [CHR 0x0D, LF]"

abbreviation hex8 :: "u8 \<Rightarrow> piece" where "hex8 v \<equiv> Num False False 0 (CHR ''x'') (ucast v)"

abbreviation hex02 :: "u8 \<Rightarrow> piece" where "hex02 v \<equiv> Num False True 2 (CHR ''x'') (ucast v)"

abbreviation wide :: "nat \<Rightarrow> u8 \<Rightarrow> piece" where "wide w v \<equiv> Num False False w (CHR ''d'') (ucast v)"

text \<open>Numbers with a separator between them.\<close>

fun between :: "string \<Rightarrow> piece list \<Rightarrow> piece list" where
  "between sep [] = []"
| "between sep [p] = [p]"
| "between sep (p # ps) = p # Lit sep # between sep ps"

definition first6 :: "(u8 \<Rightarrow> piece) \<Rightarrow> string \<Rightarrow> u8 list \<Rightarrow> piece list option" where
  "first6 f sep b = (if 6 \<le> length b then Some (between sep (map f (take 6 b))) else None)"

definition dotted4 :: "u8 list \<Rightarrow> piece list" where
  "dotted4 b = between ''.'' (map dec8 (take 4 b))"

type_synonym report = "show_env \<Rightarrow> string list \<Rightarrow> at_st \<Rightarrow> (int \<times> at_st) option"

section \<open>Networks\<close>

text \<open>The local array \<open>ap_ssid\<close> has 33 bytes, \<open>ssid\<close> has 32.\<close>

definition ssid_copy :: "conn_ap \<Rightarrow> buf option" where
  "ssid_copy ap =
     (let n = (if 33 < unat (conn_ssid_len ap) then 33 else unat (conn_ssid_len ap)) in
      if n \<le> length (conn_ssid ap) then blit (replicate 33 NUL) 0 (take n (conn_ssid ap)) else None)"

definition connected :: "show_env \<Rightarrow> u8 \<Rightarrow> (u8 list \<Rightarrow> u8 list) \<Rightarrow> conn_ap \<Rightarrow> at_st \<Rightarrow> at_st option" where
  "connected e sta mac_shown ap s =
     do {
       ssid \<leftarrow> ssid_copy ap;
       name \<leftarrow> str_piece ssid;
       mac \<leftarrow> first6 hex8 '':'' (mac_shown (conn_mac ap));
       let s = print [name] s;
       let s = print [Lit '', ch: '', dec8 (conn_channel ap)] s;
       let s = print [Lit '', rssi: -'', dec8 (conn_rssi ap), Lit '' dBm''] s;
       let s = print (Lit '', mac: '' # mac) s;
       let s = print [Lit '', security_type = '', Str (securityString (conn_security ap))] s;
       let s = print [Lit ''/'', Str (securitySubString (conn_subType ap)), Lit '' ''] s;
       Some (print [Lit '', '', Str (showDataRate (current_rate e sta)), CR_LF] s) }"

text \<open>For the second station the code prints byte 1 of the address in place of byte 0.\<close>

definition second_mac :: "u8 list \<Rightarrow> u8 list" where
  "second_mac b = b[0 := b ! 1]"

definition DUT_TWOSTA :: nat where "DUT_TWOSTA = 4"

definition At_ShowConnectAP :: report where
  "At_ShowConnectAP e argv s =
     do {
       let s = print [CR_LF] s;
       s \<leftarrow> (if wifi_status e 0 = 1 then do { ap \<leftarrow> rd (connAP e) 0; connected e 0 id ap s }
         else Some (print [Lit ''please connect STA0 to ap'', CR_LF] s));
       s \<leftarrow> (if opmode e = DUT_TWOSTA
         then if wifi_status e 1 = 1 then do { ap \<leftarrow> rd (connAP e) 1; connected e 1 second_mac ap s }
           else Some (print [Lit ''please connect STA1 to ap'', CR_LF] s)
         else Some s);
       Some (ERROR_SUCCESS, s) }"

definition show_network :: "nat \<Rightarrow> ap_info \<Rightarrow> at_st \<Rightarrow> at_st option" where
  "show_network i ap s =
     do {
       nm \<leftarrow> str_piece (name ap);
       m \<leftarrow> first6 hex8 '':'' (mac ap);
       let s = print [Lit ''['', dec (of_nat i), Lit '']'', nm, Lit [LF]] s;
       let s = print [Lit ''        ch: '', wide 2 (ap_channel ap)] s;
       let s = print [Lit '', rssi: -'', wide 3 (rssi ap), Lit '' dBm''] s;
       let s = print (Lit '', mac:  '' # m) s;
       let s = print [Lit '', security_type = '', Str (securityString (security_type ap))] s;
       Some (print [Lit ''/'', Str (securitySubString (security_subType ap)), CR_LF] s) }"

fun show_networks :: "nat \<Rightarrow> ap_info list \<Rightarrow> at_st \<Rightarrow> at_st option" where
  "show_networks i [] s = Some s"
| "show_networks i (ap # aps) s = do { s \<leftarrow> show_network i ap s; show_networks (Suc i) aps s }"

definition At_ShowAllAP :: report where
  "At_ShowAllAP e argv s =
     do {
       s \<leftarrow> (if scanned e \<noteq> []
         then if malloc_ok e then show_networks 0 (scanned e) s else Some s
         else Some (print [Lit ''please scan ap then you can show all ap info'', CR_LF] s));
       Some (ERROR_SUCCESS, s) }"

text \<open>The callback of a scan; \<open>%32s\<close> pads the name on the left.\<close>

definition scan_line :: "nat \<Rightarrow> ap_info \<Rightarrow> at_st \<Rightarrow> at_st option" where
  "scan_line i ap s =
     do {
       nm \<leftarrow> str_piece (name ap);
       m \<leftarrow> first6 hex02 ''-'' (mac ap);
       Some (print ([Num False False 2 (CHR ''d'') (of_nat i), Lit '' - name:'',
         Lit (replicate (32 - length (cstr (name ap))) CHR '' ''), nm, Lit '', rssi:-'', wide 2 (rssi ap),
         Lit '' CH:'', wide 2 (ap_channel ap), Lit '' mac:''] @ m @ [Lit [LF]]) s) }"

fun scan_lines :: "nat \<Rightarrow> ap_info list \<Rightarrow> at_st \<Rightarrow> at_st option" where
  "scan_lines i [] s = Some s"
| "scan_lines i (ap # aps) s = do { s \<leftarrow> scan_line i ap s; scan_lines (Suc i) aps s }"

definition scan_cbfunc :: "at_st \<Rightarrow> at_st option" where
  "scan_cbfunc s =
     do {
       let s = print [Lit [LF], Lit ''Count:'', dec (of_nat (length (ap_list s))), Lit [LF]] s;
       s \<leftarrow> scan_lines 0 (ap_list s) s;
       Some (print [line ''end''] s) }"

section \<open>Interfaces and versions\<close>

definition atwificbfunc :: "show_env \<Rightarrow> u8 \<Rightarrow> u8 \<Rightarrow> at_st \<Rightarrow> at_st option" where
  "atwificbfunc e wifistatus i s =
     (if wifistatus = 1 then do {
        let s = print [Str ''AT+WIFICONNECT'', line '' OK''] s;
        let c = if_config e (if i = 0 then 0 else 1);
        m \<leftarrow> first6 hex02 '':'' (if_mac c);
        let s = print [Lit ''STA'', dec8 i, line '':''] s;
        let s = print (Lit ''mac addr        - '' # m @ [Lit [LF]]) s;
        let s = print (Lit ''ip addr         - '' # dotted4 (if_ip c) @ [Lit [LF]]) s;
        let s = print (Lit ''netmask         - '' # dotted4 (if_mask c) @ [Lit [LF]]) s;
        let s = print (Lit ''default gateway - '' # dotted4 (if_gateway c) @ [Lit [LF]]) s;
        Some (print (Lit ''DNS server      - '' # dotted4 (if_dns c) @ [Lit [LF]]) s) }
      else Some (print [Str ''AT+WIFIDISCONNECT'', line '' OK''] s))"

definition At_GetVersion :: report where
  "At_GetVersion e argv s = Some (ERROR_SUCCESS, print [Lit ''+VERSION:'', Str (version e), CR_LF] (print [CR_LF] s))"

definition At_GetManufactureInfo :: report where
  "At_GetManufactureInfo e argv s = Some (ERROR_SUCCESS, print [Lit ''+MF_INFO:'', Str ''iComm Company'', CR_LF] (print [CR_LF] s))"

text \<open>\<open>t\<close> written at the start of an array and terminated.\<close>

definition terminated :: "buf \<Rightarrow> string \<Rightarrow> buf option" where
  "terminated b t = blit b 0 (t @ [NUL])"

definition At_GetConfigure :: report where
  "At_GetConfigure e argv s =
     do {
       (ssid, key, keylen) \<leftarrow> (case wifi_config e of
           None \<Rightarrow> Some (stack_ssid e, stack_key e, 64)
         | Some (n, k) \<Rightarrow> do { a \<leftarrow> terminated (stack_ssid e) n; b \<leftarrow> terminated (stack_key e) k; Some (a, b, length k) });
       let s = print [CR_LF] s;
       n \<leftarrow> str_piece ssid;
       k \<leftarrow> str_piece key;
       let c = if_config e 0;
       Some (ERROR_SUCCESS, print ([Lit ''+GET_CONFIG='', dec 0, Lit '','', n, Lit '','', k, Lit '','', dec (of_nat keylen), Lit '','',
         dec8 (if_dhcpen c), Lit '',''] @ dotted4 (if_ip c) @ [Lit '',''] @ dotted4 (if_mask c) @ [Lit '',''] @ dotted4 (if_gateway c) @ [CR_LF]) s) }"

definition efuse_line :: "string \<Rightarrow> string \<Rightarrow> 'a::len word option \<Rightarrow> at_st \<Rightarrow> at_st" where
  "efuse_line found missing v s =
     (case v of Some x \<Rightarrow> print [Lit found, Num False False 0 (CHR ''x'') (ucast x), Lit [LF]] s | None \<Rightarrow> print [line missing] s)"

definition At_EfuseDump :: report where
  "At_EfuseDump e argv s =
     do {
       let s = print [Lit [LF]] s;
       let f = efuse e;
       let s = print [Lit ''efuse free bits = '', dec (free_bits f), Lit [LF]] s;
       s \<leftarrow> (case efuse_mac f of None \<Rightarrow> Some (print [line ''NO MAC''] s)
         | Some b \<Rightarrow> do { m \<leftarrow> first6 hex02 '':'' b; Some (print (Lit ''MAC = '' # m @ [Lit [LF]]) s) });
       let s = efuse_line ''VID = 0x'' ''NO VID'' (usb_vid f) s;
       let s = efuse_line ''PID = 0x'' ''NO PID'' (usb_pid f) s;
       let s = efuse_line ''TX Power1 = 0x'' ''NO TX Power1'' (tx_power1 f) s;
       let s = efuse_line ''TX Power1 = 0x'' ''NO TX Power2'' (tx_power2 f) s;
       Some (ERROR_SUCCESS, efuse_line ''XTAL = 0x'' ''NO XTAL'' (efuse_xtal f) s) }"

section \<open>Lists of commands\<close>

text \<open>Both lists leave out the last entry of the table; \<open>strncmp\<close> compares the first letters.\<close>

definition list_commands :: "string \<Rightarrow> (string \<times> nat) list \<Rightarrow> at_st \<Rightarrow> int \<times> at_st" where
  "list_commands start tbl s =
     (ERROR_SUCCESS, fold (\<lambda>(nm, m) s. if take (length start) nm = start then print [Str nm, Lit [LF]] s else s)
       (take (length tbl - 1) tbl) (print [CR_LF] s))"

definition At_CmdList :: "(string \<times> nat) list \<Rightarrow> at_st \<Rightarrow> int \<times> at_st" where
  "At_CmdList tbl s = list_commands ''AT+'' tbl s"

definition At_ShowRfCommand :: "(string \<times> nat) list \<Rightarrow> at_st \<Rightarrow> int \<times> at_st" where
  "At_ShowRfCommand tbl s = list_commands ''AT+RF'' tbl s"

section \<open>Quick connection\<close>

text \<open>
  \<open>At_SmartConfig\<close>: \<open>heap n\<close> is the block of \<open>n\<close> bytes that \<open>malloc\<close> returns; the second component of the result is the
  key for \<open>joylink_init\<close>, or none for \<open>joylink_stop\<close>. The word is compared on its own length only.
\<close>

definition At_SmartConfig :: "(nat \<Rightarrow> buf option) \<Rightarrow> string list \<Rightarrow> at_st \<Rightarrow> (int \<times> string option option \<times> at_st) option" where
  "At_SmartConfig heap argv s =
     (if length argv < 1
      then Some (ERROR_INVALID_PARAMETER, None,
        print [line ([CHR 0x09] @ ''AT+SC smartlink,1              => start smartlink'')]
         (print [line ([CHR 0x09] @ ''AT+SC joylink,0123456789123456 => start joylink with key_code'')]
         (print [line ''ex: ''] (print [Lit [LF], line ''AT+SC [joylink/ smartlink/ airkiss],[xxx]''] s))))
      else do {
        let s = print [Lit [LF]] s;
        a \<leftarrow> rd argv 0;
        let sc_len = length a mod 256;
        sc \<leftarrow> heap sc_len;
        sc \<leftarrow> blit sc 0 (take sc_len a);
        sc \<leftarrow> wr sc sc_len NUL;
        if take sc_len sc = take sc_len (''joylink'' @ [NUL])
        then do {
          b \<leftarrow> rd argv 1;
          key \<leftarrow> (if 16 \<le> length b + 1 then Some (take 16 (b @ [NUL])) else None);
          Some (ERROR_SUCCESS, Some (if length b = 16 then Some key else None), s) }
        else Some (ERROR_SUCCESS, None, s) })"

section \<open>What the reports show\<close>

definition network_pieces :: "nat \<Rightarrow> ap_info \<Rightarrow> piece list" where
  "network_pieces i ap =
     [Lit ''['', dec (of_nat i), Lit '']'', Str (cstr (name ap)), Lit [LF], Lit ''        ch: '', wide 2 (ap_channel ap),
      Lit '', rssi: -'', wide 3 (rssi ap), Lit '' dBm'', Lit '', mac:  ''] @ between '':'' (map hex8 (take 6 (mac ap))) @
     [Lit '', security_type = '', Str (securityString (security_type ap)), Lit ''/'', Str (securitySubString (security_subType ap)), CR_LF]"

definition shown :: "piece list \<Rightarrow> string" where
  "shown ps = crlf (concat (map piece_text ps))"

lemma print_shown: "print ps s = s\<lparr>console := console s @ shown ps\<rparr>"
  by (simp add: print_def shown_def)

lemma print_print: "print qs (print ps s) = print (ps @ qs) s"
  by (simp add: print_def)

lemma show_network_eq:
  "6 \<le> length (mac ap) \<Longrightarrow> show_network i ap s =
    (if NUL \<in> set (name ap) then Some (print (network_pieces i ap) s) else None)"
  by (simp add: show_network_def first6_def str_piece_def Let_def print_print network_pieces_def)

lemma show_networks_eq:
  "\<forall>ap \<in> set aps. 6 \<le> length (mac ap) \<Longrightarrow> show_networks i aps s =
    (if \<forall>ap \<in> set aps. NUL \<in> set (name ap)
     then Some (s\<lparr>console := console s @ concat (map (\<lambda>(k, ap). shown (network_pieces k ap)) (enumerate i aps))\<rparr>) else None)"
  by (induction aps arbitrary: i s) (simp_all add: show_network_eq print_shown)

lemma cstr_fill: "cstr (xs @ replicate k NUL) = cstr xs"
  by (induction xs) (cases k, simp_all add: cstr_def)

text \<open>The name of the access point is shown whole, also when it has 32 characters.\<close>

lemma connected_name_shown:
  assumes "unat (conn_ssid_len ap) \<le> 32" "length (conn_ssid ap) = 32" "length (f (conn_mac ap)) = 6"
  shows "\<exists>rest. connected e sta f ap s = Some (s\<lparr>console := console s @ crlf (cstr (take (unat (conn_ssid_len ap)) (conn_ssid ap))) @ rest\<rparr>)"
proof -
  let ?n = "unat (conn_ssid_len ap)"
  let ?b = "take ?n (conn_ssid ap) @ replicate (33 - ?n) NUL"
  have c: "ssid_copy ap = Some ?b" using assms(1,2) by (simp add: ssid_copy_def blit_def Let_def)
  have "cstr ?b = cstr (take ?n (conn_ssid ap))"
    by (rule cstr_fill)
  moreover have "NUL \<in> set ?b" using assms(1) by simp
  ultimately have p: "str_piece ?b = Some (Str (cstr (take ?n (conn_ssid ap))))" by (simp add: str_piece_def)
  have m: "first6 hex8 '':'' (f (conn_mac ap)) = Some (between '':'' (map hex8 (f (conn_mac ap))))"
    using assms(3) by (simp add: first6_def)
  have "\<exists>ps. connected e sta f ap s = Some (print (Str (cstr (take ?n (conn_ssid ap))) # ps) s)"
    unfolding connected_def c m by (simp only: p Option.bind.simps Let_def print_print append.simps) blast
  then show ?thesis by (auto simp: print_def)
qed

text \<open>Any word given to \<open>At_SmartConfig\<close> overruns the block that it is copied to.\<close>

lemma smart_config_overruns:
  assumes "argv \<noteq> []" "\<And>n b. heap n = Some b \<Longrightarrow> length b = n"
  shows "At_SmartConfig heap argv s = None"
proof -
  have "heap n = Some sc \<Longrightarrow> blit sc 0 (take n a) = Some sc' \<Longrightarrow> wr sc' n NUL = None" for n sc sc' and a :: string
    using assms(2) [of n sc] blit_length [of sc 0 "take n a" sc'] by (simp add: wr_def)
  with assms(1) show ?thesis by (auto simp: At_SmartConfig_def rd_def Let_def split: bind_split)
qed

text \<open>
  Every network is shown, in order, if each name is shorter than its array; a name of 32
  characters, which has no terminator there, makes the command read past it.
\<close>

lemma all_networks_shown:
  assumes "scanned e \<noteq> []" "malloc_ok e" "\<forall>ap \<in> set (scanned e). length (name ap) = 32 \<and> length (mac ap) = 6"
  shows "At_ShowAllAP e argv s =
    (if \<exists>ap \<in> set (scanned e). NUL \<notin> set (name ap) then None
     else Some (ERROR_SUCCESS, s\<lparr>console := console s @
       concat (map (\<lambda>(k, ap). shown (network_pieces k ap)) (enumerate 0 (scanned e)))\<rparr>))"
  using assms by (simp add: At_ShowAllAP_def show_networks_eq)

text \<open>Two networks, one with a name of 31 characters and one with 32.\<close>

definition sample_show :: "ap_info list \<Rightarrow> show_env" where
  "sample_show aps = (let c = \<lparr>if_dhcpen = 1, if_mac = replicate 6 0, if_ip = replicate 4 0, if_mask = replicate 4 0,
       if_gateway = replicate 4 0, if_dns = replicate 4 0\<rparr> in
     \<lparr>wifi_status = (\<lambda>_. 0), connAP = [], opmode = 1, current_rate = (\<lambda>_. 0), scanned = aps, malloc_ok = True, if_config = (\<lambda>_. c),
       wifi_config = None, stack_ssid = replicate 33 NUL, stack_key = replicate 65 NUL,
       efuse = \<lparr>free_bits = 0, efuse_mac = None, usb_vid = None, usb_pid = None, tx_power1 = None, tx_power2 = None, efuse_xtal = None\<rparr>,
       version = []\<rparr>)"

definition sample_network :: "buf \<Rightarrow> ap_info" where
  "sample_network b = \<lparr>name = b, name_len = of_nat (length (cstr b)), mac = replicate 6 0, ap_channel = 1, security_type = 0,
     security_subType = 0, rssi = 40\<rparr>"

lemma all_networks_shown_witness:
  "\<forall>s. At_ShowAllAP (sample_show [sample_network (replicate 31 CHR ''n'' @ [NUL])]) [] s \<noteq> None \<and>
    At_ShowAllAP (sample_show [sample_network (replicate 31 CHR ''n'' @ [NUL]), sample_network (replicate 32 CHR ''n'')]) [] s = None"
proof -
  let ?a = "sample_network (replicate 31 CHR ''n'' @ [NUL])" and ?b = "sample_network (replicate 32 CHR ''n'')"
  have f: "scanned (sample_show aps) = aps" "malloc_ok (sample_show aps)" for aps by (simp_all add: sample_show_def Let_def)
  have a: "name ?a = replicate 31 CHR ''n'' @ [NUL]" "length (mac ?a) = 6" "name ?b = replicate 32 CHR ''n''" "length (mac ?b) = 6"
    by (simp_all add: sample_network_def)
  show ?thesis
    using all_networks_shown [of "sample_show [?a]" "[]"] all_networks_shown [of "sample_show [?a, ?b]" "[]"] by (simp add: f a)
qed

end
