(* ===== verification/FlashCfg.thy ===== *)
theory FlashCfg
  imports AtWifi
begin

text \<open>
  The configuration areas in flash: \<open>projects/mac_atcmd/src/cfg/user_cfg.c\<close>, \<open>sa_cfg.c\<close> and \<open>mac_cfg.c\<close>, and the
  handler \<open>At_User_Flsh\<close> of \<open>atcmd.c\<close>. The flash is a list of bytes that the processor also reads as memory;
  \<open>base\<close> is the address of an area. The flash driver, the memory manager, the checksum and the
  JSON library are parameters.
\<close>

type_synonym image = "u8 list"

definition FLASH_SECTOR_SIZE :: nat where "FLASH_SECTOR_SIZE = 4096"
definition FLASH_PAGE_SIZE :: nat where "FLASH_PAGE_SIZE = 256"
definition RW_BLOCK_SIZE :: nat where "RW_BLOCK_SIZE = 512"
definition RW_TOTAL_SIZE :: nat where "RW_TOTAL_SIZE = 4 * 512"

section \<open>The parameters\<close>

text \<open>\<open>heap n\<close> is the block of \<open>n\<close> bytes that \<open>OS_MemAlloc\<close> returns, with what it happens to contain.\<close>

record flash_env =
  erase :: "nat \<Rightarrow> image \<Rightarrow> image"
  program :: "nat \<Rightarrow> image \<Rightarrow> image \<Rightarrow> image"
  heap :: "nat \<Rightarrow> image option"
  crc :: "image \<Rightarrow> u16"

text \<open>
  Flash memory erases a sector to ones, and programming can only clear bits.
\<close>

definition nor_flash :: "flash_env \<Rightarrow> bool" where
  "nor_flash e \<longleftrightarrow>
     (\<forall>a m. 4096 dvd a \<longrightarrow> a + 4096 \<le> length m \<longrightarrow>
        erase e a m = take a m @ replicate 4096 0xff @ drop (a + 4096) m) \<and>
     (\<forall>a d m. a + length d \<le> length m \<longrightarrow>
        program e a d m = take a m @ map2 (AND) (drop a m) d @ drop (a + length d) m)"

definition heap_ok :: "flash_env \<Rightarrow> bool" where
  "heap_ok e \<longleftrightarrow> (\<forall>n. \<exists>b. heap e n = Some b \<and> length b = n)"

text \<open>The memory that a pointer into the area reads.\<close>

definition area :: "nat \<Rightarrow> image \<Rightarrow> image" where
  "area base fl = drop base fl"

definition read_bytes :: "nat \<Rightarrow> image \<Rightarrow> image option" where
  "read_bytes n b = (if n \<le> length b then Some (take n b) else None)"

section \<open>Writing and reading an area\<close>

text \<open>The loop over the pages: \<open>n\<close> pages from offset \<open>i\<close> of the buffer.\<close>

fun program_pages :: "flash_env \<Rightarrow> nat \<Rightarrow> image \<Rightarrow> nat \<Rightarrow> nat \<Rightarrow> image \<Rightarrow> image option" where
  "program_pages e ptr buf i 0 fl = Some fl"
| "program_pages e ptr buf i (Suc n) fl =
     do {
       page \<leftarrow> read_bytes FLASH_PAGE_SIZE (drop i buf);
       program_pages e ptr buf (i + FLASH_PAGE_SIZE) n (program e (ptr + i) page fl) }"

text \<open>
  The area of the user spans two sectors, of which the first is erased. \<open>USER_CFG_ASSERT\<close> is an endless loop when its
  condition fails, which is \<open>None\<close> here, as are null pointers.
\<close>

definition cfg_user_write_cfg :: "flash_env \<Rightarrow> nat \<Rightarrow> image \<Rightarrow> nat \<Rightarrow> image \<Rightarrow> image option" where
  "cfg_user_write_cfg e base new_user_data len fl =
     (if len \<le> 2 * FLASH_SECTOR_SIZE then do {
        buf \<leftarrow> heap e (2 * FLASH_SECTOR_SIZE);
        src \<leftarrow> read_bytes len new_user_data;
        buf \<leftarrow> blit buf 0 src;
        rest \<leftarrow> read_bytes (2 * FLASH_SECTOR_SIZE - len) (drop len (area base fl));
        buf \<leftarrow> blit buf len rest;
        program_pages e base buf 0 (2 * FLASH_SECTOR_SIZE div FLASH_PAGE_SIZE) (erase e base fl) }
      else None)"

definition cfg_user_read_cfg :: "flash_env \<Rightarrow> nat \<Rightarrow> nat \<Rightarrow> image \<Rightarrow> image option" where
  "cfg_user_read_cfg e base len fl =
     (if len \<le> 2 * FLASH_SECTOR_SIZE then do {
        buf \<leftarrow> heap e (2 * FLASH_SECTOR_SIZE);
        src \<leftarrow> read_bytes len (area base fl);
        buf \<leftarrow> blit (map (\<lambda>_. 0) buf) 0 src;
        read_bytes len buf }
      else None)"

definition cfg_sa_write_cfg :: "flash_env \<Rightarrow> nat \<Rightarrow> image \<Rightarrow> nat \<Rightarrow> image \<Rightarrow> image option" where
  "cfg_sa_write_cfg e base new_cfg len fl =
     (if len \<le> FLASH_SECTOR_SIZE then do {
        buf \<leftarrow> heap e FLASH_SECTOR_SIZE;
        src \<leftarrow> read_bytes len new_cfg;
        buf \<leftarrow> blit buf 0 src;
        rest \<leftarrow> read_bytes (FLASH_SECTOR_SIZE - len) (drop len (area base fl));
        buf \<leftarrow> blit buf len rest;
        program_pages e base buf 0 (FLASH_SECTOR_SIZE div FLASH_PAGE_SIZE) (erase e base fl) }
      else None)"

text \<open>\<open>buf\<close> is the memory of the text that \<open>cJSON_Print\<close> returned: the loop reads a whole sector from it.\<close>

definition wifi_cfg_write_cfg :: "flash_env \<Rightarrow> nat \<Rightarrow> image \<Rightarrow> image \<Rightarrow> image option" where
  "wifi_cfg_write_cfg e base buf fl =
     program_pages e base buf 0 (FLASH_SECTOR_SIZE div FLASH_PAGE_SIZE) (erase e base fl)"

section \<open>The user area in four blocks\<close>

record user_st =
  flash_mem :: image
  user_cfg_flag :: u8
  user_cfg_buf :: "image option"
  user_out :: string

definition say :: "piece list \<Rightarrow> user_st \<Rightarrow> user_st" where
  "say ps s = s\<lparr>user_out := user_out s @ crlf (concat (map piece_text ps))\<rparr>"

abbreviation dec16 :: "u16 \<Rightarrow> piece" where "dec16 v \<equiv> dec (ucast v)"

definition SET_CFG :: "u8 \<Rightarrow> u8 \<Rightarrow> u8" where
  "SET_CFG flag b = flag OR push_bit (unat b) 1"

definition CHECK_CFG_OK :: "u8 \<Rightarrow> bool" where
  "CHECK_CFG_OK flag \<longleftrightarrow> flag AND 0x0f = 0x0f"

text \<open>The part of \<open>do_At_User_Flsh\<close> that runs when all four blocks are there.\<close>

definition commit_blocks :: "flash_env \<Rightarrow> nat \<Rightarrow> user_st \<Rightarrow> (int \<times> user_st) option" where
  "commit_blocks e base s =
     do {
       buf \<leftarrow> user_cfg_buf s;
       write_data \<leftarrow> read_bytes RW_TOTAL_SIZE buf;
       let write_crc = crc e write_data;
       fl \<leftarrow> cfg_user_write_cfg e base buf RW_TOTAL_SIZE (flash_mem s);
       buf \<leftarrow> cfg_user_read_cfg e base RW_TOTAL_SIZE fl;
       let read_crc = crc e buf;
       let s = s\<lparr>flash_mem := fl, user_cfg_buf := Some buf\<rparr>;
       if read_crc \<noteq> write_crc
       then Some (ERROR_NOT_IMPLEMENT, say [Lit ''write_crc='', dec16 write_crc, Lit ''  read_crc='', dec16 read_crc, line '''']
         (say [line ''Flash crc check Fail''] s))
       else Some (ERROR_SUCCESS, (say [Lit ''Write Flash and check crc OK '', dec16 read_crc, line ''''] s)
         \<lparr>user_cfg_flag := 0, user_cfg_buf := None\<rparr>) }"

definition write_block :: "flash_env \<Rightarrow> nat \<Rightarrow> u8 \<Rightarrow> image \<Rightarrow> user_st \<Rightarrow> (int \<times> user_st) option" where
  "write_block e base write_offset write_buffer s =
     (let s = (if user_cfg_flag s = 0 then s\<lparr>user_cfg_buf := heap e RW_TOTAL_SIZE\<rparr> else s) in
      if user_cfg_flag s = 0 \<and> user_cfg_buf s = None then Some (ERROR_MEMORY_FAILED, say [line ''no memory''] s)
      else do {
        let s = s\<lparr>user_cfg_flag := SET_CFG (user_cfg_flag s) write_offset\<rparr>;
        buf \<leftarrow> user_cfg_buf s;
        src \<leftarrow> read_bytes RW_BLOCK_SIZE write_buffer;
        buf \<leftarrow> blit buf (RW_BLOCK_SIZE * unat write_offset) src;
        let s = s\<lparr>user_cfg_buf := Some buf\<rparr>;
        if CHECK_CFG_OK (user_cfg_flag s) then commit_blocks e base s else Some (ERROR_SUCCESS, s) })"

definition show_user_area :: "flash_env \<Rightarrow> nat \<Rightarrow> user_st \<Rightarrow> (int \<times> user_st) option" where
  "show_user_area e base s =
     (case heap e RW_TOTAL_SIZE of
        None \<Rightarrow> Some (ERROR_MEMORY_FAILED, s)
      | Some b \<Rightarrow> do {
          buf \<leftarrow> cfg_user_read_cfg e base RW_TOTAL_SIZE (flash_mem s);
          let bar = replicate 42 CHR ''#'';
          let s = say [line bar] (say [Lit ''read crc='', dec16 (crc e buf), line ''''] s);
          let s = fold (\<lambda>v. say [dec8 v, Lit [CHR 0x09]]) buf s;
          Some (ERROR_SUCCESS, say [Lit [LF], line bar] s) })"

definition do_At_User_Flsh :: "flash_env \<Rightarrow> nat \<Rightarrow> u8 \<Rightarrow> u8 \<Rightarrow> image \<Rightarrow> user_st \<Rightarrow> (int \<times> user_st) option" where
  "do_At_User_Flsh e base action write_offset write_buffer s =
     (if action = 1 then write_block e base write_offset write_buffer s
      else if action = 0 then show_user_area e base s
      else Some (ERROR_SUCCESS, s))"

definition text_bytes :: "string \<Rightarrow> image" where
  "text_bytes t = map (\<lambda>c. word_of_int (code c)) t"

text \<open>
  The handler. The variable \<open>action\<close> is set for \<open>w\<close> and \<open>r\<close> only; \<open>junk\<close> is what it holds otherwise. For \<open>r\<close> the
  third argument may be missing, and is not used.
\<close>

definition At_User_Flsh :: "flash_env \<Rightarrow> nat \<Rightarrow> u8 \<Rightarrow> string list \<Rightarrow> user_st \<Rightarrow> (int \<times> user_st) option" where
  "At_User_Flsh e base junk argv s =
     (if length argv = 0 then Some (ERROR_INVALID_PARAMETER, s)
      else do {
        let s = say [Lit [LF]] s;
        a0 \<leftarrow> rd argv 0;
        let c = (case a0 of [] \<Rightarrow> NUL | c # _ \<Rightarrow> c);
        let data = (if 2 < length argv then text_bytes (argv ! 2) @ [0] else []);
        if c = CHR ''w''
        then if length argv \<noteq> 3
          then Some (ERROR_INVALID_PARAMETER, say [Lit ''argc ='', dec (of_nat (length argv)), line ''''] s)
          else let write_offset = int8 (argv ! 1) in
            if write_offset > 3
            then Some (ERROR_INVALID_PARAMETER, say [Lit ''write_offset error '', dec8 write_offset, line ''''] s)
            else if length (argv ! 2) \<noteq> RW_BLOCK_SIZE
            then Some (ERROR_INVALID_PARAMETER, say [Lit ''write data Error.Len='', dec (of_nat (length (argv ! 2))), line ''''] s)
            else do_At_User_Flsh e base 1 write_offset data s
        else do_At_User_Flsh e base (if c = CHR ''r'' then 0 else junk) 0 data s })"

section \<open>MAC addresses as text\<close>

text \<open>\<open>macstring_parser\<close>: the address buffer so far and the index, both bytes of the caller's array;
  the result \<open>False\<close> is the exit to the error message.\<close>

fun hex_digit :: "char \<Rightarrow> nat option" where
  "hex_digit c = (let n = of_char c :: nat in
     if 48 \<le> n \<and> n \<le> 57 then Some (n - 48)
     else if 97 \<le> n \<and> n \<le> 102 then Some (n - 97 + 10)
     else if 65 \<le> n \<and> n \<le> 70 then Some (n - 65 + 10) else None)"

fun mac_loop :: "string \<Rightarrow> nat \<Rightarrow> image \<Rightarrow> (bool \<times> image) option" where
  "mac_loop [] index addr = Some (True, addr)"
| "mac_loop (c # cs) index addr =
     (if 5 < index then Some (False, addr)
      else case hex_digit c of
          Some v \<Rightarrow> do {
            x \<leftarrow> rd addr index;
            addr \<leftarrow> wr addr index (push_bit 4 x + of_nat v);
            mac_loop cs index addr }
        | None \<Rightarrow>
            if c = CHR '':'' then do { addr \<leftarrow> wr addr (Suc index) 0; mac_loop cs (Suc index) addr }
            else Some (False, addr))"

definition macstring_parser :: "string \<Rightarrow> image \<Rightarrow> (bool \<times> image) option" where
  "macstring_parser macstr addr =
     (let len = length macstr mod 256 in
      if 17 < len then Some (False, addr)
      else do { addr \<leftarrow> wr addr 0 0; mac_loop (take len macstr) 0 addr })"

section \<open>Programming pages\<close>

text \<open>The effect of programming \<open>d\<close> at \<open>a\<close> into flash memory.\<close>

definition burn :: "nat \<Rightarrow> image \<Rightarrow> image \<Rightarrow> image" where
  "burn a d m = take a m @ map2 (AND) (drop a m) d @ drop (a + length d) m"

lemma burn_length [simp]: "a + length d \<le> length m \<Longrightarrow> length (burn a d m) = length m"
  by (simp add: burn_def)

lemma burn_nth:
  "a + length d \<le> length m \<Longrightarrow> i < length m \<Longrightarrow>
   burn a d m ! i = (if a \<le> i \<and> i < a + length d then m ! i AND d ! (i - a) else m ! i)"
  by (simp add: burn_def nth_append min_def) linarith

lemma burn_burn:
  assumes "a + length d + length d' \<le> length m"
  shows "burn (a + length d) d' (burn a d m) = burn a (d @ d') m"
  using assms by (intro nth_equalityI) (auto simp: burn_nth nth_append)

lemma burn_Nil [simp]: "a \<le> length m \<Longrightarrow> burn a [] m = m"
  by (simp add: burn_def)

lemma flash_program: "nor_flash e \<Longrightarrow> a + length d \<le> length m \<Longrightarrow> program e a d m = burn a d m"
  by (simp add: nor_flash_def burn_def)

lemma flash_erase:
  "nor_flash e \<Longrightarrow> 4096 dvd a \<Longrightarrow> a + 4096 \<le> length m \<Longrightarrow>
   erase e a m = take a m @ replicate 4096 0xff @ drop (a + 4096) m"
  by (simp add: nor_flash_def)

text \<open>The loop programs the first \<open>n\<close> pages of the buffer.\<close>

lemma program_pages_eq:
  assumes "nor_flash e" "i + 256 * n \<le> length buf" "ptr + i + 256 * n \<le> length fl"
  shows "program_pages e ptr buf i n fl = Some (burn (ptr + i) (take (256 * n) (drop i buf)) fl)"
  using assms
proof (induction n arbitrary: i fl)
  case (Suc n)
  let ?p = "take 256 (drop i buf)"
  have l: "length ?p = 256" using Suc.prems by simp
  have p: "program e (ptr + i) ?p fl = burn (ptr + i) ?p fl"
    using Suc.prems l by (intro flash_program) auto
  have "program_pages e ptr buf (i + 256) n (burn (ptr + i) ?p fl) =
      Some (burn (ptr + (i + 256)) (take (256 * n) (drop (i + 256) buf)) (burn (ptr + i) ?p fl))"
    using Suc.prems l by (intro Suc.IH) auto
  also have "burn (ptr + (i + 256)) (take (256 * n) (drop (i + 256) buf)) (burn (ptr + i) ?p fl) =
      burn (ptr + i) (?p @ take (256 * n) (drop (i + 256) buf)) fl"
    using burn_burn [of "ptr + i" ?p "take (256 * n) (drop (i + 256) buf)" fl] Suc.prems l by (simp add: add.assoc)
  also have "?p @ take (256 * n) (drop (i + 256) buf) = take (256 * Suc n) (drop i buf)"
    by (simp add: take_add [of 256 "256 * n"] add.commute)
  finally show ?case using Suc.prems l by (simp add: read_bytes_def FLASH_PAGE_SIZE_def p)
qed simp

lemma and_ones: "0xff AND x = x" for x :: u8
proof -
  have "(0xff :: u8) = mask 8" by (simp add: mask_eq_exp_minus_1)
  moreover have "x AND mask 8 = x" unfolding take_bit_eq_mask [symmetric] by (rule take_bit_word_eq_self) simp
  ultimately show ?thesis by (metis and.commute)
qed

text \<open>An erased sector takes what is programmed.\<close>

lemma burn_erased:
  assumes "a + 4096 \<le> length m" "4096 \<le> length d" "a + length d \<le> length m"
  shows "burn a d (take a m @ replicate 4096 0xff @ drop (a + 4096) m) =
    take a m @ take 4096 d @ map2 (AND) (drop (a + 4096) m) (drop 4096 d) @ drop (a + length d) m"
  using assms by (intro nth_equalityI) (auto simp: burn_nth nth_append min_def and_ones)

section \<open>What a write leaves in flash\<close>

lemma and_same: "map2 (AND) xs (take n xs) = take n xs" for xs :: image
  by (induction xs arbitrary: n) (auto simp: take_Cons split: nat.splits)

lemmas flash_sizes = FLASH_SECTOR_SIZE_def FLASH_PAGE_SIZE_def RW_BLOCK_SIZE_def RW_TOTAL_SIZE_def

text \<open>The parameters of the lemmas: flash memory, memory for every request, an aligned area in it.\<close>

definition user_flash :: "flash_env \<Rightarrow> nat \<Rightarrow> image \<Rightarrow> bool" where
  "user_flash e base fl \<longleftrightarrow> nor_flash e \<and> heap_ok e \<and> 4096 dvd base \<and> base + 8192 \<le> length fl"

lemma heap_someE: "heap_ok e \<Longrightarrow> (\<And>b. heap e n = Some b \<Longrightarrow> length b = n \<Longrightarrow> P) \<Longrightarrow> P"
  unfolding heap_ok_def by blast

lemma write_user_eq:
  assumes "user_flash e base fl" "len \<le> 8192" "len \<le> length data"
  shows "cfg_user_write_cfg e base data len fl = Some
    (let new = take len data @ take (8192 - len) (drop (base + len) fl) in
     take base fl @ take 4096 new @ map2 (AND) (drop (base + 4096) fl) (drop 4096 new) @ drop (base + 8192) fl)"
proof -
  note u = assms(1) [unfolded user_flash_def]
  obtain b where b: "heap e 8192 = Some b" "length b = 8192" using u by (blast elim: heap_someE)
  define new where "new = take len data @ take (8192 - len) (drop (base + len) fl)"
  have k: "8192 - len \<le> length fl - (base + len)" using u by linarith
  then have m: "min (length fl - (base + len)) (8192 - len) = 8192 - len" by (rule min_absorb2)
  have l: "length new = 8192" using assms(2,3) by (simp add: new_def m)
  have w: "blit b 0 (take len data) = Some (take len data @ drop len b)"
    "blit (take len data @ drop len b) len (take (8192 - len) (drop (base + len) fl)) = Some new"
    using assms(2,3) b(2) by (simp_all add: blit_def new_def m)
  have fl: "length (erase e base fl) = length fl" using u by (simp add: flash_erase)
  have "program_pages e base new 0 32 (erase e base fl) = Some (burn base new (erase e base fl))"
    using program_pages_eq [of e 0 32 new base "erase e base fl"] u l fl by simp
  also have "burn base new (erase e base fl) =
      take base fl @ take 4096 new @ map2 (AND) (drop (base + 4096) fl) (drop 4096 new) @ drop (base + 8192) fl"
    using u l burn_erased [of base fl new] by (simp add: flash_erase)
  finally show ?thesis
    using assms(2,3) b(1) w k by (simp add: cfg_user_write_cfg_def read_bytes_def area_def flash_sizes Let_def add.commute
      flip: new_def)
qed

lemma area_split:
  assumes "len \<le> n"
  shows "take len data @ drop (base + len) fl =
    (take len data @ take (n - len) (drop (base + len) fl)) @ drop (base + n) fl"
proof -
  have "drop (base + n) fl = drop (n - len) (drop (base + len) fl)" using assms by (simp add: add.commute)
  then show ?thesis by (metis append_assoc append_take_drop_id)
qed

text \<open>A write of at most one sector replaces its bytes and nothing else.\<close>

lemma write_user_small:
  assumes "user_flash e base fl" "len \<le> 4096" "len \<le> length data"
  shows "cfg_user_write_cfg e base data len fl = Some (take base fl @ take len data @ drop (base + len) fl)"
proof -
  define new where "new = take len data @ take (8192 - len) (drop (base + len) fl)"
  have d: "drop 4096 new = take 4096 (drop (base + 4096) fl)"
    using assms by (simp add: new_def drop_take add.commute)
  then have "take 4096 new @ map2 (AND) (drop (base + 4096) fl) (drop 4096 new) @ drop (base + 8192) fl =
      new @ drop (base + 8192) fl"
    unfolding d and_same by (simp flip: d)
  also have "\<dots> = take len data @ drop (base + len) fl"
    using area_split [of len 8192 data base fl] assms(2) by (simp add: new_def)
  finally show ?thesis
    using write_user_eq [OF assms(1) _ assms(3)] assms(2) by (simp add: Let_def flip: new_def)
qed

lemma read_user_eq:
  assumes "heap_ok e" "len \<le> 8192" "base + len \<le> length fl"
  shows "cfg_user_read_cfg e base len fl = Some (take len (drop base fl))"
proof -
  obtain b where "heap e 8192 = Some b" "length b = 8192" using assms(1) by (blast elim: heap_someE)
  then show ?thesis using assms(2,3)
    by (simp add: cfg_user_read_cfg_def read_bytes_def area_def flash_sizes blit_def)
qed

lemma write_sa_eq:
  assumes "user_flash e base fl" "len \<le> 4096" "len \<le> length cfg"
  shows "cfg_sa_write_cfg e base cfg len fl = Some (take base fl @ take len cfg @ drop (base + len) fl)"
proof -
  note u = assms(1) [unfolded user_flash_def]
  obtain b where b: "heap e 4096 = Some b" "length b = 4096" using u by (blast elim: heap_someE)
  define new where "new = take len cfg @ take (4096 - len) (drop (base + len) fl)"
  have k: "4096 - len \<le> length fl - (base + len)" using u by linarith
  then have m: "min (length fl - (base + len)) (4096 - len) = 4096 - len" by (rule min_absorb2)
  have l: "length new = 4096" using assms(2,3) by (simp add: new_def m)
  have w: "blit b 0 (take len cfg) = Some (take len cfg @ drop len b)"
    "blit (take len cfg @ drop len b) len (take (4096 - len) (drop (base + len) fl)) = Some new"
    using assms(2,3) b(2) by (simp_all add: blit_def new_def m)
  have fl: "length (erase e base fl) = length fl" using u by (simp add: flash_erase)
  have "program_pages e base new 0 16 (erase e base fl) = Some (burn base new (erase e base fl))"
    using program_pages_eq [of e 0 16 new base "erase e base fl"] u l fl by simp
  also have "burn base new (erase e base fl) = take base fl @ new @ drop (base + 4096) fl"
    using u l burn_erased [of base fl new] by (simp add: flash_erase)
  also have "\<dots> = take base fl @ take len cfg @ drop (base + len) fl"
    using area_split [of len 4096 cfg base fl] assms(2) by (simp add: new_def)
  finally show ?thesis
    using assms(2,3) b(1) w k by (simp add: cfg_sa_write_cfg_def read_bytes_def area_def flash_sizes Let_def add.commute
      flip: new_def)
qed

text \<open>The text printed for the MAC configuration is read past its end unless it is a sector long.\<close>

lemma program_pages_short:
  "0 < n \<Longrightarrow> length buf < i + 256 * n \<Longrightarrow> program_pages e ptr buf i n fl = None"
proof (induction n arbitrary: i fl)
  case (Suc n)
  then show ?case using Suc.IH [of "i + 256"] by (cases "n = 0") (auto simp: read_bytes_def FLASH_PAGE_SIZE_def split: bind_splits)
qed simp

section \<open>The blocks of the user area\<close>

text \<open>Data larger than a sector is programmed over what the second sector holds.\<close>

lemma write_user_large:
  assumes "user_flash e base fl" "4096 < length data" "length data \<le> 8192"
  shows "\<exists>fl'. cfg_user_write_cfg e base data (length data) fl = Some fl' \<and> length fl' = length fl \<and>
    take (length data) (drop base fl') = take 4096 data @ map2 (AND) (drop (base + 4096) fl) (drop 4096 data)"
proof -
  define new where "new = data @ take (8192 - length data) (drop (base + length data) fl)"
  let ?fl = "take base fl @ take 4096 new @ map2 (AND) (drop (base + 4096) fl) (drop 4096 new) @ drop (base + 8192) fl"
  have l: "base + 8192 \<le> length fl" using assms(1) by (simp add: user_flash_def)
  have "min (length fl - (base + length data)) (8192 - length data) = 8192 - length data"
    by (rule min_absorb2) (use l in linarith)
  then have n: "length new = 8192" using assms(3) by (simp add: new_def)
  have "min (length fl - (base + 4096)) 4096 = 4096" by (rule min_absorb2) (use l in linarith)
  then have "length ?fl = length fl" using n l by simp
  moreover have "take (length data) (drop base ?fl) = take 4096 data @ map2 (AND) (drop (base + 4096) fl) (drop 4096 data)"
  proof -
    have t: "take 4096 new = take 4096 data" using assms(2) by (simp add: new_def)
    let ?X = "drop (base + 4096) fl" and ?k = "length data - 4096"
    have "take (length data) (drop base ?fl) = take 4096 new @ take ?k (map2 (AND) ?X (drop 4096 new))"
      using n l assms(2,3) by simp
    also have "take ?k (map2 (AND) ?X (drop 4096 new)) = take ?k (map2 (AND) ?X (drop 4096 data))"
      using assms(2) by (simp add: take_map take_zip new_def)
    also have "\<dots> = map2 (AND) ?X (drop 4096 data)" by simp
    finally show ?thesis by (simp only: t)
  qed
  moreover have "cfg_user_write_cfg e base data (length data) fl = Some ?fl"
    using write_user_eq [OF assms(1,3)] assms(2) by (simp add: Let_def new_def)
  ultimately show ?thesis by blast
qed

lemma bit_SET_CFG: "bit (SET_CFG f b) j \<longleftrightarrow> bit f j \<or> j = unat b \<and> unat b < 8"
  by (auto simp: SET_CFG_def bit_or_iff bit_exp_iff)

lemma CHECK_CFG_OK_bits: "CHECK_CFG_OK f \<longleftrightarrow> (\<forall>j < 4. bit f j)"
proof -
  have m: "(0x0f :: u8) = mask 4" by (simp add: mask_eq_exp_minus_1)
  show ?thesis unfolding CHECK_CFG_OK_def m by (auto simp: bit_eq_iff bit_and_iff bit_mask_iff, drule_tac x = j in spec, simp)
qed

text \<open>The buffer and the bits in \<open>user_cfg_flag\<close> are the blocks received so far.\<close>

definition block :: "nat \<Rightarrow> image \<Rightarrow> image" where
  "block i b = take 512 (drop (512 * i) b)"

definition user_inv :: "flash_env \<Rightarrow> nat \<Rightarrow> user_st \<Rightarrow> bool" where
  "user_inv e base s \<longleftrightarrow> user_flash e base (flash_mem s) \<and> (\<forall>j. bit (user_cfg_flag s) j \<longrightarrow> j < 4) \<and>
     \<not> CHECK_CFG_OK (user_cfg_flag s) \<and>
     (user_cfg_flag s \<noteq> 0 \<longrightarrow> (\<exists>b. user_cfg_buf s = Some b \<and> length b = 2048))"

definition user_blocks :: "user_st \<Rightarrow> nat \<rightharpoonup> image" where
  "user_blocks s i = (if bit (user_cfg_flag s) i then Some (block i (the (user_cfg_buf s))) else None)"

definition user_data :: "nat \<Rightarrow> user_st \<Rightarrow> image" where
  "user_data base s = take 2048 (drop base (flash_mem s))"

text \<open>The abstract machine: blocks are collected until all four are there, and then become the data.\<close>

definition put_block :: "nat \<Rightarrow> image \<Rightarrow> (nat \<rightharpoonup> image) \<times> image \<Rightarrow> (nat \<rightharpoonup> image) \<times> image" where
  "put_block i b md = (let m = (fst md)(i \<mapsto> b) in
     if {0, 1, 2, 3} \<subseteq> dom m then (Map.empty, concat (map (\<lambda>j. the (m j)) [0, 1, 2, 3])) else (m, snd md))"

lemma block_splice:
  assumes "length b = 2048" "length src = 512" "i < 4" "j < 4"
  shows "block j (take (512 * i) b @ src @ drop (512 * i + 512) b) = (if j = i then src else block j b)"
proof -
  have "i \<in> {0, 1, 2, 3}" "j \<in> {0, 1, 2, 3}" using assms(3,4) by auto
  then show ?thesis using assms(1,2) by (auto simp: block_def drop_take)
qed

lemma blocks_concat:
  assumes "length b = 2048"
  shows "concat (map (\<lambda>j. block j b) [0, 1, 2, 3]) = b"
proof -
  have "b = take 512 b @ take 512 (drop 512 b) @ take 512 (drop 512 (drop 512 b)) @ drop 512 (drop 512 (drop 512 b))"
    by (simp only: append_take_drop_id)
  then show ?thesis using assms by (simp add: block_def)
qed

lemma commit_blocks_eq:
  assumes "user_flash e base (flash_mem s)" "user_cfg_buf s = Some b" "length b = 2048"
  shows "\<exists>out. commit_blocks e base s = Some (ERROR_SUCCESS, s\<lparr>flash_mem := take base (flash_mem s) @ b @ drop (base + 2048) (flash_mem s),
    user_cfg_flag := 0, user_cfg_buf := None, user_out := out\<rparr>)"
proof -
  let ?fl = "take base (flash_mem s) @ b @ drop (base + 2048) (flash_mem s)"
  have u: "heap_ok e" "base + 8192 \<le> length (flash_mem s)" using assms(1) by (simp_all add: user_flash_def)
  have w: "cfg_user_write_cfg e base b 2048 (flash_mem s) = Some ?fl"
    using write_user_small [OF assms(1), of 2048 b] assms(3) by simp
  have "cfg_user_read_cfg e base 2048 ?fl = Some (take 2048 (drop base ?fl))"
    using u assms(3) by (intro read_user_eq) auto
  then have r: "cfg_user_read_cfg e base 2048 ?fl = Some b" using u assms(3) by simp
  show ?thesis using assms(2,3) w r
    by (intro exI [of _ "user_out (say [Lit ''Write Flash and check crc OK '', dec16 (crc e b), line ''''] s)"]) (simp add: commit_blocks_def read_bytes_def flash_sizes Let_def say_def)
qed

text \<open>The blocks collected after one more has been put in its place.\<close>

lemma blocks_after:
  assumes "user_inv e base s" "unat i < 4" "512 \<le> length w" "length b = 2048"
    and "user_cfg_flag s \<noteq> 0 \<longrightarrow> user_cfg_buf s = Some b"
    and nb: "nb = take (512 * unat i) b @ take 512 w @ drop (512 * unat i + 512) b"
  shows "((user_blocks s)(unat i \<mapsto> take 512 w)) j = (if bit (SET_CFG (user_cfg_flag s) i) j then Some (block j nb) else None)"
proof (cases "j < 4")
  case True
  have "bit (user_cfg_flag s) j \<Longrightarrow> user_cfg_flag s \<noteq> 0 \<and> user_cfg_buf s = Some b"
    using assms(5) by (cases "user_cfg_flag s = 0") auto
  with block_splice [OF assms(4) _ assms(2) True, of "take 512 w", folded nb] assms(2,3) show ?thesis
    by (auto simp: user_blocks_def bit_SET_CFG)
next
  case False
  with assms(1,2) show ?thesis by (auto simp: user_inv_def user_blocks_def bit_SET_CFG)
qed

text \<open>A block that arrives at the handler.\<close>

lemma write_block_eq:
  assumes "user_inv e base s" "unat i < 4" "512 \<le> length w"
  shows "\<exists>s'. write_block e base i w s = Some (ERROR_SUCCESS, s') \<and> user_inv e base s' \<and>
    (user_blocks s', user_data base s') = put_block (unat i) (take 512 w) (user_blocks s, user_data base s) \<and>
    (\<exists>d. length d = 2048 \<and> flash_mem s' = take base (flash_mem s) @ d @ drop (base + 2048) (flash_mem s))"
proof -
  note v = assms(1) [unfolded user_inv_def]
  have u: "heap_ok e" "base + 8192 \<le> length (flash_mem s)" using v by (simp_all add: user_flash_def)
  obtain b where b: "(if user_cfg_flag s = 0 then heap e 2048 else user_cfg_buf s) = Some b" "length b = 2048"
    using v u(1) by (cases "user_cfg_flag s = 0") (auto elim: heap_someE)
  define nb where "nb = take (512 * unat i) b @ take 512 w @ drop (512 * unat i + 512) b"
  let ?s = "s\<lparr>user_cfg_flag := SET_CFG (user_cfg_flag s) i, user_cfg_buf := Some nb\<rparr>"
  have bl: "length nb = 2048" using b(2) assms(2,3) by (simp add: nb_def)
  have "blit b (512 * unat i) (take 512 w) = Some nb" using b(2) assms(2,3) by (simp add: blit_def nb_def)
  then have run: "write_block e base i w s =
      (if CHECK_CFG_OK (SET_CFG (user_cfg_flag s) i) then commit_blocks e base ?s else Some (ERROR_SUCCESS, ?s))"
    using b assms(3) by (auto simp: write_block_def Let_def read_bytes_def flash_sizes)
  define m where "m = (user_blocks s)(unat i \<mapsto> take 512 w)"
  have m: "m j = (if bit (SET_CFG (user_cfg_flag s) i) j then Some (block j nb) else None)" for j
    unfolding m_def by (rule blocks_after [OF assms b(2) _ nb_def]) (use b(1) in auto)
  have full: "CHECK_CFG_OK (SET_CFG (user_cfg_flag s) i) \<longleftrightarrow> {0, 1, 2, 3} \<subseteq> dom m"
    by (auto simp: CHECK_CFG_OK_bits m dom_def numeral_eq_Suc less_Suc_eq)
  show ?thesis
  proof (cases "CHECK_CFG_OK (SET_CFG (user_cfg_flag s) i)")
    case True
    then have c: "concat (map (\<lambda>j. the (m j)) [0, 1, 2, 3]) = nb"
      using blocks_concat [OF bl] by (simp add: m CHECK_CFG_OK_bits)
    obtain out where o: "commit_blocks e base ?s = Some (ERROR_SUCCESS, ?s\<lparr>flash_mem :=
        take base (flash_mem s) @ nb @ drop (base + 2048) (flash_mem s), user_cfg_flag := 0, user_cfg_buf := None, user_out := out\<rparr>)"
      (is "_ = Some (_, ?s')") using commit_blocks_eq [of e base ?s nb] v bl by auto
    have "user_inv e base ?s'" using v u bl by (simp add: user_inv_def user_flash_def CHECK_CFG_OK_def)
    moreover have "(user_blocks ?s', user_data base ?s') = (Map.empty, nb)"
      using u bl by (auto simp: user_blocks_def user_data_def)
    moreover have "put_block (unat i) (take 512 w) (user_blocks s, user_data base s) = (Map.empty, nb)"
      using True full c unfolding put_block_def Let_def fst_conv m_def [symmetric] by simp
    ultimately show ?thesis using run True o bl by (intro exI [of _ ?s']) auto
  next
    case False
    have "user_inv e base ?s" using v bl False assms(2) by (auto simp: user_inv_def bit_SET_CFG)
    moreover have "put_block (unat i) (take 512 w) (user_blocks s, user_data base s) = (m, user_data base s)"
      using False unfolding full put_block_def Let_def fst_conv snd_conv m_def [symmetric] by (simp only: if_False)
    moreover have "user_blocks ?s = m" by (rule ext) (simp add: user_blocks_def m)
    moreover have "take base (flash_mem s) @ take 2048 (drop base (flash_mem s)) @ drop (base + 2048) (flash_mem s) = flash_mem s"
      by (metis append_take_drop_id drop_drop add.commute)
    ultimately show ?thesis using run False u
      by (intro exI [of _ ?s]) (auto simp: user_data_def intro!: exI [of _ "take 2048 (drop base (flash_mem s))"])
  qed
qed

section \<open>Properties\<close>

text \<open>A flash driver for the examples: it does to memory what flash memory does.\<close>

definition sample_flash :: flash_env where
  "sample_flash = \<lparr>erase = (\<lambda>a m. take a m @ replicate 4096 0xff @ drop (a + 4096) m), program = burn,
     heap = (\<lambda>n. Some (replicate n 0)), crc = (\<lambda>b. fold (\<lambda>v s. s + ucast v) b 0)\<rparr>"

lemma sample_user_flash: "4096 dvd base \<Longrightarrow> base + 8192 \<le> length fl \<Longrightarrow> user_flash sample_flash base fl"
  by (simp add: user_flash_def nor_flash_def heap_ok_def sample_flash_def burn_def)

text \<open>
  C8: Every block that the command accepts is one step of a machine that collects blocks by number and, when all four
  are there, in whatever order and however often they came, makes them the user data; nothing else in flash changes.
\<close>

theorem user_blocks_refine:
  assumes "user_inv e base s" "int8 off \<le> 3" "length t = 512"
  shows "\<exists>s'. At_User_Flsh e base junk [CHR ''w'' # r, off, t] s = Some (ERROR_SUCCESS, s') \<and> user_inv e base s' \<and>
    (user_blocks s', user_data base s') = put_block (unat (int8 off)) (text_bytes t) (user_blocks s, user_data base s) \<and>
    take base (flash_mem s') = take base (flash_mem s) \<and> drop (base + 2048) (flash_mem s') = drop (base + 2048) (flash_mem s)"
proof -
  have i: "unat (int8 off) < 4" "\<not> 3 < int8 off" using assms(2) by (simp add: word_le_nat_alt) (use assms(2) in \<open>simp add: linorder_not_less\<close>)
  let ?s = "say [Lit [LF]] s" and ?w = "text_bytes t @ [0]"
  have s: "user_inv e base ?s" "user_blocks ?s = user_blocks s" "user_data base ?s = user_data base s" "flash_mem ?s = flash_mem s"
    using assms(1) by (auto simp: user_inv_def say_def user_blocks_def user_data_def)
  have w: "512 \<le> length ?w" "take 512 ?w = text_bytes t" using assms(3) by (simp_all add: text_bytes_def)
  have "At_User_Flsh e base junk [CHR ''w'' # r, off, t] s = write_block e base (int8 off) ?w ?s"
    using i(2) assms(3) by (simp add: At_User_Flsh_def do_At_User_Flsh_def RW_BLOCK_SIZE_def rd_def Let_def)
  moreover have "base + 2048 \<le> length (flash_mem s)" using assms(1) by (simp add: user_inv_def user_flash_def)
  ultimately show ?thesis using write_block_eq [OF s(1) i(1) w(1)] unfolding s(2-4) w(2) by force
qed

lemma user_blocks_refine_witness:
  "\<exists>s'. At_User_Flsh sample_flash 0 0 [''w'', ''2'', replicate 512 CHR ''a''] \<lparr>flash_mem = replicate 8192 0, user_cfg_flag = 0,
      user_cfg_buf = None, user_out = []\<rparr> = Some (ERROR_SUCCESS, s') \<and> user_blocks s' 2 = Some (replicate 512 97)"
proof -
  let ?s = "\<lparr>flash_mem = replicate 8192 0, user_cfg_flag = 0, user_cfg_buf = None, user_out = []\<rparr> :: user_st"
  have i: "user_inv sample_flash 0 ?s" by (simp add: user_inv_def sample_user_flash CHECK_CFG_OK_def)
  have two: "int8 ''2'' = 2" by code_simp
  have b: "user_blocks ?s = Map.empty" by (rule ext) (simp add: user_blocks_def)
  from user_blocks_refine [OF i, of "''2''" "replicate 512 CHR ''a''" 0 "[]"] show ?thesis
    unfolding two b by (auto simp: put_block_def text_bytes_def dom_def split: if_splits)
qed

text \<open>
  C24: Data of at most one sector that is written to the user area is read back, and nothing else in flash
  changes although the sector is erased.
\<close>

theorem user_data_reads_back:
  assumes "user_flash e base fl" "length data \<le> 4096"
  shows "\<exists>fl'. cfg_user_write_cfg e base data (length data) fl = Some fl' \<and>
    cfg_user_read_cfg e base (length data) fl' = Some data \<and>
    take base fl' = take base fl \<and> drop (base + length data) fl' = drop (base + length data) fl"
proof -
  have u: "heap_ok e" "base + 8192 \<le> length fl" using assms(1) by (simp_all add: user_flash_def)
  let ?fl = "take base fl @ data @ drop (base + length data) fl"
  have "cfg_user_read_cfg e base (length data) ?fl = Some (take (length data) (drop base ?fl))"
    using u assms(2) by (intro read_user_eq) auto
  then show ?thesis using write_user_small [OF assms, of data] u assms(2) by simp
qed

lemma user_data_reads_back_witness:
  "\<exists>fl'. cfg_user_write_cfg sample_flash 0 [1, 2, 3] 3 (replicate 8192 0) = Some fl' \<and>
    cfg_user_read_cfg sample_flash 0 3 fl' = Some [1, 2, 3]"
proof -
  have l: "length [1, 2, 3 :: u8] \<le> 4096" and n: "length [1, 2, 3 :: u8] = 3" by simp_all
  have "user_flash sample_flash 0 (replicate 8192 0)" by (simp add: sample_user_flash)
  from user_data_reads_back [OF this l, unfolded n] show ?thesis by blast
qed

text \<open>
  C40: Only the first of the two sectors of the user area is erased, so a longer piece of data is read back with its
  bytes beyond the first sector masked by what was there before.
\<close>

theorem second_sector_not_erased:
  assumes "user_flash e base fl" "4096 < length data" "length data \<le> 8192"
  shows "\<exists>fl'. cfg_user_write_cfg e base data (length data) fl = Some fl' \<and>
    cfg_user_read_cfg e base (length data) fl' = Some (take 4096 data @ map2 (AND) (drop (base + 4096) fl) (drop 4096 data))"
proof -
  from write_user_large [OF assms] obtain fl' where fl: "cfg_user_write_cfg e base data (length data) fl = Some fl'" "length fl' = length fl"
    "take (length data) (drop base fl') = take 4096 data @ map2 (AND) (drop (base + 4096) fl) (drop 4096 data)" by blast
  have "cfg_user_read_cfg e base (length data) fl' = Some (take (length data) (drop base fl'))"
    using assms fl(2) by (intro read_user_eq) (auto simp: user_flash_def)
  with fl show ?thesis by simp
qed

lemma second_sector_not_erased_witness:
  "\<exists>fl'. cfg_user_write_cfg sample_flash 0 (replicate 4097 0xff) 4097 (replicate 8192 0) = Some fl' \<and>
    cfg_user_read_cfg sample_flash 0 4097 fl' \<noteq> Some (replicate 4097 0xff)"
proof -
  let ?d = "replicate 4097 0xff :: image"
  have "last (replicate 4096 0xff @ [0] :: image) \<noteq> last ?d" by simp
  then have "replicate 4096 0xff @ [0] \<noteq> ?d" by metis
  moreover have "map2 (AND) (replicate 4096 0) [0xff] = [0 :: u8]"
  proof -
    have "(4096 :: nat) = Suc 4095" by simp
    then show ?thesis by (simp only: replicate_Suc zip_Cons_Cons zip_Nil list.map prod.case) simp
  qed
  ultimately show ?thesis using second_sector_not_erased [OF sample_user_flash, of 0 "replicate 8192 0" ?d]
    by auto
qed

section \<open>MAC addresses\<close>

lemma hex_digit_char: "d < 16 \<Longrightarrow> hex_digit (digit_char up d) = Some d"
  by (auto simp: digit_char_def Let_def)

text \<open>Two digits and a colon store a byte.\<close>

lemma mac_loop_byte:
  assumes "i \<le> 5" "i < length addr" "addr ! i = 0"
  shows "mac_loop (digit_char up (unat v div 16) # digit_char up (unat v mod 16) # cs) i addr = mac_loop cs i (addr[i := v])"
proof -
  have "unat v < 256" using unsigned_less [of v] by simp
  then have d: "unat v div 16 < 16" by linarith
  have "push_bit 4 (of_nat (unat v div 16)) + of_nat (unat v mod 16) = (of_nat (unat v div 16 * 16 + unat v mod 16) :: u8)"
    by (simp only: push_bit_eq_mult of_nat_add of_nat_mult) simp
  then have "push_bit 4 (of_nat (unat v div 16)) + of_nat (unat v mod 16) = v" unfolding div_mult_mod_eq by simp
  then show ?thesis using assms d by (simp add: hex_digit_char rd_def wr_def del: hex_digit.simps)
qed

lemma mac_loop_colon:
  "i \<le> 5 \<Longrightarrow> mac_loop (CHR '':'' # cs) i addr = do { addr \<leftarrow> wr addr (Suc i) 0; mac_loop cs (Suc i) addr }"
  by (simp add: Let_def)

lemma hex_byte_text:
  "piece_text (Num False True 2 (CHR ''X'') (ucast v)) = [digit_char True (unat v div 16), digit_char True (unat v mod 16)]" for v :: u8
proof -
  have "unat v < 256" using unsigned_less [of v] by simp
  then have d: "unat v div 16 < 16" by linarith
  have u: "unat (ucast v :: u32) = unat v" by (simp add: unsigned_ucast_eq take_bit_nat_eq_self \<open>unat v < 256\<close> order.strict_trans [OF \<open>unat v < 256\<close>])
  show ?thesis
  proof (cases "unat v < 16")
    case True
    have "of_char (CHR ''0'') = (48 :: nat)" by simp
    then have "CHR ''0'' = digit_char True 0" unfolding digit_char_def by (metis add_0_right char_of_char zero_less_numeral)
    with True show ?thesis
      by (simp add: num_digits_def num_neg_def conv_signed_def conv_radix_def u rev_digits.simps num_field_def Let_def)
  next
    case False
    with d show ?thesis by (simp add: num_digits_def num_neg_def conv_signed_def conv_radix_def u rev_digits.simps num_field_def Let_def)
  qed
qed

text \<open>
  The MAC address printed by a query or an efuse command is read back by the parser.
\<close>

lemma mac_text_parses:
  assumes "length b = 6" "6 \<le> length addr"
  shows "macstring_parser (concat (map piece_text (mac_pieces b))) addr = Some (True, b @ drop 6 addr)"
proof -
  obtain b0 b1 b2 b3 b4 b5 where b: "b = [b0, b1, b2, b3, b4, b5]" using assms(1) by (auto simp: length_Suc_conv eval_nat_numeral)
  obtain a0 a1 a2 a3 a4 a5 rest where a: "addr = a0 # a1 # a2 # a3 # a4 # a5 # rest"
    using assms(2) by (auto simp: Suc_le_length_iff eval_nat_numeral)
  show ?thesis
    by (simp add: b a macstring_parser_def mac_pieces_def Let_def hex_byte_text mac_loop_byte mac_loop_colon wr_def
      del: mac_loop.simps(2) piece_text.simps(3))
qed

lemma mac_text_parses_witness:
  "macstring_parser (concat (map piece_text (mac_pieces [0, 0x23, 0x45, 0x67, 0x89, 0xAB]))) (replicate 6 7) =
    Some (True, [0, 0x23, 0x45, 0x67, 0x89, 0xAB])"
  using mac_text_parses [of "[0, 0x23, 0x45, 0x67, 0x89, 0xAB]" "replicate 6 7"] by simp

text \<open>A text with six colons makes the parser write a seventh byte.\<close>

lemma mac_six_colons: "length addr = 6 \<Longrightarrow> macstring_parser ''::::::'' addr = None"
  by (simp add: macstring_parser_def wr_def Let_def)

text \<open>The text of a MAC configuration is shorter than a sector; the write reads past its end.\<close>

lemma wifi_cfg_overread: "length buf < 4096 \<Longrightarrow> wifi_cfg_write_cfg e base buf fl = None"
  by (simp add: wifi_cfg_write_cfg_def flash_sizes program_pages_short)

end
