(* ===== verification/Spec2Isabelle.thy ===== *)
theory Spec2Isabelle
  imports CliEdit Printf KeyLed Dhcpd DhcpdTask DomainCodec SocketRuns AtNetProps AtShow FlashCfg
begin

text \<open>
  A verification of firmware components of the SV6x66 SDK: the AT command console with its command
  handlers, its output functions, its TCP/IP commands, the configuration areas in flash, the DHCP
  server of the access point, and the switch application built on them. Paths are relative to
  \<open>src/\<close>.

  THE PROGRAM. The firmware runs tasks on FreeRTOS. Bytes from the UART go through an interrupt
  handler into a ring; the console task edits a line with them and hands a complete line to the
  AT command interpreter, which splits it and calls a handler from a table. Handlers print with
  the firmware's own \<open>printf\<close>, call the radio, Wi-Fi and GPIO drivers, and keep a calibration table
  and user data in flash; those of the TCP/IP commands keep two tables of sockets that a
  receive task works through. The DHCP server is a task of its own that other tasks start and
  stop through a queue; it answers the stations of the access point from a table of leases. The
  switch application (m166) drives a relay and LEDs from a key and from Wi-Fi and cloud events.
  The driver, the IP stack and the kernel are binary or third-party code.

  THEORIES AND SOURCES.
  \<^item> \<open>Prelude\<close>: widths of the C integers, buffers, memory accesses (\<open>None\<close> is an access the C
    standard leaves undefined), C strings, lemmas on lists and words. \<open>Fifo\<close>: the interface of a
    queue as a locale, and its lemmas on schedules. \<open>CLib\<close>: \<open>atoi\<close>, \<open>strtoul\<close>, \<open>strtok\<close> and the
    narrowing of their results.
  \<^item> \<open>CliRx\<close> (\<open>projects/mac_atcmd/src/cli/cli.c\<close>, \<open>uart_rx_isr\<close>, \<open>uart_read\<close>): the receive ring, its
    virtual indices and flow control. The locale of \<open>Fifo\<close> is interpreted on it.
  \<^item> \<open>AtCmd\<close> (\<open>cli/atcmd.c\<close>): argument splitting, the command table with its build options, the
    dispatcher \<open>At_Parser\<close>. A handler is a parameter: a function of the arguments and of a world.
  \<^item> \<open>CliEdit\<close> (\<open>cli/cli.c\<close>, \<open>Cli_Start\<close>, \<open>Cli_Task\<close>): the line editor on top of ring and dispatcher,
    and an abstract editor that it refines.
  \<^item> \<open>Printf\<close> (\<open>src/libc_patch.c\<close>): \<open>vsnprintf\<close> and \<open>printf\<close> with every flag, width, precision and
    conversion except \<open>%f\<close>, and a reference rendering.
  \<^item> The handlers of \<open>cli/atcmd.c\<close>. \<open>AtEnv\<close>: the state they share (calibration table, scan list,
    flags, console text) with a log of library calls, whose answers are a parameter that may depend
    on the whole log. \<open>AtRf\<close>: radio commands and calibration table (\<open>components/drv/rf/rf_api.h\<close>).
    \<open>AtIo\<close>: pins, PWM, watchdog, rates, MIB. \<open>AtWifi\<close>: station, access point, interface, efuse and
    update. \<open>AtShow\<close>: the reports. \<open>AtRows\<close>: the locale of a table row that can be queried and set,
    interpreted on nine commands. \<open>AtConsole\<close> puts the handlers behind the dispatcher; \<open>AtRuns\<close>
    follows typed lines and runs; \<open>AtSpec\<close> has an abstract machine and a signature for each handler;
    \<open>AtProps\<close> and \<open>AtNetProps\<close> hold the properties.
  \<^item> \<open>FlashCfg\<close> (\<open>src/cfg/user_cfg.c\<close>, \<open>sa_cfg.c\<close>, \<open>mac_cfg.c\<close>, \<open>At_User_Flsh\<close>): the configuration areas,
    written by sectors and pages, and the command that collects user data in four blocks.
  \<^item> \<open>KeyLed\<close> (\<open>wtwd-m/m166/projects/mac_atcmd/src/app/key_led.c\<close>): timers, callbacks and events of
    the switch application as a state machine; outputs are logged actions.
  \<^item> \<open>DhcpOptions\<close> (\<open>components/net/udhcp/common.c\<close>, \<open>packet.c\<close>): option search and construction.
    \<open>DhcpLeases\<close> (\<open>leases.c\<close>, \<open>static_leases.c\<close>, \<open>arpping.c\<close>): the lease table, with a locale for what
    the server needs of it. \<open>DhcpConfig\<close> (\<open>files.c\<close>, set-up in \<open>dhcpd.c\<close>). \<open>Dhcpd\<close> (\<open>dhcpd.c\<close>):
    the answers to each message type and the server loop over received packets. \<open>DhcpdTask\<close>
    (\<open>dhcpd.c\<close>): the server task and the calls that initialise, start, stop and end it, interleaved
    at each poll and queue operation. \<open>DomainCodec\<close> (\<open>domain_codec.c\<close>): compressed domain names.
  \<^item> \<open>SocketList\<close> (\<open>cli/atcmd_tcpip.c\<close>, lines 1 to 254): the circular doubly linked socket tables on
    a heap of pointers, with their refinement to lists of entries. \<open>Sockets\<close>: the passes of
    \<open>recv_task\<close>, the commands and the transition system of both tasks. \<open>SocketRuns\<close>: its invariant
    (through a locale that both tables interpret) and the properties.

  HOW STATE IS MODELLED. Structures are records with the fields of the code, machine integers
  words of their width, texts character lists with explicit terminators, pointers either offsets
  into an object or, in \<open>SocketList\<close>, addresses with an allocation map. A function that can go
  wrong returns an option; a theorem that it returns \<open>Some\<close> excludes invalid accesses. Loops are
  recursive functions with a termination proof or, where the code could loop for ever on a
  damaged list, partial functions whose result \<open>None\<close> also stands for not returning; no fuel is
  used. The waiting loops of \<open>DhcpdTask\<close> carry the counters of the code. What the C code takes from
  libraries, the clock or the network is an argument or a field of an environment record, with
  hypotheses only where the property needs them (descriptors that \<open>socket\<close> returns are not in
  use, \<open>malloc\<close> returns free blocks).

  WHAT IS SHOWN. Console: no byte is lost or reordered between UART and editor under any
  schedule, the editor refines its specification, a typed line runs its handler with the typed
  arguments, and the dispatcher stays inside its buffers. Output: \<open>vsnprintf\<close> renders every
  format of the reference. Handlers: a sequence of commands runs without invalid access exactly
  if the arguments fit the signatures, every command is a step of an abstract machine over table,
  flash and efuse, so that table and flash agree and the efuse is written once per enabling; the
  printed row of a table is a command that restores it. Flash: the blocks of the user data command
  refine a machine that collects them by number, and data up to a sector reads back. Socket
  commands: every run of commands and task
  wake-ups is free of invalid pointer accesses and keeps both tables intact; the pointer
  operations refine list operations; a disconnect that meets the waiting task closes the socket;
  a command waiting for the task returns. DHCP: option search is correct for well-formed
  packets, built packets read back, no two clients share an address, the table stays consistent
  for every sequence of packets, offers are acknowledged, other requests refused; under every
  interleaving of task and calls no freed memory or queue is used, each call returns, its result
  is true, and resources are held exactly while serving; an encoded domain name decodes, and the
  decoder ends inside its buffers on every input. Switch: relay,
  LED and stored state agree in every reachable state, configuration modes end. The theorems of
  kind error and bounds, and some lemmas, pin down defects: inputs for which the code as written
  misbehaves.

  NOT MODELLED. Of the console: the joylink and UART upgrade commands (one call of a binary
  library each), \<open>At_RfSingleTone\<close> (declared without a result and called for one), \<open>atcmd_ssl.c\<close>,
  \<open>atcmd_cfg.c\<close>, the IPv6 and uIP variants of the TCP/IP group, ping and iperf, and \<open>%f\<close>. DHCP
  client, relay and DHCPv6 are not built; \<open>domain_codec.c\<close> is modelled though only a build with
  \<open>ENABLE_FEATURE_UDHCP_RFC3397\<close> has it. Driver libraries, kernel, lwip and other third-party
  code; \<open>ssv_lib.c\<close>, which only dumps memory; boot loader; peripheral demos; the persistent store
  (\<open>al_persist.c\<close>) and the other cloud variants of the switch application. Interrupts and tasks
  interleave at the steps named in each theory, not inside them.
\<close>

end
